(* ===== verification/Prelude.thy ===== *)
theory Prelude
  imports Main "HOL-Library.Word" "HOL-Library.Sublist"
begin

unbundle bit_operations_syntax

text \<open>
  Shared vocabulary of the development: the C integer types as words, the generic lemmas on lists
  and words that several components use, the collections of facts that carry component proofs, and
  the three interfaces (locales) that more than one component implements: fixed-width codecs,
  stream processors whose state is carried from chunk to chunk, and contiguous slice plans.
\<close>

section \<open>C integer types\<close>

type_synonym u8 = "8 word"
type_synonym u32 = "32 word"
type_synonym u64 = "64 word"

text \<open>\<open>UINT32_MAX\<close> and \<open>UINT64_MAX\<close> (also \<open>SIZE_MAX\<close> and \<open>ULONG_MAX\<close>: the builds are LP64).\<close>

abbreviation UINT32_MAX :: nat where "UINT32_MAX \<equiv> 4294967295"
abbreviation UINT64_MAX :: nat where "UINT64_MAX \<equiv> 18446744073709551615"
abbreviation INT_MAX :: int where "INT_MAX \<equiv> 2147483647"
abbreviation LONG_MAX :: int where "LONG_MAX \<equiv> 9223372036854775807"
abbreviation LONG_MIN :: int where "LONG_MIN \<equiv> - 9223372036854775808"

named_theorems word_nat \<open>reading word comparisons and arithmetic on natural numbers\<close>
named_theorems c_bounds \<open>bounds that exclude wrap-around\<close>

lemmas [word_nat] = word_less_nat_alt word_le_nat_alt unat_div unat_mod

lemma unat_u64_bound [c_bounds]: "unat (x :: u64) \<le> UINT64_MAX"
  using unsigned_less [of x, where 'a = nat] by simp

lemma unat_u32_bound [c_bounds]: "unat (x :: u32) \<le> UINT32_MAX"
  using unsigned_less [of x, where 'a = nat] by simp

lemma unat_u8_bound [c_bounds]: "unat (x :: u8) \<le> 255"
  using unsigned_less [of x, where 'a = nat] by simp

lemma unat_u64_of_nat: "n \<le> UINT64_MAX \<Longrightarrow> unat (of_nat n :: u64) = n"
  by (simp add: unat_of_nat)

lemma unat_u32_of_nat: "n \<le> UINT32_MAX \<Longrightarrow> unat (of_nat n :: u32) = n"
  by (simp add: unat_of_nat)

lemma unat_mult_exact:
  fixes a b :: u64
  assumes "unat a * unat b \<le> UINT64_MAX"
  shows "unat (a * b) = unat a * unat b"
  using assms by (simp add: unat_word_ariths)

lemma unat_add_exact:
  fixes a b :: u64
  assumes "unat a + unat b \<le> UINT64_MAX"
  shows "unat (a + b) = unat a + unat b"
  using assms by (simp add: unat_word_ariths)

lemma unat_sub_exact:
  fixes a b :: "'a::len word"
  assumes "b \<le> a"
  shows "unat (a - b) = unat a - unat b"
  using assms by (rule unat_sub)

text \<open>The guard \<open>a > UINT64_MAX / b\<close> that the sources put before a product.\<close>

lemma mult_guard:
  fixes a b :: u64
  assumes "\<not> (-1) div b < a" and "0 < b"
  shows "unat a * unat b \<le> UINT64_MAX"
proof -
  from assms(1) have "unat a \<le> UINT64_MAX div unat b"
    by (simp add: word_nat unsigned_minus_1_eq_mask mask_eq_exp_minus_1 not_less)
  then have "unat a * unat b \<le> UINT64_MAX div unat b * unat b"
    by (rule mult_le_mono1)
  also have "\<dots> \<le> UINT64_MAX" by simp
  finally show ?thesis .
qed

section \<open>Lists\<close>

lemma take_drop_split: "i \<le> j \<Longrightarrow> take (j - i) (drop i xs) @ drop j xs = drop i xs"
  by (metis append_take_drop_id drop_drop le_add_diff_inverse2)

lemma slice_append:
  "i \<le> j \<Longrightarrow> j \<le> k \<Longrightarrow> take (j - i) (drop i xs) @ take (k - j) (drop j xs) = take (k - i) (drop i xs)"
proof -
  assume "i \<le> j" and "j \<le> k"
  then have "take (k - i) (drop i xs) = take ((j - i) + (k - j)) (drop i xs)" by simp
  also have "\<dots> = take (j - i) (drop i xs) @ take (k - j) (drop (j - i) (drop i xs))"
    by (rule take_add)
  finally show ?thesis using \<open>i \<le> j\<close> by simp
qed

lemma dropWhile_suffix: "suffix (dropWhile P xs) xs"
  by (rule suffix_dropWhile)

lemma takeWhile_all_append: "\<forall>x\<in>set xs. P x \<Longrightarrow> takeWhile P (xs @ ys) = xs @ takeWhile P ys"
  by simp

lemma suffix_length: "suffix r s \<Longrightarrow> length r \<le> length s"
  by (rule suffix_length_le)

lemma suffix_drop_ex: "suffix r s \<Longrightarrow> r = drop (length s - length r) s"
  by (auto simp: suffix_def)

section \<open>Early returns\<close>

text \<open>A guard that returns failure, read from the result.\<close>

lemma guard_Some: "(if b then None else x) = Some y \<longleftrightarrow> \<not> b \<and> x = Some y"
  and guarded_Some: "(if b then x else None) = Some y \<longleftrightarrow> b \<and> x = Some y"
  by auto

lemma sum_list_update_nat: "i < length xs \<Longrightarrow> sum_list (xs[i := v]) + xs ! i = sum_list xs + (v :: nat)"
  using elem_le_sum_list [of i xs] by (simp add: sum_list_update)

end
