(* ===== verification/CText.thy ===== *)
theory CText
  imports Prelude
begin

text \<open>
  The part of the C library that the sources read text with. A C string is the list of its bytes
  before the terminator, a pointer into it is the remaining suffix, and the end of the list is the
  terminating NUL. \<open>strtoul\<close> and \<open>strtol\<close> return the value, whether \<open>ERANGE\<close> was set, and the
  rest of the text (\<open>*endptr\<close>); without digits the rest is the input itself.
\<close>

section \<open>Characters\<close>

definition char_code :: "char \<Rightarrow> nat" where
  "char_code c = of_char c"

definition isdigit :: "char \<Rightarrow> bool" where
  "isdigit c \<longleftrightarrow> 48 \<le> char_code c \<and> char_code c \<le> 57"

definition isspace :: "char \<Rightarrow> bool" where
  "isspace c \<longleftrightarrow> char_code c = 32 \<or> (9 \<le> char_code c \<and> char_code c \<le> 13)"

definition isxdigit :: "char \<Rightarrow> bool" where
  "isxdigit c \<longleftrightarrow> isdigit c \<or> (65 \<le> char_code c \<and> char_code c \<le> 70) \<or>
     (97 \<le> char_code c \<and> char_code c \<le> 102)"

definition tolower :: "char \<Rightarrow> char" where
  "tolower c = (if 65 \<le> char_code c \<and> char_code c \<le> 90 then char_of (char_code c + 32) else c)"

definition digit_val :: "char \<Rightarrow> nat" where
  "digit_val c = char_code c - 48"

definition digit_char :: "nat \<Rightarrow> char" where
  "digit_char n = char_of (48 + n)"

lemma char_code_bound [c_bounds]: "char_code c < 256"
  by (simp add: char_code_def)

lemma char_code_char_of [simp]: "n < 256 \<Longrightarrow> char_code (char_of n) = n"
  by (simp add: char_code_def)

lemma isdigit_digit_char [simp]: "n < 10 \<Longrightarrow> isdigit (digit_char n)"
  by (simp add: isdigit_def digit_char_def)

lemma digit_val_digit_char [simp]: "n < 10 \<Longrightarrow> digit_val (digit_char n) = n"
  by (simp add: digit_val_def digit_char_def)

lemma digit_char_0 [simp]: "digit_char 0 = CHR ''0''"
  unfolding digit_char_def by code_simp

lemma digit_val_less: "isdigit c \<Longrightarrow> digit_val c < 10"
  by (auto simp: isdigit_def digit_val_def)

lemma isdigit_not_isspace: "isdigit c \<Longrightarrow> \<not> isspace c"
  by (auto simp: isdigit_def isspace_def)

lemma isdigit_not_sign: "isdigit c \<Longrightarrow> c \<noteq> CHR ''+'' \<and> c \<noteq> CHR ''-''"
  by (auto simp: isdigit_def char_code_def)

section \<open>Decimal numbers\<close>

definition dec_val :: "string \<Rightarrow> nat" where
  "dec_val ds = foldl (\<lambda>n c. 10 * n + digit_val c) 0 ds"

fun show_nat :: "nat \<Rightarrow> string" where
  "show_nat n = (if n < 10 then [digit_char n] else show_nat (n div 10) @ [digit_char (n mod 10)])"

declare show_nat.simps [simp del]

definition show_int :: "int \<Rightarrow> string" where
  "show_int i = (if i < 0 then CHR ''-'' # show_nat (nat (- i)) else show_nat (nat i))"

lemma dec_val_Nil [simp]: "dec_val [] = 0"
  by (simp add: dec_val_def)

lemma dec_val_snoc [simp]: "dec_val (ds @ [c]) = 10 * dec_val ds + digit_val c"
  by (simp add: dec_val_def)

lemma show_nat_digits: "\<forall>c\<in>set (show_nat n). isdigit c"
proof (induction n rule: show_nat.induct)
  case (1 n)
  then show ?case by (subst show_nat.simps) (auto split: if_splits)
qed

lemma show_nat_nonempty [simp]: "show_nat n \<noteq> []"
  by (subst show_nat.simps) simp

lemma dec_val_show_nat [simp]: "dec_val (show_nat n) = n"
proof (induction n rule: show_nat.induct)
  case (1 n)
  show ?case
  proof (cases "n < 10")
    case True
    then show ?thesis by (subst show_nat.simps) (simp add: dec_val_def)
  next
    case False
    with "1.IH" show ?thesis by (subst show_nat.simps) simp
  qed
qed

lemma dec_val_bound: "\<forall>c\<in>set ds. isdigit c \<Longrightarrow> dec_val ds < 10 ^ length ds"
proof (induction ds rule: rev_induct)
  case (snoc c ds)
  then have "dec_val ds < 10 ^ length ds" and "digit_val c < 10"
    using digit_val_less by auto
  then have "10 * dec_val ds + digit_val c < 10 * 10 ^ length ds" by linarith
  then show ?case by simp
qed simp

section \<open>strtoul and strtol\<close>

definition split_sign :: "string \<Rightarrow> bool \<times> string" where
  "split_sign t = (case t of
     [] \<Rightarrow> (False, [])
   | c # r \<Rightarrow> if c = CHR ''+'' then (False, r) else if c = CHR ''-'' then (True, r) else (False, t))"

definition strtoul :: "string \<Rightarrow> u64 \<times> bool \<times> string" where
  "strtoul s =
     (let (neg, u) = split_sign (dropWhile isspace s);
          ds = takeWhile isdigit u; rest = dropWhile isdigit u
      in if ds = [] then (0, False, s)
         else if dec_val ds > UINT64_MAX then (-1, True, rest)
         else (if neg then - of_nat (dec_val ds) else of_nat (dec_val ds), False, rest))"

definition strtol :: "string \<Rightarrow> int \<times> bool \<times> string" where
  "strtol s =
     (let (neg, u) = split_sign (dropWhile isspace s);
          ds = takeWhile isdigit u; rest = dropWhile isdigit u;
          v = (if neg then - int (dec_val ds) else int (dec_val ds))
      in if ds = [] then (0, False, s)
         else if v > LONG_MAX then (LONG_MAX, True, rest)
         else if v < LONG_MIN then (LONG_MIN, True, rest)
         else (v, False, rest))"

lemma split_sign_digits:
  "\<forall>c\<in>set ds. isdigit c \<Longrightarrow> ds \<noteq> [] \<Longrightarrow> split_sign (ds @ r) = (False, ds @ r)"
  using isdigit_not_sign by (cases ds) (auto simp: split_sign_def)

lemma digits_no_space:
  "\<forall>c\<in>set ds. isdigit c \<Longrightarrow> ds \<noteq> [] \<Longrightarrow> dropWhile isspace (ds @ r) = ds @ r"
  using isdigit_not_isspace by (cases ds) auto

lemma takeWhile_digits:
  "\<forall>c\<in>set ds. isdigit c \<Longrightarrow> r = [] \<or> \<not> isdigit (hd r) \<Longrightarrow> takeWhile isdigit (ds @ r) = ds"
  by (cases r) auto

lemma dropWhile_digits:
  "\<forall>c\<in>set ds. isdigit c \<Longrightarrow> r = [] \<or> \<not> isdigit (hd r) \<Longrightarrow> dropWhile isdigit (ds @ r) = r"
  by (cases r) auto

lemma strtoul_digits:
  assumes "\<forall>c\<in>set ds. isdigit c" and "ds \<noteq> []" and "r = [] \<or> \<not> isdigit (hd r)"
  shows "strtoul (ds @ r) =
    (if dec_val ds > UINT64_MAX then (-1, True, r) else (of_nat (dec_val ds), False, r))"
  using assms
  by (cases r) (auto simp: strtoul_def digits_no_space takeWhile_eq_all_conv [THEN iffD2] split_sign_digits Let_def
      digits_no_space [where r = "[]", simplified] split_sign_digits [where r = "[]", simplified])

lemma strtol_digits:
  assumes "\<forall>c\<in>set ds. isdigit c" and "ds \<noteq> []" and "r = [] \<or> \<not> isdigit (hd r)"
  shows "strtol (ds @ r) =
    (if int (dec_val ds) > LONG_MAX then (LONG_MAX, True, r) else (int (dec_val ds), False, r))"
  using assms
  by (cases r) (auto simp: strtol_def digits_no_space takeWhile_eq_all_conv [THEN iffD2] split_sign_digits Let_def
      digits_no_space [where r = "[]", simplified] split_sign_digits [where r = "[]", simplified])

text \<open>The rest after a number is a proper suffix: the progress every scanning loop rests on.\<close>

lemma split_sign_suffix: "split_sign t = (neg, u) \<Longrightarrow> suffix u t"
  by (auto simp: split_sign_def suffix_def split: list.splits if_splits)

lemma scan_rest_strict:
  assumes "split_sign (dropWhile isspace s) = (neg, u)" and "takeWhile isdigit u \<noteq> []"
  shows "strict_suffix (dropWhile isdigit u) s"
proof -
  have "suffix u s"
    using split_sign_suffix [OF assms(1)] suffix_dropWhile by (rule suffix_order.trans)
  moreover have "length (dropWhile isdigit u) < length u"
    using assms(2) by (metis length_greater_0_conv less_add_same_cancel2 takeWhile_dropWhile_id length_append)
  then have "strict_suffix (dropWhile isdigit u) u"
    using suffix_dropWhile by (auto simp: strict_suffix_def)
  ultimately show ?thesis by (meson suffix_order.less_le_trans)
qed

lemma strtol_progress: "strtol s = (v, e, r) \<Longrightarrow> r \<noteq> s \<Longrightarrow> strict_suffix r s"
  using scan_rest_strict [of s]
  by (cases "split_sign (dropWhile isspace s)")
     (auto simp: strtol_def Let_def split: if_splits)

lemma strtol_range: "strtol s = (v, e, r) \<Longrightarrow> LONG_MIN \<le> v \<and> v \<le> LONG_MAX"
  by (auto simp: strtol_def Let_def split: prod.splits if_splits)

section \<open>Searching\<close>

text \<open>\<open>strstr\<close> and \<open>strchr\<close> as the offset of the first match.\<close>

fun strstr :: "string \<Rightarrow> string \<Rightarrow> nat option" where
  "strstr [] needle = (if needle = [] then Some 0 else None)"
| "strstr (c # cs) needle =
     (if prefix needle (c # cs) then Some 0 else map_option Suc (strstr cs needle))"

fun strchr :: "string \<Rightarrow> char \<Rightarrow> nat option" where
  "strchr [] x = None"
| "strchr (c # cs) x = (if c = x then Some 0 else map_option Suc (strchr cs x))"

lemma strstr_Some:
  "strstr s needle = Some i \<Longrightarrow>
     i + length needle \<le> length s \<and> prefix needle (drop i s) \<and> (\<forall>j<i. \<not> prefix needle (drop j s))"
proof (induction s arbitrary: i)
  case (Cons c cs)
  show ?case
  proof (cases "prefix needle (c # cs)")
    case True
    with Cons.prems show ?thesis using prefix_length_le [OF True] by auto
  next
    case False
    with Cons.prems obtain k where k: "strstr cs needle = Some k" "i = Suc k" by auto
    have "\<forall>j<i. \<not> prefix needle (drop j (c # cs))"
    proof (intro allI impI)
      fix j assume "j < i"
      then show "\<not> prefix needle (drop j (c # cs))"
        using False Cons.IH [OF k(1)] k(2) by (cases j) auto
    qed
    then show ?thesis using Cons.IH [OF k(1)] k(2) by auto
  qed
qed (simp split: if_splits)

lemma strstr_None: "strstr s needle = None \<Longrightarrow> i \<le> length s \<Longrightarrow> \<not> prefix needle (drop i s)"
proof (induction s arbitrary: i)
  case (Cons c cs)
  then show ?case by (cases i) (auto split: if_splits)
qed (simp split: if_splits)

lemma strchr_Some: "strchr s x = Some i \<Longrightarrow> i < length s \<and> s ! i = x \<and> x \<notin> set (take i s)"
  by (induction s arbitrary: i) (auto split: if_splits)

lemma strchr_None: "strchr s x = None \<longleftrightarrow> x \<notin> set s"
  by (induction s) auto

end
