(* ===== verification/SsdCache.thy ===== *)
theory SsdCache
  imports CText
begin

text \<open>
  \<open>ds4_ssd.c\<close>: the size arguments of the SSD streaming mode, the plan that splits the
  recommended memory between resident weights and the expert cache, and the memory lock that
  simulates used memory. Sizes are 64-bit words as in the code; the lemmas show that the guards
  exclude every wrap-around. The environment variable and the results of \<open>mmap\<close>, \<open>mlock\<close> and
  \<open>sysconf\<close> are parameters; the calls made to the system are a trace.
\<close>

section \<open>Arguments\<close>

definition DS4_GIB :: u64 where
  "DS4_GIB = 1024 * 1024 * 1024"

lemma unat_DS4_GIB [simp]: "unat DS4_GIB = 1073741824"
  by (simp add: DS4_GIB_def)

definition has_gb_suffix :: "string \<Rightarrow> bool" where
  "has_gb_suffix s \<longleftrightarrow> 2 < length s \<and>
     s ! (length s - 2) \<in> {CHR ''g'', CHR ''G''} \<and> s ! (length s - 1) \<in> {CHR ''b'', CHR ''B''}"

definition ds4_parse_gib_arg :: "string option \<Rightarrow> u64 option" where
  "ds4_parse_gib_arg arg = (case arg of None \<Rightarrow> None | Some s \<Rightarrow>
     if s = [] then None
     else
       let len = (if has_gb_suffix s then length s - 2 else length s)
       in if len = 0 then None
          else if \<not> list_all isdigit (take len s) then None
          else if 32 \<le> len then None
          else
            let (v, erange, _) = strtoul (take len s)
            in if erange \<or> v = 0 \<or> (-1) div DS4_GIB < v then None else Some (v * DS4_GIB))"

definition ds4_parse_streaming_cache_experts_arg :: "string option \<Rightarrow> (u32 \<times> u64) option" where
  "ds4_parse_streaming_cache_experts_arg arg = (case arg of None \<Rightarrow> None | Some s \<Rightarrow>
     if s = [] then None
     else if has_gb_suffix s then map_option (\<lambda>b. (0, b)) (ds4_parse_gib_arg (Some s))
     else if \<not> list_all isdigit s then None
     else
       let (v, erange, _) = strtoul s
       in if erange \<or> v = 0 \<or> UINT32_MAX < unat v then None else Some (ucast v, 0))"

section \<open>The cache plan\<close>

record ds4_ssd_cache_plan =
  model_target_bytes :: u64
  cache_bytes :: u64
  effective_cache_bytes :: u64
  cache_experts :: u32

definition empty_plan :: ds4_ssd_cache_plan where
  "empty_plan = \<lparr>model_target_bytes = 0, cache_bytes = 0, effective_cache_bytes = 0, cache_experts = 0\<rparr>"

definition ds4_ssd_cache_experts_for_byte_budget :: "u64 \<Rightarrow> u64 \<Rightarrow> u32" where
  "ds4_ssd_cache_experts_for_byte_budget bytes per_expert =
     (if bytes = 0 \<or> per_expert = 0 then 0
      else let experts = bytes div per_expert
           in if experts = 0 \<or> UINT32_MAX < unat experts then 0 else ucast experts)"

text \<open>The override \<open>DS4_SSD_AUTO_CACHE_PCT\<close>, as \<open>getenv\<close> returned it.\<close>

definition ds4_ssd_auto_cache_percent :: "string option \<Rightarrow> u32 \<Rightarrow> u64" where
  "ds4_ssd_auto_cache_percent env default_percent = (case env of
     Some s \<Rightarrow>
       if s \<noteq> [] then
         let (v, erange, rest) = strtoul s
         in if rest \<noteq> s \<and> rest = [] \<and> \<not> erange \<and> 50 \<le> v \<and> v \<le> 95 then v else ucast default_percent
       else ucast default_percent
   | None \<Rightarrow> ucast default_percent)"

definition plan_target :: "u64 \<Rightarrow> u64 \<Rightarrow> u64 \<Rightarrow> u64" where
  "plan_target recommended pct limit =
     (let t = (if (-1) div pct < recommended then -1 else (recommended * pct) div 100)
      in if limit \<noteq> 0 \<and> limit < t then limit else t)"

definition plan_experts :: "u64 \<Rightarrow> u64 \<Rightarrow> u64 \<Rightarrow> u64" where
  "plan_experts cache per_expert max_model =
     (let n0 = cache div per_expert;
          n1 = (if n0 = 0 then 1 else n0);
          n2 = (if max_model \<noteq> 0 \<and> max_model < n1 then max_model else n1)
      in if UINT32_MAX < unat n2 then of_nat UINT32_MAX else n2)"

definition ds4_ssd_auto_cache_plan ::
  "string option \<Rightarrow> u64 \<Rightarrow> u32 \<Rightarrow> u64 \<Rightarrow> u64 \<Rightarrow> u64 \<Rightarrow> u64 \<Rightarrow> bool \<times> ds4_ssd_cache_plan" where
  "ds4_ssd_auto_cache_plan env recommended default_percent limit non_routed per_expert max_model =
     (if recommended = 0 \<or> per_expert = 0 \<or> default_percent < 50 \<or> 95 < default_percent
      then (False, empty_plan)
      else
        let target = plan_target recommended (ds4_ssd_auto_cache_percent env default_percent) limit;
            cache = (if non_routed < target then target - non_routed else 0);
            experts = plan_experts cache per_expert max_model;
            plan = \<lparr>model_target_bytes = target, cache_bytes = cache,
                    effective_cache_bytes = experts * per_expert, cache_experts = ucast experts\<rparr>
        in (cache_experts plan \<noteq> 0, plan))"

section \<open>The memory lock\<close>

record ds4_ssd_memory_lock =
  lock_ptr :: "nat option"
  lock_bytes :: nat

datatype os_call =
    Mmap nat
  | Touch nat nat
  | Mlock nat nat
  | Munlock nat nat
  | Munmap nat

text \<open>What the system answers: the mapping's address if there is one, and \<open>mlock\<close> by offset.\<close>

record lock_os =
  mmap_result :: "nat option"
  mlock_ok :: "nat \<Rightarrow> bool"

definition lock_chunk_bytes :: nat where
  "lock_chunk_bytes = 256 * 1024 * 1024"

function lock_chunks :: "lock_os \<Rightarrow> nat \<Rightarrow> nat \<Rightarrow> nat \<Rightarrow> bool \<times> os_call list" where
  "lock_chunks os bytes off locked =
     (if off < bytes then
        let len = min (bytes - off) lock_chunk_bytes
        in if mlock_ok os off then
             let (ok, calls) = lock_chunks os bytes (off + lock_chunk_bytes) (locked + len)
             in (ok, Touch off len # Mlock off len # calls)
           else (False, [Touch off len, Mlock off len] @
                   (if locked \<noteq> 0 then [Munlock 0 locked] else []) @ [Munmap bytes])
      else (True, []))"
  by pat_completeness auto
termination
  by (relation "measure (\<lambda>(os, bytes, off, locked). bytes - off)") (auto simp: lock_chunk_bytes_def)

declare lock_chunks.simps [simp del]

definition ds4_ssd_memory_lock_acquire ::
  "lock_os \<Rightarrow> nat \<Rightarrow> bool \<times> ds4_ssd_memory_lock \<times> os_call list" where
  "ds4_ssd_memory_lock_acquire os bytes =
     (let none = \<lparr>lock_ptr = None, lock_bytes = 0\<rparr>
      in if bytes = 0 then (True, none, [])
         else case mmap_result os of
           None \<Rightarrow> (False, none, [])
         | Some p \<Rightarrow>
             let (ok, calls) = lock_chunks os bytes 0 0
             in if ok then (True, \<lparr>lock_ptr = Some p, lock_bytes = bytes\<rparr>, Mmap bytes # calls)
                else (False, none, Mmap bytes # calls))"

definition ds4_ssd_memory_lock_release ::
  "ds4_ssd_memory_lock \<Rightarrow> ds4_ssd_memory_lock \<times> os_call list" where
  "ds4_ssd_memory_lock_release lock =
     (if lock_ptr lock = None \<or> lock_bytes lock = 0 then (lock, [])
      else (\<lparr>lock_ptr = None, lock_bytes = 0\<rparr>, [Munlock 0 (lock_bytes lock), Munmap (lock_bytes lock)]))"

text \<open>
  The abstract view of a process's pages: how many bytes are mapped, and how long the locked
  prefix of the mapping is. A call that does not fit (locking beyond the mapping, or away from the
  end of the locked prefix) has no next state.
\<close>

record pages =
  mapped :: nat
  locked_prefix :: nat

fun page_step :: "pages \<Rightarrow> os_call \<Rightarrow> pages option" where
  "page_step s (Mmap n) = (if mapped s = 0 then Some (s\<lparr>mapped := n\<rparr>) else None)"
| "page_step s (Touch off len) = (if off + len \<le> mapped s then Some s else None)"
| "page_step s (Mlock off len) =
     (if off = locked_prefix s \<and> off + len \<le> mapped s then Some (s\<lparr>locked_prefix := off + len\<rparr>) else None)"
| "page_step s (Munlock off len) =
     (if off = 0 \<and> len = locked_prefix s then Some (s\<lparr>locked_prefix := 0\<rparr>) else None)"
| "page_step s (Munmap n) =
     (if n = mapped s \<and> locked_prefix s = 0 then Some (s\<lparr>mapped := 0\<rparr>) else None)"

text \<open>A failed \<open>mlock\<close> leaves the pages as they were: the trace of a failed chunk is replayed without it.\<close>

fun page_run :: "(nat \<Rightarrow> bool) \<Rightarrow> pages \<Rightarrow> os_call list \<Rightarrow> pages option" where
  "page_run ok s [] = Some s"
| "page_run ok s (Mlock off len # cs) =
     (if ok off then (case page_step s (Mlock off len) of None \<Rightarrow> None | Some t \<Rightarrow> page_run ok t cs)
      else page_run ok s cs)"
| "page_run ok s (c # cs) = (case page_step s c of None \<Rightarrow> None | Some t \<Rightarrow> page_run ok t cs)"

section \<open>Arguments: what is accepted and what it means\<close>

lemma list_all_isdigit: "list_all isdigit s \<longleftrightarrow> (\<forall>c\<in>set s. isdigit c)"
  by (simp add: list_all_iff)

lemma strtoul_all_digits:
  "list_all isdigit s \<Longrightarrow> s \<noteq> [] \<Longrightarrow> strtoul s =
     (if dec_val s > UINT64_MAX then (-1, True, []) else (of_nat (dec_val s), False, []))"
  using strtoul_digits [of s "[]"] by (simp add: list_all_isdigit)

definition gib_digits :: "string \<Rightarrow> string" where
  "gib_digits s = take (if has_gb_suffix s then length s - 2 else length s) s"

lemma gib_limit: "unat ((-1 :: u64) div DS4_GIB) = 17179869183"
  by (simp add: unat_div unsigned_minus_1_eq_mask mask_eq_exp_minus_1)

lemma parse_gib_cases:
  "ds4_parse_gib_arg (Some s) =
     (let d = gib_digits s in
      if d \<noteq> [] \<and> list_all isdigit d \<and> length d < 32 \<and> 0 < dec_val d \<and> dec_val d \<le> 17179869183
      then Some (of_nat (dec_val d) * DS4_GIB) else None)"
proof -
  let ?d = "gib_digits s"
  have len: "length ?d = (if has_gb_suffix s then length s - 2 else length s)"
    by (simp add: gib_digits_def)
  have Nil: "?d = [] \<longleftrightarrow> (if has_gb_suffix s then length s - 2 else length s) = 0"
    by (metis len length_0_conv)
  show ?thesis
  proof (cases "?d \<noteq> [] \<and> list_all isdigit ?d \<and> length ?d < 32")
    case True
    then have st: "strtoul ?d = (if dec_val ?d > UINT64_MAX then (-1, True, []) else (of_nat (dec_val ?d), False, []))"
      by (simp add: strtoul_all_digits)
    have nz: "s \<noteq> []" using True by (auto simp: gib_digits_def)
    show ?thesis
    proof (cases "dec_val ?d > UINT64_MAX")
      case big: True
      with True st nz Nil len show ?thesis
        by (simp add: ds4_parse_gib_arg_def gib_digits_def [symmetric] Let_def)
    next
      case False
      then have u: "unat (of_nat (dec_val ?d) :: u64) = dec_val ?d"
        by (simp add: unat_u64_of_nat)
      then have z: "(of_nat (dec_val ?d) :: u64) = 0 \<longleftrightarrow> dec_val ?d = 0"
        by (metis unat_0_iff)
      have "((-1 :: u64) div DS4_GIB < of_nat (dec_val ?d)) \<longleftrightarrow> 17179869183 < dec_val ?d"
        by (simp only: word_less_nat_alt u gib_limit)
      with False True st nz Nil len z show ?thesis
        by (auto simp: ds4_parse_gib_arg_def gib_digits_def [symmetric] Let_def)
    qed
  next
    case False
    with Nil len show ?thesis
      by (auto simp: ds4_parse_gib_arg_def gib_digits_def [symmetric] Let_def)
  qed
qed

lemma gib_product:
  assumes "v \<le> 17179869183"
  shows "unat (of_nat v * DS4_GIB) = v * 1073741824"
  using assms by (simp add: unat_mult_exact unat_u64_of_nat)

text \<open>
  \<open>ds4_parse_gib_arg\<close> accepts exactly the texts that are one to 31 decimal digits with an optional
  two-letter suffix in any case, whose value is between 1 and the largest number of GiB that fits in
  64 bits; the result is that many GiB, computed without wrap-around.
\<close>

theorem parse_gib_arg_correct:
  "ds4_parse_gib_arg (Some s) = Some b \<longleftrightarrow>
     (\<exists>d. d = gib_digits s \<and> list_all isdigit d \<and> 0 < length d \<and> length d < 32 \<and>
        1 \<le> dec_val d \<and> dec_val d * 1073741824 \<le> UINT64_MAX \<and> unat b = dec_val d * 1073741824)"
proof -
  let ?d = "gib_digits s"
  have lim: "dec_val ?d * 1073741824 \<le> UINT64_MAX \<longleftrightarrow> dec_val ?d \<le> 17179869183" by linarith
  show ?thesis
  proof (cases "dec_val ?d \<le> 17179869183")
    case True
    then have "of_nat (dec_val ?d) * DS4_GIB = b \<longleftrightarrow> unat b = dec_val ?d * 1073741824"
      using gib_product [of "dec_val ?d"] by (metis word_unat_eq_iff)
    then show ?thesis using lim by (auto simp: parse_gib_cases Let_def)
  next
    case False
    then show ?thesis using lim by (auto simp: parse_gib_cases Let_def)
  qed
qed

lemma ucast_u32_exact: "unat (x :: u64) \<le> UINT32_MAX \<Longrightarrow> unat (ucast x :: u32) = unat x"
  by (simp add: unsigned_ucast_eq take_bit_eq_mod)

lemma percent_range:
  assumes "50 \<le> d" and "d \<le> 95"
  shows "50 \<le> unat (ds4_ssd_auto_cache_percent env d) \<and> unat (ds4_ssd_auto_cache_percent env d) \<le> 95"
proof -
  have "50 \<le> unat (ucast d :: u64) \<and> unat (ucast d :: u64) \<le> 95"
    using assms by (simp add: unsigned_ucast_eq take_bit_eq_mod word_nat)
  then show ?thesis
    by (auto simp: ds4_ssd_auto_cache_percent_def Let_def word_nat split: option.splits prod.splits if_splits)
qed

lemma plan_target_exact:
  assumes "unat recommended * unat pct \<le> UINT64_MAX" and "0 < pct"
  shows "unat (plan_target recommended pct limit) =
    (let t = unat recommended * unat pct div 100
     in if limit \<noteq> 0 then min (unat limit) t else t)"
proof -
  have "\<not> (-1) div pct < recommended"
  proof
    assume "(-1) div pct < recommended"
    then have "UINT64_MAX div unat pct < unat recommended"
      by (simp add: word_nat unsigned_minus_1_eq_mask mask_eq_exp_minus_1)
    moreover have "0 < unat pct" using assms(2) by (simp add: word_nat)
    ultimately have "UINT64_MAX < unat recommended * unat pct"
      by (simp add: div_less_iff_less_mult)
    with assms(1) show False by simp
  qed
  then show ?thesis using assms(1)
    by (auto simp: plan_target_def Let_def word_nat unat_mult_exact min_def)
qed

lemma plan_experts_bounds:
  assumes "0 < per_expert"
  shows "1 \<le> unat (plan_experts cache per_expert max_model) \<and>
    unat (plan_experts cache per_expert max_model) \<le> UINT32_MAX \<and>
    (max_model \<noteq> 0 \<longrightarrow> plan_experts cache per_expert max_model \<le> max_model) \<and>
    unat (plan_experts cache per_expert max_model) \<le> max 1 (unat cache div unat per_expert)"
proof -
  have pos: "x \<noteq> 0 \<Longrightarrow> Suc 0 \<le> unat x" for x :: u64
    by (metis Suc_leI unat_gt_0)
  show ?thesis
    using pos [of max_model] pos [of "cache div per_expert"]
    by (auto simp: plan_experts_def Let_def word_nat unat_u64_of_nat)
qed



section \<open>The memory lock leaves nothing behind\<close>

lemma page_run_append:
  "page_run ok s (xs @ ys) = (case page_run ok s xs of None \<Rightarrow> None | Some t \<Rightarrow> page_run ok t ys)"
  by (induction ok s xs rule: page_run.induct) (auto split: option.splits)

lemma lock_chunks_pages:
  assumes "lock_chunks os bytes off locked = (ok, calls)" and "0 < bytes"
    and "locked = min off bytes"
  shows "page_run (mlock_ok os) \<lparr>mapped = bytes, locked_prefix = locked\<rparr> calls =
     Some (if ok then \<lparr>mapped = bytes, locked_prefix = bytes\<rparr> else \<lparr>mapped = 0, locked_prefix = 0\<rparr>)"
  using assms
proof (induction os bytes off locked arbitrary: ok calls rule: lock_chunks.induct)
  case (1 os bytes off locked)
  show ?case
  proof (cases "off < bytes")
    case False
    with "1.prems" show ?thesis by (auto simp: lock_chunks.simps [of os bytes off bytes])
  next
    case True
    let ?len = "min (bytes - off) lock_chunk_bytes"
    show ?thesis
    proof (cases "mlock_ok os off")
      case ok: True
      obtain k cs where rec: "lock_chunks os bytes (off + lock_chunk_bytes) (locked + ?len) = (k, cs)"
        by fastforce
      with True ok "1.prems"(1) have eq: "k = ok" "calls = Touch off ?len # Mlock off ?len # cs"
        by (simp_all add: lock_chunks.simps [of os bytes off locked] Let_def)
      have "locked + ?len = min (off + lock_chunk_bytes) bytes" using True "1.prems"(3) by auto
      from "1.IH" [OF True refl ok rec "1.prems"(2) this] True ok eq "1.prems"(3) show ?thesis by auto
    next
      case False
      with True "1.prems" show ?thesis
        by (auto simp: lock_chunks.simps [of os bytes off off] Let_def)
    qed
  qed
qed

text \<open>
  C6: Whatever the system answers, \<open>ds4_ssd_memory_lock_acquire\<close> either locks the whole mapping, in
  order and without a gap, or returns with nothing mapped and nothing locked; and a release after it
  always takes the process back to where it started.
\<close>

theorem memory_lock_balanced:
  "case ds4_ssd_memory_lock_acquire os bytes of (ok, lock, calls) \<Rightarrow>
   case ds4_ssd_memory_lock_release lock of (lock', calls') \<Rightarrow>
     page_run (mlock_ok os) \<lparr>mapped = 0, locked_prefix = 0\<rparr> calls =
       Some (if ok then \<lparr>mapped = bytes, locked_prefix = bytes\<rparr> else \<lparr>mapped = 0, locked_prefix = 0\<rparr>) \<and>
     page_run (mlock_ok os) \<lparr>mapped = 0, locked_prefix = 0\<rparr> (calls @ calls') =
       Some \<lparr>mapped = 0, locked_prefix = 0\<rparr> \<and>
     lock' = \<lparr>lock_ptr = None, lock_bytes = 0\<rparr>"
proof (cases "bytes = 0 \<or> mmap_result os = None")
  case True
  then show ?thesis
    by (auto simp: ds4_ssd_memory_lock_acquire_def ds4_ssd_memory_lock_release_def Let_def)
next
  case False
  then obtain p where p: "mmap_result os = Some p" and pos: "0 < bytes" by auto
  obtain ok calls where c: "lock_chunks os bytes 0 0 = (ok, calls)" by fastforce
  from lock_chunks_pages [OF c pos] have run:
    "page_run (mlock_ok os) \<lparr>mapped = bytes, locked_prefix = 0\<rparr> calls =
       Some (if ok then \<lparr>mapped = bytes, locked_prefix = bytes\<rparr> else \<lparr>mapped = 0, locked_prefix = 0\<rparr>)"
    by simp
  show ?thesis
    using pos run
    by (cases ok) (auto simp: ds4_ssd_memory_lock_acquire_def ds4_ssd_memory_lock_release_def
        Let_def p c page_run_append)
qed

end
