(* ===== verification/LayerPack.thy ===== *)
theory LayerPack
  imports CText
begin

text \<open>
  \<open>ds4_layer_pack.c\<close>: the monotone placement of the model's layers on several GPUs and the CPU, and
  the layout summary printed from it. Devices are the code's integers, \<open>-1\<close> for the CPU; their
  abstraction \<open>device\<close> is ordered with the CPU last, the order in which the packer fills them.
\<close>

section \<open>The packer\<close>

record ds4_layer_pack_config =
  gpu_budget_bytes :: "nat list"
  n_gpus :: int

definition DS4_LAYER_PACK_MAX_GPUS :: int where
  "DS4_LAYER_PACK_MAX_GPUS = 16"

definition DS4_LAYER_PACK_CPU :: int where
  "DS4_LAYER_PACK_CPU = -1"

text \<open>The inner \<open>while\<close>: skip devices whose remaining budget is too small.\<close>

function advance :: "nat \<Rightarrow> nat list \<Rightarrow> nat \<Rightarrow> nat \<Rightarrow> nat" where
  "advance e budget n d = (if d < n \<and> budget ! d < e then advance e budget n (Suc d) else d)"
  by pat_completeness auto
termination
  by (relation "measure (\<lambda>(e, budget, n, d). n - d)") auto

declare advance.simps [simp del]

fun place_entries :: "nat list \<Rightarrow> nat list \<Rightarrow> nat \<Rightarrow> nat \<Rightarrow> int list" where
  "place_entries [] budget n d = []"
| "place_entries (e # es) budget n d =
     (let d' = advance e budget n d
      in if d' < n then int d' # place_entries es (budget[d' := budget ! d' - e]) n d'
         else DS4_LAYER_PACK_CPU # place_entries es budget n d')"

text \<open>\<open>None\<close> stands for a null pointer; the error results are the code's return values.\<close>

definition ds4_compute_layer_placement ::
  "nat list option \<Rightarrow> int \<Rightarrow> ds4_layer_pack_config option \<Rightarrow> bool \<Rightarrow> int + int list" where
  "ds4_compute_layer_placement entry_bytes n_entries cfg has_out =
     (case (entry_bytes, cfg) of
        (Some bytes, Some c) \<Rightarrow>
          if \<not> has_out then Inl 1
          else if n_entries < 0 then Inl 2
          else if n_gpus c < 0 \<or> DS4_LAYER_PACK_MAX_GPUS < n_gpus c then Inl 3
          else Inr (place_entries (take (nat n_entries) bytes)
                      (take (nat (n_gpus c)) (gpu_budget_bytes c)) (nat (n_gpus c)) 0)
      | _ \<Rightarrow> Inl 1)"

section \<open>The layout summary\<close>

text \<open>First and last layer (numbered from 0) of a tier, \<open>-1\<close> when it owns none.\<close>

definition tier_range :: "int list \<Rightarrow> int \<Rightarrow> nat \<Rightarrow> nat \<Rightarrow> int \<times> int" where
  "tier_range ds tier n_entries n_layers =
     foldl (\<lambda>(first, last) i.
        if ds ! i = tier then (if first < 0 then int i - 1 else first, int i - 1) else (first, last))
      (-1, -1) [1..<min (n_layers + 1) n_entries]"

definition print_layer_range_for_tier :: "int list \<Rightarrow> int \<Rightarrow> nat \<Rightarrow> nat \<Rightarrow> string" where
  "print_layer_range_for_tier ds tier n_entries n_layers =
     (let (first, last) = tier_range ds tier n_entries n_layers
      in if first < 0 then ''(no transformer layers)''
         else if first = last then ''layer '' @ show_int first
         else ''layers '' @ show_int first @ ''-'' @ show_int last)"

definition append_pseudo_layer_tags :: "int list \<Rightarrow> int \<Rightarrow> nat \<Rightarrow> nat \<Rightarrow> string" where
  "append_pseudo_layer_tags ds tier n_entries n_layers =
     (if 0 < n_entries \<and> ds ! 0 = tier then '' + embedding'' else []) @
     (if 1 < n_entries \<and> n_layers + 1 < n_entries \<and> ds ! (n_layers + 1) = tier
      then '' + output head'' else [])"

text \<open>\<open>fmt_gb\<close> is \<open>printf\<close>'s rendering of a byte count as GiB with one decimal.\<close>

definition usage_text :: "(nat \<Rightarrow> string) \<Rightarrow> (nat list \<times> nat list) option \<Rightarrow> nat \<Rightarrow> string" where
  "usage_text fmt_gb usage d = (case usage of
     None \<Rightarrow> []
   | Some (used, budget) \<Rightarrow> ''  ('' @ fmt_gb (used ! d) @ '' / '' @ fmt_gb (budget ! d) @ '' GB)'')"

definition ds4_layer_pack_print ::
  "(nat \<Rightarrow> string) \<Rightarrow> int list \<Rightarrow> nat \<Rightarrow> nat \<Rightarrow> (nat list \<times> nat list) option \<Rightarrow> nat \<Rightarrow> string" where
  "ds4_layer_pack_print fmt_gb ds n_entries n_layers usage n =
     ''multi-GPU layout:'' @ [CHR 0x0A] @
     concat (map (\<lambda>d. ''  GPU'' @ show_nat d @ '': '' @
               print_layer_range_for_tier ds (int d) n_entries n_layers @
               append_pseudo_layer_tags ds (int d) n_entries n_layers @
               usage_text fmt_gb usage d @ [CHR 0x0A]) [0..<n]) @
     (if DS4_LAYER_PACK_CPU \<in> set (take n_entries ds)
      then ''  CPU : '' @ print_layer_range_for_tier ds DS4_LAYER_PACK_CPU n_entries n_layers @
           append_pseudo_layer_tags ds DS4_LAYER_PACK_CPU n_entries n_layers @ [CHR 0x0A]
      else [])"

section \<open>The abstract placement problem\<close>

datatype device = Gpu nat | Cpu

instantiation device :: linorder
begin

fun less_eq_device :: "device \<Rightarrow> device \<Rightarrow> bool" where
  "less_eq_device (Gpu a) (Gpu b) = (a \<le> b)"
| "less_eq_device Cpu (Gpu b) = False"
| "less_eq_device d Cpu = True"

definition less_device :: "device \<Rightarrow> device \<Rightarrow> bool" where
  "less_device a b = (a \<le> b \<and> \<not> b \<le> a)"

instance
proof
  fix x y z :: device
  show "(x < y) = (x \<le> y \<and> \<not> y \<le> x)" by (simp add: less_device_def)
  show "x \<le> x" by (cases x) auto
  show "x \<le> y \<Longrightarrow> y \<le> z \<Longrightarrow> x \<le> z" by (cases x; cases y; cases z) auto
  show "x \<le> y \<Longrightarrow> y \<le> x \<Longrightarrow> x = y" by (cases x; cases y) auto
  show "x \<le> y \<or> y \<le> x" by (cases x; cases y) auto
qed

end

lemma Cpu_top [simp]: "d \<le> Cpu"
  by (cases d) auto

lemma Gpu_less_iff [simp]: "Gpu a < Gpu b \<longleftrightarrow> a < b"
  by (auto simp: less_device_def)

lemma Gpu_less_Cpu [simp]: "Gpu a < Cpu"
  by (simp add: less_device_def)

lemma Gpu_le_iff: "Gpu k \<le> d \<longleftrightarrow> (case d of Gpu j \<Rightarrow> k \<le> j | Cpu \<Rightarrow> True)"
  by (cases d) auto

definition dev_of :: "int \<Rightarrow> device" where
  "dev_of i = (if i = DS4_LAYER_PACK_CPU then Cpu else Gpu (nat i))"

lemma dev_of_simps [simp]: "dev_of (int d) = Gpu d" "dev_of DS4_LAYER_PACK_CPU = Cpu"
  by (simp_all add: dev_of_def DS4_LAYER_PACK_CPU_def)

text \<open>The bytes a placement puts on GPU \<open>k\<close>, and the placements the devices admit.\<close>

fun gpu_load :: "nat \<Rightarrow> nat list \<Rightarrow> device list \<Rightarrow> nat" where
  "gpu_load k (e # es) (d # ds) = (if d = Gpu k then e else 0) + gpu_load k es ds"
| "gpu_load k _ _ = 0"

definition admissible :: "nat list \<Rightarrow> nat list \<Rightarrow> device list \<Rightarrow> bool" where
  "admissible budget es ds \<longleftrightarrow> length ds = length es \<and> sorted ds \<and>
     (\<forall>d\<in>set ds. d < Gpu (length budget) \<or> d = Cpu) \<and>
     (\<forall>k<length budget. gpu_load k es ds \<le> budget ! k)"

section \<open>Correctness of the packer\<close>

lemma advance_ge: "d \<le> advance e budget n d"
proof (induction e budget n d rule: advance.induct)
  case (1 e budget n d)
  then show ?case by (subst advance.simps) auto
qed

lemma advance_fits: "advance e budget n d < n \<Longrightarrow> e \<le> budget ! advance e budget n d"
proof (induction e budget n d rule: advance.induct)
  case (1 e budget n d)
  then show ?case by (auto simp: advance.simps [of e budget n d] split: if_splits)
qed

lemma advance_le_bound: "d \<le> n \<Longrightarrow> advance e budget n d \<le> n"
proof (induction e budget n d rule: advance.induct)
  case (1 e budget n d)
  then show ?case by (auto simp: advance.simps [of e budget n d])
qed

lemma advance_least: "d \<le> k \<Longrightarrow> e \<le> budget ! k \<Longrightarrow> advance e budget n d \<le> k"
proof (induction e budget n d rule: advance.induct)
  case (1 e budget n d)
  then show ?case
    by (cases "d = k") (auto simp: advance.simps [of e budget n d] advance.simps [of e budget n k])
qed

lemma length_place_entries [simp]: "length (place_entries es budget n d) = length es"
  by (induction es budget n d rule: place_entries.induct) (auto simp: Let_def)

lemma gpu_load_Nil [simp]: "gpu_load k es [] = 0"
  by (cases es) auto

lemma gpu_load_zero: "\<forall>y\<in>set q. y \<noteq> Gpu k \<Longrightarrow> gpu_load k es q = 0"
  by (induction k es q rule: gpu_load.induct) auto

lemma place_entries_ge:
  "d \<le> n \<Longrightarrow> x \<in> set (place_entries es budget n d) \<Longrightarrow> Gpu d \<le> dev_of x \<and> (dev_of x < Gpu n \<or> dev_of x = Cpu)"
proof (induction es budget n d rule: place_entries.induct)
  case (2 e es budget n d)
  let ?d = "advance e budget n d"
  have d: "d \<le> ?d" "?d \<le> n" using "2.prems"(1) by (simp_all add: advance_ge advance_le_bound)
  show ?case
  proof (cases "?d < n")
    case True
    with "2.IH"(1) [OF refl True] "2.prems" d show ?thesis
      by (fastforce simp: Let_def Gpu_le_iff split: device.splits)
  next
    case False
    with "2.IH"(2) [OF refl False] "2.prems" d show ?thesis
      by (fastforce simp: Let_def Gpu_le_iff split: device.splits)
  qed
qed simp

lemma place_entries_codes:
  "x \<in> set (place_entries es budget n d) \<Longrightarrow> x = DS4_LAYER_PACK_CPU \<or> 0 \<le> x"
  by (induction es budget n d rule: place_entries.induct) (auto simp: Let_def split: if_splits)

lemma dev_of_inj:
  "dev_of x = dev_of y \<Longrightarrow> x = DS4_LAYER_PACK_CPU \<or> 0 \<le> x \<Longrightarrow> y = DS4_LAYER_PACK_CPU \<or> 0 \<le> y \<Longrightarrow> x = y"
  by (auto simp: dev_of_def split: if_splits)

lemma place_entries_sorted: "d \<le> n \<Longrightarrow> sorted (map dev_of (place_entries es budget n d))"
proof (induction es budget n d rule: place_entries.induct)
  case (2 e es budget n d)
  let ?d = "advance e budget n d"
  have "?d \<le> n" using "2.prems" by (rule advance_le_bound)
  have cpu: "\<forall>x\<in>set (place_entries es budget n ?d). Cpu \<le> dev_of x" if "\<not> ?d < n"
  proof
    fix x assume "x \<in> set (place_entries es budget n ?d)"
    from place_entries_ge [OF \<open>?d \<le> n\<close> this] that show "Cpu \<le> dev_of x"
      by (cases "dev_of x") auto
  qed
  show ?case
    using "2.IH" \<open>?d \<le> n\<close> cpu place_entries_ge [OF \<open>?d \<le> n\<close>]
    by (cases "?d < n") (auto simp: Let_def)
qed simp

lemma place_entries_load:
  "d \<le> n \<Longrightarrow> k < n \<Longrightarrow> length budget = n \<Longrightarrow>
     gpu_load k es (map dev_of (place_entries es budget n d)) \<le> budget ! k"
proof (induction es budget n d rule: place_entries.induct)
  case (2 e es budget n d)
  let ?d = "advance e budget n d"
  have "?d \<le> n" using "2.prems" by (simp add: advance_le_bound)
  show ?case
  proof (cases "?d < n")
    case True
    have "e \<le> budget ! ?d" using True by (rule advance_fits)
    moreover have "gpu_load k es (map dev_of (place_entries es (budget[?d := budget ! ?d - e]) n ?d))
        \<le> budget[?d := budget ! ?d - e] ! k"
      using "2.IH"(1) [OF refl True] \<open>?d \<le> n\<close> "2.prems" by simp
    ultimately show ?thesis using True "2.prems" by (auto simp: Let_def nth_list_update split: if_splits)
  next
    case False
    then show ?thesis using "2.IH"(2) [OF refl False] \<open>?d \<le> n\<close> "2.prems" by (simp add: Let_def)
  qed
qed simp

text \<open>
  Optimality by comparison with any admissible placement: the packer is never ahead of it, and on
  the same device it has at least as much room left.
\<close>

lemma place_entries_least:
  assumes "length q = length es" and "sorted q" and "\<forall>x\<in>set q. Gpu d \<le> x"
    and "\<forall>x\<in>set q. x < Gpu n \<or> x = Cpu"
    and "\<forall>k<n. d \<le> k \<longrightarrow> gpu_load k es q \<le> budget ! k"
    and "length budget = n" and "d \<le> n"
  shows "list_all2 (\<le>) (map dev_of (place_entries es budget n d)) q"
  using assms
proof (induction es budget n d arbitrary: q rule: place_entries.induct)
  case (1 budget n d)
  then show ?case by simp
next
  case (2 e es budget n d)
  from "2.prems"(1) obtain x q' where q: "q = x # q'" by (cases q) auto
  let ?d = "advance e budget n d"
  have dn: "?d \<le> n" using "2.prems"(7) by (rule advance_le_bound)
  have le: "Gpu ?d \<le> x \<or> \<not> ?d < n"
  proof (cases x)
    case Cpu
    then show ?thesis by simp
  next
    case (Gpu k)
    then have k: "d \<le> k" "k < n" using "2.prems"(3,4) q by auto
    have "e \<le> gpu_load k (e # es) q" using Gpu q by simp
    also have "\<dots> \<le> budget ! k" using "2.prems"(5) k by blast
    finally show ?thesis using Gpu advance_least [OF k(1)] by simp
  qed
  have x_le: "\<forall>y\<in>set q'. x \<le> y" and srt: "sorted q'" using "2.prems"(2) q by auto
  show ?case
  proof (cases "?d < n")
    case True
    with le have xd: "Gpu ?d \<le> x" by simp
    have ge: "\<forall>y\<in>set q'. Gpu ?d \<le> y" using xd x_le by (meson order_trans)
    have load: "\<forall>k<n. ?d \<le> k \<longrightarrow> gpu_load k es q' \<le> budget[?d := budget ! ?d - e] ! k"
    proof (intro allI impI)
      fix k assume k: "k < n" "?d \<le> k"
      have "d \<le> k" using k(2) advance_ge [of d e budget n] by linarith
      with k(1) have l: "gpu_load k (e # es) (x # q') \<le> budget ! k" using "2.prems"(5) q by blast
      show "gpu_load k es q' \<le> budget[?d := budget ! ?d - e] ! k"
      proof (cases "k = ?d")
        case False
        then show ?thesis using l by (simp add: nth_list_update)
      next
        case keq: True
        show ?thesis
        proof (cases "x = Gpu ?d")
          case True
          then show ?thesis using l keq \<open>?d < n\<close> "2.prems"(6) by simp
        next
          case False
          then have "Gpu ?d < x" using xd by (simp add: order_le_less)
          then have "gpu_load ?d es q' = 0" using x_le by (intro gpu_load_zero) (auto dest: leD)
          then show ?thesis using keq by simp
        qed
      qed
    qed
    have "list_all2 (\<le>) (map dev_of (place_entries es (budget[?d := budget ! ?d - e]) n ?d)) q'"
      using "2.IH"(1) [OF refl True _ srt ge _ load] "2.prems"(1,4,6) q dn by simp
    then show ?thesis using True xd q by (simp add: Let_def)
  next
    case False
    with dn have dn': "?d = n" by simp
    have xcpu: "x = Cpu"
    proof (rule ccontr)
      assume "x \<noteq> Cpu"
      then obtain k where x: "x = Gpu k" by (cases x) auto
      then have k: "d \<le> k" "k < n" using "2.prems"(3,4) q by auto
      have "e \<le> budget ! k" using "2.prems"(5) k x q by (metis add_leD1 gpu_load.simps(1))
      from advance_least [OF k(1) this, of n] dn' k(2) show False by simp
    qed
    have cpus: "\<forall>y\<in>set q'. y = Cpu" using x_le xcpu by (metis Cpu_top order_antisym)
    have "q' ! i = Cpu" if "i < length q'" for i using cpus that by simp
    then have "list_all2 (\<le>) (map dev_of (place_entries es budget n ?d)) q'"
      using "2.prems"(1) q by (simp add: list_all2_conv_all_nth)
    then show ?thesis using False xcpu q by (simp add: Let_def)
  qed
qed

section \<open>Properties\<close>

definition config_budgets :: "ds4_layer_pack_config \<Rightarrow> nat list" where
  "config_budgets c = take (nat (n_gpus c)) (gpu_budget_bytes c)"

lemma compute_layer_placement_eq:
  assumes "0 \<le> n" and "nat n \<le> length bytes" and "0 \<le> n_gpus c" and "n_gpus c \<le> 16"
    and "nat (n_gpus c) \<le> length (gpu_budget_bytes c)"
  shows "ds4_compute_layer_placement (Some bytes) n (Some c) True =
    Inr (place_entries (take (nat n) bytes) (config_budgets c) (length (config_budgets c)) 0)"
  using assms
  by (simp add: ds4_compute_layer_placement_def config_budgets_def DS4_LAYER_PACK_MAX_GPUS_def min_absorb2)

text \<open>
  C4: On every valid configuration the packer returns one device per entry, in monotone order with
  the CPU last, and no GPU receives more bytes than its budget; and among all the placements with
  these properties it is pointwise the earliest, so that no admissible placement keeps more of the
  model's prefix on the GPUs.
\<close>

theorem layer_placement_optimal:
  assumes "0 \<le> n" and "nat n \<le> length bytes" and "0 \<le> n_gpus c" and "n_gpus c \<le> 16"
    and "nat (n_gpus c) \<le> length (gpu_budget_bytes c)"
  shows "\<exists>ds. ds4_compute_layer_placement (Some bytes) n (Some c) True = Inr ds \<and>
    admissible (config_budgets c) (take (nat n) bytes) (map dev_of ds) \<and>
    (\<forall>q. admissible (config_budgets c) (take (nat n) bytes) q \<longrightarrow> list_all2 (\<le>) (map dev_of ds) q)"
proof -
  let ?b = "config_budgets c" and ?es = "take (nat n) bytes"
  let ?ds = "place_entries ?es ?b (length ?b) 0"
  have "admissible ?b ?es (map dev_of ?ds)"
    using place_entries_sorted [of 0 "length ?b" ?es ?b] place_entries_ge [of 0 "length ?b" _ ?es ?b]
      place_entries_load [of 0 "length ?b" _ ?b ?es]
    by (auto simp: admissible_def)
  moreover have "list_all2 (\<le>) (map dev_of ?ds) q" if "admissible ?b ?es q" for q
    using that by (intro place_entries_least) (auto simp: admissible_def Gpu_le_iff split: device.splits)
  ultimately show ?thesis using compute_layer_placement_eq [OF assms] by blast
qed

lemma layer_placement_optimal_witness:
  "\<exists>ds. ds4_compute_layer_placement (Some [3, 4, 5, 2]) 4
      (Some \<lparr>gpu_budget_bytes = [8, 5], n_gpus = 2\<rparr>) True = Inr ds \<and>
    list_all2 (\<le>) (map dev_of ds) [Gpu 0, Gpu 1, Cpu, Cpu]"
proof -
  let ?c = "\<lparr>gpu_budget_bytes = [8, 5], n_gpus = 2\<rparr> :: ds4_layer_pack_config"
  have "config_budgets ?c = [8, 5]" by (simp add: config_budgets_def)
  then have "admissible (config_budgets ?c) (take (nat 4) [3, 4, 5, 2]) [Gpu 0, Gpu 1, Cpu, Cpu]"
    by (auto simp: admissible_def less_Suc_eq numeral_2_eq_2)
  with layer_placement_optimal [of 4 "[3, 4, 5, 2]" ?c] show ?thesis by auto
qed

lemma foldl_range:
  fixes P :: "nat \<Rightarrow> bool"
  assumes "1 \<le> m"
  shows "foldl (\<lambda>(first, last) i. if P i then (if first < 0 then int i - 1 else first, int i - 1) else (first, last))
       (-1, -1) [1..<m] = (f, l) \<Longrightarrow>
     (if \<exists>i\<in>{1..<m}. P i
      then 0 \<le> f \<and> f \<le> l \<and> nat f + 1 \<in> {1..<m} \<and> nat l + 1 \<in> {1..<m} \<and> P (nat f + 1) \<and> P (nat l + 1) \<and>
           (\<forall>i\<in>{1..<m}. P i \<longrightarrow> nat f + 1 \<le> i \<and> i \<le> nat l + 1)
      else f = -1 \<and> l = -1)"
  using assms
proof (induction m arbitrary: f l rule: dec_induct)
  case base
  then show ?case by simp
next
  case (step m)
  obtain f' l' where fl: "foldl (\<lambda>(first, last) i. if P i then (if first < 0 then int i - 1 else first, int i - 1)
      else (first, last)) (-1, -1) [1..<m] = (f', l')" by fastforce
  have "[1..<Suc m] = [1..<m] @ [m]" using step.hyps by simp
  with step.prems fl have fl': "(f, l) = (if P m then (if f' < 0 then int m - 1 else f', int m - 1) else (f', l'))"
    by simp
  have "Suc (nat (int m - 1)) = m" using step.hyps by simp
  with step.IH [OF fl] fl' step.hyps show ?case
    by (auto simp: less_Suc_eq split: if_splits)
qed

text \<open>
  On a placement the packer computed, the range the summary prints for a tier is exact: it names a
  layer only if the tier owns one, and then the tier owns precisely the layers from the first to the
  last that are printed.
\<close>

theorem printed_range_exact:
  assumes "ds4_compute_layer_placement (Some bytes) n (Some c) True = Inr ds"
    and "nat n \<le> length bytes" and "nat (n_gpus c) \<le> length (gpu_budget_bytes c)"
    and "tier_range ds tier (nat n) n_layers = (lo, hi)"
    and "1 \<le> i" and "i \<le> n_layers" and "i < nat n"
  shows "ds ! i = tier \<longleftrightarrow> 0 \<le> lo \<and> lo \<le> int i - 1 \<and> int i - 1 \<le> hi"
proof -
  from assms(1) have ok: "0 \<le> n" "0 \<le> n_gpus c" "n_gpus c \<le> 16"
    by (auto simp: ds4_compute_layer_placement_def DS4_LAYER_PACK_MAX_GPUS_def split: if_splits)
  have ds: "ds = place_entries (take (nat n) bytes) (config_budgets c) (length (config_budgets c)) 0"
    using assms(1) compute_layer_placement_eq [OF ok(1) assms(2) ok(2,3) assms(3)] by simp
  have len: "length ds = nat n" using ds assms(2) by simp
  have srt: "sorted (map dev_of ds)" using ds place_entries_sorted by simp
  have inj: "dev_of x = dev_of y \<Longrightarrow> x = y" if "x \<in> set ds" "y \<in> set ds" for x y
    using place_entries_codes that unfolding ds by (intro dev_of_inj) blast+
  define m where "m = min (n_layers + 1) (nat n)"
  have m: "1 \<le> m" "i \<in> {1..<m}" using assms(5-7) by (auto simp: m_def)
  note r = foldl_range [OF m(1), of "\<lambda>i. ds ! i = tier" lo hi]
  have range: "foldl (\<lambda>(first, last) i. if ds ! i = tier then (if first < 0 then int i - 1 else first, int i - 1)
      else (first, last)) (-1, -1) [1..<m] = (lo, hi)"
    using assms(4) by (simp add: tier_range_def m_def)
  show ?thesis
  proof
    assume "ds ! i = tier"
    then show "0 \<le> lo \<and> lo \<le> int i - 1 \<and> int i - 1 \<le> hi"
      using r [OF range] m(2) by (fastforce split: if_splits)
  next
    assume b: "0 \<le> lo \<and> lo \<le> int i - 1 \<and> int i - 1 \<le> hi"
    then have r': "nat lo + 1 \<in> {1..<m}" "nat hi + 1 \<in> {1..<m}"
        "ds ! (nat lo + 1) = tier" "ds ! (nat hi + 1) = tier"
      using r [OF range] by (auto split: if_splits)
    have lt: "nat hi + 1 < length ds" using r'(2) len by (auto simp: m_def)
    have le: "nat lo + 1 \<le> i" "i \<le> nat hi + 1" using b m(2) by auto
    have "dev_of (ds ! (nat lo + 1)) \<le> dev_of (ds ! i)" "dev_of (ds ! i) \<le> dev_of (ds ! (nat hi + 1))"
      using sorted_nth_mono [OF srt le(1)] sorted_nth_mono [OF srt le(2)] lt le by simp_all
    then have "dev_of (ds ! i) = dev_of (ds ! (nat lo + 1))" using r'(3,4) by simp
    then have "ds ! i = ds ! (nat lo + 1)" using inj lt le by (meson le_less_trans nth_mem)
    then show "ds ! i = tier" using r'(3) by simp
  qed
qed

lemma printed_range_exact_witness:
  "tier_range [0, 0, 0, 1, -1] 0 5 3 = (0, 1) \<and> ([0, 0, 0, 1, -1] ! 2 = (0 :: int))"
proof -
  let ?c = "\<lparr>gpu_budget_bytes = [8, 5], n_gpus = 2\<rparr> :: ds4_layer_pack_config"
  have "ds4_compute_layer_placement (Some [3, 2, 3, 5, 2]) 5 (Some ?c) True = Inr [0, 0, 0, 1, -1]"
    by (simp add: ds4_compute_layer_placement_def DS4_LAYER_PACK_MAX_GPUS_def DS4_LAYER_PACK_CPU_def
        advance.simps Let_def)
  moreover have "tier_range [0, 0, 0, 1, -1] 0 5 3 = (0, 1)"
    by (simp add: tier_range_def upt_rec)
  ultimately show ?thesis
    using printed_range_exact [of "[3, 2, 3, 5, 2]" 5 ?c "[0, 0, 0, 1, -1]" 0 3 0 1 2] by simp
qed

end
