(* ===== verification/PromptPrefix.thy ===== *)
theory PromptPrefix
  imports CText
begin

text \<open>
  \<open>ds4_prompt_prefix.c\<close>: the file of alternating \<open>USER:\<close> and \<open>ASSISTANT:\<close> turns that is put in front
  of a session. The parser's position is the remaining text. Whether an allocation succeeds is a
  parameter, indexed by the order of the allocations; the calls that read the file are one too.
\<close>

section \<open>The parser\<close>

datatype ds4_prompt_prefix_role = DS4_PROMPT_PREFIX_USER | DS4_PROMPT_PREFIX_ASSISTANT

record ds4_prompt_prefix_turn =
  role :: ds4_prompt_prefix_role
  content :: string

datatype prefix_error =
    InvalidOutput
  | EmptyFile
  | ContainsNul
  | MustStart nat
  | ExpectedRole nat ds4_prompt_prefix_role
  | EmptyTurn nat ds4_prompt_prefix_role
  | TooManyTurns
  | OutOfMemory
  | NoTurns
  | MustEndAssistant

abbreviation newline :: char where "newline \<equiv> CHR 0x0A"
abbreviation carriage_return :: char where "carriage_return \<equiv> CHR 0x0D"
abbreviation nul :: char where "nul \<equiv> CHR 0x00"

definition prefix_marker_at :: "string \<Rightarrow> (ds4_prompt_prefix_role \<times> nat) option" where
  "prefix_marker_at s =
     (if prefix ''USER:'' s then Some (DS4_PROMPT_PREFIX_USER, 5)
      else if prefix ''ASSISTANT:'' s then Some (DS4_PROMPT_PREFIX_ASSISTANT, 10)
      else None)"

text \<open>The scan for the next marker at a line start: its offset and its line number.\<close>

fun scan_next :: "string \<Rightarrow> nat \<Rightarrow> (nat \<times> nat) option" where
  "scan_next [] line = None"
| "scan_next (c # cs) line =
     (if c \<noteq> newline then map_option (\<lambda>(k, l). (Suc k, l)) (scan_next cs line)
      else if cs \<noteq> [] \<and> prefix_marker_at cs \<noteq> None then Some (1, Suc line)
      else map_option (\<lambda>(k, l). (Suc k, l)) (scan_next cs (Suc line)))"

definition skip_blank :: "string \<Rightarrow> string" where
  "skip_blank s = (case s of c # cs \<Rightarrow> if c = CHR '' '' \<or> c = CHR 0x09 then cs else s | [] \<Rightarrow> [])"

definition strip_line_end :: "string \<Rightarrow> string" where
  "strip_line_end s =
     (if s \<noteq> [] \<and> last s = newline then
        let t = butlast s in if t \<noteq> [] \<and> last t = carriage_return then butlast t else t
      else s)"

definition expected_role :: "nat \<Rightarrow> ds4_prompt_prefix_role" where
  "expected_role count = (if even count then DS4_PROMPT_PREFIX_USER else DS4_PROMPT_PREFIX_ASSISTANT)"

definition sizeof_turn :: nat where
  "sizeof_turn = 16"

lemma scan_next_bound: "scan_next s line = Some (k, l) \<Longrightarrow> 0 < k \<and> k < length s"
  by (induction s line arbitrary: k l rule: scan_next.induct) (auto split: if_splits)

lemma length_skip_blank: "length (skip_blank s) \<le> length s"
  by (auto simp: skip_blank_def split: list.splits)

lemma marker_len: "prefix_marker_at s = Some (r, k) \<Longrightarrow> 0 < k \<and> k \<le> length s"
  by (auto simp: prefix_marker_at_def dest: prefix_length_le split: if_splits)

definition turn_text :: "string \<Rightarrow> nat \<Rightarrow> string" where
  "turn_text body line = strip_line_end (case scan_next body line of None \<Rightarrow> body | Some (k, l) \<Rightarrow> take k body)"

function parse_turns ::
  "(nat \<Rightarrow> bool) \<Rightarrow> string \<Rightarrow> nat \<Rightarrow> ds4_prompt_prefix_turn list \<Rightarrow> prefix_error + ds4_prompt_prefix_turn list" where
  "parse_turns alloc rest line turns =
     (if rest = [] then Inr turns
      else case prefix_marker_at rest of
        None \<Rightarrow> Inl (MustStart line)
      | Some (r, marker_len) \<Rightarrow>
          if r \<noteq> expected_role (length turns) then Inl (ExpectedRole line (expected_role (length turns)))
          else
            let body = skip_blank (drop marker_len rest);
                t = turn_text body line
            in if t = [] then Inl (EmptyTurn line r)
               else if length turns = UINT64_MAX div sizeof_turn then Inl TooManyTurns
               else if \<not> alloc (2 * length turns) then Inl OutOfMemory
               else if \<not> alloc (2 * length turns + 1) then Inl OutOfMemory
               else
                 let turns' = turns @ [\<lparr>role = r, content = t\<rparr>]
                 in case scan_next body line of
                      None \<Rightarrow> Inr turns'
                    | Some (k, l) \<Rightarrow> parse_turns alloc (drop k body) l turns')"
  by pat_completeness auto
termination
proof (relation "measure (\<lambda>(alloc, rest, line, turns). length rest)")
  fix alloc rest line turns p r n body t turns' q k l
  assume a: "prefix_marker_at rest = Some p" "(r, n) = p"
    "body = skip_blank (drop n rest)" "scan_next body line = Some q" "(k, l) = q"
  have "length body \<le> length rest - n" using a(3) length_skip_blank [of "drop n rest"] by simp
  moreover have "0 < k \<and> k < length body" using a(4,5) scan_next_bound by auto
  moreover have "length body \<le> length rest" using calculation(1) by simp
  ultimately have "length (drop k body) < length rest" unfolding length_drop by arith
  then show "((alloc, drop k body, l, turns'), alloc, rest, line, turns)
      \<in> measure (\<lambda>(alloc, rest, line, turns). length rest)" by simp
qed simp

declare parse_turns.simps [simp del]

definition byte_order_mark :: string where
  "byte_order_mark = [CHR 0xEF, CHR 0xBB, CHR 0xBF]"

definition ds4_prompt_prefix_parse ::
  "(nat \<Rightarrow> bool) \<Rightarrow> bool \<Rightarrow> string option \<Rightarrow> prefix_error + ds4_prompt_prefix_turn list" where
  "ds4_prompt_prefix_parse alloc has_out data =
     (if \<not> has_out then Inl InvalidOutput
      else case data of
        None \<Rightarrow> Inl EmptyFile
      | Some d \<Rightarrow>
          if d = [] then Inl EmptyFile
          else if nul \<in> set d then Inl ContainsNul
          else
            let rest = (if prefix byte_order_mark d then drop 3 d else d)
            in case parse_turns alloc rest 1 [] of
                 Inl e \<Rightarrow> Inl e
               | Inr turns \<Rightarrow>
                   if turns = [] then Inl NoTurns
                   else if role (last turns) \<noteq> DS4_PROMPT_PREFIX_ASSISTANT then Inl MustEndAssistant
                   else Inr turns)"

section \<open>Loading and appending\<close>

record prefix_file =
  open_ok :: bool
  seek_end_ok :: bool
  file_size :: int
  rewind_ok :: bool
  buffer_ok :: bool
  file_data :: "string option"
  close_ok :: bool

datatype load_error =
    InvalidPath
  | CannotOpen
  | CannotSeek
  | CannotSize
  | CannotRewind
  | LoadOutOfMemory
  | CannotRead
  | CannotClose
  | ParseFailed string prefix_error

definition ds4_prompt_prefix_load ::
  "prefix_file \<Rightarrow> (nat \<Rightarrow> bool) \<Rightarrow> bool \<Rightarrow> string option \<Rightarrow> load_error + ds4_prompt_prefix_turn list" where
  "ds4_prompt_prefix_load f alloc has_out path =
     (case path of None \<Rightarrow> Inl InvalidPath | Some p \<Rightarrow>
        if \<not> has_out \<or> p = [] then Inl InvalidPath
        else if \<not> open_ok f then Inl CannotOpen
        else if \<not> seek_end_ok f then Inl CannotSeek
        else if file_size f < 0 \<or> int UINT64_MAX - 1 < file_size f then Inl CannotSize
        else if \<not> rewind_ok f then Inl CannotRewind
        else if \<not> buffer_ok f then Inl LoadOutOfMemory
        else
          let bytes = (if file_size f = 0 then Some [] else file_data f)
          in case bytes of None \<Rightarrow> Inl CannotRead | Some d \<Rightarrow>
               if length d \<noteq> nat (file_size f) then Inl CannotRead
               else if \<not> close_ok f then Inl CannotClose
               else case ds4_prompt_prefix_parse alloc has_out (Some d) of
                      Inl e \<Rightarrow> Inl (ParseFailed p e)
                    | Inr turns \<Rightarrow> Inr turns)"

text \<open>\<open>append_message\<close> is the engine's chat template, \<open>eos\<close> its end token.\<close>

definition append_turn ::
  "('tok list \<Rightarrow> string \<Rightarrow> string \<Rightarrow> 'tok list) \<Rightarrow> bool \<Rightarrow> 'tok \<Rightarrow> 'tok list \<Rightarrow> ds4_prompt_prefix_turn \<Rightarrow> 'tok list" where
  "append_turn append_message glm_dsa eos toks turn =
     (let assistant = (role turn = DS4_PROMPT_PREFIX_ASSISTANT);
          toks' = append_message toks (if assistant then ''assistant'' else ''user'') (content turn)
      in if assistant \<and> \<not> glm_dsa then toks' @ [eos] else toks')"

definition ds4_prompt_prefix_append ::
  "('tok list \<Rightarrow> string \<Rightarrow> string \<Rightarrow> 'tok list) \<Rightarrow> bool \<Rightarrow> 'tok \<Rightarrow> 'tok list \<Rightarrow>
   ds4_prompt_prefix_turn list option \<Rightarrow> 'tok list" where
  "ds4_prompt_prefix_append append_message glm_dsa eos toks pre =
     (case pre of None \<Rightarrow> toks | Some turns \<Rightarrow> foldl (append_turn append_message glm_dsa eos) toks turns)"

section \<open>What a parsed prefix looks like\<close>

definition no_marker_line :: "string \<Rightarrow> bool" where
  "no_marker_line s \<longleftrightarrow> (\<forall>i<length s. s ! i = newline \<longrightarrow> prefix_marker_at (drop (Suc i) s) = None)"

definition wf_turns :: "ds4_prompt_prefix_turn list \<Rightarrow> bool" where
  "wf_turns turns \<longleftrightarrow> (\<forall>i<length turns. role (turns ! i) = expected_role i \<and> content (turns ! i) \<noteq> [] \<and>
     no_marker_line (content (turns ! i)))"

lemma no_marker_line_Nil [simp]: "no_marker_line []"
  by (simp add: no_marker_line_def)

lemma marker_Nil [simp]: "prefix_marker_at [] = None"
  by (simp add: prefix_marker_at_def)

lemma no_marker_line_Cons:
  "no_marker_line (c # s) \<longleftrightarrow> (c = newline \<longrightarrow> prefix_marker_at s = None) \<and> no_marker_line s"
  unfolding no_marker_line_def length_Cons All_less_Suc2 nth_Cons_0 nth_Cons_Suc drop_Suc_Cons drop_0 by (rule refl)

lemma marker_mono: "prefix_marker_at s = None \<Longrightarrow> prefix t s \<Longrightarrow> prefix_marker_at t = None"
  by (auto simp: prefix_marker_at_def dest: prefix_order.trans split: if_splits)

lemma no_marker_line_prefix: "no_marker_line s \<Longrightarrow> prefix t s \<Longrightarrow> no_marker_line t"
proof (induction t arbitrary: s)
  case (Cons c t)
  from Cons.prems(2) obtain s' where "s = c # s'" "prefix t s'" by (cases s) auto
  with Cons show ?case using marker_mono by (auto simp: no_marker_line_Cons)
qed simp

lemma prefix_strip_line_end: "prefix (strip_line_end s) s"
  unfolding strip_line_end_def by (auto simp: Let_def intro: prefix_order.trans [OF prefixeq_butlast])
  
lemma marker_no_newline:
  "newline \<notin> set m \<Longrightarrow> prefix m (xs @ newline # ys) \<longleftrightarrow> prefix m xs"
  by (induction m arbitrary: xs) (case_tac xs; auto)+

lemma marker_at_newline:
  "prefix_marker_at (xs @ newline # ys) = prefix_marker_at xs"
  by (simp add: prefix_marker_at_def marker_no_newline)

lemma scan_next_None: "scan_next s line = None \<Longrightarrow> no_marker_line s"
proof (induction s line rule: scan_next.induct)
  case (2 c cs line)
  then show ?case
    by (cases "cs = []") (auto simp: no_marker_line_Cons simp del: not_None_eq split: if_splits)
qed simp

text \<open>What precedes the next marker is a line end, and has no marker at a line start itself.\<close>

lemma scan_next_Some:
  "scan_next s line = Some (k, l) \<Longrightarrow>
     \<exists>t. take k s = t @ [newline] \<and> no_marker_line t \<and> prefix_marker_at (drop k s) \<noteq> None \<and>
       l = line + Suc (count_list t newline)"
proof (induction s line arbitrary: k l rule: scan_next.induct)
  case (2 c cs line)
  show ?case
  proof (cases "c = newline \<and> cs \<noteq> [] \<and> prefix_marker_at cs \<noteq> None")
    case True
    with "2.prems" show ?thesis
      by (intro exI [of _ "[]"]) (auto simp: no_marker_line_def)
  next
    case False
    define line' where "line' = (if c = newline then Suc line else line)"
    from False "2.prems" obtain k' where k': "k = Suc k'" "scan_next cs line' = Some (k', l)"
      by (auto simp: line'_def split: if_splits)
    from False "2.IH" k'(2) obtain t where t: "take k' cs = t @ [newline]" "no_marker_line t"
        "prefix_marker_at (drop k' cs) \<noteq> None" "l = line' + Suc (count_list t newline)"
      by (fastforce simp: line'_def split: if_splits)
    have "prefix_marker_at t = None" if "c = newline"
    proof -
      have "cs = t @ newline # drop k' cs" using t(1) by (metis append.assoc append_Cons append_Nil append_take_drop_id)
      moreover have "cs \<noteq> []" using k'(2) by auto
      ultimately show ?thesis using False that by (metis marker_at_newline not_Some_eq)
    qed
    with t k'(1) show ?thesis
      by (intro exI [of _ "c # t"]) (auto simp: no_marker_line_Cons line'_def)
  qed
qed simp

lemma strip_line_end_newline: "strip_line_end (t @ [newline]) = (if t \<noteq> [] \<and> last t = carriage_return then butlast t else t)"
  by (simp add: strip_line_end_def)

lemma turn_text_no_marker: "no_marker_line (turn_text body line)"
proof (cases "scan_next body line")
  case None
  then show ?thesis
    using scan_next_None no_marker_line_prefix [OF _ prefix_strip_line_end] by (simp add: turn_text_def)
next
  case (Some p)
  obtain k l where p: "p = (k, l)" by fastforce
  with Some scan_next_Some obtain t where "take k body = t @ [newline]" "no_marker_line t" by blast
  then show ?thesis
    using Some p
    by (auto simp: turn_text_def strip_line_end_newline intro: no_marker_line_prefix prefixeq_butlast)
qed

lemma wf_turns_snoc:
  "wf_turns (turns @ [t]) \<longleftrightarrow> wf_turns turns \<and> role t = expected_role (length turns) \<and> content t \<noteq> [] \<and>
     no_marker_line (content t)"
  by (auto simp: wf_turns_def nth_append less_Suc_eq)

text \<open>One turn of the loop: where the remaining text splits, and the equation when nothing is wrong.\<close>

definition turn_ok :: "(nat \<Rightarrow> bool) \<Rightarrow> ds4_prompt_prefix_role \<Rightarrow> string \<Rightarrow> nat \<Rightarrow> ds4_prompt_prefix_turn list \<Rightarrow> bool" where
  "turn_ok alloc r body line turns \<longleftrightarrow> r = expected_role (length turns) \<and> turn_text body line \<noteq> [] \<and>
     length turns \<noteq> UINT64_MAX div sizeof_turn \<and> alloc (2 * length turns) \<and> alloc (2 * length turns + 1)"

lemma turn_eta [simp]: "\<lparr>role = role t, content = content t\<rparr> = t"
  by simp

lemma parse_turns_step:
  assumes "prefix_marker_at rest = Some (r, n)" and "turn_ok alloc r (skip_blank (drop n rest)) line turns"
  shows "parse_turns alloc rest line turns =
    (let body = skip_blank (drop n rest); turns' = turns @ [\<lparr>role = r, content = turn_text body line\<rparr>]
     in case scan_next body line of None \<Rightarrow> Inr turns' | Some (k, l) \<Rightarrow> parse_turns alloc (drop k body) l turns')"
proof -
  have "rest \<noteq> []" using assms(1) by auto
  with assms show ?thesis
    by (subst parse_turns.simps) (simp add: turn_ok_def Let_def)
qed

lemma parse_turns_stop:
  assumes "prefix_marker_at rest = Some (r, n)" and "\<not> turn_ok alloc r (skip_blank (drop n rest)) line turns"
  shows "\<exists>e. parse_turns alloc rest line turns = Inl e \<and>
    e \<in> {ExpectedRole line (expected_role (length turns)), EmptyTurn line r, TooManyTurns, OutOfMemory} \<and>
    (e = ExpectedRole line (expected_role (length turns)) \<longrightarrow> r \<noteq> expected_role (length turns))"
proof -
  have "rest \<noteq> []" using assms(1) by auto
  with assms show ?thesis
    by (subst parse_turns.simps) (auto simp: turn_ok_def Let_def)
qed

lemma turn_head:
  assumes "prefix_marker_at rest = Some (r, n)"
  obtains h where "rest = h @ skip_blank (drop n rest)" and "newline \<notin> set h"
proof -
  let ?h = "take n rest @ (case drop n rest of c # cs \<Rightarrow> if c = CHR '' '' \<or> c = CHR 0x09 then [c] else [] | [] \<Rightarrow> [])"
  have "rest = take n rest @ drop n rest" by simp
  then have "rest = ?h @ skip_blank (drop n rest)"
    by (cases "drop n rest") (auto simp: skip_blank_def simp del: append_take_drop_id intro: trans)
  moreover have "newline \<notin> set ?h"
    using assms by (auto simp: prefix_marker_at_def prefix_def split: list.splits if_splits)
  ultimately show ?thesis by (rule that)
qed

lemma set_strip_line_end: "set (strip_line_end s) \<subseteq> set s"
  by (rule set_mono_prefix [OF prefix_strip_line_end])

lemma turn_text_subset: "set (turn_text body line) \<subseteq> set body"
  unfolding turn_text_def using set_strip_line_end set_take_subset by (fastforce split: option.splits)

lemma parse_turns_wf:
  "parse_turns alloc rest line turns = Inr ts \<Longrightarrow> wf_turns turns \<Longrightarrow>
     wf_turns ts \<and> (\<forall>t\<in>set ts. t \<in> set turns \<or> set (content t) \<subseteq> set rest)"
proof (induction alloc rest line turns rule: parse_turns.induct)
  case (1 alloc rest line turns)
  show ?case
  proof (cases "rest = []")
    case True
    with "1.prems" show ?thesis by (simp add: parse_turns.simps [of alloc "[]"])
  next
    case ne: False
    with "1.prems"(1) obtain r n where m: "prefix_marker_at rest = Some (r, n)"
      by (auto simp: parse_turns.simps [of alloc rest] split: option.splits)
    let ?body = "skip_blank (drop n rest)"
    let ?turns = "turns @ [\<lparr>role = r, content = turn_text ?body line\<rparr>]"
    have ok: "turn_ok alloc r ?body line turns"
      using parse_turns_stop [OF m] "1.prems"(1) by fastforce
    note step = parse_turns_step [OF m ok]
    note g = ok [unfolded turn_ok_def]
    obtain h where h: "rest = h @ ?body" using m by (rule turn_head)
    have body: "set ?body \<subseteq> set rest" by (metis Un_upper2 h set_append)
    with turn_text_subset [of ?body line] have sub: "set (turn_text ?body line) \<subseteq> set rest" by blast
    have wf: "wf_turns ?turns" using "1.prems"(2) g turn_text_no_marker by (simp add: wf_turns_snoc)
    show ?thesis
    proof (cases "scan_next ?body line")
      case None
      with "1.prems"(1) step have "ts = ?turns" by (simp add: Let_def)
      with wf sub show ?thesis by auto
    next
      case (Some p)
      obtain k l where p: "p = (k, l)" by fastforce
      with Some "1.prems"(1) step have rec: "parse_turns alloc (drop k ?body) l ?turns = Inr ts"
        by (simp add: Let_def)
      have "wf_turns ts \<and> (\<forall>t\<in>set ts. t \<in> set ?turns \<or> set (content t) \<subseteq> set (drop k ?body))"
        using "1.IH" [OF ne m refl _ refl refl _ _ _ _ refl Some p [symmetric]] rec wf g by simp
      moreover have "set (drop k ?body) \<subseteq> set rest" using body set_drop_subset by fastforce
      ultimately show ?thesis using sub by fastforce
    qed
  qed
qed

text \<open>
  A prefix the parser accepts starts with a user turn, alternates, ends with an assistant turn
  (so it has an even, positive number of turns), and every turn has a non-empty text without a NUL
  byte and without a line that starts with a marker.
\<close>

theorem parsed_prefix_well_formed:
  assumes "ds4_prompt_prefix_parse alloc has_out data = Inr ts"
  shows "ts \<noteq> [] \<and> even (length ts) \<and> wf_turns ts \<and> (\<forall>t\<in>set ts. nul \<notin> set (content t))"
proof -
  from assms obtain d where d: "data = Some d" "d \<noteq> []" "nul \<notin> set d"
    by (auto simp: ds4_prompt_prefix_parse_def split: if_splits option.splits)
  let ?rest = "if prefix byte_order_mark d then drop 3 d else d"
  from assms d have p: "parse_turns alloc ?rest 1 [] = Inr ts" and ne: "ts \<noteq> []"
      and last: "role (last ts) = DS4_PROMPT_PREFIX_ASSISTANT"
    by (auto simp: ds4_prompt_prefix_parse_def Let_def split: if_splits sum.splits)
  have wf: "wf_turns ts" "\<forall>t\<in>set ts. set (content t) \<subseteq> set ?rest"
    using parse_turns_wf [OF p] by (auto simp: wf_turns_def)
  have "set ?rest \<subseteq> set d" using set_drop_subset [of 3 d] by simp
  then have "\<forall>t\<in>set ts. nul \<notin> set (content t)" using wf(2) d(3) by blast
  moreover have "even (length ts)"
  proof -
    have "expected_role (length ts - 1) = DS4_PROMPT_PREFIX_ASSISTANT"
      using wf(1) ne last by (simp add: wf_turns_def last_conv_nth)
    then show ?thesis using ne by (auto simp: expected_role_def split: if_splits)
  qed
  ultimately show ?thesis using ne wf(1) by blast
qed

section \<open>Round trip\<close>

definition marker_text :: "ds4_prompt_prefix_role \<Rightarrow> string" where
  "marker_text r = (case r of DS4_PROMPT_PREFIX_USER \<Rightarrow> ''USER:'' | DS4_PROMPT_PREFIX_ASSISTANT \<Rightarrow> ''ASSISTANT:'')"

definition render_turn :: "ds4_prompt_prefix_turn \<Rightarrow> string" where
  "render_turn t = marker_text (role t) @ CHR '' '' # content t @ [newline]"

definition render_turns :: "ds4_prompt_prefix_turn list \<Rightarrow> string" where
  "render_turns ts = concat (map render_turn ts)"

lemma marker_at_marker_text:
  "prefix_marker_at (marker_text r @ s) = Some (r, length (marker_text r))"
  by (cases r) (simp_all add: prefix_marker_at_def marker_text_def)

lemma scan_next_no_marker: "no_marker_line s \<Longrightarrow> scan_next s line = None"
  by (induction s arbitrary: line) (auto simp: no_marker_line_Cons)

lemma scan_next_stop:
  assumes "no_marker_line c" and "prefix_marker_at r \<noteq> None"
  shows "scan_next (c @ newline # r) line = Some (Suc (length c), line + Suc (count_list c newline))"
  using assms
proof (induction c arbitrary: line)
  case Nil
  then have "r \<noteq> []" by auto
  with Nil show ?case by auto
next
  case (Cons x xs)
  then show ?case by (auto simp: no_marker_line_Cons marker_at_newline)
qed

lemma no_marker_line_newline: "no_marker_line c \<Longrightarrow> no_marker_line (c @ [newline])"
proof (induction c)
  case (Cons x xs)
  then show ?case using marker_at_newline [of xs "[]"] by (simp add: no_marker_line_Cons)
qed (simp add: no_marker_line_Cons)

lemma parse_turns_render:
  assumes "wf_turns (turns @ ts)" and "\<forall>t\<in>set ts. last (content t) \<noteq> carriage_return"
    and "length turns + length ts < UINT64_MAX div sizeof_turn"
  shows "parse_turns (\<lambda>_. True) (render_turns ts) line turns = Inr (turns @ ts)"
  using assms
proof (induction ts arbitrary: turns line)
  case Nil
  then show ?case by (simp add: render_turns_def parse_turns.simps)
next
  case (Cons t ts)
  let ?rest = "render_turns (t # ts)"
  have wf1: "wf_turns ((turns @ [t]) @ ts)" using Cons.prems(1) by simp
  then have t: "role t = expected_role (length turns)" "content t \<noteq> []" "no_marker_line (content t)"
    unfolding wf_turns_def by (auto dest!: spec [of _ "length turns"] simp: nth_append)
  have rest: "?rest = marker_text (role t) @ CHR '' '' # content t @ newline # render_turns ts"
    by (simp add: render_turns_def render_turn_def)
  have m: "prefix_marker_at ?rest = Some (role t, length (marker_text (role t)))"
    unfolding rest by (rule marker_at_marker_text)
  have body: "skip_blank (drop (length (marker_text (role t))) ?rest) = content t @ newline # render_turns ts"
    unfolding rest by (simp add: skip_blank_def)
  have cr: "strip_line_end (content t @ [newline]) = content t"
    using Cons.prems(2) t(2) by (simp add: strip_line_end_newline)
  have n: "length turns \<noteq> UINT64_MAX div sizeof_turn" using Cons.prems(3) by simp
  show ?case
  proof (cases ts)
    case Nil
    have scan: "scan_next (content t @ newline # render_turns ts) line = None"
      using t(3) Nil scan_next_no_marker [OF no_marker_line_newline] by (simp add: render_turns_def)
    then have "turn_text (content t @ newline # render_turns ts) line = content t"
      using Nil cr by (simp add: turn_text_def render_turns_def)
    then show ?thesis
      using parse_turns_step [OF m, unfolded body] scan Nil t n by (simp add: turn_ok_def)
  next
    case (Cons u us)
    have "prefix_marker_at (render_turns ts) \<noteq> None"
      using Cons marker_at_marker_text by (simp add: render_turns_def render_turn_def)
    then have scan: "scan_next (content t @ newline # render_turns ts) line =
        Some (Suc (length (content t)), line + Suc (count_list (content t) newline))"
      using t(3) by (intro scan_next_stop)
    have tt: "turn_text (content t @ newline # render_turns ts) line = content t"
      using cr by (simp add: turn_text_def scan)
    have "parse_turns (\<lambda>_. True) (render_turns ts) l (turns @ [t]) = Inr ((turns @ [t]) @ ts)" for l
      using Cons.prems(2,3) wf1 by (intro Cons.IH) auto
    then show ?thesis
      using parse_turns_step [OF m, unfolded body, of "\<lambda>_. True" line turns] scan tt t(2,3) n
      by (simp add: turn_ok_def t(1) [symmetric])
  qed
qed

text \<open>
  C7: Writing turns out and parsing them gives the same turns back, for every even, alternating
  sequence of non-empty texts without NUL bytes, marker lines or a trailing carriage return.
\<close>

theorem prefix_round_trip:
  assumes "ts \<noteq> []" and "even (length ts)" and "wf_turns ts"
    and "\<forall>t\<in>set ts. nul \<notin> set (content t) \<and> last (content t) \<noteq> carriage_return"
    and "length ts < UINT64_MAX div sizeof_turn"
  shows "ds4_prompt_prefix_parse (\<lambda>_. True) True (Some (render_turns ts)) = Inr ts"
proof -
  obtain t us where ts: "ts = t # us" using assms(1) by (cases ts) auto
  have r0: "role t = DS4_PROMPT_PREFIX_USER"
    using assms(3) ts by (auto simp: wf_turns_def expected_role_def)
  then have head: "render_turns ts = ''USER:'' @ CHR '' '' # content t @ newline # render_turns us"
    using ts by (simp add: render_turns_def render_turn_def marker_text_def)
  have bom: "\<not> prefix byte_order_mark (render_turns ts)"
    by (simp add: head byte_order_mark_def)
  have nulfree: "nul \<notin> set (render_turns ts)"
    using assms(4) by (auto simp: render_turns_def render_turn_def marker_text_def
        split: ds4_prompt_prefix_role.splits)
  have "role (last ts) = expected_role (length ts - 1)"
    using assms(1,3) by (simp add: wf_turns_def last_conv_nth)
  then have last: "role (last ts) = DS4_PROMPT_PREFIX_ASSISTANT"
    using assms(1,2) by (auto simp: expected_role_def)
  have "parse_turns (\<lambda>_. True) (render_turns ts) 1 [] = Inr ([] @ ts)"
    using assms by (intro parse_turns_render) auto
  then show ?thesis
    using assms(1) bom nulfree last head by (simp add: ds4_prompt_prefix_parse_def)
qed

lemma prefix_round_trip_witness:
  "ds4_prompt_prefix_parse (\<lambda>_. True) True (Some (render_turns
      [\<lparr>role = DS4_PROMPT_PREFIX_USER, content = ''hi''\<rparr>, \<lparr>role = DS4_PROMPT_PREFIX_ASSISTANT, content = ''USER: no''\<rparr>]))
   = Inr [\<lparr>role = DS4_PROMPT_PREFIX_USER, content = ''hi''\<rparr>, \<lparr>role = DS4_PROMPT_PREFIX_ASSISTANT, content = ''USER: no''\<rparr>]"
  by (rule prefix_round_trip)
     (auto simp: wf_turns_def no_marker_line_def expected_role_def less_Suc_eq sizeof_turn_def numeral_2_eq_2)

lemma parsed_prefix_well_formed_witness:
  "wf_turns [\<lparr>role = DS4_PROMPT_PREFIX_USER, content = ''a''\<rparr>, \<lparr>role = DS4_PROMPT_PREFIX_ASSISTANT, content = ''b''\<rparr>]"
proof -
  have "ds4_prompt_prefix_parse (\<lambda>_. True) True (Some (''USER:a'' @ newline # ''ASSISTANT: b'')) =
      Inr [\<lparr>role = DS4_PROMPT_PREFIX_USER, content = ''a''\<rparr>, \<lparr>role = DS4_PROMPT_PREFIX_ASSISTANT, content = ''b''\<rparr>]"
    by (simp add: ds4_prompt_prefix_parse_def byte_order_mark_def parse_turns.simps prefix_marker_at_def
        skip_blank_def turn_text_def strip_line_end_def expected_role_def sizeof_turn_def Let_def)
  from parsed_prefix_well_formed [OF this] show ?thesis by blast
qed

section \<open>Error positions\<close>

definition role_at :: "string \<Rightarrow> ds4_prompt_prefix_role option" where
  "role_at s = map_option fst (prefix_marker_at s)"

lemma parse_turns_error_line:
  "parse_turns alloc rest line turns = Inl e \<Longrightarrow>
     (case e of
        MustStart n \<Rightarrow> n = line \<and> role_at rest = None
      | ExpectedRole n r \<Rightarrow> \<exists>pre post. rest = pre @ post \<and> n = line + count_list pre newline \<and>
          (\<exists>r'. role_at post = Some r' \<and> r' \<noteq> r)
      | EmptyTurn n r \<Rightarrow> \<exists>pre post. rest = pre @ post \<and> n = line + count_list pre newline \<and> role_at post = Some r
      | _ \<Rightarrow> True)"
proof (induction alloc rest line turns rule: parse_turns.induct)
  case (1 alloc rest line turns)
  have base: "\<exists>pre post. rest = pre @ post \<and> count_list pre newline = 0 \<and> P post" if "P rest" for P
    using that by (intro exI [of _ "[]"] exI [of _ rest]) simp
  show ?case
  proof (cases "prefix_marker_at rest")
    case None
    with "1.prems" show ?thesis
      by (auto simp: parse_turns.simps [of alloc rest] role_at_def split: if_splits)
  next
    case (Some q)
    obtain r n where m: "prefix_marker_at rest = Some (r, n)" using Some by (cases q) auto
    then have ne: "rest \<noteq> []" and role: "role_at rest = Some r" by (auto simp: role_at_def)
    let ?body = "skip_blank (drop n rest)"
    let ?turns = "turns @ [\<lparr>role = r, content = turn_text ?body line\<rparr>]"
    show ?thesis
    proof (cases "turn_ok alloc r ?body line turns")
      case False
      from parse_turns_stop [OF m False] "1.prems" role show ?thesis
        by (auto intro!: base)
    next
      case True
      with "1.prems" parse_turns_step [OF m True] obtain k l where s: "scan_next ?body line = Some (k, l)"
        by (auto simp: Let_def split: option.splits)
      with "1.prems" parse_turns_step [OF m True] have rec: "parse_turns alloc (drop k ?body) l ?turns = Inl e"
        by (simp add: Let_def)
      obtain h where h: "rest = h @ ?body" "newline \<notin> set h" using m by (rule turn_head)
      obtain t where t: "take k ?body = t @ [newline]" "prefix_marker_at (drop k ?body) \<noteq> None"
          "l = line + Suc (count_list t newline)"
        using scan_next_Some [OF s] by blast
      let ?pre = "h @ take k ?body"
      have "rest = h @ (take k ?body @ drop k ?body)" using h(1) by simp
      then have pre: "rest = ?pre @ drop k ?body" "l = line + count_list ?pre newline"
        using h(2) t(1,3) by (simp_all add: count_notin)
      have IH: "case e of
          MustStart n \<Rightarrow> n = l \<and> role_at (drop k ?body) = None
        | ExpectedRole n r \<Rightarrow> \<exists>pre post. drop k ?body = pre @ post \<and> n = l + count_list pre newline \<and>
            (\<exists>r'. role_at post = Some r' \<and> r' \<noteq> r)
        | EmptyTurn n r \<Rightarrow> \<exists>pre post. drop k ?body = pre @ post \<and> n = l + count_list pre newline \<and> role_at post = Some r
        | _ \<Rightarrow> True"
        using "1.IH" [OF ne m refl _ refl refl _ _ _ _ refl s refl] rec True [unfolded turn_ok_def] by simp
      have lift: "\<exists>pre post. rest = pre @ post \<and> n' = line + count_list pre newline \<and> P post"
        if "\<exists>pre post. drop k ?body = pre @ post \<and> n' = l + count_list pre newline \<and> P post" for n' P
      proof -
        from that obtain pre' post where "drop k ?body = pre' @ post" "n' = l + count_list pre' newline" "P post"
          by blast
        then show ?thesis using pre
          by (intro exI [of _ "?pre @ pre'"] exI [of _ post]) simp
      qed
      show ?thesis
      proof (cases e)
        case (MustStart n')
        then show ?thesis using IH t(2) by (simp add: role_at_def)
      next
        case (ExpectedRole n' r')
        then show ?thesis using IH by (simp add: lift)
      next
        case (EmptyTurn n' r')
        then show ?thesis using IH by (simp add: lift)
      qed simp_all
    qed
  qed
qed

text \<open>
  The line number in a parse error is the number of the line the error is at: one more than the
  line ends before a text that starts with the offending marker. A file that does not start with a
  marker is always reported at line 1, since every later turn is found by its marker.
\<close>

theorem prefix_error_lines:
  assumes "ds4_prompt_prefix_parse alloc True (Some d) = Inl e"
  shows "case e of
      MustStart n \<Rightarrow> n = 1
    | ExpectedRole n r \<Rightarrow> \<exists>pre post. d = pre @ post \<and> n = 1 + count_list pre newline \<and>
        (\<exists>r'. role_at post = Some r' \<and> r' \<noteq> r)
    | EmptyTurn n r \<Rightarrow> \<exists>pre post. d = pre @ post \<and> n = 1 + count_list pre newline \<and> role_at post = Some r
    | _ \<Rightarrow> True"
proof -
  define rest where "rest = (if prefix byte_order_mark d then drop 3 d else d)"
  obtain bom where d: "d = bom @ rest" and bom: "count_list bom newline = 0"
  proof
    show "d = (if prefix byte_order_mark d then take 3 d else []) @ rest" by (simp add: rest_def)
    show "count_list (if prefix byte_order_mark d then take 3 d else []) newline = 0"
      by (auto simp: byte_order_mark_def prefix_def)
  qed
  have lift: "\<exists>pre post. d = pre @ post \<and> n = 1 + count_list pre newline \<and> P post"
    if rest: "\<exists>pre post. rest = pre @ post \<and> n = 1 + count_list pre newline \<and> P post" for n P
  proof -
    from rest obtain pre post where "rest = pre @ post" "n = 1 + count_list pre newline" "P post" by blast
    then show ?thesis using d bom by (intro exI [of _ "bom @ pre"] exI [of _ post]) simp
  qed
  show ?thesis
  proof (cases "parse_turns alloc rest 1 []")
    case (Inr turns)
    then show ?thesis using assms
      by (auto simp: ds4_prompt_prefix_parse_def rest_def Let_def split: if_splits)
  next
    case (Inl f)
    then have fe: "f = e \<or> e = EmptyFile \<or> e = ContainsNul" using assms
      by (auto simp: ds4_prompt_prefix_parse_def rest_def Let_def split: if_splits)
    note E = parse_turns_error_line [OF Inl]
    show ?thesis
    proof (cases e)
      case (MustStart n)
      then show ?thesis using fe E by auto
    next
      case (ExpectedRole n r)
      then show ?thesis using fe E lift [of n "\<lambda>post. \<exists>r'. role_at post = Some r' \<and> r' \<noteq> r"] by auto
    next
      case (EmptyTurn n r)
      then show ?thesis using fe E lift [of n "\<lambda>post. role_at post = Some r"] by auto
    qed simp_all
  qed
qed

lemma prefix_error_lines_witness:
  "\<exists>pre post. ''USER:a'' @ newline # ''USER:b'' = pre @ post \<and> (2 :: nat) = 1 + count_list pre newline \<and>
     (\<exists>r'. role_at post = Some r' \<and> r' \<noteq> DS4_PROMPT_PREFIX_ASSISTANT)"
proof -
  have "ds4_prompt_prefix_parse (\<lambda>_. True) True (Some (''USER:a'' @ newline # ''USER:b'')) =
      Inl (ExpectedRole 2 DS4_PROMPT_PREFIX_ASSISTANT)"
    by (simp add: ds4_prompt_prefix_parse_def byte_order_mark_def parse_turns.simps prefix_marker_at_def
        skip_blank_def turn_text_def strip_line_end_def expected_role_def sizeof_turn_def Let_def)
  from prefix_error_lines [OF this] show ?thesis by simp
qed

end
