(* ===== verification/GpuArgs.thy ===== *)
theory GpuArgs
  imports CText
begin

text \<open>
  \<open>ds4_gpu_args.c\<close>: the parser of \<open>--gpu-vram\<close> and \<open>--gpu-devices\<close> and the layout line that echoes
  its result. Error messages are constructors with the text they quote. The CUDA probe of the
  \<open>auto\<close> form is a parameter, and so is the build: \<open>None\<close> where the code is compiled without CUDA.
\<close>

section \<open>Comma-separated lists\<close>

datatype csv_error =
    EmptyValue
  | NotANumber string
  | OutOfRange string int
  | TooManyEntries nat
  | EmptyEntry string
  | JunkAfterValue string
  | NoValues

definition is_blank :: "char \<Rightarrow> bool" where
  "is_blank c \<longleftrightarrow> c = CHR '' '' \<or> c = CHR 0x09"

function csv_loop :: "nat \<Rightarrow> int \<Rightarrow> string \<Rightarrow> int list \<Rightarrow> csv_error + int list" where
  "csv_loop max_count max_value p acc =
     (if p = [] then (if acc = [] then Inl NoValues else Inr acc)
      else
        let p1 = dropWhile is_blank p; (v, erange, end_p) = strtol p1
        in if end_p = p1 then Inl (NotANumber p1)
           else if erange \<or> v < 0 \<or> max_value < v then Inl (OutOfRange p1 max_value)
           else if max_count \<le> length acc then Inl (TooManyEntries max_count)
           else
             let acc' = acc @ [v]
             in case dropWhile is_blank end_p of
                  [] \<Rightarrow> Inr acc'
                | c # r \<Rightarrow>
                    if c = CHR '','' then
                      (if r = [] \<or> hd r = CHR '','' then Inl (EmptyEntry r)
                       else csv_loop max_count max_value r acc')
                    else Inl (JunkAfterValue (c # r)))"
  by pat_completeness auto
termination
proof (relation "measure (\<lambda>(max_count, max_value, p, acc). length p)")
  fix max_count :: nat and max_value :: int and p :: string and acc acc' :: "int list"
    and p1 x v y erange end_p c r
  assume a: "p1 = dropWhile is_blank p" "x = strtol p1" "(v, y) = x" "(erange, end_p) = y" "end_p \<noteq> p1"
    and r: "dropWhile is_blank end_p = c # r"
  have "strict_suffix end_p p1" using a strtol_progress by metis
  then have "length end_p < length p1" by (auto simp: strict_suffix_def suffix_def)
  also have "length p1 \<le> length p" using a(1) by (simp add: length_dropWhile_le)
  finally have "length end_p < length p" .
  moreover have "length (c # r) \<le> length end_p" using r length_dropWhile_le by metis
  ultimately show "((max_count, max_value, r, acc'), max_count, max_value, p, acc)
      \<in> measure (\<lambda>(max_count, max_value, p, acc). length p)" by simp
qed simp

declare csv_loop.simps [simp del]

definition parse_csv_int_list :: "string option \<Rightarrow> nat \<Rightarrow> int \<Rightarrow> csv_error + int list" where
  "parse_csv_int_list s max_count max_value =
     (case s of None \<Rightarrow> Inl EmptyValue | Some t \<Rightarrow>
        if t = [] then Inl EmptyValue else csv_loop max_count max_value t [])"

section \<open>The two flags\<close>

record ds4_gpu_config =
  cfg_device_indices :: "int list"
  cfg_vram_bytes :: "nat list"
  cfg_safety_margin_bytes :: nat

definition cfg_n_gpus :: "ds4_gpu_config \<Rightarrow> nat" where
  "cfg_n_gpus c = length (cfg_device_indices c)"

datatype gpu_arg_error =
    DevicesArg csv_error
  | BothArgsNull
  | ZeroConflictsWithDevices
  | AutoRequiresCuda
  | ProbeFailed string
  | VramArg csv_error
  | CountMismatch nat nat

abbreviation DS4_MAX_GPUS :: nat where "DS4_MAX_GPUS \<equiv> 16"
abbreviation DS4_GPU_ARGS_MAX_VRAM_GB :: int where "DS4_GPU_ARGS_MAX_VRAM_GB \<equiv> 16384"
abbreviation DS4_GPU_ARGS_MAX_DEVICE_INDEX :: int where "DS4_GPU_ARGS_MAX_DEVICE_INDEX \<equiv> 1023"

definition safety_margin :: nat where
  "safety_margin = 512 * 1024 * 1024"

definition explicit_config :: "int list \<Rightarrow> int list \<Rightarrow> ds4_gpu_config" where
  "explicit_config devs vram =
     \<lparr>cfg_device_indices = (if devs \<noteq> [] then devs else map int [0..<length vram]),
      cfg_vram_bytes = map (\<lambda>v. nat v * 1024 * 1024 * 1024) vram,
      cfg_safety_margin_bytes = safety_margin\<rparr>"

text \<open>
  The result is the configuration with \<open>out_skip_cuda\<close>. The probe gets the device filter and the
  safety margin, as in \<open>ds4_gpu_args_probe_auto_cuda\<close>.
\<close>

definition parse_gpu_vram_arg ::
  "(int list option \<Rightarrow> nat \<Rightarrow> string + ds4_gpu_config) option \<Rightarrow> string option \<Rightarrow> string option \<Rightarrow>
   gpu_arg_error + (ds4_gpu_config \<times> bool)" where
  "parse_gpu_vram_arg cuda vram_arg devices_arg =
     (let empty = \<lparr>cfg_device_indices = [], cfg_vram_bytes = [], cfg_safety_margin_bytes = safety_margin\<rparr>
      in case (case devices_arg of None \<Rightarrow> Inr []
               | Some _ \<Rightarrow> parse_csv_int_list devices_arg DS4_MAX_GPUS DS4_GPU_ARGS_MAX_DEVICE_INDEX) of
           Inl e \<Rightarrow> Inl (DevicesArg e)
         | Inr devs \<Rightarrow>
             if vram_arg = None \<and> devices_arg = None then Inl BothArgsNull
             else
               let vram = (case vram_arg of None \<Rightarrow> ''auto'' | Some s \<Rightarrow> s)
               in if vram = ''0'' then
                    (if devices_arg \<noteq> None then Inl ZeroConflictsWithDevices else Inr (empty, True))
                  else if vram = ''auto'' then
                    (case cuda of None \<Rightarrow> Inl AutoRequiresCuda
                     | Some probe \<Rightarrow>
                         (case probe (if devs \<noteq> [] then Some devs else None) safety_margin of
                            Inl e \<Rightarrow> Inl (ProbeFailed e) | Inr c \<Rightarrow> Inr (c, False)))
                  else case parse_csv_int_list (Some vram) DS4_MAX_GPUS DS4_GPU_ARGS_MAX_VRAM_GB of
                         Inl e \<Rightarrow> Inl (VramArg e)
                       | Inr gbs \<Rightarrow>
                           if devs \<noteq> [] \<and> length devs \<noteq> length gbs
                           then Inl (CountMismatch (length devs) (length gbs))
                           else Inr (explicit_config devs gbs, False))"

section \<open>The layout line\<close>

text \<open>\<open>snprintf\<close> into what is left of the buffer, piece by piece, until a piece does not fit.\<close>

fun emit_pieces :: "nat \<Rightarrow> nat \<Rightarrow> string list \<Rightarrow> nat" where
  "emit_pieces outlen written [] = written"
| "emit_pieces outlen written (p # ps) =
     (if outlen \<le> written + length p then written + length p
      else emit_pieces outlen (written + length p) ps)"

definition layout_pieces :: "(nat \<Rightarrow> string) \<Rightarrow> ds4_gpu_config \<Rightarrow> bool \<Rightarrow> string list" where
  "layout_pieces fmt_gb c was_auto =
     (let n = cfg_n_gpus c; comma = (\<lambda>i. if i = 0 then [] else '','')
      in [''ds4: GPU config: '' @ show_nat n @ '' device'' @ (if n = 1 then [] else ''s'') @ '' ['' ] @
         map (\<lambda>i. comma i @ show_int (cfg_device_indices c ! i)) [0..<n] @
         [''] requested, budgets ''] @
         map (\<lambda>i. comma i @ fmt_gb (cfg_vram_bytes c ! i)) [0..<n] @
         ['' GB; auto='' @ (if was_auto then ''true'' else ''false'')])"

text \<open>The buffer's text (the NUL excluded) and the return value; no result for a null argument.\<close>

definition format_gpu_layout_line ::
  "(nat \<Rightarrow> string) \<Rightarrow> ds4_gpu_config option \<Rightarrow> bool \<Rightarrow> nat \<Rightarrow> (string \<times> nat) option" where
  "format_gpu_layout_line fmt_gb cfg was_auto outlen =
     (case cfg of None \<Rightarrow> None | Some c \<Rightarrow>
        if outlen = 0 then None
        else let ps = layout_pieces fmt_gb c was_auto
             in Some (take (outlen - 1) (concat ps), emit_pieces outlen 0 ps))"

section \<open>Properties of the list parser\<close>

lemma csv_loop_sound:
  "csv_loop max_count max_value p acc = Inr vs \<Longrightarrow> length acc \<le> max_count \<Longrightarrow>
   \<forall>v\<in>set acc. 0 \<le> v \<and> v \<le> max_value \<Longrightarrow>
   vs \<noteq> [] \<and> length vs \<le> max_count \<and> (\<forall>v\<in>set vs. 0 \<le> v \<and> v \<le> max_value)"
proof (induction max_count max_value p acc rule: csv_loop.induct)
  case (1 max_count max_value p acc)
  show ?case
  proof (cases "p = []")
    case True
    with "1.prems" show ?thesis by (auto simp: csv_loop.simps [of _ _ "[]"] split: if_splits)
  next
    case False
    obtain v er e where st: "strtol (dropWhile is_blank p) = (v, er, e)" by (cases "strtol (dropWhile is_blank p)") auto
    from "1.prems"(1) False st have g: "e \<noteq> dropWhile is_blank p" "\<not> (er \<or> v < 0 \<or> max_value < v)"
        "\<not> max_count \<le> length acc"
      by (auto simp: csv_loop.simps [of _ _ p] Let_def split: if_splits)
    have acc: "length (acc @ [v]) \<le> max_count" "\<forall>x\<in>set (acc @ [v]). 0 \<le> x \<and> x \<le> max_value"
      using g "1.prems"(3) by auto
    show ?thesis
    proof (cases "dropWhile is_blank e")
      case Nil
      with "1.prems"(1) False st g have "vs = acc @ [v]" by (simp add: csv_loop.simps [of _ _ p] Let_def)
      with acc show ?thesis by simp
    next
      case (Cons c r)
      with "1.prems"(1) False st g have rec: "c = CHR '',''" "\<not> (r = [] \<or> hd r = CHR '','')"
          "csv_loop max_count max_value r (acc @ [v]) = Inr vs"
        by (auto simp: csv_loop.simps [of _ _ p] Let_def split: if_splits)
      show ?thesis
        by (rule "1.IH" [OF False refl refl st [symmetric] refl g refl Cons rec(1,2,3) acc])
    qed
  qed
qed

fun join_csv :: "string list \<Rightarrow> string" where
  "join_csv [] = []"
| "join_csv [s] = s"
| "join_csv (s # t # ts) = s @ '','' @ join_csv (t # ts)"

definition render_csv :: "int list \<Rightarrow> string" where
  "render_csv vs = join_csv (map (\<lambda>v. show_nat (nat v)) vs)"

lemma show_nat_hd_digit: "isdigit (hd (show_nat n))"
  using show_nat_digits [of n] by (cases "show_nat n") auto

lemma digit_not_blank: "isdigit c \<Longrightarrow> \<not> is_blank c"
  by (auto simp: isdigit_def is_blank_def char_code_def)

lemma drop_blank_show_nat: "dropWhile is_blank (show_nat n @ r) = show_nat n @ r"
  using show_nat_hd_digit [of n] digit_not_blank by (cases "show_nat n") auto

lemma hd_join_csv: "vs \<noteq> [] \<Longrightarrow> isdigit (hd (render_csv vs)) \<and> render_csv vs \<noteq> []"
  using show_nat_hd_digit
  by (cases vs; cases "tl vs") (auto simp: render_csv_def hd_append)

lemma strtol_show_nat:
  assumes "int n \<le> LONG_MAX" and "r = [] \<or> hd r = CHR '',''"
  shows "strtol (show_nat n @ r) = (int n, False, r)"
proof -
  have "r = [] \<or> \<not> isdigit (hd r)" using assms(2) by (auto simp: isdigit_def char_code_def)
  from strtol_digits [OF show_nat_digits show_nat_nonempty this] assms(1) show ?thesis
    by simp
qed

lemma csv_loop_render:
  assumes "vs \<noteq> []" and "\<forall>v\<in>set vs. 0 \<le> v \<and> v \<le> max_value" and "max_value \<le> LONG_MAX"
    and "length acc + length vs \<le> max_count"
  shows "csv_loop max_count max_value (render_csv vs) acc = Inr (acc @ vs)"
  using assms
proof (induction vs arbitrary: acc)
  case Nil
  then show ?case by simp
next
  case (Cons v vs)
  have v: "0 \<le> v" "v \<le> max_value" "int (nat v) \<le> LONG_MAX" using Cons.prems by auto
  have ne: "show_nat (nat v) @ r \<noteq> r" for r by simp
  have len: "\<not> max_count \<le> length acc" using Cons.prems(4) by simp
  show ?case
  proof (cases vs)
    case Nil
    then have "render_csv (v # vs) = show_nat (nat v) @ []" by (simp add: render_csv_def)
    then show ?thesis
      using v len Nil strtol_show_nat [OF v(3), of "[]"] drop_blank_show_nat [of "nat v" "[]"] ne [of "[]"]
      by (simp add: csv_loop.simps [of _ _ "show_nat (nat v)"] Let_def show_nat_nonempty [symmetric])
  next
    case (Cons w ws)
    let ?r = "CHR '','' # render_csv vs"
    have eq: "render_csv (v # vs) = show_nat (nat v) @ ?r" using Cons by (simp add: render_csv_def)
    have hd: "isdigit (hd (render_csv vs))" "render_csv vs \<noteq> []" using hd_join_csv [of vs] Cons by auto
    then have nc: "hd (render_csv vs) \<noteq> CHR '',''" by (auto simp: isdigit_def char_code_def)
    have nb: "dropWhile is_blank ?r = ?r" by (simp add: is_blank_def)
    have "csv_loop max_count max_value (render_csv vs) (acc @ [v]) = Inr ((acc @ [v]) @ vs)"
      using Cons.prems Cons by (intro Cons.IH) auto
    then show ?thesis
      unfolding eq
      using v len hd nc nb strtol_show_nat [OF v(3), of ?r] drop_blank_show_nat [of "nat v" ?r] ne [of ?r]
      by (simp add: csv_loop.simps [of _ _ "show_nat (nat v) @ ?r"] Let_def)
  qed
qed

lemma parse_csv_sound:
  "parse_csv_int_list s max_count max_value = Inr vs \<Longrightarrow>
     vs \<noteq> [] \<and> length vs \<le> max_count \<and> (\<forall>v\<in>set vs. 0 \<le> v \<and> v \<le> max_value)"
  using csv_loop_sound [of max_count max_value _ "[]" vs]
  by (auto simp: parse_csv_int_list_def split: option.splits if_splits)

lemma parse_csv_render:
  assumes "vs \<noteq> []" and "length vs \<le> max_count" and "\<forall>v\<in>set vs. 0 \<le> v \<and> v \<le> max_value"
    and "max_value \<le> LONG_MAX"
  shows "parse_csv_int_list (Some (render_csv vs)) max_count max_value = Inr vs"
  using csv_loop_render [of vs max_value "[]" max_count] hd_join_csv [of vs] assms
  by (simp add: parse_csv_int_list_def)

text \<open>
  An accepted explicit \<open>--gpu-vram\<close> list yields a configuration with one to 16 devices, as many
  budgets as devices, every device index in the range CUDA knows, every budget a whole number of GiB
  that is at most 16 TiB (so the byte counts fit 64 bits), and never asks to skip CUDA.
\<close>

theorem gpu_config_sound:
  assumes "parse_gpu_vram_arg cuda (Some vram) devices = Inr (c, skip)"
    and "vram \<noteq> ''0''" and "vram \<noteq> ''auto''"
  shows "\<not> skip \<and> 1 \<le> cfg_n_gpus c \<and> cfg_n_gpus c \<le> DS4_MAX_GPUS \<and>
    length (cfg_vram_bytes c) = cfg_n_gpus c \<and>
    (\<forall>i\<in>set (cfg_device_indices c). 0 \<le> i \<and> i \<le> DS4_GPU_ARGS_MAX_DEVICE_INDEX) \<and>
    (\<forall>b\<in>set (cfg_vram_bytes c). 1073741824 dvd b \<and> b \<le> 17592186044416)"
proof -
  from assms obtain devs gbs where
    devs: "(case devices of None \<Rightarrow> Inr []
        | Some _ \<Rightarrow> parse_csv_int_list devices DS4_MAX_GPUS DS4_GPU_ARGS_MAX_DEVICE_INDEX) = Inr devs"
    and gbs: "parse_csv_int_list (Some vram) DS4_MAX_GPUS DS4_GPU_ARGS_MAX_VRAM_GB = Inr gbs"
    and len: "devs \<noteq> [] \<longrightarrow> length devs = length gbs"
    and c: "c = explicit_config devs gbs" "\<not> skip"
    by (auto simp: parse_gpu_vram_arg_def Let_def split: sum.splits if_splits)
  have d: "\<forall>i\<in>set devs. 0 \<le> i \<and> i \<le> DS4_GPU_ARGS_MAX_DEVICE_INDEX"
    using devs parse_csv_sound by (auto split: option.splits)
  note g = parse_csv_sound [OF gbs]
  have budget: "1073741824 dvd nat v * 1024 * 1024 * 1024 \<and> nat v * 1024 * 1024 * 1024 \<le> 17592186044416"
    if "v \<in> set gbs" for v
  proof -
    have "nat v \<le> 16384" using g that by auto
    moreover have "nat v * 1024 * 1024 * 1024 = 1073741824 * nat v" by simp
    ultimately show ?thesis by simp
  qed
  show ?thesis
    using c(2) len d g budget by (auto simp: c(1) explicit_config_def cfg_n_gpus_def Suc_le_eq)
qed

lemma gpu_config_sound_witness:
  "parse_gpu_vram_arg None (Some ''40,12'') (Some ''3,1'') =
     Inr (\<lparr>cfg_device_indices = [3, 1], cfg_vram_bytes = [42949672960, 12884901888],
           cfg_safety_margin_bytes = 536870912\<rparr>, False) \<and>
   (1073741824 :: nat) dvd 42949672960 \<and> (1073741824 :: nat) dvd 12884901888"
proof -
  have "parse_gpu_vram_arg None (Some ''40,12'') (Some ''3,1'') =
     Inr (\<lparr>cfg_device_indices = [3, 1], cfg_vram_bytes = [42949672960, 12884901888],
           cfg_safety_margin_bytes = 536870912\<rparr>, False)"
    by (simp add: parse_gpu_vram_arg_def parse_csv_int_list_def csv_loop.simps strtol_def split_sign_def
        isspace_def isdigit_def is_blank_def char_code_def dec_val_def digit_val_def explicit_config_def
        safety_margin_def Let_def)
  with gpu_config_sound [OF this] show ?thesis by simp
qed

text \<open>
  C8: Writing a list of budgets and a list of devices of the same length as the two flags and parsing
  them gives back exactly these devices and budgets; only the budget list that renders as \<open>0\<close> means
  something else.
\<close>

theorem gpu_args_round_trip:
  assumes "gbs \<noteq> []" and "length gbs \<le> DS4_MAX_GPUS" and "length devs = length gbs" and "gbs \<noteq> [0]"
    and "\<forall>v\<in>set gbs. 0 \<le> v \<and> v \<le> DS4_GPU_ARGS_MAX_VRAM_GB"
    and "\<forall>d\<in>set devs. 0 \<le> d \<and> d \<le> DS4_GPU_ARGS_MAX_DEVICE_INDEX"
  shows "parse_gpu_vram_arg cuda (Some (render_csv gbs)) (Some (render_csv devs)) =
    Inr (\<lparr>cfg_device_indices = devs, cfg_vram_bytes = map (\<lambda>v. nat v * 1073741824) gbs,
          cfg_safety_margin_bytes = 536870912\<rparr>, False)"
proof -
  have d: "parse_csv_int_list (Some (render_csv devs)) DS4_MAX_GPUS DS4_GPU_ARGS_MAX_DEVICE_INDEX = Inr devs"
    using assms by (intro parse_csv_render) auto
  have g: "parse_csv_int_list (Some (render_csv gbs)) DS4_MAX_GPUS DS4_GPU_ARGS_MAX_VRAM_GB = Inr gbs"
    using assms by (intro parse_csv_render) auto
  have "render_csv gbs \<noteq> ''auto''"
    using hd_join_csv [OF assms(1)] by (auto simp: isdigit_def char_code_def)
  moreover have "render_csv gbs \<noteq> ''0''"
  proof
    assume "render_csv gbs = ''0''"
    moreover have "render_csv [0] = ''0''" by (simp add: render_csv_def show_nat.simps)
    moreover have "parse_csv_int_list (Some (render_csv [0])) DS4_MAX_GPUS DS4_GPU_ARGS_MAX_VRAM_GB = Inr [0]"
      by (intro parse_csv_render) auto
    ultimately show False using g assms(4) by simp
  qed
  moreover have "devs \<noteq> []" using assms(1,3) by auto
  ultimately show ?thesis
    using d g assms(3)
    by (simp add: parse_gpu_vram_arg_def explicit_config_def safety_margin_def mult.assoc)
qed

lemma gpu_args_round_trip_witness:
  "parse_gpu_vram_arg None (Some (render_csv [40, 12])) (Some (render_csv [1, 0])) =
     Inr (\<lparr>cfg_device_indices = [1, 0], cfg_vram_bytes = map (\<lambda>v. nat v * 1073741824) [40, 12],
           cfg_safety_margin_bytes = 536870912\<rparr>, False)"
  by (rule gpu_args_round_trip) auto

lemma emit_pieces_fits:
  "(emit_pieces outlen w ps < outlen \<longleftrightarrow> (ps = [] \<longrightarrow> w < outlen) \<and> w + length (concat ps) < outlen \<or> (ps = [] \<and> w < outlen)) \<and>
   (emit_pieces outlen w ps < outlen \<longrightarrow> emit_pieces outlen w ps = w + length (concat ps))"
  by (induction outlen w ps rule: emit_pieces.induct) auto

text \<open>
  The layout line is complete exactly when the returned length is smaller than the buffer: then
  the buffer holds the whole line and the result is its length.
\<close>

theorem layout_line_complete:
  assumes "format_gpu_layout_line fmt_gb (Some c) was_auto outlen = Some (line, n)"
  shows "n < outlen \<longleftrightarrow> line = concat (layout_pieces fmt_gb c was_auto) \<and> n = length line"
proof -
  let ?ps = "layout_pieces fmt_gb c was_auto"
  have pos: "0 < outlen" and line: "line = take (outlen - 1) (concat ?ps)" and n: "n = emit_pieces outlen 0 ?ps"
    using assms by (auto simp: format_gpu_layout_line_def Let_def split: if_splits)
  show ?thesis
  proof
    assume lt: "n < outlen"
    then have "n = length (concat ?ps)" using emit_pieces_fits [of outlen 0 ?ps] n by simp
    then show "line = concat ?ps \<and> n = length line" using lt line by simp
  next
    assume r: "line = concat ?ps \<and> n = length line"
    have "length line \<le> outlen - 1" by (simp add: line)
    with r pos show "n < outlen" by simp
  qed
qed

lemma layout_line_complete_witness:
  "format_gpu_layout_line (\<lambda>_. ''1'') (Some (explicit_config [] [])) True 200 =
     Some (''ds4: GPU config: 0 devices [] requested, budgets  GB; auto=true'', 63) \<and> (63 :: nat) < 200"
proof -
  have r: "format_gpu_layout_line (\<lambda>_. ''1'') (Some (explicit_config [] [])) True 200 =
     Some (''ds4: GPU config: 0 devices [] requested, budgets  GB; auto=true'', 63)"
    by (simp add: format_gpu_layout_line_def layout_pieces_def explicit_config_def cfg_n_gpus_def
        show_nat.simps Let_def)
  with layout_line_complete [OF r] show ?thesis by simp
qed

text \<open>The list parser accepts blanks before an entry, the first one included.\<close>

lemma csv_accepts_leading_blank: "parse_csv_int_list (Some '' 1, 2'') DS4_MAX_GPUS 1023 = Inr [1, 2]"
  by (simp add: parse_csv_int_list_def csv_loop.simps strtol_def split_sign_def isspace_def isdigit_def
      is_blank_def char_code_def dec_val_def digit_val_def Let_def)

end
