(* ===== verification/Slices.thy ===== *)
theory Slices
  imports Prelude
begin

text \<open>
  Work that is split into consecutive slices and done by several workers: the expert reader gives
  each replica a slice of one read, the Engram reader gives each worker a slice of its requests. The
  interface \<open>slice_plan\<close> is what both splits promise; what its clients get is that the slices put
  together are the whole, in whatever order the workers write them. The last section has the outcomes of
  the \<open>pread\<close> calls that both readers loop over.
\<close>

type_synonym slice = "nat \<times> nat"

definition slice_of :: "'a list \<Rightarrow> slice \<Rightarrow> 'a list" where
  "slice_of xs p = take (snd p) (drop (fst p) xs)"

fun contiguous :: "nat \<Rightarrow> slice list \<Rightarrow> nat \<Rightarrow> bool" where
  "contiguous lo [] hi = (lo = hi)"
| "contiguous lo (p # ps) hi = (fst p = lo \<and> contiguous (lo + snd p) ps hi)"

definition write_at :: "'a list \<Rightarrow> nat \<Rightarrow> 'a list \<Rightarrow> 'a list" where
  "write_at dst pos data = take pos dst @ data @ drop (pos + length data) dst"

lemma contiguous_le: "contiguous lo ps hi \<Longrightarrow> lo \<le> hi"
  by (induction lo ps hi rule: contiguous.induct) auto

lemma contiguous_gather:
  "contiguous lo ps hi \<Longrightarrow> concat (map (slice_of xs) ps) = take (hi - lo) (drop lo xs)"
proof (induction lo ps hi rule: contiguous.induct)
  case (2 lo p ps hi)
  then have "lo + snd p \<le> hi" by (auto dest: contiguous_le)
  with "2" slice_append [of lo "lo + snd p" hi xs] show ?case by (simp add: slice_of_def)
qed simp

lemma contiguous_in: "contiguous lo ps hi \<Longrightarrow> p \<in> set ps \<Longrightarrow> lo \<le> fst p \<and> fst p + snd p \<le> hi"
proof (induction lo ps hi rule: contiguous.induct)
  case (2 lo q ps hi)
  then show ?case using contiguous_le [of "lo + snd q" ps hi] by fastforce
qed simp

lemma contiguous_cover:
  "contiguous lo ps hi \<Longrightarrow> lo \<le> q \<Longrightarrow> q < hi \<Longrightarrow> \<exists>i<length ps. fst (ps ! i) \<le> q \<and> q < fst (ps ! i) + snd (ps ! i)"
proof (induction lo ps hi rule: contiguous.induct)
  case (2 lo p ps hi)
  show ?case
  proof (cases "q < lo + snd p")
    case True
    with "2.prems" show ?thesis by (intro exI [of _ 0]) auto
  next
    case False
    with "2" obtain i where "i < length ps" "fst (ps ! i) \<le> q" "q < fst (ps ! i) + snd (ps ! i)" by auto
    then show ?thesis by (intro exI [of _ "Suc i"]) auto
  qed
qed simp

lemma contiguous_snoc: "contiguous lo (ps @ [p]) hi \<longleftrightarrow> contiguous lo ps (fst p) \<and> fst p + snd p = hi"
  by (induction ps arbitrary: lo) (auto dest: contiguous_le)

lemma length_write_at: "pos + length data \<le> length dst \<Longrightarrow> length (write_at dst pos data) = length dst"
  by (simp add: write_at_def)

lemma nth_write_at:
  "pos + length data \<le> length dst \<Longrightarrow> q < length dst \<Longrightarrow>
     write_at dst pos data ! q = (if pos \<le> q \<and> q < pos + length data then data ! (q - pos) else dst ! q)"
  by (auto simp: write_at_def nth_append min_def)

text \<open>The workers' writes, in the order in which they happen to finish.\<close>

definition scatter :: "'a list \<Rightarrow> nat \<Rightarrow> slice list \<Rightarrow> 'a list \<Rightarrow> nat list \<Rightarrow> 'a list" where
  "scatter xs lo ps dst order =
     foldl (\<lambda>d i. write_at d (fst (ps ! i) - lo) (slice_of xs (ps ! i))) dst order"

lemma scatter_nth:
  assumes "contiguous lo ps hi" and "hi \<le> length xs" and "length dst = hi - lo"
    and "\<forall>i\<in>set order. i < length ps"
  shows "length (scatter xs lo ps dst order) = hi - lo \<and>
    (\<forall>q<hi - lo. scatter xs lo ps dst order ! q =
      (if \<exists>i\<in>set order. fst (ps ! i) \<le> lo + q \<and> lo + q < fst (ps ! i) + snd (ps ! i)
       then xs ! (lo + q) else dst ! q))"
  using assms(4)
proof (induction order rule: rev_induct)
  case Nil
  then show ?case by (simp add: scatter_def assms(3))
next
  case (snoc i order)
  let ?d = "scatter xs lo ps dst order"
  have i: "i < length ps" using snoc.prems by simp
  have b: "lo \<le> fst (ps ! i)" "fst (ps ! i) + snd (ps ! i) \<le> hi"
    using contiguous_in [OF assms(1)] i by auto
  have len: "length (slice_of xs (ps ! i)) = snd (ps ! i)"
    using b(2) assms(2) by (simp add: slice_of_def)
  have fit: "fst (ps ! i) - lo + length (slice_of xs (ps ! i)) \<le> length ?d"
    using b len snoc by auto
  have step: "scatter xs lo ps dst (order @ [i]) = write_at ?d (fst (ps ! i) - lo) (slice_of xs (ps ! i))"
    by (simp add: scatter_def)
  have IH: "length ?d = hi - lo"
    "\<And>q. q < hi - lo \<Longrightarrow> ?d ! q = (if \<exists>i\<in>set order. fst (ps ! i) \<le> lo + q \<and> lo + q < fst (ps ! i) + snd (ps ! i)
       then xs ! (lo + q) else dst ! q)"
    using snoc by auto
  have here: "fst (ps ! i) - lo \<le> q \<and> q < fst (ps ! i) - lo + snd (ps ! i) \<longleftrightarrow>
      fst (ps ! i) \<le> lo + q \<and> lo + q < fst (ps ! i) + snd (ps ! i)" for q
    using b(1) by linarith
  have val: "slice_of xs (ps ! i) ! (q - (fst (ps ! i) - lo)) = xs ! (lo + q)"
    if "fst (ps ! i) - lo \<le> q" "q < fst (ps ! i) - lo + snd (ps ! i)" for q
    using that b assms(2) by (simp add: slice_of_def add.commute)
  have "write_at ?d (fst (ps ! i) - lo) (slice_of xs (ps ! i)) ! q =
      (if \<exists>j\<in>set (order @ [i]). fst (ps ! j) \<le> lo + q \<and> lo + q < fst (ps ! j) + snd (ps ! j)
       then xs ! (lo + q) else dst ! q)" if q: "q < hi - lo" for q
    using nth_write_at [OF fit, of q] IH(1) IH(2) [OF q] q here [of q] val [of q] len by auto
  then show ?case unfolding step using length_write_at [OF fit] IH(1) by simp
qed

lemma scatter_all:
  assumes "contiguous lo ps hi" and "hi \<le> length xs" and "length dst = hi - lo"
    and "set order = {..<length ps}"
  shows "scatter xs lo ps dst order = take (hi - lo) (drop lo xs)"
proof (rule nth_equalityI)
  note s = scatter_nth [OF assms(1-3), of order]
  show "length (scatter xs lo ps dst order) = length (take (hi - lo) (drop lo xs))"
    using s assms(2,4) by simp
  fix q assume "q < length (scatter xs lo ps dst order)"
  then have q: "q < hi - lo" using s assms(4) by simp
  then obtain i where "i < length ps" "fst (ps ! i) \<le> lo + q" "lo + q < fst (ps ! i) + snd (ps ! i)"
    using contiguous_cover [OF assms(1), of "lo + q"] contiguous_le [OF assms(1)] by fastforce
  then have "scatter xs lo ps dst order ! q = xs ! (lo + q)" using s q assms(4) by auto
  then show "scatter xs lo ps dst order ! q = take (hi - lo) (drop lo xs) ! q"
    using q assms(2) by simp
qed

section \<open>The interface\<close>

locale slice_plan =
  fixes plan :: "'p \<Rightarrow> nat \<Rightarrow> nat \<Rightarrow> slice list"
    and valid :: "'p \<Rightarrow> nat \<Rightarrow> nat \<Rightarrow> bool"
  assumes plan_contiguous: "valid p lo len \<Longrightarrow> contiguous lo (plan p lo len) (lo + len)"
begin

lemma gather: "valid p lo len \<Longrightarrow> concat (map (slice_of xs) (plan p lo len)) = take len (drop lo xs)"
  using contiguous_gather [OF plan_contiguous] by fastforce

lemma in_range: "valid p lo len \<Longrightarrow> q \<in> set (plan p lo len) \<Longrightarrow> lo \<le> fst q \<and> fst q + snd q \<le> lo + len"
  using contiguous_in [OF plan_contiguous] by blast

lemma any_order:
  assumes "valid p lo len" and "lo + len \<le> length xs" and "length dst = len"
    and "set order = {..<length (plan p lo len)}"
  shows "scatter xs lo (plan p lo len) dst order = take len (drop lo xs)"
  using scatter_all [OF plan_contiguous [OF assms(1)] assms(2) _ assms(4)] assms(3) by simp

lemma total_length: "valid p lo len \<Longrightarrow> sum_list (map snd (plan p lo len)) = len"
proof -
  have "contiguous l ps h \<Longrightarrow> sum_list (map snd ps) = h - l" for l ps h
    by (induction l ps h rule: contiguous.induct) (auto dest: contiguous_le)
  then show "valid p lo len \<Longrightarrow> sum_list (map snd (plan p lo len)) = len"
    using plan_contiguous by fastforce
qed

end

section \<open>Positional reads\<close>

text \<open>
  The outcome of one \<open>pread\<close>: interrupted, failed (with an \<open>errno\<close>), or a number of bytes, which is never more than was
  asked for or than the file holds. A script of outcomes that ends before the loop does is a call that
  has not returned.
\<close>

datatype pread_outcome = Interrupted | Failed int | Transferred nat

text \<open>A script that keeps delivering: no failure, and as many transfers as there can be bytes.\<close>

definition delivers :: "nat \<Rightarrow> pread_outcome list \<Rightarrow> bool" where
  "delivers len script \<longleftrightarrow>
     list_all (\<lambda>x. case x of Interrupted \<Rightarrow> True | Failed e \<Rightarrow> False | Transferred k \<Rightarrow> 0 < k) script \<and>
     len \<le> length (filter (\<lambda>x. x \<noteq> Interrupted) script)"

lemma delivers_mono: "delivers n s \<Longrightarrow> m \<le> n \<Longrightarrow> delivers m s"
  by (simp add: delivers_def)

lemma take_own_length: "ys = take k xs \<Longrightarrow> ys = take (length ys) xs"
  by (auto simp: min_def)

lemma prefix_extend:
  assumes "acc = take (length acc) (drop offset file)" and "got = take m (drop (offset + length acc) file)"
  shows "acc @ got = take (length (acc @ got)) (drop offset file)"
proof (rule take_own_length)
  have "take (length acc) (drop offset file) @ take m (drop (length acc) (drop offset file)) =
      take (length acc + m) (drop offset file)" by (rule take_add [symmetric])
  then show "acc @ got = take (length acc + m) (drop offset file)" using assms by (simp add: add.commute)
qed

end
