(* ===== verification/ReplicaReader.thy ===== *)
theory ReplicaReader
  imports CText Slices "HOL-Library.Multiset"
begin

text \<open>
  \<open>argodrive_read.h\<close>: the reader that splits one expert read over up to three replicas of the model
  file. This theory holds its state and how it is opened and closed; the system (what \<open>fstat\<close>, \<open>open\<close>
  and \<open>fcntl\<close> answer) is a parameter. \<open>ar_open_conserves_descriptors\<close> accounts for every descriptor,
  \<open>ar_open_accepts\<close> says what a reader that was opened looks like.
\<close>

section \<open>State\<close>

record ar_source =
  fd :: int
  weight :: nat
  bytes :: nat
  reads :: nat
  lands_last :: nat
  gap_ns :: nat
  decode_weight :: nat
  syscalls :: nat

record ar_reader =
  sources :: "ar_source list"
  invalid :: bool
  owns_primary :: bool
  size_bytes :: nat

definition new_source :: "int \<Rightarrow> nat \<Rightarrow> ar_source" where
  "new_source f w = \<lparr>fd = f, weight = w, bytes = 0, reads = 0, lands_last = 0, gap_ns = 0,
     decode_weight = 0, syscalls = 0\<rparr>"

definition zero_reader :: ar_reader where
  "zero_reader = \<lparr>sources = [], invalid = False, owns_primary = False, size_bytes = 0\<rparr>"

definition ar_effective_weight :: "bool \<Rightarrow> ar_source \<Rightarrow> nat" where
  "ar_effective_weight decode_phase src =
     (if decode_phase \<and> decode_weight src \<noteq> 0 then decode_weight src else weight src)"

definition ar_weight :: "string option \<Rightarrow> nat option" where
  "ar_weight s = (case s of None \<Rightarrow> None | Some t \<Rightarrow>
     if t = [] \<or> \<not> list_all isdigit t then None
     else let (n, _, rest) = strtoul t
          in if rest \<noteq> [] \<or> n < 1 \<or> 100 < n then None else Some (unat n))"

section \<open>Opening and closing\<close>

record file_stat =
  is_regular :: bool
  st_size :: int
  st_dev :: nat
  st_ino :: nat

record ar_os =
  fstat :: "int \<Rightarrow> file_stat option"
  open_path :: "string \<Rightarrow> int option"
  getpath :: "int \<Rightarrow> string option"
  nocache_ok :: "int \<Rightarrow> bool"
  strdup_ok :: bool

text \<open>
  Descriptors are accounted for in a trace. \<open>ar_close\<close> closes every descriptor the reader owns (its
  own copy of the primary only if it opened one) and zeroes the reader.
\<close>

datatype fd_event = Opened int | Closed int

definition owned_fds :: "ar_reader \<Rightarrow> int list" where
  "owned_fds r = map fd (if owns_primary r then sources r else drop 1 (sources r))"

definition ar_close :: "ar_reader \<Rightarrow> ar_reader \<times> fd_event list" where
  "ar_close r = (zero_reader, map Closed (owned_fds r))"

definition failed_reader :: ar_reader where
  "failed_reader = zero_reader\<lparr>invalid := True\<rparr>"

definition same_file :: "file_stat \<Rightarrow> file_stat \<Rightarrow> bool" where
  "same_file a b \<longleftrightarrow> st_dev a = st_dev b \<and> st_ino a = st_ino b"

text \<open>A second descriptor of the primary for uncached reads, checked to be the same file.\<close>

definition open_uncached :: "ar_os \<Rightarrow> int \<Rightarrow> file_stat \<Rightarrow> fd_event list \<times> int option" where
  "open_uncached os primary st = (case getpath os primary of None \<Rightarrow> ([], None) | Some p \<Rightarrow>
     (case open_path os p of None \<Rightarrow> ([], None) | Some f \<Rightarrow>
        (case fstat os f of None \<Rightarrow> ([Opened f, Closed f], None) | Some same \<Rightarrow>
           if \<not> same_file same st \<or> st_size same \<noteq> st_size st \<or> \<not> nocache_ok os f
           then ([Opened f, Closed f], None) else ([Opened f], Some f))))"

definition split_last_star :: "string \<Rightarrow> (string \<times> string) option" where
  "split_last_star s = (if CHR ''*'' \<in> set s
     then Some (butlast (rev (dropWhile (\<lambda>c. c \<noteq> CHR ''*'') (rev s))),
                rev (takeWhile (\<lambda>c. c \<noteq> CHR ''*'') (rev s)))
     else None)"

text \<open>One entry of the replica list: the source it adds, if nothing is wrong with it.\<close>

definition open_entry :: "ar_os \<Rightarrow> file_stat \<Rightarrow> ar_source list \<Rightarrow> string \<Rightarrow> fd_event list \<times> ar_source option" where
  "open_entry os st srcs cursor = (case split_last_star cursor of None \<Rightarrow> ([], None) | Some (path, w) \<Rightarrow>
     if 3 \<le> length srcs \<or> cursor = [] \<or> hd cursor \<noteq> CHR ''/'' then ([], None)
     else case ar_weight (Some w) of None \<Rightarrow> ([], None) | Some n \<Rightarrow>
       (case open_path os path of None \<Rightarrow> ([], None) | Some f \<Rightarrow>
          (case fstat os f of None \<Rightarrow> ([Opened f, Closed f], None) | Some rep \<Rightarrow>
             if \<not> is_regular rep \<or> st_size rep \<noteq> st_size st then ([Opened f, Closed f], None)
             else if \<exists>src\<in>set srcs. (case fstat os (fd src) of None \<Rightarrow> True | Some old \<Rightarrow> same_file old rep)
             then ([Opened f, Closed f], None)
             else if \<not> nocache_ok os f then ([Opened f, Closed f], None)
             else ([Opened f], Some (new_source f n)))))"

text \<open>The loop over the entries; an empty last entry is a trailing comma.\<close>

fun open_entries :: "ar_os \<Rightarrow> file_stat \<Rightarrow> ar_source list \<Rightarrow> string list \<Rightarrow> bool \<times> ar_source list \<times> fd_event list" where
  "open_entries os st srcs [] = (True, srcs, [])"
| "open_entries os st srcs (e # es) =
     (if es = [[]] then (False, srcs, [])
      else case open_entry os st srcs e of
        (tr, None) \<Rightarrow> (False, srcs, tr)
      | (tr, Some src) \<Rightarrow>
          let (ok, srcs', tr') = open_entries os st (srcs @ [src]) es in (ok, srcs', tr @ tr'))"

fun split_commas :: "string \<Rightarrow> string list" where
  "split_commas [] = [[]]"
| "split_commas (c # cs) =
     (if c = CHR '','' then [] # split_commas cs
      else case split_commas cs of [] \<Rightarrow> [[c]] | e # es \<Rightarrow> (c # e) # es)"

function decode_weights_loop :: "string \<Rightarrow> nat list \<Rightarrow> nat list option" where
  "decode_weights_loop c parsed =
     (if c = [] \<or> 3 \<le> length parsed then Some parsed
      else let (v, _, e) = strtoul c
           in if e = c \<or> v = 0 \<or> 100 < v then None
              else case e of
                [] \<Rightarrow> Some (parsed @ [unat v])
              | x # r \<Rightarrow> if x = CHR '','' then decode_weights_loop r (parsed @ [unat v]) else None)"
  by pat_completeness auto
termination
  by (relation "measure (\<lambda>(c, parsed). 3 - length parsed)") auto

definition apply_decode_weights :: "string option \<Rightarrow> ar_source list \<Rightarrow> ar_source list" where
  "apply_decode_weights env srcs = (case env of None \<Rightarrow> srcs | Some s \<Rightarrow>
     if s = [] then srcs
     else case decode_weights_loop s [] of
       None \<Rightarrow> srcs
     | Some ws \<Rightarrow>
         if length ws = length srcs then map2 (\<lambda>src w. src\<lparr>decode_weight := w\<rparr>) srcs ws else srcs)"

text \<open>The replicas of a reader that has its primary: the second half of \<open>ar_open\<close>.\<close>

definition open_replicas ::
  "ar_os \<Rightarrow> file_stat \<Rightarrow> string option \<Rightarrow> string \<Rightarrow> ar_reader \<Rightarrow> bool \<times> ar_reader \<times> fd_event list" where
  "open_replicas os st decode_env paths base =
     (if \<not> strdup_ok os then (False, failed_reader, snd (ar_close base))
      else
        let (ok, srcs, tr) = open_entries os st (sources base) (split_commas paths);
            r = base\<lparr>sources := srcs\<rparr>
        in if \<not> ok \<or> length srcs < 2 then (False, failed_reader, tr @ snd (ar_close r))
           else (True, r\<lparr>sources := apply_decode_weights decode_env srcs\<rparr>, tr))"

text \<open>\<open>ar_open\<close> with the two environment variables: the return value, the reader and the trace.\<close>

definition ar_open ::
  "ar_os \<Rightarrow> string option \<Rightarrow> string option \<Rightarrow> ar_reader \<Rightarrow> int \<Rightarrow> string option \<Rightarrow> string option \<Rightarrow>
   bool \<times> ar_reader \<times> fd_event list" where
  "ar_open os nocache_env decode_env r0 primary paths weight_arg =
     (let uncached = (nocache_env \<noteq> None \<and> nocache_env \<noteq> Some ''0'');
          no_paths = (paths = None \<or> paths = Some []);
          tr0 = snd (ar_close r0)
      in if no_paths \<and> \<not> uncached then (True, zero_reader, tr0)
         else case fstat os primary of None \<Rightarrow> (False, failed_reader, tr0) | Some st \<Rightarrow>
           if \<not> is_regular st \<or> st_size st \<le> 0 then (False, failed_reader, tr0)
           else
             case (if weight_arg = None then Some 2 else ar_weight weight_arg) of
               None \<Rightarrow> (False, failed_reader\<lparr>size_bytes := nat (st_size st)\<rparr>, tr0)
             | Some w \<Rightarrow>
                 (case (if uncached then open_uncached os primary st else ([], Some primary)) of
                    (tr, None) \<Rightarrow> (False, failed_reader, tr0 @ tr)
                  | (tr, Some pfd) \<Rightarrow>
                      let base = zero_reader\<lparr>sources := [new_source pfd w], owns_primary := uncached,
                                             size_bytes := nat (st_size st)\<rparr>
                      in if no_paths then (True, base, tr0 @ tr)
                         else let (ok, r, tr') = open_replicas os st decode_env (the paths) base
                              in (ok, r, tr0 @ tr @ tr')))"

section \<open>Descriptors\<close>

definition opened_fds :: "fd_event list \<Rightarrow> int multiset" where
  "opened_fds tr = mset (concat (map (\<lambda>e. case e of Opened f \<Rightarrow> [f] | Closed _ \<Rightarrow> []) tr))"

definition closed_fds :: "fd_event list \<Rightarrow> int multiset" where
  "closed_fds tr = mset (concat (map (\<lambda>e. case e of Closed f \<Rightarrow> [f] | Opened _ \<Rightarrow> []) tr))"

lemma fds_simps [simp]:
  "opened_fds [] = {#}" "closed_fds [] = {#}"
  "opened_fds (Opened f # tr) = add_mset f (opened_fds tr)" "opened_fds (Closed f # tr) = opened_fds tr"
  "closed_fds (Opened f # tr) = closed_fds tr" "closed_fds (Closed f # tr) = add_mset f (closed_fds tr)"
  "opened_fds (tr @ tr') = opened_fds tr + opened_fds tr'" "closed_fds (tr @ tr') = closed_fds tr + closed_fds tr'"
  "opened_fds (map Closed fs) = {#}" "closed_fds (map Closed fs) = mset fs"
  by (simp_all add: opened_fds_def closed_fds_def comp_def concat_map_singleton)

lemma open_uncached_trace:
  "open_uncached os primary st = (tr, x) \<Longrightarrow>
     opened_fds tr = closed_fds tr + (case x of None \<Rightarrow> {#} | Some f \<Rightarrow> {#f#})"
  by (auto simp: open_uncached_def split: option.splits if_splits)

lemma open_entry_trace:
  "open_entry os st srcs e = (tr, x) \<Longrightarrow>
     opened_fds tr = closed_fds tr + (case x of None \<Rightarrow> {#} | Some src \<Rightarrow> {#fd src#})"
  by (auto simp: open_entry_def new_source_def split: option.splits prod.splits if_splits)

lemma open_entries_trace:
  "open_entries os st srcs es = (ok, srcs', tr) \<Longrightarrow>
     \<exists>new. srcs' = srcs @ new \<and> opened_fds tr = closed_fds tr + mset (map fd new)"
proof (induction os st srcs es arbitrary: ok srcs' tr rule: open_entries.induct)
  case (2 os st srcs e es)
  obtain tr1 x where e: "open_entry os st srcs e = (tr1, x)" by fastforce
  note t1 = open_entry_trace [OF e]
  show ?case
  proof (cases "es = [[]] \<or> x = None")
    case True
    with "2.prems" e t1 show ?thesis by (auto split: if_splits)
  next
    case False
    then obtain src where x: "x = Some src" by auto
    obtain ok2 srcs2 tr2 where rec: "open_entries os st (srcs @ [src]) es = (ok2, srcs2, tr2)"
      by (cases "open_entries os st (srcs @ [src]) es") auto
    with "2.prems" False e x have eqs: "srcs' = srcs2" "tr = tr1 @ tr2" by auto
    from "2.IH" [OF _ e [symmetric] x rec] False obtain new where
      "srcs2 = (srcs @ [src]) @ new" "opened_fds tr2 = closed_fds tr2 + mset (map fd new)" by auto
    with eqs t1 x show ?thesis by (intro exI [of _ "src # new"]) (simp add: ac_simps)
  qed
qed simp

lemma fd_apply_decode_weights: "map fd (apply_decode_weights env srcs) = map fd srcs"
proof -
  have "length ws = length srcs \<Longrightarrow> map fd (map2 (\<lambda>src w. src\<lparr>decode_weight := w\<rparr>) srcs ws) = map fd srcs" for ws
    by (simp add: list_eq_iff_nth_eq)
  then show ?thesis
    unfolding apply_decode_weights_def by (auto simp del: map_map split: option.splits)
qed

definition reader_fds :: "ar_reader \<Rightarrow> int multiset" where
  "reader_fds r = mset (owned_fds r)"

lemma reader_fds_none [simp]: "sources r = [] \<Longrightarrow> reader_fds r = {#}"
  by (simp add: reader_fds_def owned_fds_def)

lemma failed_reader_simps [simp]: "invalid failed_reader" "sources failed_reader = []" "sources zero_reader = []"
  by (simp_all add: zero_reader_def failed_reader_def)

lemma ar_close_trace [simp]: "opened_fds (snd (ar_close r)) = {#}" "closed_fds (snd (ar_close r)) = reader_fds r"
  by (simp_all add: ar_close_def reader_fds_def)

lemma reader_fds_append:
  assumes "sources base \<noteq> []"
  shows "reader_fds (base\<lparr>sources := sources base @ new\<rparr>) = reader_fds base + mset (map fd new)"
  using assms by (cases "sources base") (auto simp: reader_fds_def owned_fds_def)

lemma reader_fds_cong:
  "map fd (sources r) = map fd (sources r') \<Longrightarrow> owns_primary r = owns_primary r' \<Longrightarrow> reader_fds r = reader_fds r'"
  by (cases "owns_primary r") (simp_all add: reader_fds_def owned_fds_def drop_map [symmetric])

lemma open_replicas_trace:
  assumes "open_replicas os st decode_env paths base = (ok, r, tr)" and "sources base \<noteq> []"
  shows "reader_fds base + opened_fds tr = closed_fds tr + reader_fds r \<and> (ok \<or> invalid r \<and> sources r = [])"
proof (cases "strdup_ok os")
  case False
  with assms show ?thesis by (auto simp: open_replicas_def)
next
  case True
  obtain k srcs tr1 where e: "open_entries os st (sources base) (split_commas paths) = (k, srcs, tr1)"
    by (cases "open_entries os st (sources base) (split_commas paths)") auto
  from open_entries_trace [OF e] obtain new where new: "srcs = sources base @ new"
    "opened_fds tr1 = closed_fds tr1 + mset (map fd new)" by blast
  note f = reader_fds_append [OF assms(2), of new]
  have "reader_fds (base\<lparr>sources := apply_decode_weights decode_env srcs\<rparr>) = reader_fds (base\<lparr>sources := srcs\<rparr>)"
    by (rule reader_fds_cong) (simp_all add: fd_apply_decode_weights)
  with True assms(1) e new f show ?thesis
    by (auto simp: open_replicas_def Let_def split: if_splits)
qed

text \<open>
  C3: However the system answers, \<open>ar_open\<close> neither leaks nor double-closes a descriptor: what was owned
  before and what it opened is exactly what it closed and what the resulting reader owns, and a reader
  it reports as failed is marked invalid and owns nothing.
\<close>

theorem ar_open_conserves_descriptors:
  "case ar_open os nocache_env decode_env r0 primary paths weight_arg of (ok, r, tr) \<Rightarrow>
     reader_fds r0 + opened_fds tr = closed_fds tr + reader_fds r \<and> (ok \<or> invalid r \<and> sources r = [])"
proof -
  obtain ok r tr where o: "ar_open os nocache_env decode_env r0 primary paths weight_arg = (ok, r, tr)"
    by (cases "ar_open os nocache_env decode_env r0 primary paths weight_arg") auto
  define uncached where "uncached = (nocache_env \<noteq> None \<and> nocache_env \<noteq> Some ''0'')"
  define no_paths where "no_paths = (paths = None \<or> paths = Some [])"
  note def = ar_open_def [of os nocache_env decode_env r0 primary paths weight_arg,
      folded uncached_def no_paths_def, unfolded o Let_def]
  show ?thesis
  proof (cases "\<exists>st w tr1 pfd. \<not> (no_paths \<and> \<not> uncached) \<and> fstat os primary = Some st \<and> is_regular st \<and> 0 < st_size st \<and>
      (if weight_arg = None then Some 2 else ar_weight weight_arg) = Some w \<and>
      (if uncached then open_uncached os primary st else ([], Some primary)) = (tr1, Some pfd)")
    case False
    have "tr = snd (ar_close r0) \<and> sources r = [] \<and> (ok \<or> invalid r) \<or>
        (\<exists>st tr1. tr = snd (ar_close r0) @ tr1 \<and> (if uncached then open_uncached os primary st else ([], Some primary)) = (tr1, None) \<and>
          sources r = [] \<and> invalid r)"
      using False def by (auto split: option.splits prod.splits if_splits)
    then show ?thesis unfolding o
      by (auto split: if_splits dest!: open_uncached_trace)
  next
    case True
    then obtain st w tr1 pfd where g: "\<not> (no_paths \<and> \<not> uncached)" "fstat os primary = Some st" "is_regular st" "0 < st_size st"
      "(if weight_arg = None then Some 2 else ar_weight weight_arg) = Some w"
      "(if uncached then open_uncached os primary st else ([], Some primary)) = (tr1, Some pfd)" by blast
    define base where "base = zero_reader\<lparr>sources := [new_source pfd w], owns_primary := uncached, size_bytes := nat (st_size st)\<rparr>"
    have eq: "(ok, r, tr) = (if no_paths then (True, base, snd (ar_close r0) @ tr1)
        else case open_replicas os st decode_env (the paths) base of (k, r', tr') \<Rightarrow> (k, r', snd (ar_close r0) @ tr1 @ tr'))"
      using def g by (simp add: base_def)
    have t1: "opened_fds tr1 = closed_fds tr1 + reader_fds base"
      using g(6) by (auto simp: base_def reader_fds_def owned_fds_def new_source_def
          split: if_splits dest!: open_uncached_trace)
    show ?thesis
    proof (cases no_paths)
      case True
      then show ?thesis unfolding o using eq t1 by simp
    next
      case False
      obtain k r' tr' where rep: "open_replicas os st decode_env (the paths) base = (k, r', tr')"
        by (cases "open_replicas os st decode_env (the paths) base") auto
      have "sources base \<noteq> []" by (simp add: base_def)
      from open_replicas_trace [OF rep this] False eq rep t1 show ?thesis unfolding o
        by (auto simp: ac_simps)
    qed
  qed
qed

text \<open>A reader that \<open>ar_open\<close> has accepted.\<close>

definition ar_wf :: "ar_reader \<Rightarrow> bool" where
  "ar_wf r \<longleftrightarrow> \<not> invalid r \<and> 1 \<le> length (sources r) \<and> length (sources r) \<le> 3 \<and>
     list_all (\<lambda>s. 1 \<le> weight s \<and> weight s \<le> 100 \<and> decode_weight s \<le> 100) (sources r)"

section \<open>What \<open>ar_open\<close> accepts\<close>

definition source_ok :: "ar_source \<Rightarrow> bool" where
  "source_ok s \<longleftrightarrow> 1 \<le> weight s \<and> weight s \<le> 100 \<and> decode_weight s \<le> 100"

lemma ar_weight_range: "ar_weight s = Some n \<Longrightarrow> 1 \<le> n \<and> n \<le> 100"
  unfolding ar_weight_def
  by (auto simp: Let_def not_less word_nat split: option.splits prod.splits if_splits)

lemma open_entry_ok:
  "open_entry os st srcs e = (tr, Some src) \<Longrightarrow> source_ok src \<and> length srcs < 3"
  by (auto simp: open_entry_def new_source_def source_ok_def split: option.splits prod.splits if_splits
      dest: ar_weight_range)

lemma open_entries_ok:
  "open_entries os st srcs es = (ok, srcs', tr) \<Longrightarrow> list_all source_ok srcs \<Longrightarrow> length srcs \<le> 3 \<Longrightarrow>
     list_all source_ok srcs' \<and> length srcs' \<le> 3"
proof (induction os st srcs es arbitrary: ok srcs' tr rule: open_entries.induct)
  case (2 os st srcs e es)
  obtain tr1 x where e: "open_entry os st srcs e = (tr1, x)" by fastforce
  show ?case
  proof (cases "es = [[]] \<or> x = None")
    case True
    with "2.prems" e show ?thesis by (auto split: if_splits)
  next
    case False
    then obtain src where x: "x = Some src" by auto
    obtain ok2 srcs2 tr2 where rec: "open_entries os st (srcs @ [src]) es = (ok2, srcs2, tr2)"
      by (cases "open_entries os st (srcs @ [src]) es") auto
    with "2.prems" False e x have eqs: "srcs' = srcs2" by auto
    have "source_ok src \<and> length srcs < 3" using open_entry_ok e x by blast
    with "2.IH" [OF _ e [symmetric] x rec] False "2.prems" show ?thesis unfolding eqs by auto
  qed
qed simp

lemma decode_weights_range:
  "decode_weights_loop c parsed = Some ws \<Longrightarrow> \<forall>w\<in>set parsed. w \<le> 100 \<Longrightarrow> \<forall>w\<in>set ws. w \<le> 100"
proof (induction c parsed arbitrary: ws rule: decode_weights_loop.induct)
  case (1 c parsed)
  obtain v x e where s: "strtoul c = (v, x, e)" by (cases "strtoul c") auto
  note step = decode_weights_loop.simps [of c parsed, unfolded s Let_def prod.case]
  show ?case
  proof (cases "c = [] \<or> 3 \<le> length parsed \<or> e = c \<or> v = 0 \<or> 100 < v")
    case True
    with "1.prems" step show ?thesis by (auto split: if_splits)
  next
    case False
    then have v: "unat v \<le> 100" by (simp add: not_less word_nat)
    show ?thesis
    proof (cases e)
      case Nil
      with False "1.prems" step v show ?thesis by auto
    next
      case (Cons y r)
      with False "1.prems" step have y: "y = CHR '',''"
        and rec: "decode_weights_loop r (parsed @ [unat v]) = Some ws" by (auto split: if_splits)
      show ?thesis
        by (rule "1.IH" [OF _ s [symmetric] refl refl _ Cons y rec]) (use False "1.prems" v in auto)
    qed
  qed
qed

lemma apply_decode_weights_ok:
  assumes "list_all source_ok srcs"
  shows "list_all source_ok (apply_decode_weights env srcs)" and "length (apply_decode_weights env srcs) = length srcs"
proof -
  have "list_all source_ok (map2 (\<lambda>src w. src\<lparr>decode_weight := w\<rparr>) srcs ws)"
    if "\<forall>w\<in>set ws. w \<le> 100" for ws
    using assms that by (auto simp: list_all_iff source_ok_def dest: set_zip_leftD set_zip_rightD)
  then show "list_all source_ok (apply_decode_weights env srcs)"
    using assms decode_weights_range [of _ "[]"] unfolding apply_decode_weights_def
    by (auto simp del: decode_weights_loop.simps split: option.splits)
  show "length (apply_decode_weights env srcs) = length srcs"
    by (auto simp: apply_decode_weights_def simp del: decode_weights_loop.simps split: option.splits)
qed

lemma open_replicas_ok:
  assumes "open_replicas os st decode_env paths base = (True, r, tr)"
    and "list_all source_ok (sources base)" and "length (sources base) \<le> 3"
  shows "list_all source_ok (sources r) \<and> 2 \<le> length (sources r) \<and> length (sources r) \<le> 3 \<and>
    invalid r = invalid base \<and> size_bytes r = size_bytes base"
proof -
  obtain k srcs tr1 where e: "open_entries os st (sources base) (split_commas paths) = (k, srcs, tr1)"
    by (cases "open_entries os st (sources base) (split_commas paths)") auto
  from open_entries_ok [OF e assms(2,3)] have ok: "list_all source_ok srcs" "length srcs \<le> 3" by auto
  from assms(1) e have "2 \<le> length srcs" "r = base\<lparr>sources := apply_decode_weights decode_env srcs\<rparr>"
    by (auto simp: open_replicas_def Let_def split: if_splits)
  with ok apply_decode_weights_ok [OF ok(1), of decode_env] show ?thesis by simp
qed

lemma ar_wf_alt: "ar_wf r \<longleftrightarrow> \<not> invalid r \<and> 1 \<le> length (sources r) \<and> length (sources r) \<le> 3 \<and> list_all source_ok (sources r)"
  by (simp add: ar_wf_def source_ok_def [abs_def])

text \<open>
  A reader that \<open>ar_open\<close> accepts is either disabled (no replicas asked for) or well formed: one to three
  sources, two at least when replicas were named, every weight in 1..100, and the size of a regular,
  nonempty primary file.
\<close>

theorem ar_open_accepts:
  assumes "ar_open os nocache_env decode_env r0 primary paths weight_arg = (True, r, tr)"
  shows "r = zero_reader \<or>
    ar_wf r \<and> (\<exists>st. fstat os primary = Some st \<and> is_regular st \<and> 0 < st_size st \<and> size_bytes r = nat (st_size st)) \<and>
    (paths \<noteq> None \<and> paths \<noteq> Some [] \<longrightarrow> 2 \<le> length (sources r))"
proof -
  define uncached where "uncached = (nocache_env \<noteq> None \<and> nocache_env \<noteq> Some ''0'')"
  define no_paths where "no_paths = (paths = None \<or> paths = Some [])"
  note def = ar_open_def [of os nocache_env decode_env r0 primary paths weight_arg,
      folded uncached_def no_paths_def, unfolded assms Let_def]
  show ?thesis
  proof (cases "no_paths \<and> \<not> uncached")
    case True
    with def show ?thesis by simp
  next
    case False
    then obtain st w tr1 pfd where g: "fstat os primary = Some st" "is_regular st" "0 < st_size st"
      "(if weight_arg = None then Some 2 else ar_weight weight_arg) = Some w"
      "(if uncached then open_uncached os primary st else ([], Some primary)) = (tr1, Some pfd)"
      using def by (auto split: option.splits prod.splits if_splits)
    define base where "base = zero_reader\<lparr>sources := [new_source pfd w], owns_primary := uncached, size_bytes := nat (st_size st)\<rparr>"
    have w: "1 \<le> w \<and> w \<le> 100" using g(4) ar_weight_range by (auto split: if_splits)
    have base: "list_all source_ok (sources base)" "length (sources base) = 1" "\<not> invalid base" "size_bytes base = nat (st_size st)"
      using w by (simp_all add: base_def source_ok_def new_source_def zero_reader_def)
    have eq: "(True, r, tr) = (if no_paths then (True, base, snd (ar_close r0) @ tr1)
        else case open_replicas os st decode_env (the paths) base of (k, r', tr') \<Rightarrow> (k, r', snd (ar_close r0) @ tr1 @ tr'))"
      using def g False by (simp add: base_def)
    show ?thesis
    proof (cases no_paths)
      case True
      with eq base g show ?thesis by (auto simp: ar_wf_alt no_paths_def)
    next
      case False
      then obtain tr' where "open_replicas os st decode_env (the paths) base = (True, r, tr')"
        using eq by (auto split: prod.splits)
      from open_replicas_ok [OF this base(1)] base g show ?thesis by (auto simp: ar_wf_alt)
    qed
  qed
qed

definition sample_os :: ar_os where
  "sample_os = \<lparr>fstat = (\<lambda>f. if f = 3 then Some \<lparr>is_regular = True, st_size = 9, st_dev = 1, st_ino = 1\<rparr>
       else if f = 4 then Some \<lparr>is_regular = True, st_size = 9, st_dev = 2, st_ino = 1\<rparr> else None),
     open_path = (\<lambda>p. if p = ''/r'' then Some 4 else None), getpath = (\<lambda>_. None), nocache_ok = (\<lambda>_. True),
     strdup_ok = True\<rparr>"

lemma sample_weight: "ar_weight (Some ''5'') = Some 5"
  using strtoul_digits [of "''5''" "[]"] by (simp add: ar_weight_def dec_val_def digit_val_def char_code_def isdigit_def)

lemma sample_open:
  "ar_open sample_os None None zero_reader 3 (Some ''/r*5'') None =
     (True, \<lparr>sources = [new_source 3 2, new_source 4 5], invalid = False, owns_primary = False,
             size_bytes = 9\<rparr>, [Opened 4])"
proof -
  let ?st = "\<lparr>is_regular = True, st_size = 9, st_dev = 1, st_ino = 1\<rparr>"
  have "split_last_star ''/r*5'' = Some (''/r'', ''5'')" by (simp add: split_last_star_def)
  then have "open_entry sample_os ?st [new_source 3 2] ''/r*5'' = ([Opened 4], Some (new_source 4 5))"
    by (simp add: open_entry_def sample_weight sample_os_def same_file_def new_source_def)
  moreover have "strdup_ok sample_os" by (simp add: sample_os_def)
  ultimately have "open_replicas sample_os ?st None ''/r*5''
      (zero_reader\<lparr>sources := [new_source 3 2], owns_primary := False, size_bytes := 9\<rparr>) =
     (True, \<lparr>sources = [new_source 3 2, new_source 4 5], invalid = False, owns_primary = False, size_bytes = 9\<rparr>, [Opened 4])"
    by (simp add: open_replicas_def zero_reader_def apply_decode_weights_def)
  moreover have "fstat sample_os 3 = Some ?st" by (simp add: sample_os_def)
  ultimately show ?thesis by (simp add: ar_open_def zero_reader_def ar_close_def owned_fds_def)
qed

lemma ar_open_accepts_witness:
  "\<exists>r tr. ar_open sample_os None None zero_reader 3 (Some ''/r*5'') None = (True, r, tr) \<and> ar_wf r \<and> size_bytes r = 9"
  using ar_open_accepts [OF sample_open] sample_open by (simp add: zero_reader_def)

end
