(* ===== verification/ReplicaRead.thy ===== *)
theory ReplicaRead
  imports ReplicaReader
begin

text \<open>
  The second half of \<open>argodrive_read.h\<close>: how one read is split over the sources and put together.
  Offsets and lengths are natural numbers; \<open>plan_no_overflow\<close> shows that the 64-bit products of the
  plan do not wrap. The contents of the replicas, the outcome of every \<open>pread\<close>, the completion times
  and the order in which the workers store their bytes are parameters. The optional timing records
  are not modelled.
\<close>

section \<open>The plan\<close>

definition ar_block :: nat where
  "ar_block = 256 * 1024"

fun argmax :: "nat list \<Rightarrow> nat" where
  "argmax [] = 0"
| "argmax [x] = 0"
| "argmax (x # xs) = (let k = argmax xs in if x < xs ! k then Suc k else 0)"

text \<open>The blocks the shares leave over go to the largest remainders, the first one when equal.\<close>

fun assign_left :: "nat \<Rightarrow> nat list \<Rightarrow> nat list \<Rightarrow> nat list" where
  "assign_left 0 counts remainders = counts"
| "assign_left (Suc k) counts remainders =
     (let best = argmax remainders
      in assign_left k (counts[best := Suc (counts ! best)]) (remainders[best := 0]))"

definition plan_counts :: "nat list \<Rightarrow> nat \<Rightarrow> nat list" where
  "plan_counts ws blocks =
     (let total = sum_list ws;
          counts = map (\<lambda>w. blocks * w div total) ws;
          remainders = map (\<lambda>w. blocks * w mod total) ws
      in assign_left (blocks - sum_list counts) counts remainders)"

fun lay_out :: "nat \<Rightarrow> nat list \<Rightarrow> slice list" where
  "lay_out pos [] = []"
| "lay_out pos (n # ns) = (pos, n) # lay_out (pos + n) ns"

definition piece_lengths :: "nat list \<Rightarrow> nat \<Rightarrow> nat list" where
  "piece_lengths counts len =
     (case counts of [] \<Rightarrow> [] | c # cs \<Rightarrow> (c * ar_block + len mod ar_block) # map (\<lambda>c. c * ar_block) cs)"

definition plan_slices :: "nat list \<Rightarrow> nat \<Rightarrow> nat \<Rightarrow> slice list" where
  "plan_slices ws offset len = lay_out offset (piece_lengths (plan_counts ws (len div ar_block)) len)"

definition reader_weights :: "bool \<Rightarrow> ar_reader \<Rightarrow> nat list" where
  "reader_weights decode_phase r = map (ar_effective_weight decode_phase) (sources r)"

definition ar_plan :: "bool \<Rightarrow> ar_reader \<Rightarrow> nat \<Rightarrow> nat \<Rightarrow> slice list option" where
  "ar_plan decode_phase r offset len =
     (if invalid r \<or> length (sources r) < 1 \<or> 3 < length (sources r) \<or> len = 0 \<or>
         size_bytes r < offset \<or> size_bytes r - offset < len then None
      else
        let ws = reader_weights decode_phase r
        in if \<exists>w\<in>set ws. w = 0 \<or> 100 < w then None
           else
             let out = plan_slices ws offset len
             in if sum_list (map snd out) = len then Some out else None)"

section \<open>Reading\<close>

definition SSIZE_MAX :: nat where
  "SSIZE_MAX = 9223372036854775807"

fun ar_exact :: "u8 list \<Rightarrow> nat \<Rightarrow> nat \<Rightarrow> pread_outcome list \<Rightarrow> u8 list \<Rightarrow> nat \<Rightarrow> (u8 list \<times> nat) option" where
  "ar_exact file offset len script done calls =
     (if len \<le> length done then Some (done, calls)
      else case script of
        [] \<Rightarrow> None
      | Interrupted # s \<Rightarrow> ar_exact file offset len s done (Suc calls)
      | Failed e # s \<Rightarrow> Some (done, Suc calls)
      | Transferred k # s \<Rightarrow>
          let want = min (len - length done) SSIZE_MAX;
              got = take (min k want) (drop (offset + length done) file)
          in if got = [] then Some (done, Suc calls)
             else ar_exact file offset len s (done @ got) (Suc calls))"

declare ar_exact.simps [simp del]

text \<open>The last and the next-to-last source to land, among those that took part.\<close>

definition land_order :: "slice list \<Rightarrow> nat list \<Rightarrow> nat option \<times> nat option" where
  "land_order pieces done_ns =
     foldl (\<lambda>(last, second) i.
        if snd (pieces ! i) = 0 then (last, second)
        else case last of
          None \<Rightarrow> (Some i, last)
        | Some l \<Rightarrow>
            if done_ns ! l < done_ns ! i then (Some i, last)
            else if (case second of None \<Rightarrow> True | Some m \<Rightarrow> done_ns ! m < done_ns ! i) then (last, Some i)
            else (last, second))
      (None, None) [0..<length pieces]"

definition ar_complete :: "ar_reader \<Rightarrow> slice list \<Rightarrow> nat list \<Rightarrow> nat list \<Rightarrow> bool \<times> ar_reader \<times> nat" where
  "ar_complete r pieces counts done_ns =
     (let srcs =
        (if 1 < length (sources r) then
           (case land_order pieces done_ns of
              (Some l, Some m) \<Rightarrow>
                map (\<lambda>i. let s = sources r ! i;
                          s1 = (if i = l then s\<lparr>lands_last := Suc (lands_last s),
                                  gap_ns := gap_ns s + (done_ns ! l - done_ns ! m)\<rparr> else s)
                      in if snd (pieces ! i) \<noteq> 0 then s1\<lparr>reads := Suc (reads s1)\<rparr> else s1)
                  [0..<length (sources r)]
            | _ \<Rightarrow> sources r)
         else sources r)
      in (counts = map snd pieces, r\<lparr>sources := srcs\<rparr>, sum_list counts))"

text \<open>
  \<open>ar_read\<close>: \<open>files\<close> and \<open>scripts\<close> give each source its replica and the outcomes of its calls, \<open>order\<close>
  the order in which the workers store their bytes. The result is the return value, the reader, the
  buffer and the byte count; no result is a worker that has not returned.
\<close>

definition ar_read ::
  "bool \<Rightarrow> ar_reader \<Rightarrow> u8 list list \<Rightarrow> pread_outcome list list \<Rightarrow> nat list \<Rightarrow> nat list \<Rightarrow> nat \<Rightarrow> nat \<Rightarrow>
   u8 list option \<Rightarrow> (bool \<times> ar_reader \<times> u8 list \<times> nat) option" where
  "ar_read decode_phase r files scripts order done_ns offset len dst =
     (case dst of None \<Rightarrow> Some (False, r, [], 0) | Some d \<Rightarrow>
        if LONG_MAX < int offset \<or> LONG_MAX - int offset < int len then Some (False, r, d, 0)
        else case ar_plan decode_phase r offset len of
          None \<Rightarrow> Some (False, r, d, 0)
        | Some pieces \<Rightarrow>
            let results = map (\<lambda>i. ar_exact (files ! i) (fst (pieces ! i)) (snd (pieces ! i)) (scripts ! i) [] 0)
                            [0..<length pieces]
            in if None \<in> set results then None
               else
                 let res = map the results;
                     d' = foldl (\<lambda>b i. write_at b (fst (pieces ! i) - offset) (fst (res ! i))) d order;
                     r1 = r\<lparr>sources := map2 (\<lambda>s x. s\<lparr>bytes := bytes s + length (fst x),
                                                     syscalls := syscalls s + snd x\<rparr>) (sources r) res\<rparr>;
                     (ok, r2, total) = ar_complete r1 pieces (map (length \<circ> fst) res) done_ns
                 in Some (ok, r2, d', total))"

section \<open>The plan is contiguous and proportional\<close>

lemma argmax_max: "xs \<noteq> [] \<Longrightarrow> argmax xs < length xs \<and> (\<forall>i<length xs. xs ! i \<le> xs ! argmax xs)"
proof (induction xs rule: argmax.induct)
  case (3 x y zs)
  define k where "k = argmax (y # zs)"
  from 3 have IH: "k < length (y # zs)" "\<And>i. i < length (y # zs) \<Longrightarrow> (y # zs) ! i \<le> (y # zs) ! k"
    by (auto simp: k_def)
  have eq: "argmax (x # y # zs) = (if x < (y # zs) ! k then Suc k else 0)" by (simp add: k_def Let_def)
  show ?case
  proof (intro conjI allI impI)
    show "argmax (x # y # zs) < length (x # y # zs)" unfolding eq using IH(1) by simp
    fix i assume i: "i < length (x # y # zs)"
    show "(x # y # zs) ! i \<le> (x # y # zs) ! argmax (x # y # zs)"
    proof (cases i)
      case 0 then show ?thesis unfolding eq by simp
    next
      case (Suc j)
      with i IH(2) [of j] show ?thesis unfolding eq by simp
    qed
  qed
qed simp_all

lemma assign_left_spec:
  assumes "length counts = length remainders" and "\<forall>r\<in>set remainders. r < T" and "0 < T"
    and "k * T \<le> sum_list remainders"
  shows "length (assign_left k counts remainders) = length counts \<and>
    sum_list (assign_left k counts remainders) = sum_list counts + k \<and>
    (\<forall>i<length counts. assign_left k counts remainders ! i = counts ! i \<or>
        assign_left k counts remainders ! i = Suc (counts ! i) \<and> 0 < remainders ! i) \<and>
    (\<forall>i<length counts. \<forall>j<length counts. assign_left k counts remainders ! i = Suc (counts ! i) \<longrightarrow>
        assign_left k counts remainders ! j = counts ! j \<longrightarrow> remainders ! j \<le> remainders ! i)"
  using assms
proof (induction k arbitrary: counts remainders)
  case (Suc k)
  define b where "b = argmax remainders"
  define c1 where "c1 = counts[b := Suc (counts ! b)]"
  define r1 where "r1 = remainders[b := 0]"
  define c' where "c' = assign_left k c1 r1"
  have pos: "0 < sum_list remainders" using Suc.prems(3,4) by (cases "sum_list remainders") auto
  then have ne: "remainders \<noteq> []" by auto
  note b = argmax_max [OF ne, folded b_def]
  have max: "remainders ! i \<le> remainders ! b" if "i < length remainders" for i using b that by blast
  have bpos: "0 < remainders ! b"
  proof (rule ccontr)
    assume "\<not> ?thesis"
    with max have "\<forall>r\<in>set remainders. r = 0" by (auto simp: in_set_conv_nth)
    then have "sum_list remainders = 0" by (induction remainders) auto
    with pos show False by simp
  qed
  have sum1: "sum_list r1 + remainders ! b = sum_list remainders"
    using sum_list_update_nat [of b remainders 0] b by (simp add: r1_def)
  have "remainders ! b < T" using Suc.prems(2) b by simp
  with sum1 Suc.prems(4) have "k * T \<le> sum_list r1" by simp
  moreover have "\<forall>r\<in>set r1. r < T" using Suc.prems(2,3) b
    by (auto simp: r1_def dest!: set_update_subset_insert [THEN subsetD])
  moreover have "length c1 = length r1" using Suc.prems(1) by (simp add: c1_def r1_def)
  ultimately have IH: "length c' = length c1" "sum_list c' = sum_list c1 + k"
    "\<And>i. i < length c1 \<Longrightarrow> c' ! i = c1 ! i \<or> c' ! i = Suc (c1 ! i) \<and> 0 < r1 ! i"
    "\<And>i j. i < length c1 \<Longrightarrow> j < length c1 \<Longrightarrow> c' ! i = Suc (c1 ! i) \<Longrightarrow> c' ! j = c1 ! j \<Longrightarrow> r1 ! j \<le> r1 ! i"
    using Suc.IH [of c1 r1] Suc.prems(3) unfolding c'_def by blast+
  have eq: "assign_left (Suc k) counts remainders = c'" by (simp add: c'_def c1_def r1_def b_def Let_def)
  have bc: "b < length counts" using b Suc.prems(1) by simp
  have sumc: "sum_list c1 = Suc (sum_list counts)"
    using sum_list_update_nat [OF bc, of "Suc (counts ! b)"] by (simp add: c1_def)
  have at_b: "c' ! b = Suc (counts ! b)" using IH(3) [of b] bc b by (auto simp: c1_def r1_def)
  have off_b: "c1 ! i = counts ! i" "r1 ! i = remainders ! i" if "i \<noteq> b" for i using that by (simp_all add: c1_def r1_def)
  show ?case unfolding eq
  proof (intro conjI allI impI)
    show "length c' = length counts" using IH(1) by (simp add: c1_def)
    show "sum_list c' = sum_list counts + Suc k" using IH(2) sumc by simp
  next
    fix i assume "i < length counts"
    then show "c' ! i = counts ! i \<or> c' ! i = Suc (counts ! i) \<and> 0 < remainders ! i"
      using IH(3) [of i] at_b off_b [of i] bpos by (cases "i = b") (auto simp: c1_def)
  next
    fix i j assume ij: "i < length counts" "j < length counts" "c' ! i = Suc (counts ! i)" "c' ! j = counts ! j"
    then have jb: "j \<noteq> b" using at_b by auto
    show "remainders ! j \<le> remainders ! i"
    proof (cases "i = b")
      case True
      then show ?thesis using max ij Suc.prems(1) by simp
    next
      case False
      then show ?thesis using IH(4) [of i j] ij off_b jb by (simp add: c1_def)
    qed
  qed
qed simp

lemma plan_counts_spec:
  assumes "0 < sum_list ws"
  defines "T \<equiv> sum_list ws"
  shows "length (plan_counts ws B) = length ws \<and> sum_list (plan_counts ws B) = B \<and>
    (\<forall>i<length ws. plan_counts ws B ! i = B * ws ! i div T \<or>
        plan_counts ws B ! i = Suc (B * ws ! i div T) \<and> 0 < B * ws ! i mod T) \<and>
    (\<forall>i<length ws. \<forall>j<length ws. plan_counts ws B ! i = Suc (B * ws ! i div T) \<longrightarrow>
        plan_counts ws B ! j = B * ws ! j div T \<longrightarrow> B * ws ! j mod T \<le> B * ws ! i mod T)"
proof -
  define cs where "cs = map (\<lambda>w. B * w div T) ws"
  define rs where "rs = map (\<lambda>w. B * w mod T) ws"
  have "sum_list (map (\<lambda>w. B * w div T) vs) * T + sum_list (map (\<lambda>w. B * w mod T) vs) = B * sum_list vs" for vs
  proof (induction vs)
    case (Cons v vs)
    have "B * v div T * T + B * v mod T = B * v" by (rule div_mult_mod_eq)
    with Cons show ?case by (simp add: algebra_simps)
  qed simp
  then have tot: "sum_list cs * T + sum_list rs = B * T" unfolding cs_def rs_def T_def by blast
  then have le: "sum_list cs \<le> B" proof -
    from tot have "sum_list cs * T \<le> B * T" by linarith
    then show ?thesis using assms by simp
  qed
  have left: "(B - sum_list cs) * T \<le> sum_list rs" using tot by (simp add: diff_mult_distrib)
  have eq: "plan_counts ws B = assign_left (B - sum_list cs) cs rs"
    by (simp add: plan_counts_def cs_def rs_def T_def Let_def)
  have "length cs = length rs" "\<forall>r\<in>set rs. r < T" "0 < T" using assms by (auto simp: cs_def rs_def)
  from assign_left_spec [OF this left] show ?thesis
    unfolding eq using le by (simp add: cs_def rs_def)
qed

lemma plan_counts_length [simp]: "0 < sum_list ws \<Longrightarrow> length (plan_counts ws B) = length ws"
  using plan_counts_spec by blast

lemma lay_out_contiguous: "contiguous pos (lay_out pos ns) (pos + sum_list ns)"
  by (induction pos ns rule: lay_out.induct) (simp_all add: add.assoc)

lemma lay_out_lengths [simp]: "map snd (lay_out pos ns) = ns"
  by (induction pos ns rule: lay_out.induct) simp_all

lemma length_lay_out [simp]: "length (lay_out pos ns) = length ns"
  by (induction pos ns rule: lay_out.induct) simp_all

lemma sum_piece_lengths:
  "counts \<noteq> [] \<Longrightarrow> sum_list (piece_lengths counts len) = sum_list counts * ar_block + len mod ar_block"
  by (cases counts) (simp_all add: piece_lengths_def sum_list_mult_const add_mult_distrib)

lemma length_piece_lengths [simp]: "length (piece_lengths counts len) = length counts"
  by (cases counts) (simp_all add: piece_lengths_def)

lemma piece_lengths_nth:
  "i < length counts \<Longrightarrow>
     piece_lengths counts len ! i = counts ! i * ar_block + (if i = 0 then len mod ar_block else 0)"
  by (cases counts) (auto simp: piece_lengths_def nth_Cons')

lemma plan_slices_lengths:
  assumes "0 < sum_list ws"
  shows "sum_list (map snd (plan_slices ws offset len)) = len" and "length (plan_slices ws offset len) = length ws"
proof -
  note spec = plan_counts_spec [OF assms, of "len div ar_block"]
  then have "length (plan_counts ws (len div ar_block)) = length ws" by blast
  moreover have "length ws \<noteq> 0" using assms by auto
  ultimately have "plan_counts ws (len div ar_block) \<noteq> []" by (metis length_0_conv)
  then show "sum_list (map snd (plan_slices ws offset len)) = len"
    using spec by (simp add: plan_slices_def sum_piece_lengths)
  show "length (plan_slices ws offset len) = length ws" using spec by (simp add: plan_slices_def)
qed

interpretation replicas: slice_plan plan_slices "\<lambda>ws lo len. 0 < sum_list ws"
proof unfold_locales
  fix ws :: "nat list" and lo len assume ws: "0 < sum_list ws"
  show "contiguous lo (plan_slices ws lo len) (lo + len)"
    using lay_out_contiguous [of lo "piece_lengths (plan_counts ws (len div ar_block)) len"]
      plan_slices_lengths(1) [OF ws, of lo len] by (simp add: plan_slices_def)
qed

lemma plan_slices_nth:
  assumes "0 < sum_list ws" "i < length ws"
  shows "snd (plan_slices ws offset len ! i) =
    plan_counts ws (len div ar_block) ! i * ar_block + (if i = 0 then len mod ar_block else 0)"
proof -
  have l: "i < length (plan_slices ws offset len)" using assms plan_slices_lengths(2) by simp
  have "snd (plan_slices ws offset len ! i) = map snd (plan_slices ws offset len) ! i" using l by simp
  also have "\<dots> = piece_lengths (plan_counts ws (len div ar_block)) len ! i" by (simp add: plan_slices_def)
  finally show ?thesis using piece_lengths_nth assms by simp
qed

text \<open>A request inside the file of the reader.\<close>

definition ar_request :: "ar_reader \<Rightarrow> nat \<Rightarrow> nat \<Rightarrow> bool" where
  "ar_request r offset len \<longleftrightarrow> 0 < len \<and> offset + len \<le> size_bytes r \<and> int (size_bytes r) \<le> LONG_MAX"

lemma reader_weights_bounds:
  "ar_wf r \<Longrightarrow> w \<in> set (reader_weights dp r) \<Longrightarrow> 1 \<le> w \<and> w \<le> 100"
  by (auto simp: ar_wf_def reader_weights_def ar_effective_weight_def list_all_iff)

lemma reader_weights_pos:
  assumes "ws \<noteq> []" and "\<forall>w\<in>set ws. w \<noteq> (0 :: nat)" shows "0 < sum_list ws"
  using assms by (cases ws) auto

lemma ar_plan_Some:
  "ar_plan dp r offset len = Some ps \<Longrightarrow>
     ps = plan_slices (reader_weights dp r) offset len \<and> 0 < sum_list (reader_weights dp r) \<and>
     offset + len \<le> size_bytes r \<and> 0 < len \<and> length (sources r) \<le> 3 \<and>
     (\<forall>w\<in>set (reader_weights dp r). 1 \<le> w \<and> w \<le> 100)"
  unfolding ar_plan_def Let_def
  by (auto split: if_splits intro!: reader_weights_pos simp: reader_weights_def Suc_le_eq)

lemma ar_plan_total:
  assumes "ar_wf r" and "ar_request r offset len"
  shows "ar_plan dp r offset len = Some (plan_slices (reader_weights dp r) offset len)"
proof -
  have w: "\<And>w. w \<in> set (reader_weights dp r) \<Longrightarrow> 1 \<le> w \<and> w \<le> 100" using reader_weights_bounds [OF assms(1)] .
  then have bad: "\<not> (\<exists>w\<in>set (reader_weights dp r). w = 0 \<or> 100 < w)" by fastforce
  have "0 < sum_list (reader_weights dp r)"
    by (rule reader_weights_pos) (use assms(1) w in \<open>force simp: reader_weights_def ar_wf_def\<close>)+
  then have sum: "sum_list (map snd (plan_slices (reader_weights dp r) offset len)) = len"
    by (rule plan_slices_lengths)
  have "\<not> (invalid r \<or> length (sources r) < 1 \<or> 3 < length (sources r) \<or> len = 0 \<or>
         size_bytes r < offset \<or> size_bytes r - offset < len)"
    using assms by (auto simp: ar_wf_def ar_request_def)
  then show ?thesis unfolding ar_plan_def Let_def if_not_P [OF bad] sum by simp
qed

lemma near_share:
  fixes c T x :: nat
  assumes "c = x div T \<or> c = Suc (x div T) \<and> 0 < x mod T" and "0 < T"
  shows "c * T < x + T" and "x < c * T + T"
proof -
  obtain q m where qm: "q = x div T" "m = x mod T" by simp
  then have x: "x = q * T + m" "m < T" using assms(2) by simp_all
  from assms(1) have "c = q \<or> c = Suc q \<and> 0 < m" unfolding qm .
  then show "c * T < x + T" "x < c * T + T" unfolding x(1) using x(2) assms(2) by auto
qed

text \<open>
  For every request inside the file the plan exists, gives each source one slice, the slices are
  contiguous and cover the request exactly, and apart from the partial block (which goes to the primary)
  every source gets whole 256 KiB blocks, less than one block away from its share by weight.
\<close>

theorem replica_split_sound:
  assumes "ar_wf r" and "ar_request r offset len"
  shows "\<exists>ps. ar_plan decode_phase r offset len = Some ps \<and> length ps = length (sources r) \<and>
    contiguous offset ps (offset + len) \<and>
    (let ws = reader_weights decode_phase r; total = sum_list ws; blocks = len div ar_block
     in \<forall>i<length ps. \<exists>c. snd (ps ! i) = c * ar_block + (if i = 0 then len mod ar_block else 0) \<and>
          c * total < blocks * ws ! i + total \<and> blocks * ws ! i < c * total + total)"
proof (intro exI conjI)
  let ?ws = "reader_weights decode_phase r"
  note eq = ar_plan_total [OF assms, of decode_phase]
  then show "ar_plan decode_phase r offset len = Some (plan_slices ?ws offset len)" .
  have pos: "0 < sum_list ?ws" using ar_plan_Some [OF eq] by blast
  note spec = plan_counts_spec [OF pos, of "len div ar_block"]
  have len: "length (plan_slices ?ws offset len) = length ?ws" using plan_slices_lengths(2) [OF pos] .
  then show "length (plan_slices ?ws offset len) = length (sources r)" by (simp add: reader_weights_def)
  show "contiguous offset (plan_slices ?ws offset len) (offset + len)" by (rule replicas.plan_contiguous [OF pos])
  show "let ws = ?ws; total = sum_list ws; blocks = len div ar_block
     in \<forall>i<length (plan_slices ?ws offset len). \<exists>c. snd (plan_slices ?ws offset len ! i) = c * ar_block + (if i = 0 then len mod ar_block else 0) \<and>
          c * total < blocks * ws ! i + total \<and> blocks * ws ! i < c * total + total"
    unfolding Let_def
  proof (intro allI impI)
    fix i assume "i < length (plan_slices ?ws offset len)"
    then have i: "i < length ?ws" using len by simp
    let ?B = "len div ar_block" and ?T = "sum_list ?ws"
    let ?c = "plan_counts ?ws ?B ! i"
    have "?c = ?B * ?ws ! i div ?T \<or> ?c = Suc (?B * ?ws ! i div ?T) \<and> 0 < ?B * ?ws ! i mod ?T"
      using spec i by blast
    note near_share [OF this pos]
    then show "\<exists>c. snd (plan_slices ?ws offset len ! i) = c * ar_block + (if i = 0 then len mod ar_block else 0) \<and>
          c * ?T < ?B * ?ws ! i + ?T \<and> ?B * ?ws ! i < c * ?T + ?T"
      using plan_slices_nth [OF pos i, of offset len] by blast
  qed
qed

text \<open>Every product and sum of the plan fits in 64 bits, so the natural numbers above are the code's.\<close>

lemma plan_no_overflow:
  assumes "ar_plan dp r offset len = Some ps" and "size_bytes r \<le> UINT64_MAX div 2"
  shows "\<forall>w\<in>set (reader_weights dp r). len div ar_block * w \<le> UINT64_MAX"
    and "sum_list (reader_weights dp r) \<le> 300"
    and "\<forall>p\<in>set ps. fst p + snd p \<le> UINT64_MAX"
proof -
  note s = ar_plan_Some [OF assms(1)]
  show "\<forall>w\<in>set (reader_weights dp r). len div ar_block * w \<le> UINT64_MAX"
  proof
    fix w assume "w \<in> set (reader_weights dp r)"
    with s have "w \<le> 100" by blast
    then have "len div ar_block * w \<le> len div ar_block * 100" by simp
    also have "\<dots> \<le> len" by (simp add: ar_block_def)
    also have "\<dots> \<le> UINT64_MAX" using s assms(2) by linarith
    finally show "len div ar_block * w \<le> UINT64_MAX" .
  qed
  have "(\<And>w. w \<in> set ws \<Longrightarrow> w \<le> 100) \<Longrightarrow> sum_list ws \<le> length ws * (100 :: nat)" for ws
    by (induction ws) fastforce+
  with s have "sum_list (reader_weights dp r) \<le> length (reader_weights dp r) * 100" by blast
  also have "\<dots> \<le> 3 * 100" using s by (intro mult_le_mono1) (simp add: reader_weights_def)
  finally show "sum_list (reader_weights dp r) \<le> 300" by simp
  show "\<forall>p\<in>set ps. fst p + snd p \<le> UINT64_MAX"
    using s replicas.in_range [of "reader_weights dp r" _ offset len] assms(2) by fastforce
qed

section \<open>Reading a slice\<close>

lemma ar_exact_transfer:
  "\<not> len \<le> length acc \<Longrightarrow>
     ar_exact file offset len (Transferred k # s) acc calls =
       (let got = take (min k (min (len - length acc) SSIZE_MAX)) (drop (offset + length acc) file)
        in if got = [] then Some (acc, Suc calls) else ar_exact file offset len s (acc @ got) (Suc calls))"
  by (subst ar_exact.simps) (simp only: if_False list.case pread_outcome.case Let_def)

lemma ar_exact_prefix:
  assumes "ar_exact file offset len script acc calls = Some (res, calls')"
    and "acc = take (length acc) (drop offset file)" and "length acc \<le> len"
  shows "res = take (length res) (drop offset file) \<and> length res \<le> len"
  using assms
proof (induction "file" offset len script acc calls rule: ar_exact.induct)
  case (1 "file" offset len script acc calls)
  note step = ar_exact.simps [of "file" offset len script acc calls]
  show ?case
  proof (cases "len \<le> length acc \<or> script = []")
    case True
    with "1.prems" step show ?thesis by (auto split: if_splits)
  next
    case False
    then have False': "\<not> len \<le> length acc" by simp
    from False obtain x s where s: "script = x # s" by (cases script) auto
    show ?thesis
    proof (cases x)
      case Interrupted
      with False s step "1.prems" have "ar_exact file offset len s acc (Suc calls) = Some (res, calls')" by simp
      from "1.IH"(1) [OF _ s Interrupted this] False "1.prems" show ?thesis by simp
    next
      case (Failed e)
      with False s step "1.prems" show ?thesis by simp
    next
      case (Transferred k)
      define want where "want = min (len - length acc) SSIZE_MAX"
      define got where "got = take (min k want) (drop (offset + length acc) file)"
      have step': "ar_exact file offset len script acc calls =
          (if got = [] then Some (acc, Suc calls) else ar_exact file offset len s (acc @ got) (Suc calls))"
        unfolding s Transferred ar_exact_transfer [OF False'] Let_def got_def want_def ..
      show ?thesis
      proof (cases "got = []")
        case True
        with step' "1.prems" show ?thesis by simp
      next
        case nonempty: False
        with step' "1.prems" have rec: "ar_exact file offset len s (acc @ got) (Suc calls) = Some (res, calls')" by simp
        have lenle: "length (acc @ got) \<le> len" using False by (auto simp: got_def want_def)
        have pre: "acc @ got = take (length (acc @ got)) (drop offset file)"
          by (rule prefix_extend [OF "1.prems"(2) got_def])
        show ?thesis
          by (rule "1.IH"(2) [OF _ s Transferred refl _ _ rec pre lenle]) (use False nonempty in \<open>auto simp: got_def want_def\<close>)
      qed
    qed
  qed
qed

lemma ar_exact_delivers:
  assumes "delivers (len - length acc) script" and "offset + len \<le> length file"
    and "acc = take (length acc) (drop offset file)" and "length acc \<le> len"
  shows "\<exists>calls'. ar_exact file offset len script acc calls = Some (take len (drop offset file), calls')"
  using assms
proof (induction script arbitrary: acc calls)
  case Nil
  then show ?case using ar_exact.simps [of "file" offset len "[]" acc calls] by (auto simp: delivers_def)
next
  case (Cons x s)
  note step = ar_exact.simps [of "file" offset len "x # s" acc calls]
  show ?case
  proof (cases "len \<le> length acc")
    case True
    with Cons.prems(3,4) step show ?thesis by simp
  next
    case False
    show ?thesis
    proof (cases x)
      case Interrupted
      with Cons False step show ?thesis by (simp add: delivers_def)
    next
      case (Failed e)
      with Cons.prems(1) show ?thesis by (simp add: delivers_def)
    next
      case (Transferred k)
      define want where "want = min (len - length acc) SSIZE_MAX"
      define got where "got = take (min k want) (drop (offset + length acc) file)"
      have k: "0 < k" using Cons.prems(1) Transferred by (cases k) (auto simp: delivers_def)
      have w: "0 < want" using False by (simp add: want_def SSIZE_MAX_def)
      have lg: "length got = min k want" using Cons.prems(2) False by (simp add: got_def want_def)
      then have ne: "got \<noteq> []" using k w by auto
      have rec: "ar_exact file offset len (x # s) acc calls = ar_exact file offset len s (acc @ got) (Suc calls)"
        unfolding Transferred ar_exact_transfer [OF False] Let_def got_def [symmetric] want_def [symmetric]
        using ne by simp
      have lenle: "length (acc @ got) \<le> len" using False lg by (simp add: want_def)
      have pre: "acc @ got = take (length (acc @ got)) (drop offset file)"
        by (rule prefix_extend [OF Cons.prems(3) got_def])
      have "delivers (len - length (acc @ got)) s"
        using Cons.prems(1) Transferred lg k w by (auto simp: delivers_def)
      from Cons.IH [OF this Cons.prems(2) pre lenle] show ?thesis unfolding rec .
    qed
  qed
qed

section \<open>The whole read\<close>

definition piece_results ::
  "u8 list list \<Rightarrow> pread_outcome list list \<Rightarrow> slice list \<Rightarrow> (u8 list \<times> nat) option list" where
  "piece_results files scripts pieces =
     map (\<lambda>i. ar_exact (files ! i) (fst (pieces ! i)) (snd (pieces ! i)) (scripts ! i) [] 0) [0..<length pieces]"

lemma foldl_write_at_slices:
  "\<forall>i\<in>set order. data i = slice_of xs (ps ! i) \<Longrightarrow>
     foldl (\<lambda>b i. write_at b (fst (ps ! i) - lo) (data i)) dst order = scatter xs lo ps dst order"
  unfolding scatter_def by (induction order arbitrary: dst) simp_all

lemma sum_list_le_eq:
  "length xs = length ys \<Longrightarrow> (\<And>i. i < length ys \<Longrightarrow> xs ! i \<le> ys ! i) \<Longrightarrow>
     sum_list xs \<le> sum_list ys \<and> (sum_list xs = sum_list ys \<longrightarrow> xs = (ys :: nat list))"
proof (induction xs ys rule: list_induct2)
  case (Cons x xs y ys)
  have "x \<le> y" using Cons.prems [of 0] by simp
  moreover have "sum_list xs \<le> sum_list ys \<and> (sum_list xs = sum_list ys \<longrightarrow> xs = ys)"
    using Cons.IH Cons.prems [of "Suc _"] by simp
  ultimately show ?case by auto
qed simp

lemma ar_complete_result:
  "ar_complete r pieces counts done_ns = (ok, r', n) \<Longrightarrow> ok = (counts = map snd pieces) \<and> n = sum_list counts"
  by (simp add: ar_complete_def)

lemma ar_read_eq:
  assumes "\<not> (LONG_MAX < int offset \<or> LONG_MAX - int offset < int len)" and "ar_plan dp r offset len = Some ps"
    and "map Some res = piece_results files scripts ps"
  shows "\<exists>r'. ar_read dp r files scripts order done_ns offset len (Some d) =
    Some (map (length \<circ> fst) res = map snd ps, r',
      foldl (\<lambda>b i. write_at b (fst (ps ! i) - offset) (fst (res ! i))) d order, sum_list (map (length \<circ> fst) res))"
proof -
  let ?d = "foldl (\<lambda>b i. write_at b (fst (ps ! i) - offset) (fst (res ! i))) d order"
  define r1 where "r1 = r\<lparr>sources := map2 (\<lambda>s x. s\<lparr>bytes := bytes s + length (fst x), syscalls := syscalls s + snd x\<rparr>) (sources r) res\<rparr>"
  obtain ok r2 n where c: "ar_complete r1 ps (map (length \<circ> fst) res) done_ns = (ok, r2, n)"
    by (cases "ar_complete r1 ps (map (length \<circ> fst) res) done_ns") auto
  have the: "map the (map Some res) = res" and none: "None \<notin> set (map Some res)" by (auto simp: comp_def)
  have "ar_read dp r files scripts order done_ns offset len (Some d) = Some (ok, r2, ?d, n)"
    unfolding ar_read_def option.case if_not_P [OF assms(1)] assms(2) piece_results_def [symmetric] assms(3) [symmetric]
      Let_def if_not_P [OF none] the r1_def [symmetric] c prod.case ..
  with ar_complete_result [OF c] show ?thesis by auto
qed

lemma ar_read_unfold:
  assumes "ar_read dp r files scripts order done_ns offset len (Some d) = Some (ok, r', d', n)"
  shows "(ok, d', n) = (False, d, 0) \<or>
    (\<exists>ps res. ar_plan dp r offset len = Some ps \<and> map Some res = piece_results files scripts ps \<and>
       ok = (map (length \<circ> fst) res = map snd ps) \<and> n = sum_list (map (length \<circ> fst) res) \<and>
       d' = foldl (\<lambda>b i. write_at b (fst (ps ! i) - offset) (fst (res ! i))) d order)"
proof (cases "LONG_MAX < int offset \<or> LONG_MAX - int offset < int len \<or> ar_plan dp r offset len = None")
  case True
  then have "ar_read dp r files scripts order done_ns offset len (Some d) = Some (False, r, d, 0)"
    by (auto simp: ar_read_def simp del: of_nat_le_iff)
  with assms show ?thesis by simp
next
  case False
  then obtain ps where ps: "ar_plan dp r offset len = Some ps" and rng: "\<not> (LONG_MAX < int offset \<or> LONG_MAX - int offset < int len)"
    by auto
  define results where "results = piece_results files scripts ps"
  have "None \<notin> set results" using assms rng ps
    by (auto simp: ar_read_def Let_def piece_results_def results_def split: if_splits)
  then have "map Some (map the results) = results"
    by (simp add: comp_def, intro map_idI) (metis option.collapse)
  then obtain res where res: "map Some res = piece_results files scripts ps" unfolding results_def by blast
  from ar_read_eq [OF rng ps res, of order done_ns d] assms
  have "ok = (map (length \<circ> fst) res = map snd ps)" "n = sum_list (map (length \<circ> fst) res)"
    "d' = foldl (\<lambda>b i. write_at b (fst (ps ! i) - offset) (fst (res ! i))) d order" by auto
  with ps res show ?thesis by blast
qed

lemma piece_results_slices:
  assumes res: "map Some res = piece_results files scripts ps" and files: "\<forall>i<length ps. files ! i = model"
    and i: "i < length ps"
  shows "fst (res ! i) = take (length (fst (res ! i))) (drop (fst (ps ! i)) model) \<and> length (fst (res ! i)) \<le> snd (ps ! i)"
proof -
  have len: "length res = length ps" using arg_cong [OF res, of length] by (simp add: piece_results_def)
  have "map Some res ! i = piece_results files scripts ps ! i" using res by simp
  then have "ar_exact model (fst (ps ! i)) (snd (ps ! i)) (scripts ! i) [] 0 = Some (fst (res ! i), snd (res ! i))"
    using i len files by (simp add: piece_results_def)
  from ar_exact_prefix [OF this] show ?thesis by simp
qed

lemma ar_read_buffer:
  assumes plan: "ar_plan dp r offset len = Some ps"
    and slices: "\<forall>i<length ps. fst (res ! i) = slice_of model (ps ! i)"
    and model: "size_bytes r = length model" "length d = len" "set order = {..<length (sources r)}"
  shows "foldl (\<lambda>b i. write_at b (fst (ps ! i) - offset) (fst (res ! i))) d order = take len (drop offset model)"
proof -
  from ar_plan_Some [OF plan] have ps: "ps = plan_slices (reader_weights dp r) offset len"
    and pos: "0 < sum_list (reader_weights dp r)" and range: "offset + len \<le> length model" using model(1) by auto
  have lps: "length ps = length (sources r)"
    using plan_slices_lengths(2) [OF pos] ps by (simp add: reader_weights_def)
  have "foldl (\<lambda>b i. write_at b (fst (ps ! i) - offset) (fst (res ! i))) d order = scatter model offset ps d order"
    using model(3) slices lps
    by (intro foldl_write_at_slices [where data = "\<lambda>i. fst (res ! i)"]) simp
  also have "\<dots> = take len (drop offset model)"
    using replicas.any_order [OF pos range model(2), folded ps] model(3) lps by simp
  finally show ?thesis .
qed

text \<open>
  C1: A read that returns reports success only when every worker got all its bytes, and then the buffer
  holds the requested range of the model file, whatever the order in which the workers stored their
  slices; it never reports more bytes than were asked for, and a failure that touched the buffer
  reports fewer.
\<close>

theorem ar_read_correct:
  assumes "ar_read decode_phase r files scripts order done_ns offset len (Some d) = Some (ok, r', d', n)"
    and "\<forall>i<length (sources r). files ! i = model" and "size_bytes r = length model"
    and "length d = len" and "set order = {..<length (sources r)}"
  shows "n \<le> len \<and> (ok \<longrightarrow> n = len \<and> d' = take len (drop offset model)) \<and> (\<not> ok \<longrightarrow> n < len \<or> d' = d)"
proof -
  from ar_read_unfold [OF assms(1)] show ?thesis
  proof (elim disjE exE conjE)
    fix ps res
    assume plan: "ar_plan decode_phase r offset len = Some ps" and res: "map Some res = piece_results files scripts ps"
      and ok: "ok = (map (length \<circ> fst) res = map snd ps)" and n: "n = sum_list (map (length \<circ> fst) res)"
      and d': "d' = foldl (\<lambda>b i. write_at b (fst (ps ! i) - offset) (fst (res ! i))) d order"
    let ?ws = "reader_weights decode_phase r"
    from ar_plan_Some [OF plan] have ps: "ps = plan_slices ?ws offset len" and pos: "0 < sum_list ?ws"
      and range: "offset + len \<le> length model" using assms(3) by auto
    have lps: "length ps = length (sources r)" using plan_slices_lengths(2) [OF pos] ps by (simp add: reader_weights_def)
    have tot: "sum_list (map snd ps) = len" using plan_slices_lengths(1) [OF pos] ps by simp
    have lres: "length res = length ps" using arg_cong [OF res, of length] by (simp add: piece_results_def)
    have slice: "fst (res ! i) = take (length (fst (res ! i))) (drop (fst (ps ! i)) model) \<and> length (fst (res ! i)) \<le> snd (ps ! i)"
      if "i < length ps" for i
      using piece_results_slices [OF res _ that, of model] assms(2) lps by simp
    have le: "sum_list (map (length \<circ> fst) res) \<le> sum_list (map snd ps) \<and>
        (sum_list (map (length \<circ> fst) res) = sum_list (map snd ps) \<longrightarrow> map (length \<circ> fst) res = map snd ps)"
      by (rule sum_list_le_eq) (use lres slice in simp_all)
    have good: "d' = take len (drop offset model)" if "ok"
    proof -
      have "\<forall>i<length ps. fst (res ! i) = slice_of model (ps ! i)"
      proof (intro allI impI)
        fix i assume i: "i < length ps"
        from that ok have "map (length \<circ> fst) res ! i = map snd ps ! i" by simp
        then have "length (fst (res ! i)) = snd (ps ! i)" using i lres by simp
        with slice [OF i] show "fst (res ! i) = slice_of model (ps ! i)" by (simp add: slice_of_def)
      qed
      then show ?thesis unfolding d' by (rule ar_read_buffer [OF plan _ assms(3-5)])
    qed
    have "n \<le> len" "ok \<longrightarrow> n = len" "\<not> ok \<longrightarrow> n \<noteq> len"
      using le unfolding ok n tot [symmetric] by (blast, metis, blast)
    with good show ?thesis by linarith
  qed auto
qed

text \<open>
  C2: As long as every \<open>pread\<close> is at most interrupted and otherwise delivers at least one byte, a read of a
  request inside the file returns, succeeds and fills the buffer with the range of the model.
\<close>

theorem ar_read_delivers:
  assumes "ar_wf r" and "ar_request r offset len"
    and "\<forall>i<length (sources r). files ! i = model \<and> delivers len (scripts ! i)"
    and "size_bytes r = length model" and "length d = len" and "set order = {..<length (sources r)}"
  shows "\<exists>r'. ar_read decode_phase r files scripts order done_ns offset len (Some d) =
    Some (True, r', take len (drop offset model), len)"
proof -
  define ps where "ps = plan_slices (reader_weights decode_phase r) offset len"
  have plan: "ar_plan decode_phase r offset len = Some ps" unfolding ps_def by (rule ar_plan_total [OF assms(1,2)])
  then have pos: "0 < sum_list (reader_weights decode_phase r)" using ar_plan_Some by blast
  have lps: "length ps = length (sources r)" using plan_slices_lengths(2) [OF pos] by (simp add: ps_def reader_weights_def)
  have rng: "\<not> (LONG_MAX < int offset \<or> LONG_MAX - int offset < int len)"
    using assms(2) by (auto simp: ar_request_def)
  have "\<exists>c. piece_results files scripts ps ! i = Some (slice_of model (ps ! i), c)" if i: "i < length ps" for i
  proof -
    have "fst (ps ! i) + snd (ps ! i) \<le> offset + len"
      using replicas.in_range [OF pos, of "ps ! i" offset len] i by (simp add: ps_def)
    moreover have "snd (ps ! i) \<le> len"
      using replicas.in_range [OF pos, of "ps ! i" offset len] i by (simp add: ps_def)
    ultimately have "\<exists>c. ar_exact model (fst (ps ! i)) (snd (ps ! i)) (scripts ! i) [] 0 =
        Some (take (snd (ps ! i)) (drop (fst (ps ! i)) model), c)"
      using assms i lps by (intro ar_exact_delivers) (auto simp: ar_request_def intro: delivers_mono)
    then show ?thesis using assms(3) i lps by (simp add: piece_results_def slice_of_def)
  qed
  then obtain c where c: "\<And>i. i < length ps \<Longrightarrow> piece_results files scripts ps ! i = Some (slice_of model (ps ! i), c i)"
    by metis
  define res where "res = map (\<lambda>i. (slice_of model (ps ! i), c i)) [0..<length ps]"
  have res: "map Some res = piece_results files scripts ps"
    by (rule nth_equalityI) (simp_all add: res_def c piece_results_def [of files scripts ps, THEN arg_cong [of _ _ length]])
  have slices: "\<forall>i<length ps. fst (res ! i) = slice_of model (ps ! i)" by (simp add: res_def)
  have lens: "map (length \<circ> fst) res = map snd ps"
  proof (rule nth_equalityI)
    fix i assume "i < length (map (length \<circ> fst) res)"
    then have i: "i < length ps" by (simp add: res_def)
    have "fst (ps ! i) + snd (ps ! i) \<le> offset + len"
      using replicas.in_range [OF pos, of "ps ! i" offset len] i by (simp add: ps_def)
    then show "map (length \<circ> fst) res ! i = map snd ps ! i"
      using i assms(2,4) by (auto simp: res_def slice_of_def ar_request_def)
  qed (simp add: res_def)
  have "sum_list (map snd ps) = len" using plan_slices_lengths(1) [OF pos] by (simp add: ps_def)
  with ar_read_eq [OF rng plan res, of order done_ns d] ar_read_buffer [OF plan slices assms(4-6)] lens
  show ?thesis by auto
qed

section \<open>Examples\<close>

definition sample_reader :: ar_reader where
  "sample_reader = \<lparr>sources = [new_source 3 2, new_source 4 1], invalid = False, owns_primary = False, size_bytes = 5\<rparr>"

lemma replica_split_sound_witness:
  "\<exists>ps. ar_plan False (sample_reader\<lparr>size_bytes := 2000000\<rparr>) 10 1000000 = Some ps \<and> length ps = 2"
  using replica_split_sound [of "sample_reader\<lparr>size_bytes := 2000000\<rparr>" 10 1000000 False]
  by (auto simp: sample_reader_def ar_wf_def ar_request_def new_source_def)

lemma sample_plan: "ar_plan False sample_reader 1 3 = Some [(1, 3), (4, 0)]"
  by (simp add: sample_reader_def new_source_def ar_plan_def plan_slices_def plan_counts_def
      reader_weights_def ar_effective_weight_def ar_block_def piece_lengths_def)

lemma sample_results:
  "map Some [([2, 3, 4], 3), ([], 0)] =
   piece_results [[1, 2, 3, 4, 5], [1, 2, 3, 4, 5]] [[Transferred 2, Interrupted, Transferred 9], []] [(1, 3), (4, 0)]"
  by (simp add: piece_results_def upt_rec ar_exact.simps SSIZE_MAX_def numeral_2_eq_2 Let_def)

lemma ar_read_correct_witness:
  "\<exists>r' d'. ar_read False sample_reader [[1, 2, 3, 4, 5], [1, 2, 3, 4, 5]]
      [[Transferred 2, Interrupted, Transferred 9], []] [1, 0] [7, 6] 1 3 (Some [0, 0, 0]) = Some (True, r', d', 3) \<and>
     d' = [2, 3, 4]"
proof -
  obtain r' d' where r: "ar_read False sample_reader [[1, 2, 3, 4, 5], [1, 2, 3, 4, 5]]
      [[Transferred 2, Interrupted, Transferred 9], []] [1, 0] [7, 6] 1 3 (Some [0, 0, 0]) = Some (True, r', d', 3)"
    using ar_read_eq [OF _ sample_plan sample_results, of "[1, 0]" "[7, 6]" "[0, 0, 0]"] by auto
  moreover have "\<forall>i<length (sources sample_reader). [[1, 2, 3, 4, 5], [1, 2, 3, 4, 5 :: u8]] ! i = [1, 2, 3, 4, 5]"
    "size_bytes sample_reader = length [1, 2, 3, 4, 5 :: u8]" "set [1, 0] = {..<length (sources sample_reader)}"
    by (auto simp: sample_reader_def less_Suc_eq)
  ultimately show ?thesis using ar_read_correct [OF r, of "[1, 2, 3, 4, 5]"] by simp
qed

lemma ar_read_delivers_witness:
  "\<exists>r'. ar_read False sample_reader [[1, 2, 3, 4, 5], [1, 2, 3, 4, 5]]
     [[Transferred 2, Interrupted, Transferred 9, Transferred 1], replicate 3 (Transferred 1)]
     [1, 0] [7, 6] 1 3 (Some [0, 0, 0]) = Some (True, r', [2, 3, 4], 3)"
proof -
  have "delivers 3 [Transferred 2, Interrupted, Transferred 9, Transferred 1]" "delivers 3 (replicate 3 (Transferred 1))"
    by (simp_all add: delivers_def eval_nat_numeral)
  then have "\<forall>i<length (sources sample_reader). [[1, 2, 3, 4, 5], [1, 2, 3, 4, 5 :: u8]] ! i = [1, 2, 3, 4, 5] \<and>
      delivers 3 ([[Transferred 2, Interrupted, Transferred 9, Transferred 1], replicate 3 (Transferred 1)] ! i)"
    by (auto simp: sample_reader_def less_Suc_eq)
  moreover have "ar_wf sample_reader" "ar_request sample_reader 1 3" "size_bytes sample_reader = length [1, 2, 3, 4, 5 :: u8]"
    "set [1, 0] = {..<length (sources sample_reader)}"
    by (auto simp: sample_reader_def new_source_def ar_wf_def ar_request_def less_Suc_eq)
  ultimately show ?thesis
    using ar_read_delivers [of sample_reader 1 3 "[[1, 2, 3, 4, 5], [1, 2, 3, 4, 5]]" "[1, 2, 3, 4, 5]" _ "[0, 0, 0]" "[1, 0]"]
    by simp
qed

end
