(* ===== verification/Streams.thy ===== *)
theory Streams
  imports Prelude
begin

text \<open>
  Processors that are fed a stream in chunks and carry a state from one chunk to the next: the SHA1
  context of the KV store and the n-gram history of the Engram hash. The interface
  \<open>stream_processor\<close> is the law that makes the chunking invisible; its clients get that any way of
  cutting the input up gives the output and the state of the whole.
\<close>

definition run_chunks :: "('s \<Rightarrow> 'a list \<Rightarrow> 's \<times> 'b list) \<Rightarrow> 's \<Rightarrow> 'a list list \<Rightarrow> 's \<times> 'b list" where
  "run_chunks step s chunks =
     foldl (\<lambda>(s, out) c. let (s', out') = step s c in (s', out @ out')) (s, []) chunks"

locale stream_processor =
  fixes step :: "'s \<Rightarrow> 'a list \<Rightarrow> 's \<times> 'b list"
    and valid :: "'s \<Rightarrow> bool"
  assumes step_Nil: "valid s \<Longrightarrow> step s [] = (s, [])"
    and step_append: "valid s \<Longrightarrow>
      step s (xs @ ys) = (fst (step (fst (step s xs)) ys), snd (step s xs) @ snd (step (fst (step s xs)) ys))"
    and step_valid: "valid s \<Longrightarrow> valid (fst (step s xs))"
begin

lemma run_from:
  "valid s \<Longrightarrow> foldl (\<lambda>(s, out) c. let (s', out') = step s c in (s', out @ out')) (s, acc) chunks =
     (fst (step s (concat chunks)), acc @ snd (step s (concat chunks)))"
proof (induction chunks arbitrary: s acc)
  case Nil
  then show ?case by (simp add: step_Nil)
next
  case (Cons c cs)
  obtain s1 o1 where s1: "step s c = (s1, o1)" by fastforce
  have "valid s1" using step_valid [OF Cons.prems, of c] s1 by simp
  from Cons.IH [OF this, of "acc @ o1"] step_append [OF Cons.prems, of c "concat cs"] s1
  show ?case by (simp add: Let_def)
qed

lemma chunking: "valid s \<Longrightarrow> run_chunks step s chunks = step s (concat chunks)"
  using run_from [of s "[]" chunks] by (simp add: run_chunks_def)

lemma same_stream:
  "valid s \<Longrightarrow> concat xs = concat ys \<Longrightarrow> run_chunks step s xs = run_chunks step s ys"
  by (simp add: chunking)

end

end
