(* ===== verification/EngramHash.thy ===== *)
theory EngramHash
  imports Streams
begin

text \<open>
  The n-gram hash of \<open>ds4_engram.c\<close>: which rows of the Engram tables a token looks up. Token ids and
  rows are words of the code's widths; an \<open>int32_t\<close> history entry is an \<open>int\<close> in the range the code
  checks. \<open>ngram_id\<close> is the abstract meaning of the history (the last tokens since the last masked
  position), \<open>hash_is_ngram_hash\<close> the refinement, \<open>hash_rows_in_buckets\<close> the bound on the rows.
\<close>

section \<open>Layout and history\<close>

definition DS4_ENGRAM_LAYERS :: nat where "DS4_ENGRAM_LAYERS = 2"
definition DS4_ENGRAM_NGRAM :: nat where "DS4_ENGRAM_NGRAM = 4"
definition DS4_ENGRAM_HEADS :: nat where "DS4_ENGRAM_HEADS = 8"
definition DS4_ENGRAM_COLS :: nat where "DS4_ENGRAM_COLS = 24"
definition DS4_ENGRAM_DEAD :: int where "DS4_ENGRAM_DEAD = -1"

record ds4_engram_layout =
  token_map :: "u32 list option"
  vocab_size :: u32
  compressed_vocab_size :: u32
  pad_id :: u32
  rows :: "u32 list"
  multipliers :: "u64 list list"
  primes :: "u32 list list"

type_synonym ds4_engram_history = "int list"

text \<open>\<open>INT32_MAX\<close> and \<open>INT64_MAX\<close> as the unsigned words they are compared with.\<close>

definition ds4_engram_layout_valid :: "ds4_engram_layout option \<Rightarrow> bool" where
  "ds4_engram_layout_valid lo = (case lo of None \<Rightarrow> False | Some l \<Rightarrow>
     (case token_map l of None \<Rightarrow> False | Some tm \<Rightarrow>
        vocab_size l \<noteq> 0 \<and> compressed_vocab_size l \<noteq> 0 \<and> compressed_vocab_size l \<le> 2147483647 \<and>
        pad_id l < compressed_vocab_size l \<and>
        list_all (\<lambda>i. tm ! i < compressed_vocab_size l) [0..<unat (vocab_size l)] \<and>
        list_all (\<lambda>layer.
          list_all (\<lambda>i. let m = multipliers l ! layer ! i
                        in m AND 1 \<noteq> 0 \<and> m \<le> 9223372036854775807 div ucast (compressed_vocab_size l))
            [0..<DS4_ENGRAM_NGRAM] \<and>
          list_all (\<lambda>i. 2 \<le> primes l ! layer ! i) [0..<DS4_ENGRAM_COLS] \<and>
          foldl (\<lambda>total i. total + ucast (primes l ! layer ! i)) 0 [0..<DS4_ENGRAM_COLS] = (ucast (rows l ! layer) :: u64))
          [0..<DS4_ENGRAM_LAYERS]))"

definition ds4_engram_history_reset :: ds4_engram_history where
  "ds4_engram_history_reset = replicate (DS4_ENGRAM_NGRAM - 1) DS4_ENGRAM_DEAD"

section \<open>The hash\<close>

text \<open>The inner loop over the history: once a dead position is met, the rest is padding.\<close>

fun window_ids :: "u32 \<Rightarrow> bool \<Rightarrow> int list \<Rightarrow> u32 list" where
  "window_ids pad blocked [] = []"
| "window_ids pad blocked (i # is) =
     (let b = (blocked \<or> i = DS4_ENGRAM_DEAD) in (if b then pad else of_int i) # window_ids pad b is)"

fun head_rows :: "u64 \<Rightarrow> u32 \<Rightarrow> u32 list \<Rightarrow> u32 list" where
  "head_rows h offset [] = []"
| "head_rows h offset (p # ps) = (ucast (h mod ucast p) + offset) # head_rows h (offset + p) ps"

text \<open>One order of n-grams after the other: mix in one more token, then the heads of that order.\<close>

fun order_rows :: "u64 \<Rightarrow> u32 \<Rightarrow> (u32 \<times> u64) list \<Rightarrow> u32 list \<Rightarrow> u32 list" where
  "order_rows h offset [] ps = []"
| "order_rows h offset ((i, m) # ims) ps =
     (let h' = h XOR (ucast i * m); here = take DS4_ENGRAM_HEADS ps
      in head_rows h' offset here @ order_rows h' (foldl (+) offset here) ims (drop DS4_ENGRAM_HEADS ps))"

definition layer_rows :: "ds4_engram_layout \<Rightarrow> u32 list \<Rightarrow> nat \<Rightarrow> u32 list" where
  "layer_rows l ids layer =
     (let ms = take DS4_ENGRAM_NGRAM (multipliers l ! layer)
      in order_rows (ucast (ids ! 0) * (ms ! 0)) 0 (zip (drop 1 ids) (drop 1 ms)) (take DS4_ENGRAM_COLS (primes l ! layer)))"

definition hash_token :: "ds4_engram_layout \<Rightarrow> ds4_engram_history \<Rightarrow> int \<Rightarrow> ds4_engram_history \<times> u32 list" where
  "hash_token l h current =
     (let ids = window_ids (pad_id l) False (current # h)
      in (current # butlast h, concat (map (layer_rows l ids) [0..<DS4_ENGRAM_LAYERS])))"

definition hash_stream :: "ds4_engram_layout \<Rightarrow> ds4_engram_history \<Rightarrow> int list \<Rightarrow> ds4_engram_history \<times> u32 list" where
  "hash_stream l h cs = foldl (\<lambda>(h, out) c. let (h', r) = hash_token l h c in (h', out @ r)) (h, []) cs"

text \<open>The compressed token at a position, or dead where the mask is zero.\<close>

definition current_ids :: "ds4_engram_layout \<Rightarrow> int list \<Rightarrow> u8 list option \<Rightarrow> int list" where
  "current_ids l tokens msk =
     map (\<lambda>i. if (case msk of None \<Rightarrow> False | Some m \<Rightarrow> m ! i = 0) then DS4_ENGRAM_DEAD
              else sint (the (token_map l) ! nat (tokens ! i))) [0..<length tokens]"

text \<open>
  \<open>sizeof(uint32_t)\<close> is 4. The arguments that may be null are options; the result is the history and
  the rows, or none for \<open>false\<close>, which leaves both as they were.
\<close>

definition ds4_engram_hash ::
  "ds4_engram_layout option \<Rightarrow> ds4_engram_history option \<Rightarrow> int list option \<Rightarrow> u8 list option \<Rightarrow> nat \<Rightarrow> bool \<Rightarrow>
   (ds4_engram_history \<times> u32 list) option" where
  "ds4_engram_hash lo ho tokens msk count has_rows = (case (lo, ho) of
     (Some l, Some h) \<Rightarrow>
       if token_map l = None \<or> count \<noteq> 0 \<and> (tokens = None \<or> \<not> has_rows) \<or>
          UINT64_MAX div (DS4_ENGRAM_LAYERS * DS4_ENGRAM_COLS * 4) < count then None
       else if \<not> list_all (\<lambda>t. DS4_ENGRAM_DEAD \<le> t \<and> (t < 0 \<or> t < uint (compressed_vocab_size l)))
                  (take (DS4_ENGRAM_NGRAM - 1) h) then None
       else
         let ts = (case tokens of None \<Rightarrow> [] | Some ts \<Rightarrow> take count ts)
         in if \<not> list_all (\<lambda>t. 0 \<le> t \<and> t < uint (vocab_size l)) ts then None
            else Some (hash_stream l h (current_ids l ts msk))
   | _ \<Rightarrow> None)"

section \<open>The rows of a layer\<close>

lemma length_window_ids [simp]: "length (window_ids pad b xs) = length xs"
  by (induction pad b xs rule: window_ids.induct) (simp_all add: Let_def)

lemma window_ids_nth:
  "j < length xs \<Longrightarrow> window_ids pad b xs ! j =
     (if b \<or> DS4_ENGRAM_DEAD \<in> set (take (Suc j) xs) then pad else of_int (xs ! j))"
proof (induction pad b xs arbitrary: j rule: window_ids.induct)
  case (2 pad b i "is")
  then show ?case by (cases j) (auto simp: Let_def)
qed simp

lemma length_head_rows [simp]: "length (head_rows h offset ps) = length ps"
  by (induction h offset ps rule: head_rows.induct) simp_all

lemma head_rows_nth:
  "k < length ps \<Longrightarrow> head_rows h offset ps ! k = ucast (h mod ucast (ps ! k)) + (offset + sum_list (take k ps))"
proof (induction h offset ps arbitrary: k rule: head_rows.induct)
  case (2 h offset p ps)
  then show ?case by (cases k) (simp_all add: add.assoc)
qed simp

definition mix :: "u64 \<Rightarrow> (u32 \<times> u64) list \<Rightarrow> u64" where
  "mix h ims = foldl (\<lambda>h (i, m). h XOR (ucast i * m)) h ims"

lemma mix_simps [simp]: "mix h [] = h" "mix h ((i, m) # ims) = mix (h XOR (ucast i * m)) ims"
  by (simp_all add: mix_def)

lemma foldl_add: "foldl (+) (a :: 'a :: comm_monoid_add) xs = a + sum_list xs"
  by (induction xs arbitrary: a) (simp_all add: add.assoc)

lemma length_order_rows:
  "length ps = DS4_ENGRAM_HEADS * length ims \<Longrightarrow> length (order_rows h offset ims ps) = length ps"
proof (induction h offset ims ps rule: order_rows.induct)
  case (2 h offset i m ims ps)
  then have "length (drop DS4_ENGRAM_HEADS ps) = DS4_ENGRAM_HEADS * length ims" by simp
  with 2 show ?case by (simp add: Let_def)
qed simp

lemma order_rows_nth:
  "length ps = DS4_ENGRAM_HEADS * length ims \<Longrightarrow> k < length ps \<Longrightarrow>
     order_rows h offset ims ps ! k =
       ucast (mix h (take (Suc (k div DS4_ENGRAM_HEADS)) ims) mod ucast (ps ! k)) + (offset + sum_list (take k ps))"
proof (induction h offset ims ps arbitrary: k rule: order_rows.induct)
  case (2 h offset i m ims ps)
  let ?H = DS4_ENGRAM_HEADS
  define h' where "h' = h XOR (ucast i * m)"
  have H: "0 < ?H" by (simp add: DS4_ENGRAM_HEADS_def)
  have len: "length (drop ?H ps) = ?H * length ims" using "2.prems"(1) by simp
  have here: "length (take ?H ps) = ?H" using "2.prems"(1) by simp
  have split: "order_rows h offset ((i, m) # ims) ps =
      head_rows h' offset (take ?H ps) @ order_rows h' (offset + sum_list (take ?H ps)) ims (drop ?H ps)"
    by (simp add: h'_def Let_def foldl_add)
  show ?case
  proof (cases "k < ?H")
    case True
    then have "k div ?H = 0" by simp
    moreover have "order_rows h offset ((i, m) # ims) ps ! k = head_rows h' offset (take ?H ps) ! k"
      unfolding split using True here by (simp add: nth_append)
    ultimately show ?thesis using True here by (simp add: head_rows_nth h'_def min_def)
  next
    case False
    have k: "k - ?H < length (drop ?H ps)" using False "2.prems" by simp
    have "order_rows h offset ((i, m) # ims) ps ! k =
        order_rows h' (offset + sum_list (take ?H ps)) ims (drop ?H ps) ! (k - ?H)"
      unfolding split using False here by (simp add: nth_append)
    also have "\<dots> = ucast (mix h' (take (Suc ((k - ?H) div ?H)) ims) mod ucast (drop ?H ps ! (k - ?H))) +
        (offset + sum_list (take ?H ps) + sum_list (take (k - ?H) (drop ?H ps)))"
      using "2.IH" [OF h'_def refl, of "k - ?H"] len k by (simp add: foldl_add)
    finally have eq: "order_rows h offset ((i, m) # ims) ps ! k = \<dots>" .
    have "sum_list (take ?H ps) + sum_list (take (k - ?H) (drop ?H ps)) = sum_list (take k ps)"
      using take_add [of ?H "k - ?H" ps] False by (simp flip: sum_list_append)
    moreover have "drop ?H ps ! (k - ?H) = ps ! k" using False here by (simp add: nth_append)
    moreover have "take (Suc (k div ?H)) ((i, m) # ims) = (i, m) # take (Suc ((k - ?H) div ?H)) ims"
      using False H by (simp add: le_div_geq)
    ultimately show ?thesis unfolding eq by (simp add: h'_def add.assoc)
  qed
qed (simp add: DS4_ENGRAM_HEADS_def)

section \<open>The arrays of a layout\<close>

text \<open>The sizes that the C type of the layout fixes, and the map's, which the loader allocates.\<close>

definition layout_shape :: "ds4_engram_layout \<Rightarrow> bool" where
  "layout_shape l \<longleftrightarrow> (case token_map l of None \<Rightarrow> False | Some tm \<Rightarrow> length tm = unat (vocab_size l)) \<and>
     length (rows l) = DS4_ENGRAM_LAYERS \<and>
     length (multipliers l) = DS4_ENGRAM_LAYERS \<and> list_all (\<lambda>ms. length ms = DS4_ENGRAM_NGRAM) (multipliers l) \<and>
     length (primes l) = DS4_ENGRAM_LAYERS \<and> list_all (\<lambda>ps. length ps = DS4_ENGRAM_COLS) (primes l)"

lemma unat_ucast32: "unat (ucast (x :: u32) :: u64) = unat x"
  using unat_u32_bound [of x] by (simp add: unsigned_ucast_eq take_bit_eq_mod)

lemma sum_u32_exact:
  assumes "length xs \<le> 4294967296"
  shows "unat (foldl (\<lambda>(t :: u64) i. t + ucast (f i :: u32)) 0 xs) = sum_list (map (\<lambda>i. unat (f i)) xs) \<and>
    sum_list (map (\<lambda>i. unat (f i)) xs) \<le> length xs * UINT32_MAX"
  using assms
proof (induction xs rule: rev_induct)
  case (snoc x xs)
  let ?t = "foldl (\<lambda>(t :: u64) i. t + ucast (f i :: u32)) 0 xs"
  have b: "unat (f x) \<le> UINT32_MAX" by (rule unat_u32_bound)
  have IH: "unat ?t = sum_list (map (\<lambda>i. unat (f i)) xs)" "sum_list (map (\<lambda>i. unat (f i)) xs) \<le> length xs * UINT32_MAX"
    using snoc by auto
  have "unat ?t + unat (f x) \<le> (length xs + 1) * UINT32_MAX" using IH b by (simp add: algebra_simps)
  also have "\<dots> \<le> 4294967296 * UINT32_MAX" using snoc.prems by (intro mult_le_mono1) simp
  also have "\<dots> \<le> UINT64_MAX" by simp
  finally have "unat (?t + ucast (f x)) = unat ?t + unat (f x)"
    using unat_add_exact [of ?t "ucast (f x)"] by (simp add: unat_ucast32)
  then show ?case using IH b by simp
qed simp

lemma layout_primes:
  assumes "ds4_engram_layout_valid (Some l)" and "layout_shape l" and "layer < DS4_ENGRAM_LAYERS"
  shows "length (primes l ! layer) = DS4_ENGRAM_COLS"
    and "sum_list (map unat (primes l ! layer)) = unat (rows l ! layer)"
    and "k < DS4_ENGRAM_COLS \<Longrightarrow> 2 \<le> unat (primes l ! layer ! k)"
    and "length (multipliers l ! layer) = DS4_ENGRAM_NGRAM"
proof -
  let ?ps = "primes l ! layer"
  show len: "length ?ps = DS4_ENGRAM_COLS" using assms(2,3) by (auto simp: layout_shape_def list_all_iff)
  show "length (multipliers l ! layer) = DS4_ENGRAM_NGRAM" using assms(2,3) by (auto simp: layout_shape_def list_all_iff)
  have v: "list_all (\<lambda>i. 2 \<le> ?ps ! i) [0..<DS4_ENGRAM_COLS]"
    "foldl (\<lambda>total i. total + ucast (?ps ! i)) 0 [0..<DS4_ENGRAM_COLS] = (ucast (rows l ! layer) :: u64)"
    using assms by (auto simp: ds4_engram_layout_valid_def list_all_iff split: option.splits)
  from v(1) show "k < DS4_ENGRAM_COLS \<Longrightarrow> 2 \<le> unat (?ps ! k)" by (simp add: list_all_iff word_nat)
  have "unat (rows l ! layer) = unat (foldl (\<lambda>total i. total + ucast (?ps ! i)) (0 :: u64) [0..<DS4_ENGRAM_COLS])"
    unfolding v(2) by (simp add: unat_ucast32)
  also have "\<dots> = sum_list (map (\<lambda>i. unat (?ps ! i)) [0..<DS4_ENGRAM_COLS])"
    using sum_u32_exact [of "[0..<DS4_ENGRAM_COLS]" "(!) ?ps"] by (simp add: DS4_ENGRAM_COLS_def)
  also have "map (\<lambda>i. unat (?ps ! i)) [0..<DS4_ENGRAM_COLS] = map unat ?ps"
    using len by (intro nth_equalityI) simp_all
  finally show "sum_list (map unat ?ps) = unat (rows l ! layer)" ..
qed

section \<open>The abstract hash\<close>

text \<open>The \<open>j\<close>-th token of the n-gram that ends at the newest of \<open>past\<close>, padded after a dead one.\<close>

definition ngram_id :: "u32 \<Rightarrow> int list \<Rightarrow> nat \<Rightarrow> u32" where
  "ngram_id pad past j = (if DS4_ENGRAM_DEAD \<in> set (take (Suc j) past) then pad else of_int (past ! j))"

definition ngram_hash :: "(nat \<Rightarrow> u32) \<Rightarrow> u64 list \<Rightarrow> nat \<Rightarrow> u64" where
  "ngram_hash ids ms n = mix 0 (map (\<lambda>j. (ids j, ms ! j)) [0..<Suc n])"

definition bucket_start :: "ds4_engram_layout \<Rightarrow> nat \<Rightarrow> nat \<Rightarrow> nat" where
  "bucket_start l layer col = sum_list (map unat (take col (primes l ! layer)))"

definition ngram_row :: "ds4_engram_layout \<Rightarrow> int list \<Rightarrow> nat \<Rightarrow> nat \<Rightarrow> nat" where
  "ngram_row l past layer col =
     bucket_start l layer col +
     unat (ngram_hash (ngram_id (pad_id l) past) (multipliers l ! layer) (Suc (col div DS4_ENGRAM_HEADS))) mod
       unat (primes l ! layer ! col)"

lemma bucket_end:
  assumes "ds4_engram_layout_valid (Some l)" and "layout_shape l" and "layer < DS4_ENGRAM_LAYERS" and "col < DS4_ENGRAM_COLS"
  shows "bucket_start l layer col + unat (primes l ! layer ! col) \<le> unat (rows l ! layer)"
proof -
  note p = layout_primes [OF assms(1-3)]
  have "sum_list (map unat ps) = sum_list (map unat (take col ps)) + unat (ps ! col) + sum_list (map unat (drop (Suc col) ps))"
    if "col < length ps" for ps :: "u32 list"
    using arg_cong [OF id_take_nth_drop [OF that], of "\<lambda>xs. sum_list (map unat xs)"] by simp
  from this [of "primes l ! layer"] p(1) assms(4)
  have "sum_list (map unat (primes l ! layer)) = bucket_start l layer col + unat (primes l ! layer ! col) + sum_list (map unat (drop (Suc col) (primes l ! layer)))"
    unfolding bucket_start_def by simp
  with p(2) show ?thesis by linarith
qed

lemma engram_consts: "DS4_ENGRAM_HEADS = 8" "DS4_ENGRAM_COLS = 24" "DS4_ENGRAM_NGRAM = 4" "DS4_ENGRAM_LAYERS = 2" "DS4_ENGRAM_DEAD = -1"
  by (simp_all add: DS4_ENGRAM_HEADS_def DS4_ENGRAM_COLS_def DS4_ENGRAM_NGRAM_def DS4_ENGRAM_LAYERS_def DS4_ENGRAM_DEAD_def)

lemma unat_mod32: "0 < unat (p :: u32) \<Longrightarrow> unat (ucast (h mod ucast p :: u64) :: u32) = unat h mod unat p"
proof -
  assume p: "0 < unat p"
  have e: "unat (h mod ucast p :: u64) = unat h mod unat p" by (simp add: unat_mod unat_ucast32)
  have "unat h mod unat p < 4294967296" using mod_less_divisor [OF p, of "unat h"] unat_u32_bound [of p] by linarith
  then show ?thesis using e by (simp add: unsigned_ucast_eq take_bit_eq_mod)
qed

lemma unat_sum_list32:
  "sum_list (map unat (xs :: u32 list)) \<le> UINT32_MAX \<Longrightarrow> unat (sum_list xs) = sum_list (map unat xs)"
proof (induction xs)
  case (Cons x xs)
  then have "unat x + unat (sum_list xs) < 2 ^ 32" by simp
  then have "unat (x + sum_list xs) = unat x + unat (sum_list xs)" by (subst unat_word_ariths) simp
  with Cons show ?case by simp
qed simp

lemma mix_append: "mix h (xs @ ys) = mix (mix h xs) ys"
  by (simp add: mix_def)

lemma ngram_hash_cong:
  assumes "\<And>j. j \<le> n \<Longrightarrow> ids j = ids' j"
  shows "ngram_hash ids ms n = ngram_hash ids' ms n"
proof -
  have "map (\<lambda>j. (ids j, ms ! j)) [0..<Suc n] = map (\<lambda>j. (ids' j, ms ! j)) [0..<Suc n]"
    using assms by (simp add: less_Suc_eq_le)
  then show ?thesis unfolding ngram_hash_def by (rule arg_cong)
qed

lemma layer_rows_nth:
  assumes valid: "ds4_engram_layout_valid (Some l)" "layout_shape l" "layer < DS4_ENGRAM_LAYERS"
    and ids: "length ids = DS4_ENGRAM_NGRAM" and col: "col < DS4_ENGRAM_COLS"
  shows "length (layer_rows l ids layer) = DS4_ENGRAM_COLS"
    and "unat (layer_rows l ids layer ! col) = bucket_start l layer col +
      unat (ngram_hash ((!) ids) (multipliers l ! layer) (Suc (col div DS4_ENGRAM_HEADS))) mod unat (primes l ! layer ! col)"
proof -
  note p = layout_primes [OF valid]
  let ?ps = "primes l ! layer" and ?ms = "multipliers l ! layer"
  let ?ims = "zip (drop 1 ids) (drop 1 ?ms)"
  have len: "length ?ps = DS4_ENGRAM_HEADS * length ?ims" using p(1,4) ids by (simp add: engram_consts)
  have eq: "layer_rows l ids layer = order_rows (ucast (ids ! 0) * (?ms ! 0)) 0 ?ims ?ps"
    using p(1,4) by (simp add: layer_rows_def Let_def engram_consts)
  show "length (layer_rows l ids layer) = DS4_ENGRAM_COLS"
    unfolding eq using length_order_rows [OF len] p(1) by simp
  define n where "n = Suc (col div DS4_ENGRAM_HEADS)"
  have n: "n \<le> 3" "0 < n" using col by (simp_all add: n_def engram_consts)
  have mixed: "mix (ucast (ids ! 0) * (?ms ! 0)) (take n ?ims) = ngram_hash ((!) ids) ?ms n"
  proof -
    have "take n ?ims = map (\<lambda>j. (ids ! j, ?ms ! j)) [1..<Suc n]"
      using n ids p(4) by (intro nth_equalityI) (auto simp: engram_consts simp del: upt_Suc)
    moreover have "[0..<Suc n] = 0 # [1..<Suc n]" by (simp add: upt_rec)
    ultimately show ?thesis unfolding ngram_hash_def by (simp del: upt_Suc)
  qed
  have col': "col < length ?ps" using col p(1) by simp
  let ?m = "ucast (ngram_hash ((!) ids) ?ms n mod ucast (?ps ! col) :: u64) :: u32"
  have row: "layer_rows l ids layer ! col = ?m + sum_list (take col ?ps)"
    unfolding eq using order_rows_nth [OF len col', of "ucast (ids ! 0) * (?ms ! 0)" 0] mixed by (simp add: n_def)
  have pos: "0 < unat (?ps ! col)" using p(3) [OF col] by simp
  have m: "unat ?m = unat (ngram_hash ((!) ids) ?ms n) mod unat (?ps ! col)" by (rule unat_mod32 [OF pos])
  have "bucket_start l layer col + unat (?ps ! col) \<le> UINT32_MAX"
    using bucket_end [OF valid col] unat_u32_bound [of "rows l ! layer"] by linarith
  moreover have "unat ?m < unat (?ps ! col)" unfolding m using pos by simp
  ultimately have b: "unat ?m + bucket_start l layer col \<le> UINT32_MAX" by linarith
  then have s: "unat (sum_list (take col ?ps)) = bucket_start l layer col"
    unfolding bucket_start_def by (intro unat_sum_list32) simp
  have "unat (?m + sum_list (take col ?ps)) = unat ?m + unat (sum_list (take col ?ps))"
    using b s by (simp add: unat_word_ariths)
  then show "unat (layer_rows l ids layer ! col) = bucket_start l layer col +
      unat (ngram_hash ((!) ids) ?ms (Suc (col div DS4_ENGRAM_HEADS))) mod unat (?ps ! col)"
    using m s by (simp add: row n_def)
qed

section \<open>The stream of tokens\<close>

lemma hash_stream_Nil [simp]: "hash_stream l h [] = (h, [])"
  by (simp add: hash_stream_def)

lemma hash_stream_snoc:
  "hash_stream l h (cs @ [c]) =
     (fst (hash_token l (fst (hash_stream l h cs)) c), snd (hash_stream l h cs) @ snd (hash_token l (fst (hash_stream l h cs)) c))"
  by (simp add: hash_stream_def split_beta Let_def)

lemma hash_stream_append:
  "hash_stream l h (xs @ ys) =
     (fst (hash_stream l (fst (hash_stream l h xs)) ys),
      snd (hash_stream l h xs) @ snd (hash_stream l (fst (hash_stream l h xs)) ys))"
proof (induction ys rule: rev_induct)
  case (snoc y ys)
  show ?case unfolding append_assoc [symmetric] hash_stream_snoc snoc.IH by simp
qed simp

lemma hash_stream_history:
  "length h = DS4_ENGRAM_NGRAM - 1 \<Longrightarrow> fst (hash_stream l h cs) = take (DS4_ENGRAM_NGRAM - 1) (rev cs @ h)"
proof (induction cs rule: rev_induct)
  case (snoc c cs)
  have "butlast (take 3 xs) = take 2 xs" if "3 \<le> length xs" for xs :: "int list"
    using that by (simp add: butlast_take)
  from this [of "rev cs @ h"] have "fst (hash_token l (take 3 (rev cs @ h)) c) = c # take 2 (rev cs @ h)"
    using snoc.prems by (simp add: hash_token_def Let_def engram_consts)
  then show ?case using snoc unfolding hash_stream_snoc by (simp add: engram_consts)
qed simp

interpretation engram_stream: stream_processor "hash_stream l" "\<lambda>h. True" for l
  by unfold_locales (simp_all add: hash_stream_append)

lemma hash_token_rows:
  assumes "ds4_engram_layout_valid (Some l)" "layout_shape l" "length h = DS4_ENGRAM_NGRAM - 1"
  shows "length (snd (hash_token l h c)) = DS4_ENGRAM_LAYERS * DS4_ENGRAM_COLS"
    and "layer < DS4_ENGRAM_LAYERS \<Longrightarrow> col < DS4_ENGRAM_COLS \<Longrightarrow>
      unat (snd (hash_token l h c) ! (layer * DS4_ENGRAM_COLS + col)) = ngram_row l (c # h) layer col"
proof -
  let ?ids = "window_ids (pad_id l) False (c # h)"
  have ids: "length ?ids = DS4_ENGRAM_NGRAM" unfolding length_window_ids using assms(3) by (simp add: engram_consts)
  have two: "[0..<DS4_ENGRAM_LAYERS] = [0, 1]" by (simp add: engram_consts upt_rec)
  have len: "length (layer_rows l ?ids layer) = DS4_ENGRAM_COLS" if "layer < DS4_ENGRAM_LAYERS" for layer
    using layer_rows_nth(1) [OF assms(1,2) that ids, of 0] by (simp add: engram_consts)
  have eq: "snd (hash_token l h c) = layer_rows l ?ids 0 @ layer_rows l ?ids 1"
    unfolding hash_token_def Let_def two by simp
  have l01: "length (layer_rows l ?ids 0) = 24" "length (layer_rows l ?ids 1) = 24"
    using len [of 0] len [of 1] by (simp_all add: engram_consts)
  show "length (snd (hash_token l h c)) = DS4_ENGRAM_LAYERS * DS4_ENGRAM_COLS"
    unfolding eq using l01 by (simp add: engram_consts)
  assume layer: "layer < DS4_ENGRAM_LAYERS" and col: "col < DS4_ENGRAM_COLS"
  have "(layer_rows l ?ids 0 @ layer_rows l ?ids 1) ! (layer * DS4_ENGRAM_COLS + col) = layer_rows l ?ids layer ! col"
    using layer col l01 by (auto simp: engram_consts nth_append less_2_cases_iff)
  moreover have id: "?ids ! j = ngram_id (pad_id l) (c # h) j" if "j < DS4_ENGRAM_NGRAM" for j
    using window_ids_nth [of j "c # h" "pad_id l" False] that assms(3) by (simp only: ngram_id_def) (simp add: engram_consts)
  moreover have "col div DS4_ENGRAM_HEADS \<le> 2" using col by (simp add: engram_consts)
  then have hash: "ngram_hash ((!) ?ids) ms (Suc (col div DS4_ENGRAM_HEADS)) =
      ngram_hash (ngram_id (pad_id l) (c # h)) ms (Suc (col div DS4_ENGRAM_HEADS))" for ms
    by (intro ngram_hash_cong id) (simp add: engram_consts)
  ultimately show "unat (snd (hash_token l h c) ! (layer * DS4_ENGRAM_COLS + col)) = ngram_row l (c # h) layer col"
    unfolding eq ngram_row_def using layer_rows_nth(2) [OF assms(1,2) layer ids col] hash by simp
qed

lemma ngram_row_window:
  assumes "length past \<ge> DS4_ENGRAM_NGRAM" and "col < DS4_ENGRAM_COLS"
  shows "ngram_row l (take DS4_ENGRAM_NGRAM past) layer col = ngram_row l past layer col"
proof -
  have "ngram_id (pad_id l) (take DS4_ENGRAM_NGRAM past) j = ngram_id (pad_id l) past j" if "j < DS4_ENGRAM_NGRAM" for j
    using that assms(1) by (simp add: ngram_id_def min_absorb1)
  moreover have "col div DS4_ENGRAM_HEADS \<le> 2" using assms(2) by (simp add: engram_consts)
  ultimately show ?thesis
    unfolding ngram_row_def
    by (intro arg_cong2 [of _ _ _ _ "(+)"] arg_cong2 [of _ _ _ _ "(mod)"] arg_cong [of _ _ unat] ngram_hash_cong refl)
      (simp add: engram_consts)
qed

lemma hash_stream_rows:
  assumes "ds4_engram_layout_valid (Some l)" "layout_shape l" "length h = DS4_ENGRAM_NGRAM - 1"
  shows "length (snd (hash_stream l h cs)) = length cs * (DS4_ENGRAM_LAYERS * DS4_ENGRAM_COLS) \<and>
    (\<forall>i<length cs. \<forall>layer<DS4_ENGRAM_LAYERS. \<forall>col<DS4_ENGRAM_COLS.
      unat (snd (hash_stream l h cs) ! (i * (DS4_ENGRAM_LAYERS * DS4_ENGRAM_COLS) + (layer * DS4_ENGRAM_COLS + col))) =
        ngram_row l (rev (take (Suc i) cs) @ h) layer col)"
proof (induction cs rule: rev_induct)
  case (snoc c cs)
  let ?W = "DS4_ENGRAM_LAYERS * DS4_ENGRAM_COLS"
  let ?h = "fst (hash_stream l h cs)" and ?out = "snd (hash_stream l h cs)"
  have h: "?h = take 3 (rev cs @ h)" using hash_stream_history [OF assms(3)] by (simp add: engram_consts)
  then have h3: "length ?h = DS4_ENGRAM_NGRAM - 1" using assms(3) by (simp add: engram_consts)
  note tok = hash_token_rows [OF assms(1,2) h3]
  have len: "length ?out = length cs * ?W" using snoc.IH by blast
  have out: "snd (hash_stream l h (cs @ [c])) = ?out @ snd (hash_token l ?h c)" by (simp add: hash_stream_snoc)
  show ?case
  proof (intro conjI allI impI)
    show "length (snd (hash_stream l h (cs @ [c]))) = length (cs @ [c]) * ?W"
      unfolding out using len tok(1) by simp
    fix i layer col assume i: "i < length (cs @ [c])" and lc: "layer < DS4_ENGRAM_LAYERS" "col < DS4_ENGRAM_COLS"
    let ?k = "layer * DS4_ENGRAM_COLS + col"
    have k: "?k < ?W" using lc by (auto simp: engram_consts less_2_cases_iff)
    show "unat (snd (hash_stream l h (cs @ [c])) ! (i * ?W + ?k)) = ngram_row l (rev (take (Suc i) (cs @ [c])) @ h) layer col"
    proof (cases "i < length cs")
      case True
      then have "i * ?W + ?k < length ?out" using k len mult_le_mono1 [of "Suc i" "length cs" ?W] by simp
      then show ?thesis unfolding out using snoc.IH True lc by (simp add: nth_append)
    next
      case False
      then have i': "i = length cs" using i by simp
      have "unat (snd (hash_stream l h (cs @ [c])) ! (i * ?W + ?k)) = ngram_row l (c # ?h) layer col"
        unfolding out i' using tok(2) [OF lc] len by (simp add: nth_append)
      also have "c # ?h = take DS4_ENGRAM_NGRAM (c # rev cs @ h)" unfolding h by (simp add: engram_consts)
      also have "ngram_row l \<dots> layer col = ngram_row l (c # rev cs @ h) layer col"
        using assms(3) lc(2) by (intro ngram_row_window) (simp_all add: engram_consts)
      finally show ?thesis unfolding i' by simp
    qed
  qed
qed simp

text \<open>The entries a history may have; the check at the start of \<open>ds4_engram_hash\<close>.\<close>

definition history_ok :: "ds4_engram_layout \<Rightarrow> ds4_engram_history \<Rightarrow> bool" where
  "history_ok l h \<longleftrightarrow> length h = DS4_ENGRAM_NGRAM - 1 \<and>
     list_all (\<lambda>t. DS4_ENGRAM_DEAD \<le> t \<and> (t < 0 \<or> t < uint (compressed_vocab_size l))) h"

definition tokens_ok :: "ds4_engram_layout \<Rightarrow> int list \<Rightarrow> bool" where
  "tokens_ok l ts \<longleftrightarrow> list_all (\<lambda>t. 0 \<le> t \<and> t < uint (vocab_size l)) ts"

lemma engram_hash_Some:
  assumes "length h = DS4_ENGRAM_NGRAM - 1"
  shows "ds4_engram_hash (Some l) (Some h) (Some ts) msk (length ts) True = Some (h', out) \<longleftrightarrow>
    token_map l \<noteq> None \<and> length ts \<le> UINT64_MAX div (DS4_ENGRAM_LAYERS * DS4_ENGRAM_COLS * 4) \<and> history_ok l h \<and> tokens_ok l ts \<and>
    (h', out) = hash_stream l h (current_ids l ts msk)"
  using assms by (auto simp: ds4_engram_hash_def history_ok_def tokens_ok_def Let_def)

lemma length_current_ids [simp]: "length (current_ids l ts msk) = length ts"
  by (simp add: current_ids_def)

text \<open>
  C11: The rows the code emits for a token are the n-gram hash of the compressed tokens up to it: for every
  layer and column the row is the start of the column's bucket plus the hash of its order, the xor of
  the products of the newest tokens with their multipliers, modulo the column's prime; a token behind a
  masked position counts as padding.
\<close>

theorem hash_is_ngram_hash:
  assumes "ds4_engram_hash (Some l) (Some h) (Some ts) msk (length ts) True = Some (h', out)"
    and "ds4_engram_layout_valid (Some l)" and "layout_shape l" and "length h = 3"
  shows "length out = length ts * 48 \<and>
    (\<forall>i<length ts. \<forall>layer<2. \<forall>col<24.
      unat (out ! (i * 48 + (layer * 24 + col))) = ngram_row l (rev (take (Suc i) (current_ids l ts msk)) @ h) layer col)"
proof -
  have h: "length h = DS4_ENGRAM_NGRAM - 1" using assms(4) by (simp add: engram_consts)
  from assms(1) have "out = snd (hash_stream l h (current_ids l ts msk))"
    unfolding engram_hash_Some [OF h] by (metis snd_conv)
  with hash_stream_rows [OF assms(2,3) h, of "current_ids l ts msk"] show ?thesis by (simp add: engram_consts)
qed

text \<open>
  Under a valid layout no row id wraps around: every row lies in its own column's bucket and below the
  number of rows of its layer.
\<close>

theorem hash_rows_in_buckets:
  assumes "ds4_engram_hash (Some l) (Some h) (Some ts) msk (length ts) True = Some (h', out)"
    and "ds4_engram_layout_valid (Some l)" and "layout_shape l" and "length h = 3"
    and "i < length ts" and "layer < 2" and "col < 24"
  shows "bucket_start l layer col \<le> unat (out ! (i * 48 + (layer * 24 + col))) \<and>
    unat (out ! (i * 48 + (layer * 24 + col))) < bucket_start l layer col + unat (primes l ! layer ! col) \<and>
    unat (out ! (i * 48 + (layer * 24 + col))) < unat (rows l ! layer)"
proof -
  have h: "length h = DS4_ENGRAM_NGRAM - 1" using assms(4) by (simp add: engram_consts)
  have lc: "layer < DS4_ENGRAM_LAYERS" "col < DS4_ENGRAM_COLS" using assms(6,7) by (simp_all add: engram_consts)
  from assms(1) have "out = snd (hash_stream l h (current_ids l ts msk))"
    unfolding engram_hash_Some [OF h] by (metis snd_conv)
  with hash_stream_rows [OF assms(2,3) h, of "current_ids l ts msk"] assms(5-7)
  have row: "unat (out ! (i * 48 + (layer * 24 + col))) = ngram_row l (rev (take (Suc i) (current_ids l ts msk)) @ h) layer col"
    by (simp add: engram_consts)
  have "0 < unat (primes l ! layer ! col)" using layout_primes(3) [OF assms(2,3) lc(1) lc(2)] by simp
  with bucket_end [OF assms(2,3) lc] show ?thesis
    unfolding row ngram_row_def using mod_less_divisor by (smt (verit) add_less_cancel_left le_add1 less_le_trans)
qed

lemma map_entries:
  assumes "ds4_engram_layout_valid (Some l)" and "t < unat (vocab_size l)"
  shows "0 \<le> sint (the (token_map l) ! t) \<and> sint (the (token_map l) ! t) < uint (compressed_vocab_size l)"
proof -
  let ?x = "the (token_map l) ! t"
  from assms have x: "?x < compressed_vocab_size l" "compressed_vocab_size l \<le> 2147483647"
    by (auto simp: ds4_engram_layout_valid_def list_all_iff split: option.splits)
  then have "uint ?x < 2147483648" by (simp add: word_less_def word_le_def)
  then have "sint ?x = uint ?x" by (simp add: sint_uint signed_take_bit_int_eq_self_iff order.trans [OF _ unsigned_greater_eq])
  with x show ?thesis by (simp add: word_less_def)
qed

lemma hash_keeps_history_ok:
  assumes "ds4_engram_hash (Some l) (Some h) (Some ts) msk (length ts) True = Some (h', out)"
    and "ds4_engram_layout_valid (Some l)" and "length h = 3"
  shows "history_ok l h'"
proof -
  have h: "length h = DS4_ENGRAM_NGRAM - 1" using assms(3) by (simp add: engram_consts)
  from assms(1) have s: "history_ok l h" "tokens_ok l ts" "token_map l \<noteq> None" "h' = fst (hash_stream l h (current_ids l ts msk))"
    unfolding engram_hash_Some [OF h] by (blast, blast, blast, metis fst_conv)
  have "DS4_ENGRAM_DEAD \<le> c \<and> (c < 0 \<or> c < uint (compressed_vocab_size l))" if "c \<in> set (current_ids l ts msk)" for c
  proof -
    from that obtain i where i: "i < length ts" and c: "c = DS4_ENGRAM_DEAD \<or> c = sint (the (token_map l) ! nat (ts ! i))"
      by (auto simp: current_ids_def)
    have "0 \<le> ts ! i \<and> ts ! i < uint (vocab_size l)" using s(2) i by (auto simp: tokens_ok_def list_all_iff)
    then have "nat (ts ! i) < unat (vocab_size l)" by (simp only: unat_eq_nat_uint nat_less_eq_zless)
    from map_entries [OF assms(2) this] c show ?thesis by (cases "c = DS4_ENGRAM_DEAD") (simp_all add: engram_consts)
  qed
  then have "\<forall>c\<in>set (rev (current_ids l ts msk) @ h). DS4_ENGRAM_DEAD \<le> c \<and> (c < 0 \<or> c < uint (compressed_vocab_size l))"
    using s(1) by (simp add: history_ok_def list_all_iff ball_Un)
  then have "list_all (\<lambda>c. DS4_ENGRAM_DEAD \<le> c \<and> (c < 0 \<or> c < uint (compressed_vocab_size l)))
      (take (DS4_ENGRAM_NGRAM - 1) (rev (current_ids l ts msk) @ h))"
    unfolding list_all_iff using set_take_subset by fast
  moreover have "length (take (DS4_ENGRAM_NGRAM - 1) (rev (current_ids l ts msk) @ h)) = DS4_ENGRAM_NGRAM - 1"
    using h by simp
  ultimately show "history_ok l h'"
    unfolding s(4) hash_stream_history [OF h] history_ok_def by blast
qed

text \<open>
  The history a hash leaves behind passes the check of the next call, and so does a reset history, so
  after a successful call every later call with valid tokens is accepted.
\<close>

theorem engram_history_invariant:
  assumes "ds4_engram_hash (Some l) (Some h) (Some ts) msk (length ts) True = Some (h', out)"
    and "ds4_engram_layout_valid (Some l)" and "length h = 3"
  shows "history_ok l h' \<and> history_ok l ds4_engram_history_reset \<and>
    (\<forall>us. tokens_ok l us \<and> length us \<le> 96076792050570581 \<longrightarrow>
      ds4_engram_hash (Some l) (Some h') (Some us) None (length us) True \<noteq> None)"
proof -
  have ok: "history_ok l h'" by (rule hash_keeps_history_ok [OF assms])
  have h: "length h = DS4_ENGRAM_NGRAM - 1" using assms(3) by (simp add: engram_consts)
  from assms(1) have tm: "token_map l \<noteq> None" unfolding engram_hash_Some [OF h] by blast
  have "history_ok l ds4_engram_history_reset"
    by (simp add: history_ok_def ds4_engram_history_reset_def engram_consts list_all_iff)
  moreover have "ds4_engram_hash (Some l) (Some h') (Some us) None (length us) True \<noteq> None"
    if "tokens_ok l us" "length us \<le> 96076792050570581" for us
  proof -
    have "length h' = DS4_ENGRAM_NGRAM - 1" using ok by (simp add: history_ok_def)
    from engram_hash_Some [OF this, of l us None] that ok tm show ?thesis
      by (cases "hash_stream l h' (current_ids l us None)") (auto simp: engram_consts)
  qed
  ultimately show ?thesis using ok by blast
qed

lemma current_ids_append:
  assumes "length mx = length xs"
  shows "current_ids l (xs @ ys) (Some (mx @ my)) = current_ids l xs (Some mx) @ current_ids l ys (Some my)"
  using assms by (intro nth_equalityI) (simp_all add: current_ids_def nth_append)

text \<open>
  Hashing a sequence of tokens at once gives the rows and the history of hashing any first part of it and
  then the rest, with the history carried over.
\<close>

theorem engram_hash_chunks:
  assumes "ds4_engram_hash (Some l) (Some h) (Some (xs @ ys)) (Some (mx @ my)) (length (xs @ ys)) True = Some (h2, out)"
    and "length mx = length xs" and "ds4_engram_layout_valid (Some l)" and "length h = 3"
  shows "\<exists>h1 o1 o2. ds4_engram_hash (Some l) (Some h) (Some xs) (Some mx) (length xs) True = Some (h1, o1) \<and>
    ds4_engram_hash (Some l) (Some h1) (Some ys) (Some my) (length ys) True = Some (h2, o2) \<and> out = o1 @ o2"
proof -
  have h: "length h = DS4_ENGRAM_NGRAM - 1" using assms(4) by (simp add: engram_consts)
  let ?cx = "current_ids l xs (Some mx)" and ?cy = "current_ids l ys (Some my)"
  from assms(1) have s: "token_map l \<noteq> None" "history_ok l h" "tokens_ok l (xs @ ys)"
    "length (xs @ ys) \<le> UINT64_MAX div (DS4_ENGRAM_LAYERS * DS4_ENGRAM_COLS * 4)"
    "(h2, out) = run_chunks (hash_stream l) h [?cx, ?cy]"
    unfolding engram_hash_Some [OF h] current_ids_append [OF assms(2)] engram_stream.chunking [OF TrueI] by simp_all
  define h1 where "h1 = fst (hash_stream l h ?cx)"
  define o1 where "o1 = snd (hash_stream l h ?cx)"
  have first: "ds4_engram_hash (Some l) (Some h) (Some xs) (Some mx) (length xs) True = Some (h1, o1)"
    unfolding engram_hash_Some [OF h] h1_def o1_def using s by (simp add: tokens_ok_def)
  from hash_keeps_history_ok [OF first assms(3,4)] have h1: "history_ok l h1" "length h1 = DS4_ENGRAM_NGRAM - 1"
    by (simp_all add: history_ok_def)
  have step: "h2 = fst (hash_stream l h1 ?cy)" "out = o1 @ snd (hash_stream l h1 ?cy)"
    using s(5) by (simp_all add: run_chunks_def h1_def o1_def split_beta Let_def)
  have "ds4_engram_hash (Some l) (Some h1) (Some ys) (Some my) (length ys) True = Some (h2, snd (hash_stream l h1 ?cy))"
    unfolding engram_hash_Some [OF h1(2)] using s h1(1) step by (simp add: tokens_ok_def)
  with first step(2) show ?thesis by blast
qed

section \<open>An example\<close>

definition sample_layout :: ds4_engram_layout where
  "sample_layout = \<lparr>token_map = Some [0, 1, 1], vocab_size = 3, compressed_vocab_size = 2, pad_id = 0,
     rows = [72, 120], multipliers = [[1, 3, 5, 7], [9, 11, 13, 15]], primes = [replicate 24 3, replicate 24 5]\<rparr>"

lemma sample_layout_ok: "ds4_engram_layout_valid (Some sample_layout)" "layout_shape sample_layout"
  by (simp_all add: ds4_engram_layout_valid_def layout_shape_def sample_layout_def engram_consts Let_def upt_rec)

lemma sample_hash:
  "\<exists>h' out. ds4_engram_hash (Some sample_layout) (Some [-1, -1, -1]) (Some [2, 0]) (Some [1, 0]) (length [2, 0 :: int]) True = Some (h', out)"
proof -
  have h: "length [-1, -1, -1 :: int] = DS4_ENGRAM_NGRAM - 1" by (simp add: engram_consts)
  show ?thesis unfolding engram_hash_Some [OF h]
    by (cases "hash_stream sample_layout [-1, -1, -1] (current_ids sample_layout [2, 0] (Some [1, 0]))")
      (simp add: history_ok_def tokens_ok_def sample_layout_def engram_consts)
qed

lemma hash_is_ngram_hash_witness:
  "\<exists>h' out. ds4_engram_hash (Some sample_layout) (Some [-1, -1, -1]) (Some [2, 0]) (Some [1, 0]) (length [2, 0 :: int]) True = Some (h', out) \<and>
     length out = 96 \<and> unat (out ! 47) = ngram_row sample_layout [1, -1, -1, -1] 1 23"
proof -
  from sample_hash obtain h' out where
    r: "ds4_engram_hash (Some sample_layout) (Some [-1, -1, -1]) (Some [2, 0]) (Some [1, 0]) (length [2, 0 :: int]) True = Some (h', out)"
    by blast
  have c: "current_ids sample_layout [2, 0] (Some [1, 0]) = [1, -1]"
    by (simp add: current_ids_def sample_layout_def engram_consts)
  note t = hash_is_ngram_hash [OF r sample_layout_ok, simplified]
  have "unat (out ! (0 * 48 + (1 * 24 + 23))) = ngram_row sample_layout (rev (take (Suc 0) [1, -1]) @ [-1, -1, -1]) 1 23"
    using conjunct2 [OF t, rule_format, of 0 1 23] unfolding c by simp
  with t have "length out = 96 \<and> unat (out ! 47) = ngram_row sample_layout [1, -1, -1, -1] 1 23" by simp
  with r show ?thesis by blast
qed

lemma hash_rows_in_buckets_witness:
  "\<exists>h' out. ds4_engram_hash (Some sample_layout) (Some [-1, -1, -1]) (Some [2, 0]) (Some [1, 0]) (length [2, 0 :: int]) True = Some (h', out) \<and>
     115 \<le> unat (out ! 95) \<and> unat (out ! 95) < 120"
proof -
  from sample_hash obtain h' out where
    r: "ds4_engram_hash (Some sample_layout) (Some [-1, -1, -1]) (Some [2, 0]) (Some [1, 0]) (length [2, 0 :: int]) True = Some (h', out)"
    by blast
  from hash_rows_in_buckets [OF r sample_layout_ok, of 1 1 23] have "115 \<le> unat (out ! 95) \<and> unat (out ! 95) < 120"
    by (simp add: bucket_start_def sample_layout_def sum_list_replicate)
  with r show ?thesis by blast
qed

lemma engram_history_invariant_witness:
  "\<exists>h' out. ds4_engram_hash (Some sample_layout) (Some [-1, -1, -1]) (Some [2, 0]) (Some [1, 0]) (length [2, 0 :: int]) True = Some (h', out) \<and>
     history_ok sample_layout h'"
proof -
  from sample_hash obtain h' out where
    r: "ds4_engram_hash (Some sample_layout) (Some [-1, -1, -1]) (Some [2, 0]) (Some [1, 0]) (length [2, 0 :: int]) True = Some (h', out)"
    by blast
  from engram_history_invariant [OF r sample_layout_ok(1)] have "history_ok sample_layout h'" by simp
  with r show ?thesis by blast
qed

lemma engram_hash_chunks_witness:
  "\<exists>h1 o1. ds4_engram_hash (Some sample_layout) (Some [-1, -1, -1]) (Some [2]) (Some [1]) 1 True = Some (h1, o1)"
proof -
  from sample_hash obtain h' out where
    "ds4_engram_hash (Some sample_layout) (Some [-1, -1, -1]) (Some [2, 0]) (Some [1, 0]) (length [2, 0 :: int]) True = Some (h', out)"
    by blast
  then have "ds4_engram_hash (Some sample_layout) (Some [-1, -1, -1]) (Some ([2] @ [0])) (Some ([1] @ [0])) (length ([2] @ [0 :: int])) True = Some (h', out)"
    by simp
  from engram_hash_chunks [OF this _ sample_layout_ok(1)] show ?thesis by auto
qed

end
