(* ===== verification/EngramTable.thy ===== *)
theory EngramTable
  imports EngramHash CText Slices "HOL-Library.Multiset"
begin

text \<open>
  Reading rows of an Engram table (\<open>ds4_engram.c\<close>): opening, decoding one row to bfloat16 values in
  \<open>float\<close> storage, and the serial, batched and parallel readers. A row is 256 E4M3 bytes and eight E8M0
  scales; a \<open>float\<close> is its bit pattern. The output is kept as its rows of \<open>DIM\<close> floats. Offsets and
  counts are natural numbers, which the guards of the code keep below \<open>2 ^ 64\<close>. Parameters are the
  system's answers, the contents of the file, the outcomes of each row's \<open>pread\<close> calls, the result
  of \<open>qsort\<close> and the order in which the workers store their rows. The accounting and diagnostic
  counters are not modelled.
\<close>

section \<open>Tables\<close>

definition DS4_ENGRAM_DIM :: nat where "DS4_ENGRAM_DIM = 256"
definition DS4_ENGRAM_ROW_BYTES :: nat where "DS4_ENGRAM_ROW_BYTES = 264"

record ds4_engram_table =
  table_fd :: int
  table_offset :: nat
  table_rows :: nat

datatype engram_error = EINVAL | EIO | EDOM | ENOMEM | Errno int

definition closed_table :: ds4_engram_table where
  "closed_table = \<lparr>table_fd = -1, table_offset = 0, table_rows = 0\<rparr>"

text \<open>What \<open>open\<close>, \<open>fstat\<close> (regular file and size) and \<open>fcntl\<close> answer; the descriptors are a trace.\<close>

record engram_os =
  open_result :: "int option"
  stat_result :: "(bool \<times> int) option"
  uncached_ok :: bool

datatype fd_action = OpenFd int | CloseFd int

definition ds4_engram_table_open ::
  "engram_os \<Rightarrow> string option \<Rightarrow> nat \<Rightarrow> u32 \<Rightarrow> bool \<times> ds4_engram_table \<times> fd_action list" where
  "ds4_engram_table_open os path offset n =
     (let bytes = unat n * DS4_ENGRAM_ROW_BYTES
      in if path = None \<or> n = 0 \<or> LONG_MAX < int offset \<or> LONG_MAX - int offset < int bytes
         then (False, closed_table, [])
         else case open_result os of
           None \<Rightarrow> (False, closed_table, [])
         | Some fd \<Rightarrow>
             (case stat_result os of
                None \<Rightarrow> (False, closed_table, [OpenFd fd, CloseFd fd])
              | Some (regular, sz) \<Rightarrow>
                  if \<not> regular \<or> sz < 0 \<or> sz < int (offset + bytes) \<or> \<not> uncached_ok os
                  then (False, closed_table, [OpenFd fd, CloseFd fd])
                  else (True, \<lparr>table_fd = fd, table_offset = offset, table_rows = unat n\<rparr>, [OpenFd fd])))"

definition ds4_engram_table_close :: "ds4_engram_table \<Rightarrow> ds4_engram_table \<times> fd_action list" where
  "ds4_engram_table_close t = (closed_table, if 0 \<le> table_fd t then [CloseFd (table_fd t)] else [])"

section \<open>One row\<close>

text \<open>No result is a \<open>pread\<close> that has not returned.\<close>

fun read_row :: "u8 list \<Rightarrow> nat \<Rightarrow> pread_outcome list \<Rightarrow> u8 list \<Rightarrow> (engram_error + u8 list) option" where
  "read_row file offset script row =
     (if DS4_ENGRAM_ROW_BYTES \<le> length row then Some (Inr row)
      else case script of
        [] \<Rightarrow> None
      | Interrupted # s \<Rightarrow> read_row file offset s row
      | Failed e # s \<Rightarrow> Some (Inl (Errno e))
      | Transferred k # s \<Rightarrow>
          let got = take (min k (DS4_ENGRAM_ROW_BYTES - length row)) (drop (offset + length row) file)
          in if got = [] then Some (Inl EIO) else read_row file offset s (row @ got))"

declare read_row.simps [simp del]

text \<open>
  The bits of the \<open>float\<close> \<open>m * 2 ^ e\<close> for \<open>m < 16\<close>, as \<open>ldexpf\<close> returns it: infinity above the range,
  a subnormal below the normal range. Every such value with \<open>e \<ge> -149\<close> is represented exactly.
\<close>

definition top_bit :: "nat \<Rightarrow> nat" where
  "top_bit m = (if 8 \<le> m then 3 else if 4 \<le> m then 2 else if 2 \<le> m then 1 else 0)"

definition float_magnitude :: "nat \<Rightarrow> int \<Rightarrow> nat" where
  "float_magnitude m e =
     (if m = 0 then 0
      else let k = top_bit m; E = e + int k
           in if 127 < E then 255 * 2 ^ 23
              else if -126 \<le> E then nat (E + 127) * 2 ^ 23 + (m - 2 ^ k) * 2 ^ (23 - k)
              else m * 2 ^ nat (e + 149))"

definition float_bits :: "bool \<Rightarrow> nat \<Rightarrow> int \<Rightarrow> u32" where
  "float_bits neg m e = of_nat (float_magnitude m e) + (if neg then 0x80000000 else 0)"

text \<open>Sign, mantissa and exponent of an E4M3 byte.\<close>

definition e4m3 :: "u8 \<Rightarrow> bool \<times> nat \<times> int" where
  "e4m3 byte =
     (let exponent = unat (drop_bit 3 byte AND 15); mantissa = unat (byte AND 7)
      in (byte AND 128 \<noteq> 0,
          if exponent \<noteq> 0 then (8 + mantissa, int exponent - 10) else (mantissa, -9)))"

definition round_bf16 :: "u32 \<Rightarrow> u32" where
  "round_bf16 bits = (bits + 0x7fff + (drop_bit 16 bits AND 1)) AND 0xffff0000"

definition isfinite :: "u32 \<Rightarrow> bool" where
  "isfinite bits \<longleftrightarrow> drop_bit 23 bits AND 255 \<noteq> 255"

definition decode_element :: "u8 \<Rightarrow> u8 \<Rightarrow> u32 option" where
  "decode_element code scale =
     (if code AND 127 = 127 \<or> scale = 255 then None
      else
        let (neg, m, e) = e4m3 code; bits = round_bf16 (float_bits neg m (e + uint scale - 127))
        in if isfinite bits then Some bits else None)"

fun decode_elements :: "u8 list \<Rightarrow> nat list \<Rightarrow> u32 list option" where
  "decode_elements raw [] = Some []"
| "decode_elements raw (j # js) =
     (case decode_element (raw ! j) (raw ! (DS4_ENGRAM_DIM + j div 32)) of
        None \<Rightarrow> None
      | Some v \<Rightarrow> map_option ((#) v) (decode_elements raw js))"

definition decode_row :: "u8 list \<Rightarrow> u32 list option" where
  "decode_row raw = decode_elements raw [0..<DS4_ENGRAM_DIM]"

section \<open>The readers\<close>

type_synonym row_io = "nat \<Rightarrow> pread_outcome list"

text \<open>\<open>io i\<close> are the outcomes of the calls for the \<open>i\<close>-th row. The result is the error or the rows.\<close>

fun read_rows ::
  "u8 list \<Rightarrow> ds4_engram_table \<Rightarrow> row_io \<Rightarrow> nat \<Rightarrow> nat list \<Rightarrow> (engram_error + u32 list list) option" where
  "read_rows file t io i [] = Some (Inr [])"
| "read_rows file t io i (r # rs) =
     (case read_row file (table_offset t + r * DS4_ENGRAM_ROW_BYTES) (io i) [] of
        None \<Rightarrow> None
      | Some (Inl e) \<Rightarrow> Some (Inl e)
      | Some (Inr raw) \<Rightarrow>
          (case decode_row raw of
             None \<Rightarrow> Some (Inl EDOM)
           | Some v \<Rightarrow> map_option (map_sum id ((#) v)) (read_rows file t io (Suc i) rs)))"

definition ds4_engram_read ::
  "u8 list \<Rightarrow> row_io \<Rightarrow> ds4_engram_table \<Rightarrow> nat list \<Rightarrow> (engram_error + u32 list list) option" where
  "ds4_engram_read file io t rs =
     (if table_fd t < 0 \<or> UINT64_MAX div (DS4_ENGRAM_DIM * 4) < length rs then Some (Inl EINVAL)
      else if \<not> list_all (\<lambda>r. r < table_rows t) rs then Some (Inl EINVAL)
      else read_rows file t io 0 rs)"

record engram_request =
  req_row :: nat
  req_output :: nat

definition batch_slices :: "nat \<Rightarrow> nat \<Rightarrow> nat \<Rightarrow> slice list" where
  "batch_slices readers lo n =
     map (\<lambda>part. (lo + n * part div readers, n * (part + 1) div readers - n * part div readers))
       [0..<readers]"

text \<open>
  One worker: its slice of the requests in turn, copying the previous row when it is the same. The
  result is the rows it stores, and its error if there is one; it stops at the first.
\<close>

fun read_part ::
  "u8 list \<Rightarrow> ds4_engram_table \<Rightarrow> row_io \<Rightarrow> nat \<Rightarrow> (nat \<times> u32 list) option \<Rightarrow> engram_request list \<Rightarrow>
   ((nat \<times> u32 list) list \<times> engram_error option) option" where
  "read_part file t io i prev [] = Some ([], None)"
| "read_part file t io i prev (q # qs) =
     (case (case prev of Some (r, v) \<Rightarrow> if r = req_row q then Some v else None | None \<Rightarrow> None) of
        Some v \<Rightarrow>
          map_option (map_prod ((#) (req_output q, v)) id) (read_part file t io (Suc i) (Some (req_row q, v)) qs)
      | None \<Rightarrow>
          (case ds4_engram_read file (\<lambda>_. io i) t [req_row q] of
             None \<Rightarrow> None
           | Some (Inl e) \<Rightarrow> Some ([], Some e)
           | Some (Inr vs) \<Rightarrow>
               map_option (map_prod ((#) (req_output q, hd vs)) id)
                 (read_part file t io (Suc i) (Some (req_row q, hd vs)) qs)))"

definition read_batch_part ::
  "u8 list \<Rightarrow> (nat \<Rightarrow> row_io) \<Rightarrow> ds4_engram_table \<Rightarrow> engram_request list \<Rightarrow> nat \<Rightarrow> nat \<Rightarrow>
   ((nat \<times> u32 list) list \<times> engram_error option) option" where
  "read_batch_part file io t reqs readers part =
     read_part file t (io part) 0 None (slice_of reqs (batch_slices readers 0 (length reqs) ! part))"

definition store_rows :: "u32 list list \<Rightarrow> (nat \<times> u32 list) list \<Rightarrow> u32 list list" where
  "store_rows out ws = foldl (\<lambda>b (i, v). b[i := v]) out ws"

text \<open>All parts of one batch, stored in the given order; the first error by part number is reported.\<close>

definition run_parts ::
  "((nat \<times> u32 list) list \<times> engram_error option) option list \<Rightarrow> nat list \<Rightarrow> u32 list list \<Rightarrow>
   (engram_error option \<times> u32 list list) option" where
  "run_parts results order out =
     (if None \<in> set results then None
      else let res = map the results
           in Some (case filter (\<lambda>e. e \<noteq> None) (map snd res) of [] \<Rightarrow> None | e # _ \<Rightarrow> e,
                    foldl (\<lambda>b p. store_rows b (fst (res ! p))) out order))"

definition batch_requests :: "nat list \<Rightarrow> nat \<Rightarrow> nat \<Rightarrow> nat \<Rightarrow> engram_request list" where
  "batch_requests rs stride start n =
     map (\<lambda>i. \<lparr>req_row = rs ! ((start + i div DS4_ENGRAM_COLS) * stride + i mod DS4_ENGRAM_COLS), req_output = i\<rparr>)
       [0..<n * DS4_ENGRAM_COLS]"

definition ENGRAM_READERS :: int where "ENGRAM_READERS = 16"
definition AR_ENGRAM_BATCH_MAX :: int where "AR_ENGRAM_BATCH_MAX = 256"

definition ar_engram_batch_readers :: "string option \<Rightarrow> nat" where
  "ar_engram_batch_readers env =
     (let n = (case env of None \<Rightarrow> ENGRAM_READERS | Some s \<Rightarrow> if s = [] then ENGRAM_READERS else fst (strtol s))
      in nat (if n < 1 then 1 else if AR_ENGRAM_BATCH_MAX < n then AR_ENGRAM_BATCH_MAX else n))"

definition BATCH_TOKENS :: nat where "BATCH_TOKENS = 2048"

text \<open>
  The environment of the batch reader: \<open>qsort\<close>'s result, whether this is macOS (the only build with
  several readers), \<open>DS4_ARGODRIVE_ENGRAM_BATCH_READERS\<close>, the outcomes by batch, part and request, the
  order in which the parts store their rows, and whether the request array could be allocated.
\<close>

record batch_env =
  sorted_requests :: "engram_request list \<Rightarrow> engram_request list"
  apple :: bool
  readers_env :: "string option"
  batch_io :: "nat \<Rightarrow> nat \<Rightarrow> row_io"
  part_order :: "nat \<Rightarrow> nat \<Rightarrow> nat list"
  alloc_ok :: bool

definition batch_readers :: "batch_env \<Rightarrow> nat \<Rightarrow> nat" where
  "batch_readers env n = 
     (if apple env \<and> 256 \<le> n then min (ar_engram_batch_readers (readers_env env)) n else 1)"

text \<open>The loop over batches of at most \<open>cap\<close> tokens; \<open>fuel\<close> bounds their number.\<close>

fun batch_loop ::
  "u8 list \<Rightarrow> batch_env \<Rightarrow> ds4_engram_table \<Rightarrow> nat list \<Rightarrow> nat \<Rightarrow> nat \<Rightarrow> nat \<Rightarrow> nat \<Rightarrow> nat \<Rightarrow> u32 list list \<Rightarrow>
   (engram_error option \<times> u32 list list) option" where
  "batch_loop file env t rs stride tokens cap start 0 out = Some (None, out)"
| "batch_loop file env t rs stride tokens cap start (Suc fuel) out =
     (if \<not> start < tokens then Some (None, out)
      else
        let n = min (tokens - start) cap;
            reqs = sorted_requests env (batch_requests rs stride start n);
            readers = batch_readers env (length reqs);
            base = start * DS4_ENGRAM_COLS;
            results = map (\<lambda>p. read_batch_part file (batch_io env start) t reqs readers p) [0..<readers]
        in case run_parts results (part_order env start readers) (take (n * DS4_ENGRAM_COLS) (drop base out)) of
             None \<Rightarrow> None
           | Some (Some e, o') \<Rightarrow> Some (Some e, write_at out base o')
           | Some (None, o') \<Rightarrow>
               batch_loop file env t rs stride tokens cap (start + cap) fuel (write_at out base o'))"

definition ds4_engram_read_batch ::
  "u8 list \<Rightarrow> batch_env \<Rightarrow> ds4_engram_table \<Rightarrow> nat list \<Rightarrow> nat \<Rightarrow> nat \<Rightarrow> u32 list list \<Rightarrow>
   (engram_error option \<times> u32 list list) option" where
  "ds4_engram_read_batch file env t rs tokens stride out =
     (if table_fd t < 0 \<or> tokens \<noteq> 0 \<and> stride < DS4_ENGRAM_COLS \<or>
         UINT64_MAX div (DS4_ENGRAM_COLS * DS4_ENGRAM_DIM * 4) < tokens \<or>
         tokens \<noteq> 0 \<and> (UINT64_MAX div 4 - DS4_ENGRAM_COLS) div stride < tokens - 1 then Some (Some EINVAL, out)
      else if \<not> list_all (\<lambda>i. list_all (\<lambda>j. rs ! (i * stride + j) < table_rows t) [0..<DS4_ENGRAM_COLS]) [0..<tokens]
      then Some (Some EINVAL, out)
      else if tokens = 0 then Some (None, out)
      else
        let cap = min tokens BATCH_TOKENS
        in if \<not> alloc_ok env then Some (Some ENOMEM, out)
           else batch_loop file env t rs stride tokens cap 0 tokens out)"

text \<open>The decode variant: the rows in up to 16 slices, each read by the serial reader.\<close>

definition ds4_engram_read_parallel ::
  "u8 list \<Rightarrow> bool \<Rightarrow> (nat \<Rightarrow> row_io) \<Rightarrow> ds4_engram_table \<Rightarrow> nat list \<Rightarrow> nat \<Rightarrow> (engram_error + u32 list list) option" where
  "ds4_engram_read_parallel file on_apple io t rs readers =
     (if table_fd t < 0 \<or> readers = 0 \<or> 16 < readers \<or> UINT64_MAX div (DS4_ENGRAM_DIM * 4) < length rs
      then Some (Inl EINVAL)
      else if \<not> list_all (\<lambda>r. r < table_rows t) rs then Some (Inl EINVAL)
      else if length rs < 2 \<or> readers = 1 \<or> \<not> on_apple then ds4_engram_read file (io 0) t rs
      else
        let n = min readers (length rs);
            results = map (\<lambda>p. ds4_engram_read file (io p) t (slice_of rs (batch_slices n 0 (length rs) ! p))) [0..<n]
        in if None \<in> set results then None
           else case filter (\<lambda>r. \<exists>e. the r = Inl e) results of
                  r # _ \<Rightarrow> Some (Inl (projl (the r)))
                | [] \<Rightarrow> Some (Inr (concat (map (projr \<circ> the) results))))"

section \<open>One row\<close>

definition row_offset :: "ds4_engram_table \<Rightarrow> nat \<Rightarrow> nat" where
  "row_offset t r = table_offset t + r * DS4_ENGRAM_ROW_BYTES"

text \<open>What row \<open>r\<close> of the table in a file means.\<close>

definition engram_row :: "u8 list \<Rightarrow> ds4_engram_table \<Rightarrow> nat \<Rightarrow> u32 list option" where
  "engram_row file t r =
     (let raw = take DS4_ENGRAM_ROW_BYTES (drop (row_offset t r) file)
      in if length raw = DS4_ENGRAM_ROW_BYTES then decode_row raw else None)"

lemma read_row_Inr:
  assumes "read_row file offset script row = Some (Inr raw)"
    and "row = take (length row) (drop offset file)" and "length row \<le> DS4_ENGRAM_ROW_BYTES"
  shows "raw = take DS4_ENGRAM_ROW_BYTES (drop offset file) \<and> length raw = DS4_ENGRAM_ROW_BYTES"
  using assms
proof (induction "file" offset script row rule: read_row.induct)
  case (1 "file" offset script row)
  note step = read_row.simps [of "file" offset script row]
  show ?case
  proof (cases "DS4_ENGRAM_ROW_BYTES \<le> length row")
    case True
    with step "1.prems" have "raw = row" "length row = DS4_ENGRAM_ROW_BYTES" by auto
    with "1.prems"(2) show ?thesis by simp
  next
    case False
    show ?thesis
    proof (cases script)
      case Nil
      with False step "1.prems" show ?thesis by simp
    next
      case (Cons x s)
      show ?thesis
      proof (cases x)
        case Interrupted
        from False step Cons Interrupted "1.prems"(1) have "read_row file offset s row = Some (Inr raw)" by simp
        from "1.IH"(1) [OF False Cons Interrupted this "1.prems"(2,3)] show ?thesis .
      next
        case (Failed e)
        with False step Cons "1.prems"(1) show ?thesis by simp
      next
        case (Transferred k)
        define got where "got = take (min k (DS4_ENGRAM_ROW_BYTES - length row)) (drop (offset + length row) file)"
        from False step Cons Transferred "1.prems"(1)
        have ne: "got \<noteq> []" and rec: "read_row file offset s (row @ got) = Some (Inr raw)"
          unfolding got_def Let_def by (auto split: if_splits)
        have "length (row @ got) \<le> DS4_ENGRAM_ROW_BYTES" using False by (auto simp: got_def)
        from "1.IH"(2) [OF False Cons Transferred got_def ne rec prefix_extend [OF "1.prems"(2) got_def] this]
        show ?thesis .
      qed
    qed
  qed
qed

lemma read_row_transfer:
  "\<not> DS4_ENGRAM_ROW_BYTES \<le> length row \<Longrightarrow>
     read_row file offset (Transferred k # s) row =
       (let got = take (min k (DS4_ENGRAM_ROW_BYTES - length row)) (drop (offset + length row) file)
        in if got = [] then Some (Inl EIO) else read_row file offset s (row @ got))"
  by (subst read_row.simps) (simp only: if_False list.case pread_outcome.case Let_def)

lemma read_row_delivers:
  assumes "delivers (DS4_ENGRAM_ROW_BYTES - length row) script" and "offset + DS4_ENGRAM_ROW_BYTES \<le> length file"
    and "row = take (length row) (drop offset file)" and "length row \<le> DS4_ENGRAM_ROW_BYTES"
  shows "read_row file offset script row = Some (Inr (take DS4_ENGRAM_ROW_BYTES (drop offset file)))"
  using assms
proof (induction script arbitrary: row)
  case Nil
  then have "length row = DS4_ENGRAM_ROW_BYTES" by (simp add: delivers_def)
  moreover from this Nil(3) have "row = take DS4_ENGRAM_ROW_BYTES (drop offset file)" by simp
  ultimately show ?case by (subst read_row.simps) simp
next
  case (Cons x s)
  note step = read_row.simps [of "file" offset "x # s" row]
  show ?case
  proof (cases "DS4_ENGRAM_ROW_BYTES \<le> length row")
    case True
    with Cons.prems(3,4) step show ?thesis by simp
  next
    case False
    show ?thesis
    proof (cases x)
      case Interrupted
      with Cons False step show ?thesis by (simp add: delivers_def)
    next
      case (Failed e)
      with Cons.prems(1) show ?thesis by (simp add: delivers_def)
    next
      case (Transferred k)
      define got where "got = take (min k (DS4_ENGRAM_ROW_BYTES - length row)) (drop (offset + length row) file)"
      have k: "0 < k" using Cons.prems(1) Transferred by (simp add: delivers_def)
      have lg: "length got = min k (DS4_ENGRAM_ROW_BYTES - length row)" using Cons.prems(2) False by (auto simp: got_def)
      then have ne: "got \<noteq> []" using k False by auto
      have rec: "read_row file offset (x # s) row = read_row file offset s (row @ got)"
        unfolding Transferred read_row_transfer [OF False] Let_def got_def [symmetric] using ne by simp
      have "length (row @ got) \<le> DS4_ENGRAM_ROW_BYTES" using False lg by simp
      moreover have "delivers (DS4_ENGRAM_ROW_BYTES - length (row @ got)) s"
        using Cons.prems(1) Transferred lg k by (auto simp: delivers_def)
      ultimately show ?thesis
        unfolding rec using Cons.IH [of "row @ got"] Cons.prems(2) prefix_extend [OF Cons.prems(3) got_def] by blast
    qed
  qed
qed

section \<open>The serial reader\<close>

lemma map_sum_Inr: "map_sum f g x = Inr y \<longleftrightarrow> (\<exists>z. x = Inr z \<and> y = g z)"
  by (cases x) auto

lemma read_rows_Inr:
  "read_rows file t io i rs = Some (Inr vs) \<Longrightarrow> map Some vs = map (engram_row file t) rs"
proof (induction rs arbitrary: i vs)
  case (Cons r rs)
  from Cons.prems obtain raw v vs' where raw: "read_row file (row_offset t r) (io i) [] = Some (Inr raw)"
    and v: "decode_row raw = Some v" and vs: "vs = v # vs'" and rec: "read_rows file t io (Suc i) rs = Some (Inr vs')"
    by (auto simp: row_offset_def map_sum_Inr split: option.splits sum.splits)
  have "raw = take DS4_ENGRAM_ROW_BYTES (drop (row_offset t r) file) \<and> length raw = DS4_ENGRAM_ROW_BYTES"
    by (rule read_row_Inr [OF raw]) simp_all
  with v have "engram_row file t r = Some v" unfolding engram_row_def Let_def by (auto simp del: length_take)
  with Cons.IH [OF rec] vs show ?case by simp
qed simp

lemma read_rows_delivers:
  assumes "\<forall>r\<in>set rs. engram_row file t r \<noteq> None" and "\<forall>i. delivers DS4_ENGRAM_ROW_BYTES (io i)"
  shows "\<exists>vs. read_rows file t io i rs = Some (Inr vs)"
  using assms(1)
proof (induction rs arbitrary: i)
  case (Cons r rs)
  let ?raw = "take DS4_ENGRAM_ROW_BYTES (drop (row_offset t r) file)"
  from Cons.prems obtain v where v: "decode_row ?raw = Some v" and l: "length ?raw = DS4_ENGRAM_ROW_BYTES"
    by (auto simp: engram_row_def Let_def split: if_splits)
  have "row_offset t r + DS4_ENGRAM_ROW_BYTES \<le> length file"
    using l by (simp add: DS4_ENGRAM_ROW_BYTES_def min_def split: if_splits)
  then have "read_row file (row_offset t r) (io i) [] = Some (Inr ?raw)"
    using assms(2) by (intro read_row_delivers) simp_all
  moreover obtain vs where "read_rows file t io (Suc i) rs = Some (Inr vs)" using Cons by auto
  ultimately show ?case using v by (simp add: row_offset_def)
qed simp

lemma engram_read_Inr: "ds4_engram_read file io t rs = Some (Inr vs) \<Longrightarrow> map Some vs = map (engram_row file t) rs"
  by (auto simp: ds4_engram_read_def split: if_splits dest: read_rows_Inr)

lemma engram_read_delivers:
  assumes "0 \<le> table_fd t" and "length rs \<le> UINT64_MAX div (DS4_ENGRAM_DIM * 4)"
    and "\<forall>r\<in>set rs. r < table_rows t \<and> engram_row file t r \<noteq> None" and "\<forall>i. delivers DS4_ENGRAM_ROW_BYTES (io i)"
  shows "\<exists>vs. ds4_engram_read file io t rs = Some (Inr vs)"
  using read_rows_delivers [of rs "file" t io 0] assms by (auto simp: ds4_engram_read_def list_all_iff)

section \<open>The split into parts\<close>

lemma contiguous_steps:
  assumes "mono f" shows "contiguous (lo + f j) (map (\<lambda>p. (lo + f p, f (Suc p) - f p)) [j..<j + k]) (lo + f (j + k))"
proof (induction k arbitrary: j)
  case (Suc k)
  have "f j \<le> f (Suc j)" using assms by (simp add: monoD)
  moreover have "[j..<j + Suc k] = j # [Suc j..<Suc j + k]" by (simp add: upt_rec)
  ultimately show ?case using Suc [of "Suc j"] by (simp del: upt_Suc)
qed simp

interpretation batches: slice_plan batch_slices "\<lambda>readers lo n. 0 < readers"
proof unfold_locales
  fix readers lo n :: nat assume r: "0 < readers"
  have "mono (\<lambda>p. n * p div readers)" by (intro monoI div_le_mono) simp
  from contiguous_steps [OF this, of lo 0 readers] r
  show "contiguous lo (batch_slices readers lo n) (lo + n)" by (simp add: batch_slices_def)
qed

lemma length_batch_slices [simp]: "length (batch_slices readers lo n) = readers"
  by (simp add: batch_slices_def)

lemma parts_gather:
  "0 < readers \<Longrightarrow> concat (map (\<lambda>p. slice_of xs (batch_slices readers 0 (length xs) ! p)) [0..<readers]) = xs"
proof -
  assume r: "0 < readers"
  have "map (\<lambda>p. slice_of xs (batch_slices readers 0 (length xs) ! p)) [0..<readers] =
      map (slice_of xs) (batch_slices readers 0 (length xs))"
    by (intro nth_equalityI) simp_all
  then show ?thesis using batches.gather [OF r, of xs 0 "length xs"] by simp
qed

section \<open>The parts of a batch\<close>

definition row_writes :: "u8 list \<Rightarrow> ds4_engram_table \<Rightarrow> engram_request list \<Rightarrow> (nat \<times> u32 list option) list" where
  "row_writes file t qs = map (\<lambda>q. (req_output q, engram_row file t (req_row q))) qs"

lemma single_read: "ds4_engram_read file io t [r] = Some (Inr vs) \<Longrightarrow> engram_row file t r = Some (hd vs)"
  using engram_read_Inr by (cases vs) fastforce+

lemma read_part_writes:
  assumes "read_part file t io i prev qs = Some (ws, None)"
    and "case prev of None \<Rightarrow> True | Some (r, v) \<Rightarrow> engram_row file t r = Some v"
  shows "map (map_prod id Some) ws = row_writes file t qs"
  using assms
proof (induction qs arbitrary: i prev ws)
  case (Cons q qs)
  let ?hit = "case prev of Some (r, v) \<Rightarrow> if r = req_row q then Some v else None | None \<Rightarrow> None"
  show ?case
  proof (cases ?hit)
    case (Some v)
    from Some Cons.prems obtain ws' where ws: "ws = (req_output q, v) # ws'"
      and rec: "read_part file t io (Suc i) (Some (req_row q, v)) qs = Some (ws', None)"
      by (auto simp: map_prod_def split: prod.splits)
    have v: "engram_row file t (req_row q) = Some v"
      using Some Cons.prems(2) by (auto split: option.splits if_splits)
    from Cons.IH [OF rec] v ws show ?thesis by (simp add: row_writes_def)
  next
    case None
    from None Cons.prems obtain vs ws' where ws: "ws = (req_output q, hd vs) # ws'"
      and read: "ds4_engram_read file (\<lambda>_. io i) t [req_row q] = Some (Inr vs)"
      and rec: "read_part file t io (Suc i) (Some (req_row q, hd vs)) qs = Some (ws', None)"
      by (auto simp: map_prod_def split: prod.splits option.splits sum.splits)
    from Cons.IH [OF rec] single_read [OF read] ws show ?thesis by (simp add: row_writes_def)
  qed
qed (simp add: row_writes_def)

lemma read_part_delivers:
  assumes "\<forall>q\<in>set qs. req_row q < table_rows t \<and> engram_row file t (req_row q) \<noteq> None"
    and "0 \<le> table_fd t" and "\<forall>i. delivers DS4_ENGRAM_ROW_BYTES (io i)"
  shows "\<exists>ws. read_part file t io i prev qs = Some (ws, None)"
  using assms(1)
proof (induction qs arbitrary: i prev)
  case (Cons q qs)
  let ?hit = "case prev of Some (r, v) \<Rightarrow> if r = req_row q then Some v else None | None \<Rightarrow> None"
  have qs: "\<forall>q\<in>set qs. req_row q < table_rows t \<and> engram_row file t (req_row q) \<noteq> None" using Cons.prems by simp
  show ?case
  proof (cases ?hit)
    case (Some v)
    obtain ws where "read_part file t io (Suc i) (Some (req_row q, v)) qs = Some (ws, None)" using Cons.IH [OF qs] by blast
    with Some show ?thesis by simp
  next
    case None
    have "\<exists>vs. ds4_engram_read file (\<lambda>_. io i) t [req_row q] = Some (Inr vs)"
      using Cons.prems assms(2,3) by (intro engram_read_delivers) (auto simp: DS4_ENGRAM_DIM_def)
    then obtain vs where vs: "ds4_engram_read file (\<lambda>_. io i) t [req_row q] = Some (Inr vs)" by blast
    obtain ws where "read_part file t io (Suc i) (Some (req_row q, hd vs)) qs = Some (ws, None)" using Cons.IH [OF qs] by blast
    with None vs show ?thesis by simp
  qed
qed simp

section \<open>Storing the rows\<close>

lemma store_rows_simps [simp]: "store_rows out [] = out" "store_rows out ((i, v) # ws) = store_rows (out[i := v]) ws"
  "store_rows out (xs @ ys) = store_rows (store_rows out xs) ys"
  by (simp_all add: store_rows_def)

lemma length_store_rows [simp]: "length (store_rows out ws) = length out"
  by (induction ws arbitrary: out) auto

lemma store_rows_nth:
  assumes "\<forall>(i, v)\<in>set ws. F i = Some v" and "i < length out"
  shows "if i \<in> fst ` set ws then F i = Some (store_rows out ws ! i) else store_rows out ws ! i = out ! i"
  using assms
proof (induction ws rule: rev_induct)
  case (snoc w ws)
  obtain j v where w: "w = (j, v)" by fastforce
  with snoc show ?case by (cases "i = j") (auto simp: nth_list_update split: if_splits)
qed simp

lemma foldl_store_rows: "foldl (\<lambda>b p. store_rows b (f p)) out order = store_rows out (concat (map f order))"
  by (induction order arbitrary: out) simp_all

lemma run_parts_None:
  assumes "run_parts results order out = Some (None, out')" and that: "set order \<subseteq> {..<length results}"
  shows "\<exists>res. results = map (\<lambda>ws. Some (ws, None)) res \<and> out' = store_rows out (concat (map (\<lambda>p. res ! p) order))"
proof -
  from assms(1) have none: "None \<notin> set results"
    and errs: "(case filter (\<lambda>e. e \<noteq> None) (map snd (map the results)) of [] \<Rightarrow> None | e # _ \<Rightarrow> e) = None"
    and out': "out' = foldl (\<lambda>b p. store_rows b (fst (map the results ! p))) out order"
    by (auto simp: run_parts_def Let_def split: if_splits)
  have "filter (\<lambda>e. e \<noteq> None) (map snd (map the results)) = []"
  proof (rule ccontr)
    assume "\<not> ?thesis"
    then obtain e es where f: "filter (\<lambda>e. e \<noteq> None) (map snd (map the results)) = e # es" by (cases "filter (\<lambda>e. e \<noteq> None) (map snd (map the results))") auto
    then have "e \<in> set (filter (\<lambda>e. e \<noteq> None) (map snd (map the results)))" by simp
    then have "e \<noteq> None" by auto
    with errs f show False by simp
  qed
  then have noerr: "\<forall>r\<in>set results. snd (the r) = None" by (auto simp: filter_empty_conv)
  define res where "res = map (fst \<circ> the) results"
  have "results = map (\<lambda>ws. Some (ws, None)) res"
  proof -
    have "r = Some (fst (the r), None)" if "r \<in> set results" for r
    proof -
      have "r \<noteq> None" using that none by metis
      then obtain x where x: "r = Some x" by auto
      moreover have "snd (the r) = None" using noerr that by blast
      ultimately show ?thesis by (simp add: prod_eq_iff)
    qed
    then have "map (\<lambda>r. Some (fst (the r), None)) results = results" by (intro map_idI) simp
    then show ?thesis unfolding res_def by (simp add: comp_def)
  qed
  moreover have "out' = store_rows out (concat (map (\<lambda>p. res ! p) order))"
    unfolding out' foldl_store_rows res_def using that by (intro arg_cong [of _ _ "\<lambda>x. store_rows out (concat x)"]) auto
  ultimately show ?thesis by blast
qed

section \<open>The batch reader\<close>

definition row_id :: "nat list \<Rightarrow> nat \<Rightarrow> nat \<Rightarrow> nat" where
  "row_id rs stride i = rs ! ((i div DS4_ENGRAM_COLS) * stride + i mod DS4_ENGRAM_COLS)"

definition rows_read :: "u8 list \<Rightarrow> ds4_engram_table \<Rightarrow> nat list \<Rightarrow> nat \<Rightarrow> nat \<Rightarrow> u32 list list \<Rightarrow> bool" where
  "rows_read file t rs stride n out \<longleftrightarrow> (\<forall>i<n * DS4_ENGRAM_COLS. engram_row file t (row_id rs stride i) = Some (out ! i))"

lemma batch_requests_in:
  "q \<in> set (batch_requests rs stride start n) \<longleftrightarrow>
     req_output q < n * DS4_ENGRAM_COLS \<and> req_row q = row_id rs stride (start * DS4_ENGRAM_COLS + req_output q)"
proof -
  have idx: "(start * DS4_ENGRAM_COLS + i) div DS4_ENGRAM_COLS = start + i div DS4_ENGRAM_COLS"
    "(start * DS4_ENGRAM_COLS + i) mod DS4_ENGRAM_COLS = i mod DS4_ENGRAM_COLS" for i
    by (simp_all add: DS4_ENGRAM_COLS_def)
  show ?thesis unfolding batch_requests_def row_id_def idx by (cases q) (auto simp: image_iff)
qed

text \<open>What the environment promises: \<open>qsort\<close> permutes, and every part runs once it is dispatched.\<close>

definition batch_env_ok :: "batch_env \<Rightarrow> bool" where
  "batch_env_ok env \<longleftrightarrow> (\<forall>qs. mset (sorted_requests env qs) = mset qs) \<and>
     (\<forall>start n. set (part_order env start n) = {..<n})"

lemma batch_env_sorted: "batch_env_ok env \<Longrightarrow> set (sorted_requests env qs) = set qs"
  unfolding batch_env_ok_def using mset_eq_setD by blast

lemma one_batch:
  assumes run: "run_parts (map (\<lambda>p. read_batch_part file io t reqs readers p) [0..<readers]) order o0 = Some (None, o')"
    and reqs: "set reqs = set (batch_requests rs stride start n)" and "0 < readers" and order: "set order = {..<readers}"
    and len: "length o0 = n * DS4_ENGRAM_COLS"
  shows "length o' = n * DS4_ENGRAM_COLS \<and>
    (\<forall>i<n * DS4_ENGRAM_COLS. engram_row file t (row_id rs stride (start * DS4_ENGRAM_COLS + i)) = Some (o' ! i))"
proof -
  let ?part = "\<lambda>p. slice_of reqs (batch_slices readers 0 (length reqs) ! p)"
  let ?F = "\<lambda>i. engram_row file t (row_id rs stride (start * DS4_ENGRAM_COLS + i))"
  from run_parts_None [OF run] order obtain res where
    res: "map (\<lambda>p. read_batch_part file io t reqs readers p) [0..<readers] = map (\<lambda>ws. Some (ws, None)) res"
    and o': "o' = store_rows o0 (concat (map (\<lambda>p. res ! p) order))" by auto
  have lres: "length res = readers" using arg_cong [OF res, of length] by simp
  have part: "map (map_prod id Some) (res ! p) = row_writes file t (?part p)" if "p < readers" for p
  proof -
    have "map (\<lambda>p. read_batch_part file io t reqs readers p) [0..<readers] ! p = map (\<lambda>ws. Some (ws, None)) res ! p"
      using res by simp
    then have "read_batch_part file io t reqs readers p = Some (res ! p, None)" using that lres by simp
    then show ?thesis unfolding read_batch_part_def by (rule read_part_writes) simp
  qed
  let ?ws = "concat (map (\<lambda>p. res ! p) order)"
  have ws: "(i, v) \<in> set ?ws \<longleftrightarrow> (\<exists>q\<in>set reqs. req_output q = i \<and> engram_row file t (req_row q) = Some v)" for i v
  proof -
    have "(i, v) \<in> set (res ! p) \<longleftrightarrow> (\<exists>q\<in>set (?part p). req_output q = i \<and> engram_row file t (req_row q) = Some v)" if "p < readers" for p
    proof -
      have "(i, v) \<in> set (res ! p) \<longleftrightarrow> (i, Some v) \<in> set (map (map_prod id Some) (res ! p))" by force
      also have "\<dots> \<longleftrightarrow> (\<exists>q\<in>set (?part p). req_output q = i \<and> engram_row file t (req_row q) = Some v)"
        unfolding part [OF that] row_writes_def by force
      finally show ?thesis .
    qed
    then have "(i, v) \<in> set ?ws \<longleftrightarrow> (\<exists>p<readers. \<exists>q\<in>set (?part p). req_output q = i \<and> engram_row file t (req_row q) = Some v)"
      using order by auto
    also have "\<dots> \<longleftrightarrow> (\<exists>q\<in>set (concat (map ?part [0..<readers])). req_output q = i \<and> engram_row file t (req_row q) = Some v)"
      by auto
    finally show ?thesis unfolding parts_gather [OF \<open>0 < readers\<close>] .
  qed
  have F: "\<forall>(i, v)\<in>set ?ws. ?F i = Some v"
  proof (clarify)
    fix i v assume "(i, v) \<in> set ?ws"
    then obtain q where q: "q \<in> set reqs" "req_output q = i" "engram_row file t (req_row q) = Some v" using ws by blast
    then show "?F i = Some v" using batch_requests_in [of q rs stride start n] reqs by simp
  qed
  have all: "i \<in> fst ` set ?ws" if "i < n * DS4_ENGRAM_COLS" for i
  proof -
    let ?q = "\<lparr>req_row = row_id rs stride (start * DS4_ENGRAM_COLS + i), req_output = i\<rparr>"
    have q: "?q \<in> set reqs" using that reqs batch_requests_in by simp
    have "\<exists>v. engram_row file t (req_row ?q) = Some v"
    proof -
      have "?q \<in> set (concat (map ?part [0..<readers]))" using q parts_gather [OF \<open>0 < readers\<close>, of reqs] by simp
      then obtain p where p: "p < readers" "?q \<in> set (?part p)" by auto
      have "(req_output ?q, engram_row file t (req_row ?q)) \<in> set (row_writes file t (?part p))"
        unfolding row_writes_def using p(2) by (simp only: set_map) (rule image_eqI, simp_all)
      then show ?thesis unfolding part [OF p(1), symmetric] by auto
    qed
    then obtain v where v: "engram_row file t (req_row ?q) = Some v" by blast
    have "(i, v) \<in> set ?ws" unfolding ws using v by (intro bexI [OF _ q]) simp
    then show ?thesis by (metis fst_conv image_eqI)
  qed
  show ?thesis
  proof (intro conjI allI impI)
    show "length o' = n * DS4_ENGRAM_COLS" by (simp add: o' len)
    fix i assume i: "i < n * DS4_ENGRAM_COLS"
    then show "?F i = Some (o' ! i)"
      using store_rows_nth [OF F, of i o0] all [OF i] len unfolding o' by simp
  qed
qed

lemma batch_readers_pos: "0 < n \<Longrightarrow> 0 < batch_readers env n"
  by (auto simp: batch_readers_def ar_engram_batch_readers_def AR_ENGRAM_BATCH_MAX_def Let_def)

lemma batch_loop_correct:
  assumes "batch_loop file env t rs stride tokens cap start fuel out = Some (None, out')"
    and "batch_env_ok env" and "0 < cap" and "length out = tokens * DS4_ENGRAM_COLS"
    and "rows_read file t rs stride (min start tokens) out" and "tokens - start \<le> fuel * cap"
  shows "length out' = tokens * DS4_ENGRAM_COLS \<and> rows_read file t rs stride tokens out'"
  using assms(1,4-6)
proof (induction fuel arbitrary: start out)
  case 0
  then show ?case by (simp add: min_absorb2)
next
  case (Suc fuel)
  show ?case
  proof (cases "start < tokens")
    case False
    with Suc.prems show ?thesis by (simp add: min_absorb2)
  next
    case True
    define n where "n = min (tokens - start) cap"
    define reqs where "reqs = sorted_requests env (batch_requests rs stride start n)"
    define readers where "readers = batch_readers env (length reqs)"
    define base where "base = start * DS4_ENGRAM_COLS"
    define results where "results = map (\<lambda>p. read_batch_part file (batch_io env start) t reqs readers p) [0..<readers]"
    from Suc.prems(1) True obtain o' where
      run: "run_parts results (part_order env start readers) (take (n * DS4_ENGRAM_COLS) (drop base out)) = Some (None, o')"
      and rec: "batch_loop file env t rs stride tokens cap (start + cap) fuel (write_at out base o') = Some (None, out')"
      unfolding batch_loop.simps Let_def n_def [symmetric] reqs_def [symmetric] readers_def [symmetric] base_def [symmetric]
        results_def [symmetric] by (auto split: option.splits prod.splits)
    have n: "0 < n" "start + n \<le> tokens" "min (start + cap) tokens = start + n" using True assms(3) by (auto simp: n_def)
    have reqs: "set reqs = set (batch_requests rs stride start n)"
      unfolding reqs_def by (rule batch_env_sorted [OF assms(2)])
    have "mset reqs = mset (batch_requests rs stride start n)" using assms(2) by (simp add: reqs_def batch_env_ok_def)
    then have "length reqs = n * DS4_ENGRAM_COLS" using mset_eq_length by (fastforce simp: batch_requests_def)
    then have readers: "0 < readers" unfolding readers_def using n by (intro batch_readers_pos) (simp add: DS4_ENGRAM_COLS_def)
    have fits: "base + n * DS4_ENGRAM_COLS \<le> length out"
      using n(2) Suc.prems(2) by (simp add: base_def flip: add_mult_distrib)
    have o': "length o' = n * DS4_ENGRAM_COLS"
      "\<forall>i<n * DS4_ENGRAM_COLS. engram_row file t (row_id rs stride (base + i)) = Some (o' ! i)"
      using one_batch [OF run [unfolded results_def] reqs readers] assms(2) fits
      by (simp_all add: batch_env_ok_def base_def)
    have "rows_read file t rs stride (start + n) (write_at out base o')"
      unfolding rows_read_def
    proof (intro allI impI)
      fix i assume i: "i < (start + n) * DS4_ENGRAM_COLS"
      then have i': "i < base + n * DS4_ENGRAM_COLS" by (simp add: base_def add_mult_distrib)
      show "engram_row file t (row_id rs stride i) = Some (write_at out base o' ! i)"
      proof (cases "i < base")
        case True
        with Suc.prems(3) \<open>start < tokens\<close> show ?thesis
          using nth_write_at [of base o' out i] fits o'(1) i' by (simp add: rows_read_def base_def)
      next
        case False
        then have "engram_row file t (row_id rs stride (base + (i - base))) = Some (o' ! (i - base))"
          using o'(2) [rule_format, of "i - base"] i' by linarith
        then show ?thesis using nth_write_at [of base o' out i] fits o'(1) i' False by simp
      qed
    qed
    moreover have "length (write_at out base o') = tokens * DS4_ENGRAM_COLS"
      using length_write_at [of base o' out] fits o'(1) Suc.prems(2) by simp
    moreover have "tokens - (start + cap) \<le> fuel * cap" using Suc.prems(4) by simp
    ultimately show ?thesis using Suc.IH [OF rec] n(3) by simp
  qed
qed

text \<open>
  C9: A batch read that succeeds has put the decoded row of every requested id at the place of its token and
  column, for any number of readers, any order in which \<open>qsort\<close> leaves equal ids and any order in
  which the workers store their rows.
\<close>

theorem engram_batch_correct:
  assumes "ds4_engram_read_batch file env t rs tokens stride out = Some (None, out')"
    and "batch_env_ok env" and "length out = tokens * 24"
  shows "length out' = tokens * 24 \<and>
    (\<forall>i<tokens. \<forall>j<24. engram_row file t (rs ! (i * stride + j)) = Some (out' ! (i * 24 + j)))"
proof (cases "tokens = 0")
  case True
  with assms show ?thesis by (auto simp: ds4_engram_read_batch_def split: if_splits)
next
  case False
  have cols: "DS4_ENGRAM_COLS = 24" by (simp add: engram_consts)
  have cap: "0 < min tokens BATCH_TOKENS" using False by (simp add: BATCH_TOKENS_def)
  from assms(1) False have loop: "batch_loop file env t rs stride tokens (min tokens BATCH_TOKENS) 0 tokens out = Some (None, out')"
    by (auto simp: ds4_engram_read_batch_def Let_def split: if_splits)
  have "length out' = tokens * DS4_ENGRAM_COLS \<and> rows_read file t rs stride tokens out'"
    by (rule batch_loop_correct [OF loop assms(2) cap]) (use assms(3) cap in \<open>auto simp: cols rows_read_def\<close>)
  then have len: "length out' = tokens * 24" and r: "\<forall>i<tokens * 24. engram_row file t (row_id rs stride i) = Some (out' ! i)"
    by (simp_all add: rows_read_def cols)
  have "engram_row file t (rs ! (i * stride + j)) = Some (out' ! (i * 24 + j))" if "i < tokens" "j < 24" for i j
  proof -
    have "i * 24 + j < Suc i * 24" using that by simp
    also have "\<dots> \<le> tokens * 24" using that by (intro mult_le_mono1) simp
    finally have "engram_row file t (row_id rs stride (i * 24 + j)) = Some (out' ! (i * 24 + j))" using r by blast
    then show ?thesis using that by (simp add: row_id_def cols)
  qed
  with len show ?thesis by blast
qed

lemma run_parts_ok:
  "results = map (\<lambda>ws. Some (ws, None)) res \<Longrightarrow> \<exists>out'. run_parts results order out = Some (None, out')"
  by (auto simp: run_parts_def Let_def comp_def)

lemma batch_loop_total:
  assumes "batch_env_ok env" and "0 < cap" and "0 \<le> table_fd t"
    and rows: "\<forall>i<tokens * DS4_ENGRAM_COLS. row_id rs stride i < table_rows t \<and> engram_row file t (row_id rs stride i) \<noteq> None"
    and io: "\<forall>start part i. delivers DS4_ENGRAM_ROW_BYTES (batch_io env start part i)"
  shows "\<exists>out'. batch_loop file env t rs stride tokens cap start fuel out = Some (None, out')"
proof (induction fuel arbitrary: start out)
  case (Suc fuel)
  show ?case
  proof (cases "start < tokens")
    case True
    define n where "n = min (tokens - start) cap"
    define reqs where "reqs = sorted_requests env (batch_requests rs stride start n)"
    define readers where "readers = batch_readers env (length reqs)"
    define results where "results = map (\<lambda>p. read_batch_part file (batch_io env start) t reqs readers p) [0..<readers]"
    have part: "\<exists>ws. read_batch_part file (batch_io env start) t reqs readers p = Some (ws, None)" for p
      unfolding read_batch_part_def
    proof (rule read_part_delivers)
      show "\<forall>q\<in>set (slice_of reqs (batch_slices readers 0 (length reqs) ! p)). req_row q < table_rows t \<and> engram_row file t (req_row q) \<noteq> None"
      proof
        fix q assume "q \<in> set (slice_of reqs (batch_slices readers 0 (length reqs) ! p))"
        then have "q \<in> set reqs" unfolding slice_of_def by (meson in_set_dropD in_set_takeD)
        then have q: "req_output q < n * DS4_ENGRAM_COLS" "req_row q = row_id rs stride (start * DS4_ENGRAM_COLS + req_output q)"
          unfolding reqs_def batch_env_sorted [OF assms(1)] batch_requests_in by auto
        have "(start + n) * DS4_ENGRAM_COLS \<le> tokens * DS4_ENGRAM_COLS" using True by (intro mult_le_mono1) (simp add: n_def)
        then have "start * DS4_ENGRAM_COLS + req_output q < tokens * DS4_ENGRAM_COLS" using q(1) by (simp add: add_mult_distrib)
        with rows q(2) show "req_row q < table_rows t \<and> engram_row file t (req_row q) \<noteq> None" by simp
      qed
    qed (use assms(3) io in auto)
    then obtain f where "\<And>p. read_batch_part file (batch_io env start) t reqs readers p = Some (f p, None)" by metis
    then have "results = map (\<lambda>ws. Some (ws, None)) (map f [0..<readers])" by (simp add: results_def)
    from run_parts_ok [OF this] obtain o' where
      "run_parts results (part_order env start readers) (take (n * DS4_ENGRAM_COLS) (drop (start * DS4_ENGRAM_COLS) out)) = Some (None, o')"
      by blast
    then show ?thesis
      unfolding batch_loop.simps Let_def n_def [symmetric] reqs_def [symmetric] readers_def [symmetric] results_def [symmetric]
      using True Suc.IH by simp
  qed simp
qed simp

text \<open>
  When every id is valid, every row decodes and every \<open>pread\<close> makes progress, the batch read returns and
  succeeds.
\<close>

theorem engram_batch_delivers:
  assumes "batch_env_ok env" and "alloc_ok env" and "0 \<le> table_fd t" and "24 \<le> stride"
    and "tokens * stride \<le> 4611686018427387000" and "tokens \<le> 750599937895082"
    and "\<forall>i<tokens. \<forall>j<24. rs ! (i * stride + j) < table_rows t \<and> engram_row file t (rs ! (i * stride + j)) \<noteq> None"
    and "\<forall>start part i. delivers 264 (batch_io env start part i)"
  shows "\<exists>out'. ds4_engram_read_batch file env t rs tokens stride out = Some (None, out')"
proof (cases "tokens = 0")
  case True
  with assms show ?thesis by (simp add: ds4_engram_read_batch_def)
next
  case False
  have cols: "DS4_ENGRAM_COLS = 24" "DS4_ENGRAM_DIM = 256" "DS4_ENGRAM_ROW_BYTES = 264"
    by (simp_all add: engram_consts DS4_ENGRAM_DIM_def DS4_ENGRAM_ROW_BYTES_def)
  have "row_id rs stride i < table_rows t \<and> engram_row file t (row_id rs stride i) \<noteq> None" if "i < tokens * DS4_ENGRAM_COLS" for i
  proof -
    have "i div 24 < tokens" "i mod 24 < 24" using that by (auto simp: cols less_mult_imp_div_less)
    with assms(7) show ?thesis unfolding row_id_def cols by blast
  qed
  moreover have "0 < min tokens BATCH_TOKENS" using False by (simp add: BATCH_TOKENS_def)
  ultimately have loop: "\<exists>out'. batch_loop file env t rs stride tokens (min tokens BATCH_TOKENS) 0 tokens out = Some (None, out')"
    using assms(1,3,8) by (intro batch_loop_total) (auto simp: cols)
  have "(UINT64_MAX div 4 - 24) div stride \<ge> tokens - 1"
  proof -
    have "(tokens - 1) * stride \<le> UINT64_MAX div 4 - 24" using assms(5) by (simp add: diff_mult_distrib)
    then show ?thesis using assms(4) by (simp add: less_eq_div_iff_mult_less_eq)
  qed
  then have guard: "\<not> (table_fd t < 0 \<or> tokens \<noteq> 0 \<and> stride < DS4_ENGRAM_COLS \<or>
         UINT64_MAX div (DS4_ENGRAM_COLS * DS4_ENGRAM_DIM * 4) < tokens \<or>
         tokens \<noteq> 0 \<and> (UINT64_MAX div 4 - DS4_ENGRAM_COLS) div stride < tokens - 1)"
    using assms(3,4,6) by (simp add: cols)
  have valid: "list_all (\<lambda>i. list_all (\<lambda>j. rs ! (i * stride + j) < table_rows t) [0..<DS4_ENGRAM_COLS]) [0..<tokens]"
    using assms(7) by (simp add: list_all_iff cols)
  show ?thesis using loop valid False assms(2) unfolding ds4_engram_read_batch_def if_not_P [OF guard] Let_def by simp
qed

section \<open>The parallel reader\<close>

lemma parallel_Inr:
  assumes "ds4_engram_read_parallel file on_apple io t rs readers = Some (Inr vs)"
  shows "map Some vs = map (engram_row file t) rs"
proof (cases "length rs < 2 \<or> readers = 1 \<or> \<not> on_apple")
  case True
  with assms have "ds4_engram_read file (io 0) t rs = Some (Inr vs)"
    by (auto simp: ds4_engram_read_parallel_def split: if_splits)
  then show ?thesis by (rule engram_read_Inr)
next
  case False
  define n where "n = min readers (length rs)"
  define part where "part = (\<lambda>p. slice_of rs (batch_slices n 0 (length rs) ! p))"
  define results where "results = map (\<lambda>p. ds4_engram_read file (io p) t (part p)) [0..<n]"
  from assms have "readers \<noteq> 0" by (auto simp: ds4_engram_read_parallel_def split: if_splits)
  then have n: "0 < n" using False by (auto simp: n_def)
  have g: "\<not> (table_fd t < 0 \<or> readers = 0 \<or> 16 < readers \<or> UINT64_MAX div (DS4_ENGRAM_DIM * 4) < length rs)"
    "list_all (\<lambda>r. r < table_rows t) rs"
    using assms by (auto simp: ds4_engram_read_parallel_def split: if_splits)
  have "(if None \<in> set results then None else case filter (\<lambda>r. \<exists>e. the r = Inl e) results of
      r # _ \<Rightarrow> Some (Inl (projl (the r))) | [] \<Rightarrow> Some (Inr (concat (map (projr \<circ> the) results)))) = Some (Inr vs)"
    using assms g(2) unfolding ds4_engram_read_parallel_def if_not_P [OF g(1)] if_not_P [OF False]
      Let_def results_def part_def n_def by simp
  then have none: "None \<notin> set results" and filt: "filter (\<lambda>r. \<exists>e. the r = Inl e) results = []"
    and vs: "vs = concat (map (projr \<circ> the) results)"
    by (auto split: if_splits list.splits)
  have "map Some (projr (the (ds4_engram_read file (io p) t (part p)))) = map (engram_row file t) (part p)" if "p < n" for p
  proof -
    let ?r = "ds4_engram_read file (io p) t (part p)"
    have "?r \<in> set results" using that by (simp add: results_def)
    with none filt obtain ws where "?r = Some (Inr ws)"
      by (cases ?r; cases "the ?r") (auto simp: filter_empty_conv)
    then show ?thesis using engram_read_Inr by fastforce
  qed
  then have "map Some vs = concat (map (\<lambda>p. map (engram_row file t) (part p)) [0..<n])"
    unfolding vs map_concat results_def by (intro arg_cong [of _ _ concat]) simp
  also have "\<dots> = map (engram_row file t) (concat (map part [0..<n]))" by (simp add: map_concat comp_def)
  also have "concat (map part [0..<n]) = rs" unfolding part_def by (rule parts_gather [OF n])
  finally show ?thesis .
qed

lemma map_Some_inj: "map Some xs = map Some ys \<Longrightarrow> xs = ys"
  by (metis inj_Some map_injective)

text \<open>
  C10: The parallel reader returns exactly the decoded rows of the ids, in order, which is what the serial
  reader returns for the same ids whenever it succeeds.
\<close>

theorem engram_parallel_equals_serial:
  assumes "ds4_engram_read_parallel file on_apple io t rs readers = Some (Inr vs)"
  shows "length vs = length rs \<and> (\<forall>i<length rs. engram_row file t (rs ! i) = Some (vs ! i)) \<and>
    (\<forall>io' ws. ds4_engram_read file io' t rs = Some (Inr ws) \<longrightarrow> ws = vs)"
proof (intro conjI allI impI)
  have vs: "map Some vs = map (engram_row file t) rs" by (rule parallel_Inr [OF assms])
  then show len: "length vs = length rs" by (rule map_eq_imp_length_eq)
  show "engram_row file t (rs ! i) = Some (vs ! i)" if "i < length rs" for i
  proof -
    have "map Some vs ! i = map (engram_row file t) rs ! i" by (simp only: vs)
    with that len show ?thesis by simp
  qed
  show "ws = vs" if "ds4_engram_read file io' t rs = Some (Inr ws)" for io' ws
    by (rule map_Some_inj) (simp only: engram_read_Inr [OF that] vs)
qed

section \<open>Opening a table\<close>

text \<open>
  C12: A table that was opened owns exactly one descriptor, which closing releases, and every row of it lies inside
  the file and below the largest file offset; a failed open leaves nothing open and the closed table.
\<close>

theorem engram_open_sound:
  "case ds4_engram_table_open os path offset n of (ok, t, tr) \<Rightarrow>
     (if ok then \<exists>sz. stat_result os = Some (True, sz) \<and> table_rows t = unat n \<and> 0 < table_rows t \<and>
        (\<forall>r<table_rows t. int (row_offset t r + DS4_ENGRAM_ROW_BYTES) \<le> sz \<and> int (row_offset t r + DS4_ENGRAM_ROW_BYTES) \<le> LONG_MAX) \<and>
        tr = [OpenFd (table_fd t)] \<and> snd (ds4_engram_table_close t) = (if 0 \<le> table_fd t then [CloseFd (table_fd t)] else [])
      else t = closed_table \<and> (tr = [] \<or> (\<exists>fd. tr = [OpenFd fd, CloseFd fd])))"
proof -
  obtain ok t tr where o: "ds4_engram_table_open os path offset n = (ok, t, tr)"
    by (cases "ds4_engram_table_open os path offset n") auto
  have row: "offset + r * DS4_ENGRAM_ROW_BYTES + DS4_ENGRAM_ROW_BYTES \<le> offset + unat n * DS4_ENGRAM_ROW_BYTES" if "r < unat n" for r
    using mult_le_mono1 [of "Suc r" "unat n" DS4_ENGRAM_ROW_BYTES] that by simp
  show ?thesis
  proof (cases ok)
    case True
    with o obtain fd sz where s: "stat_result os = Some (True, sz)" "t = \<lparr>table_fd = fd, table_offset = offset, table_rows = unat n\<rparr>"
      "tr = [OpenFd fd]" "\<not> sz < int (offset + unat n * DS4_ENGRAM_ROW_BYTES)" "n \<noteq> 0"
      "\<not> LONG_MAX - int offset < int (unat n * DS4_ENGRAM_ROW_BYTES)"
      by (auto simp: ds4_engram_table_open_def Let_def split: if_splits option.splits)
    have "int (offset + r * DS4_ENGRAM_ROW_BYTES + DS4_ENGRAM_ROW_BYTES) \<le> sz \<and>
        int (offset + r * DS4_ENGRAM_ROW_BYTES + DS4_ENGRAM_ROW_BYTES) \<le> LONG_MAX" if "r < unat n" for r
      using row [OF that] s(4,6) by linarith
    moreover have "0 < unat n" using s(5) by (simp add: unat_gt_0)
    ultimately show ?thesis unfolding o using True s by (simp add: row_offset_def ds4_engram_table_close_def)
  next
    case False
    with o have "t = closed_table \<and> (tr = [] \<or> (\<exists>fd. tr = [OpenFd fd, CloseFd fd]))"
      by (auto simp: ds4_engram_table_open_def Let_def split: if_splits option.splits)
    with False show ?thesis unfolding o by simp
  qed
qed

lemma engram_open_sound_witness:
  "\<exists>t. ds4_engram_table_open \<lparr>open_result = Some 5, stat_result = Some (True, 1000), uncached_ok = True\<rparr> (Some ''m'') 100 3 =
      (True, t, [OpenFd 5]) \<and> int (row_offset t 2 + 264) \<le> 1000"
proof -
  let ?t = "\<lparr>table_fd = 5, table_offset = 100, table_rows = 3\<rparr>"
  have o: "ds4_engram_table_open \<lparr>open_result = Some 5, stat_result = Some (True, 1000), uncached_ok = True\<rparr> (Some ''m'') 100 3 =
      (True, ?t, [OpenFd 5])"
    by (simp add: ds4_engram_table_open_def DS4_ENGRAM_ROW_BYTES_def)
  have "int (row_offset ?t 2 + DS4_ENGRAM_ROW_BYTES) \<le> 1000"
    using engram_open_sound [where os = "\<lparr>open_result = Some 5, stat_result = Some (True, 1000), uncached_ok = True\<rparr>"
        and path = "Some ''m''" and offset = 100 and n = 3]
    unfolding o by simp
  with o show ?thesis by (simp add: DS4_ENGRAM_ROW_BYTES_def)
qed

section \<open>Decoding\<close>

text \<open>The value of a finite \<open>float\<close>, in units of \<open>2 ^ -149\<close>.\<close>

definition f32_scaled :: "u32 \<Rightarrow> int" where
  "f32_scaled w =
     (let E = unat w div 2 ^ 23 mod 256; M = unat w mod 2 ^ 23
      in (if 2 ^ 31 \<le> unat w then -1 else 1) * int (if E = 0 then M else (2 ^ 23 + M) * 2 ^ (E - 1)))"

lemma and_high_half: "x AND (0xffff0000 :: u32) = push_bit 16 (drop_bit 16 x)"
proof -
  have "push_bit 16 (take_bit 16 (drop_bit 16 x)) = x AND mask (16 + 16) AND NOT (mask 16)" by (rule slice_eq_mask)
  moreover have "take_bit 16 (drop_bit 16 x) = drop_bit 16 x" by (simp add: take_bit_drop_bit take_bit_word_eq_self)
  moreover have "(mask 32 :: u32) = -1" by (simp add: mask_eq_exp_minus_1)
  moreover have "NOT (mask 16 :: u32) = 0xffff0000" by (simp add: mask_eq_exp_minus_1)
  ultimately show ?thesis by simp
qed

lemma unat_high_half: "unat (x AND (0xffff0000 :: u32)) = unat x div 65536 * 65536"
proof -
  have b: "unat x div 65536 < 65536" using unat_u32_bound [of x] by (simp add: less_mult_imp_div_less)
  have "unat (push_bit 16 (drop_bit 16 x)) = unat (of_nat 65536 * drop_bit 16 x)"
    by (simp add: push_bit_eq_mult mult.commute)
  also have "\<dots> = 65536 * (unat x div 65536)"
    using b by (simp add: unat_word_ariths unat_drop_bit_eq drop_bit_eq_div)
  finally show ?thesis unfolding and_high_half by simp
qed

lemma isfinite_unat: "isfinite w \<longleftrightarrow> unat w div 2 ^ 23 mod 256 \<noteq> 255"
proof -
  have "drop_bit 23 w AND 255 = take_bit 8 (drop_bit 23 w)" by (simp add: take_bit_eq_mask mask_eq_exp_minus_1)
  moreover have "unat (take_bit 8 (drop_bit 23 w)) = unat w div 2 ^ 23 mod 256"
    unfolding unsigned_take_bit_eq unat_drop_bit_eq by (simp add: take_bit_eq_mod drop_bit_eq_div)
  moreover have "take_bit 8 (drop_bit 23 w) = 255 \<longleftrightarrow> unat (take_bit 8 (drop_bit 23 w)) = 255"
    by (simp add: word_unat_eq_iff)
  ultimately show ?thesis by (simp add: isfinite_def)
qed

lemma round_bf16_id:
  assumes "unat w mod 65536 = 0"
  shows "round_bf16 w = w"
proof -
  define c where "c = drop_bit 16 w AND 1"
  have c: "unat c \<le> 1" by (simp add: c_def and_one_eq mod_2_eq_odd)
  have w: "unat w = unat w div 65536 * 65536" using assms by (metis add.right_neutral div_mult_mod_eq)
  have "unat w div 65536 < 65536" using unat_u32_bound [of w] by (simp add: less_mult_imp_div_less)
  then have le: "unat w \<le> 65535 * 65536" using w by linarith
  have "unat (w + 0x7fff) = unat w + 0x7fff" using le by (subst unat_word_ariths) simp
  then have "unat (w + 0x7fff + c) = unat w + 0x7fff + unat c" using le c by (subst unat_word_ariths) simp
  then have "unat (w + 0x7fff + c) div 65536 = unat w div 65536" using w c by linarith
  then have "unat (round_bf16 w) = unat w"
    unfolding round_bf16_def unat_high_half c_def [symmetric] using w by simp
  then show ?thesis by (simp only: word_unat_eq_iff)
qed

lemma top_bit: "0 < m \<Longrightarrow> m < 16 \<Longrightarrow> 2 ^ top_bit m \<le> m \<and> m < 2 ^ Suc (top_bit m) \<and> top_bit m \<le> 3"
  by (auto simp: top_bit_def)

lemma e4m3_range:
  assumes "e4m3 byte = (neg, m, e)"
  shows "m < 16 \<and> -9 \<le> e \<and> e \<le> 5"
proof -
  define x where "x = unat (drop_bit 3 byte AND 15)"
  define y where "y = unat (byte AND 7)"
  have "x \<le> 15" "y \<le> 7"
    using word_and_le1 [of "drop_bit 3 byte" 15] word_and_le1 [of byte 7] by (simp_all add: x_def y_def word_le_nat_alt)
  moreover have "(neg, m, e) = (byte AND 128 \<noteq> 0, if x \<noteq> 0 then (8 + y, int x - 10) else (y, -9))"
    using assms by (simp only: e4m3_def Let_def x_def y_def)
  ultimately show ?thesis by (auto split: if_splits)
qed

lemma field_split:
  fixes F M D s :: nat
  assumes "M < D" and "F < 256"
  shows "(F * D + M + s * (256 * D)) div D mod 256 = F" and "(F * D + M + s * (256 * D)) mod D = M"
proof -
  have e: "F * D + M + s * (256 * D) = M + (F + s * 256) * D" by (simp add: algebra_simps)
  have "(M + (F + s * 256) * D) div D = F + s * 256" using assms(1) by (simp only: div_mult_self1) simp
  then show "(F * D + M + s * (256 * D)) div D mod 256 = F" unfolding e using assms(2) by simp
  show "(F * D + M + s * (256 * D)) mod D = M" unfolding e using assms(1) by simp
qed

text \<open>A normal number: the fields of its bits, and its value.\<close>

lemma float_bits_normal:
  assumes "0 < m" "m < 16" "-126 \<le> e + int (top_bit m)" "e + int (top_bit m) \<le> 127"
  shows "unat (float_bits neg m e) mod 65536 = 0"
    and "f32_scaled (float_bits neg m e) = (if neg then -1 else 1) * int (m * 2 ^ nat (e + 149))"
proof -
  define k where "k = top_bit m"
  define F where "F = nat (e + int k + 127)"
  define M where "M = (m - 2 ^ k) * 2 ^ (23 - k)"
  have k: "2 ^ k \<le> m" "m < 2 ^ Suc k" "k \<le> 3" using top_bit [OF assms(1,2)] by (simp_all add: k_def)
  have F: "1 \<le> F" "F \<le> 254" using assms(3,4) by (simp_all add: F_def k_def)
  have pow: "(2 :: nat) ^ k * 2 ^ (23 - k) = 2 ^ 23" using k(3) by (simp flip: power_add)
  have "M < 2 ^ k * 2 ^ (23 - k)" unfolding M_def using k(1,2) by (intro mult_strict_right_mono) auto
  then have M: "M < 2 ^ 23" unfolding pow .
  have "(2 :: nat) ^ (23 - k) = 2 ^ (7 - k) * 65536" using k(3) power_add [of "2 :: nat" "7 - k" 16] by simp
  then have M16: "M mod 65536 = 0" unfolding M_def by (metis mod_mult_self2_is_0 mult.assoc)
  have mag: "float_magnitude m e = F * 2 ^ 23 + M"
    using assms k by (simp add: float_magnitude_def k_def [symmetric] F_def M_def Let_def)
  have small: "F * 2 ^ 23 + M < 2 ^ 31"
  proof -
    have "F * 2 ^ 23 \<le> 254 * 2 ^ 23" using F by (intro mult_le_mono1)
    then show ?thesis using M by simp
  qed
  define s :: nat where "s = (if neg then 1 else 0)"
  have w: "unat (float_bits neg m e) = F * 2 ^ 23 + M + s * (256 * 2 ^ 23)"
    unfolding float_bits_def mag s_def using small by (simp add: unat_word_ariths unat_of_nat)
  have "F * 2 ^ 23 + M + s * (256 * 2 ^ 23) = M + (F * 128 + s * 32768) * 65536" by simp
  then show "unat (float_bits neg m e) mod 65536 = 0" unfolding w using M16 by (simp only: mod_mult_self1)
  have field: "unat (float_bits neg m e) div 2 ^ 23 mod 256 = F" "unat (float_bits neg m e) mod 2 ^ 23 = M"
    unfolding w using field_split [OF M, of F s] F by simp_all
  have sign: "2 ^ 31 \<le> unat (float_bits neg m e) \<longleftrightarrow> neg" unfolding w s_def using small by auto
  have "(2 ^ 23 + M) * 2 ^ (F - 1) = m * 2 ^ nat (e + 149)"
  proof -
    have "2 ^ 23 + M = (2 ^ k + (m - 2 ^ k)) * 2 ^ (23 - k)" unfolding M_def add_mult_distrib pow ..
    also have "2 ^ k + (m - 2 ^ k) = m" using k(1) by simp
    finally have "(2 ^ 23 + M) * 2 ^ (F - 1) = m * 2 ^ (23 - k + (F - 1))" by (simp add: power_add mult.assoc)
    also have "23 - k + (F - 1) = nat (e + 149)" using F k(3) unfolding F_def by linarith
    finally show ?thesis .
  qed
  then show "f32_scaled (float_bits neg m e) = (if neg then -1 else 1) * int (m * 2 ^ nat (e + 149))"
    unfolding f32_scaled_def Let_def field sign using F(1) by simp
qed

lemma decode_element_Some:
  assumes "decode_element code scale = Some v" and "e4m3 code = (neg, m, e)"
  shows "v = round_bf16 (float_bits neg m (e + uint scale - 127)) \<and> isfinite v"
  using assms by (auto simp: decode_element_def Let_def split: if_splits)

text \<open>
  A decoded element is a finite bfloat16, and whenever the product of the E4M3 value and its scale is a
  normal number it is that product exactly: neither \<open>ldexpf\<close> nor the rounding changes it.
\<close>

theorem decoded_value_exact:
  assumes "decode_element code scale = Some v" and "e4m3 code = (neg, m, e)"
    and "m = 0 \<or> 1 \<le> e + uint scale + int (top_bit m)"
  shows "isfinite v \<and> unat v mod 65536 = 0 \<and>
    f32_scaled v = (if neg then -1 else 1) * int (m * 2 ^ nat (e + uint scale + 22))"
proof -
  let ?e = "e + uint scale - 127"
  note v = decode_element_Some [OF assms(1,2)]
  have fin: "isfinite v" using v by blast
  have bf: "unat v mod 65536 = 0" using v by (simp add: round_bf16_def unat_high_half)
  have "f32_scaled v = (if neg then -1 else 1) * int (m * 2 ^ nat (?e + 149))"
  proof (cases "m = 0")
    case True
    then have "float_bits neg m ?e = (if neg then 0x80000000 else 0)" by (simp add: float_bits_def float_magnitude_def)
    then have "v = (if neg then 0x80000000 else 0)" using v round_bf16_id [of "float_bits neg m ?e"] by (cases neg) auto
    with True show ?thesis by (cases neg) (simp_all add: f32_scaled_def Let_def)
  next
    case False
    have m: "0 < m" "m < 16" using False e4m3_range [OF assms(2)] by auto
    have lo: "-126 \<le> ?e + int (top_bit m)" using assms(3) False by simp
    have hi: "?e + int (top_bit m) \<le> 127"
    proof (rule ccontr)
      assume "\<not> ?thesis"
      then have "float_magnitude m ?e = 255 * 2 ^ 23" using m by (simp add: float_magnitude_def Let_def)
      then have b: "float_bits neg m ?e = of_nat (255 * 2 ^ 23) + (if neg then 0x80000000 else 0)" by (simp only: float_bits_def)
      then have "unat (float_bits neg m ?e) mod 65536 = 0" by (cases neg) simp_all
      then have "v = float_bits neg m ?e" using v round_bf16_id by metis
      then have "\<not> isfinite v" unfolding isfinite_unat using b by (cases neg) simp_all
      with fin show False by simp
    qed
    note n = float_bits_normal [OF m lo hi, of neg]
    have "v = float_bits neg m ?e" using v round_bf16_id [OF n(1)] by simp
    with n(2) show ?thesis by simp
  qed
  with fin bf show ?thesis by (simp add: algebra_simps)
qed

lemma decoded_value_exact_witness: "f32_scaled 0x40700000 = int (15 * 2 ^ 147)"
proof -
  have e: "e4m3 0x4f = (False, 15, -1)" by (simp add: e4m3_def)
  have "decode_element 0x4f 126 = Some 0x40700000"
    by (simp add: decode_element_def e float_bits_def float_magnitude_def top_bit_def round_bf16_def isfinite_def)
  from decoded_value_exact [OF this e] show ?thesis by (simp add: top_bit_def)
qed

section \<open>Examples\<close>

definition zero_table :: ds4_engram_table where
  "zero_table = \<lparr>table_fd = 3, table_offset = 0, table_rows = 1\<rparr>"

definition zero_env :: batch_env where
  "zero_env = \<lparr>sorted_requests = sort_key req_row, apple = True, readers_env = None,
     batch_io = (\<lambda>_ _ _. replicate 264 (Transferred 5)), part_order = (\<lambda>_ n. rev [0..<n]), alloc_ok = True\<rparr>"

lemma zero_row: "engram_row (replicate 264 0) zero_table 0 = Some (replicate 256 0)"
proof -
  have e: "decode_element 0 0 = Some 0"
    by (simp add: decode_element_def e4m3_def float_bits_def float_magnitude_def round_bf16_def isfinite_def)
  have "decode_elements (replicate 264 0) js = Some (replicate (length js) 0)" if "\<forall>j\<in>set js. j < 256" for js
    using that
  proof (induction js)
    case (Cons j js)
    then have "j div 32 < 8" by (simp add: less_mult_imp_div_less)
    then have "DS4_ENGRAM_DIM + j div 32 < 264" by (simp add: DS4_ENGRAM_DIM_def)
    with Cons e show ?case by simp
  qed simp
  then have "decode_row (replicate 264 0) = Some (replicate 256 0)" by (simp add: decode_row_def DS4_ENGRAM_DIM_def)
  then show ?thesis by (simp add: engram_row_def row_offset_def zero_table_def DS4_ENGRAM_ROW_BYTES_def)
qed

lemma zero_env_ok: "batch_env_ok zero_env" "alloc_ok zero_env" "\<forall>start part i. delivers 264 (batch_io zero_env start part i)"
  by (auto simp: batch_env_ok_def zero_env_def delivers_def list_all_iff)

lemma engram_batch_delivers_witness:
  "\<exists>out'. ds4_engram_read_batch (replicate 264 0) zero_env zero_table (replicate 24 0) 1 24 (replicate 24 []) = Some (None, out')"
  by (rule engram_batch_delivers [OF zero_env_ok(1,2)]) (simp_all add: zero_env_ok(3) zero_row, simp_all add: zero_table_def)

lemma engram_batch_correct_witness:
  "\<exists>out'. ds4_engram_read_batch (replicate 264 0) zero_env zero_table (replicate 24 0) 1 24 (replicate 24 []) = Some (None, out') \<and>
     out' ! 23 = replicate 256 0"
proof -
  have "\<exists>out'. batch_loop (replicate 264 0) zero_env zero_table (replicate 24 0) 24 1 1 0 1 (replicate 24 []) = Some (None, out')"
    by (rule batch_loop_total [OF zero_env_ok(1)])
      (use zero_env_ok(3) zero_row in \<open>auto simp: row_id_def DS4_ENGRAM_COLS_def DS4_ENGRAM_ROW_BYTES_def zero_table_def\<close>)
  then obtain out' where r: "ds4_engram_read_batch (replicate 264 0) zero_env zero_table (replicate 24 0) 1 24 (replicate 24 []) = Some (None, out')"
    by (auto simp: ds4_engram_read_batch_def Let_def BATCH_TOKENS_def zero_env_ok(2) zero_table_def DS4_ENGRAM_COLS_def DS4_ENGRAM_DIM_def list_all_iff)
  from engram_batch_correct [OF r zero_env_ok(1)] have "engram_row (replicate 264 0) zero_table (replicate 24 0 ! (0 * 24 + 23)) = Some (out' ! (0 * 24 + 23))"
    by simp
  with r zero_row show ?thesis by simp
qed

lemma engram_parallel_equals_serial_witness:
  "\<exists>vs. ds4_engram_read_parallel (replicate 264 0) True (\<lambda>_ _. replicate 264 (Transferred 5)) zero_table [0, 0] 2 = Some (Inr vs) \<and>
     length vs = 2"
proof -
  have "\<exists>ws. ds4_engram_read (replicate 264 0) (\<lambda>_. replicate 264 (Transferred 5)) zero_table [0] = Some (Inr ws)"
    by (rule engram_read_delivers) (simp_all add: zero_row, simp_all add: zero_table_def DS4_ENGRAM_DIM_def DS4_ENGRAM_ROW_BYTES_def delivers_def list_all_iff)
  then obtain ws where ws: "ds4_engram_read (replicate 264 0) (\<lambda>_. replicate 264 (Transferred 5)) zero_table [0] = Some (Inr ws)" ..
  have "\<exists>vs. ds4_engram_read_parallel (replicate 264 0) True (\<lambda>_ _. replicate 264 (Transferred 5)) zero_table [0, 0] 2 = Some (Inr vs)"
  proof -
    have "min 2 (length [0, 0 :: nat]) = 2" "[0..<2] = [0, 1 :: nat]" by (simp_all add: upt_rec)
    moreover have "slice_of [0, 0 :: nat] (batch_slices 2 0 (length [0, 0 :: nat]) ! 0) = [0]"
      "slice_of [0, 0 :: nat] (batch_slices 2 0 (length [0, 0 :: nat]) ! 1) = [0]"
      by (simp_all add: batch_slices_def slice_of_def upt_rec)
    ultimately have "map (\<lambda>p. ds4_engram_read (replicate 264 0) (\<lambda>_. replicate 264 (Transferred 5)) zero_table
        (slice_of [0, 0] (batch_slices (min 2 (length [0, 0 :: nat])) 0 (length [0, 0 :: nat]) ! p))) [0..<min 2 (length [0, 0 :: nat])] =
        [Some (Inr ws), Some (Inr ws)]"
      using ws by (simp only: list.map)
    then show ?thesis
      unfolding ds4_engram_read_parallel_def Let_def by (simp add: zero_table_def DS4_ENGRAM_DIM_def)
  qed
  then obtain vs where r: "ds4_engram_read_parallel (replicate 264 0) True (\<lambda>_ _. replicate 264 (Transferred 5)) zero_table [0, 0] 2 = Some (Inr vs)" ..
  from engram_parallel_equals_serial [OF r] r show ?thesis by auto
qed

end
