(* ===== verification/KvCodec.thy ===== *)
theory KvCodec
  imports CText
begin

text \<open>
  The bytes of a checkpoint file of \<open>ds4_kvstore.c\<close>: the little-endian integers, the 48-byte header and
  the text length that follows it. Every codec here is an instance of \<open>fixed_codec\<close>, so what one
  field promises is proved once.
\<close>

unbundle bit_operations_syntax

section \<open>Fixed-width codecs\<close>

text \<open>
  A writer of values of one width and the reader that takes a value from the front of a buffer.
\<close>

locale fixed_codec =
  fixes put :: "'a \<Rightarrow> u8 list"
    and get :: "u8 list \<Rightarrow> 'a"
    and width :: nat
  assumes put_width: "length (put v) = width"
    and get_put: "get (put v @ rest) = v"
begin

lemma get_at: "get (drop (length pre) (pre @ put v @ rest)) = v"
  by (simp add: get_put)

lemma put_inject: "put v @ r = put w @ s \<longleftrightarrow> v = w \<and> r = s"
proof
  assume eq: "put v @ r = put w @ s"
  then have "v = w" by (metis get_put)
  with eq show "v = w \<and> r = s" by simp
qed simp

end

text \<open>A codec that also reads every field of its width back to the bytes it came from.\<close>

locale exact_codec = fixed_codec +
  assumes put_get: "width \<le> length bs \<Longrightarrow> put (get bs) = take width bs"
begin

lemma decode_unique: "width \<le> length bs \<Longrightarrow> get bs = v \<longleftrightarrow> take width bs = put v"
proof
  assume "width \<le> length bs" "take width bs = put v"
  then have "get bs = get (put v @ drop width bs)" by (metis append_take_drop_id)
  then show "get bs = v" by (simp add: get_put)
qed (use put_get in auto)

end

definition ds4_kvstore_le_put32 :: "u32 \<Rightarrow> u8 list" where
  "ds4_kvstore_le_put32 v = [ucast v, ucast (drop_bit 8 v), ucast (drop_bit 16 v), ucast (drop_bit 24 v)]"

definition kv_le_put64 :: "u64 \<Rightarrow> u8 list" where
  "kv_le_put64 v = map (\<lambda>i. ucast (drop_bit (8 * i) v)) [0..<8]"

definition ds4_kvstore_le_get32 :: "u8 list \<Rightarrow> u32" where
  "ds4_kvstore_le_get32 p =
     ucast (p ! 0) OR push_bit 8 (ucast (p ! 1)) OR push_bit 16 (ucast (p ! 2)) OR push_bit 24 (ucast (p ! 3))"

definition kv_le_get64 :: "u8 list \<Rightarrow> u64" where
  "kv_le_get64 p = foldl (\<lambda>v i. push_bit 8 v OR ucast (p ! i)) 0 (rev [0..<8])"

lemma upt8: "[0..<8] = [0, 1, 2, 3, 4, 5, 6, 7 :: nat]"
  by (simp add: upt_rec)

lemma bit_u8_high: "8 \<le> n \<Longrightarrow> \<not> bit (a :: u8) n"
  using bit_imp_le_length [of a n] by auto

lemma bit_u32_high: "32 \<le> n \<Longrightarrow> \<not> bit (a :: u32) n"
  using bit_imp_le_length [of a n] by auto

lemma bit_u64_high: "64 \<le> n \<Longrightarrow> \<not> bit (a :: u64) n"
  using bit_imp_le_length [of a n] by auto

lemmas byte_bits = bit_simps bit_u8_high bit_u32_high bit_u64_high

lemma nth_list_4: "4 \<le> length bs \<Longrightarrow> take 4 bs = [bs ! 0, bs ! 1, bs ! 2, bs ! 3]"
  by (rule nth_equalityI) (auto simp: less_Suc_eq numeral_eq_Suc)

lemma nth_list_8: "8 \<le> length bs \<Longrightarrow> take 8 bs = map ((!) bs) [0..<8]"
  by (rule nth_equalityI) auto

interpretation le32: exact_codec ds4_kvstore_le_put32 ds4_kvstore_le_get32 4
proof unfold_locales
  fix v :: u32 and rest bs :: "u8 list"
  show "length (ds4_kvstore_le_put32 v) = 4" by (simp add: ds4_kvstore_le_put32_def)
  show "ds4_kvstore_le_get32 (ds4_kvstore_le_put32 v @ rest) = v"
  proof (rule bit_word_eqI)
    fix n assume "n < LENGTH(32)"
    then consider "n < 8" | "8 \<le> n \<and> n < 16" | "16 \<le> n \<and> n < 24" | "24 \<le> n \<and> n < 32" by fastforce
    then show "bit (ds4_kvstore_le_get32 (ds4_kvstore_le_put32 v @ rest)) n = bit v n"
      by cases (auto simp: ds4_kvstore_le_get32_def ds4_kvstore_le_put32_def byte_bits)
  qed
  assume "4 \<le> length bs"
  then show "ds4_kvstore_le_put32 (ds4_kvstore_le_get32 bs) = take 4 bs"
    unfolding ds4_kvstore_le_put32_def ds4_kvstore_le_get32_def
    by (simp only: nth_list_4 list.inject) (intro conjI bit_word_eqI; simp add: byte_bits)
qed

lemma bit_le_fold:
  "bit (foldr (\<lambda>b v. push_bit 8 v OR ucast b) bs (0 :: u64)) n
     \<longleftrightarrow> n < 64 \<and> n div 8 < length bs \<and> bit (bs ! (n div 8) :: u8) (n mod 8)"
proof (induction bs arbitrary: n)
  case Nil
  then show ?case by simp
next
  case (Cons b bs)
  show ?case
  proof (cases "n < 8")
    case True
    then show ?thesis by (simp add: bit_simps)
  next
    case False
    then obtain k where n: "n = k + 8" by (metis add.commute le_Suc_ex not_less)
    have "(k + 8) div 8 = Suc (k div 8)" by simp
    then show ?thesis by (auto simp: n Cons.IH byte_bits)
  qed
qed

lemma kv_le_get64_fold:
  "8 \<le> length p \<Longrightarrow> kv_le_get64 p = foldr (\<lambda>b v. push_bit 8 v OR ucast b) (take 8 p) 0"
  by (simp only: kv_le_get64_def foldl_conv_foldr rev_rev_ident nth_list_8 foldr_map comp_def)

lemma bit_kv_le_get64:
  "8 \<le> length p \<Longrightarrow> bit (kv_le_get64 p) n \<longleftrightarrow> n < 64 \<and> bit (p ! (n div 8)) (n mod 8)"
  by (auto simp: kv_le_get64_fold bit_le_fold)

interpretation le64: exact_codec kv_le_put64 kv_le_get64 8
proof unfold_locales
  fix v :: u64 and rest bs :: "u8 list"
  show width: "length (kv_le_put64 v) = 8" by (simp add: kv_le_put64_def)
  show "kv_le_get64 (kv_le_put64 v @ rest) = v"
    by (rule bit_word_eqI)
      (simp add: bit_kv_le_get64 width nth_append kv_le_put64_def bit_simps div_less_iff_less_mult)
  assume "8 \<le> length bs"
  then show "kv_le_put64 (kv_le_get64 bs) = take 8 bs"
    by (auto intro!: nth_equalityI bit_word_eqI simp: kv_le_put64_def bit_simps bit_kv_le_get64)
qed

section \<open>The entry and its header\<close>

definition DS4_KVSTORE_FIXED_HEADER :: nat where "DS4_KVSTORE_FIXED_HEADER = 48"
definition KV_CACHE_PAYLOAD_ABI :: u8 where "KV_CACHE_PAYLOAD_ABI = 2"

definition DS4_KVSTORE_REASON_UNKNOWN :: u8 where "DS4_KVSTORE_REASON_UNKNOWN = 0"
definition DS4_KVSTORE_REASON_COLD :: u8 where "DS4_KVSTORE_REASON_COLD = 1"
definition DS4_KVSTORE_REASON_CONTINUED :: u8 where "DS4_KVSTORE_REASON_CONTINUED = 2"
definition DS4_KVSTORE_REASON_EVICT :: u8 where "DS4_KVSTORE_REASON_EVICT = 3"
definition DS4_KVSTORE_REASON_SHUTDOWN :: u8 where "DS4_KVSTORE_REASON_SHUTDOWN = 4"
definition DS4_KVSTORE_REASON_AGENT_SYSTEM :: u8 where "DS4_KVSTORE_REASON_AGENT_SYSTEM = 5"
definition DS4_KVSTORE_REASON_AGENT_SESSION :: u8 where "DS4_KVSTORE_REASON_AGENT_SESSION = 6"

lemmas reason_codes =
  DS4_KVSTORE_REASON_UNKNOWN_def DS4_KVSTORE_REASON_COLD_def DS4_KVSTORE_REASON_CONTINUED_def
  DS4_KVSTORE_REASON_EVICT_def DS4_KVSTORE_REASON_SHUTDOWN_def DS4_KVSTORE_REASON_AGENT_SYSTEM_def
  DS4_KVSTORE_REASON_AGENT_SESSION_def

record ds4_kvstore_entry =
  e_sha :: string
  e_path :: string
  e_quant_bits :: u8
  e_model_id :: u8
  e_reason :: u8
  e_tokens :: u32
  e_hits :: u32
  e_ctx_size :: u32
  e_ext_flags :: u8
  e_created_at :: u64
  e_last_used :: u64
  e_payload_bytes :: u64
  e_text_bytes :: u64
  e_file_size :: u64

definition ds4_kvstore_fill_header ::
    "u8 \<Rightarrow> u8 \<Rightarrow> u8 \<Rightarrow> u8 \<Rightarrow> u32 \<Rightarrow> u32 \<Rightarrow> u32 \<Rightarrow> u64 \<Rightarrow> u64 \<Rightarrow> u64 \<Rightarrow> u8 list" where
  "ds4_kvstore_fill_header model quant reason ext tokens hits ctx created used payload =
     [0x4B, 0x56, 0x43, 1, quant, reason, ext, model]
     @ ds4_kvstore_le_put32 tokens @ ds4_kvstore_le_put32 hits @ ds4_kvstore_le_put32 ctx
     @ [KV_CACHE_PAYLOAD_ABI, 0, 0, 0]
     @ kv_le_put64 created @ kv_le_put64 used @ kv_le_put64 payload"

text \<open>
  \<open>read_header\<close> on the bytes of the file from its start; \<open>None\<close> is \<open>false\<close>. The fields that the
  function does not set keep the zeros of the caller's initialiser.
\<close>

definition header_fields :: "u8 list \<Rightarrow> u32 \<Rightarrow> ds4_kvstore_entry" where
  "header_fields h text_bytes =
     \<lparr>e_sha = [], e_path = [], e_quant_bits = h ! 4, e_model_id = h ! 7,
      e_reason = (if h ! 5 \<le> DS4_KVSTORE_REASON_AGENT_SESSION then h ! 5 else DS4_KVSTORE_REASON_UNKNOWN),
      e_tokens = ds4_kvstore_le_get32 (drop 8 h), e_hits = ds4_kvstore_le_get32 (drop 12 h),
      e_ctx_size = ds4_kvstore_le_get32 (drop 16 h), e_ext_flags = h ! 6,
      e_created_at = kv_le_get64 (drop 24 h), e_last_used = kv_le_get64 (drop 32 h),
      e_payload_bytes = kv_le_get64 (drop 40 h), e_text_bytes = ucast text_bytes, e_file_size = 0\<rparr>"

definition ds4_kvstore_read_header :: "u8 list \<Rightarrow> (ds4_kvstore_entry \<times> u32) option" where
  "ds4_kvstore_read_header bs =
     (let h = take 48 bs; tb = take 4 (drop 48 bs) in
      if length h \<noteq> 48 then None
      else if h ! 0 \<noteq> 0x4B \<or> h ! 1 \<noteq> 0x56 \<or> h ! 2 \<noteq> 0x43 \<or> h ! 3 \<noteq> 1 then None
      else if h ! 20 \<noteq> KV_CACHE_PAYLOAD_ABI then None
      else if length tb \<noteq> 4 then None
      else
        let text_bytes = ds4_kvstore_le_get32 tb; e = header_fields h text_bytes in
        if e_tokens e \<noteq> 0 \<and> (e_quant_bits e = 2 \<or> e_quant_bits e = 4) then Some (e, text_bytes) else None)"

text \<open>The header that \<open>touch_file\<close> and \<open>rewrite_trailer\<close> write back for an entry they read.\<close>

abbreviation refill_header :: "ds4_kvstore_entry \<Rightarrow> u8 \<Rightarrow> u32 \<Rightarrow> u64 \<Rightarrow> u8 list" where
  "refill_header e ext hits now \<equiv>
     ds4_kvstore_fill_header (e_model_id e) (e_quant_bits e) (e_reason e) ext (e_tokens e) hits
       (e_ctx_size e) (e_created_at e) now (e_payload_bytes e)"

lemma length_fill_header [simp]: "length (ds4_kvstore_fill_header m q r x t h c cr u p) = 48"
  by (simp add: ds4_kvstore_fill_header_def le32.put_width le64.put_width)

lemma header_bytes:
  assumes "h = ds4_kvstore_fill_header m q r x t hi c cr u p"
  shows "h ! 0 = 0x4B" "h ! 1 = 0x56" "h ! 2 = 0x43" "h ! 3 = 1" "h ! 4 = q" "h ! 5 = r" "h ! 6 = x"
    "h ! 7 = m" "h ! 20 = KV_CACHE_PAYLOAD_ABI"
    "ds4_kvstore_le_get32 (drop 8 h) = t" "ds4_kvstore_le_get32 (drop 12 h) = hi"
    "ds4_kvstore_le_get32 (drop 16 h) = c" "kv_le_get64 (drop 24 h) = cr" "kv_le_get64 (drop 32 h) = u"
    "kv_le_get64 (drop 40 h) = p"
  using le64.get_put [of p "[]"]
  by (simp_all add: assms ds4_kvstore_fill_header_def nth_append le32.put_width le64.put_width le32.get_put le64.get_put)

definition header_entry :: "u8 \<Rightarrow> u8 \<Rightarrow> u8 \<Rightarrow> u8 \<Rightarrow> u32 \<Rightarrow> u32 \<Rightarrow> u32 \<Rightarrow> u64 \<Rightarrow> u64 \<Rightarrow> u64 \<Rightarrow> u32 \<Rightarrow> ds4_kvstore_entry" where
  "header_entry m q r x t hi c cr u p tb =
     \<lparr>e_sha = [], e_path = [], e_quant_bits = q, e_model_id = m, e_reason = r, e_tokens = t, e_hits = hi,
      e_ctx_size = c, e_ext_flags = x, e_created_at = cr, e_last_used = u, e_payload_bytes = p,
      e_text_bytes = ucast tb, e_file_size = 0\<rparr>"

lemma read_fill_header:
  assumes "t \<noteq> 0" "q = 2 \<or> q = 4" "r \<le> 6"
  shows "ds4_kvstore_read_header (ds4_kvstore_fill_header m q r x t hi c cr u p @ ds4_kvstore_le_put32 tb @ rest)
    = Some (header_entry m q r x t hi c cr u p tb, tb)"
proof -
  define h where "h = ds4_kvstore_fill_header m q r x t hi c cr u p"
  have "length h = 48" by (simp add: h_def)
  then show ?thesis
    using assms header_bytes [OF h_def] le32.get_put [of tb "[]"]
    unfolding h_def [symmetric]
    by (auto simp: ds4_kvstore_read_header_def Let_def le32.put_width header_entry_def header_fields_def
        DS4_KVSTORE_REASON_AGENT_SESSION_def)
qed

lemma read_header_Some:
  assumes "ds4_kvstore_read_header bs = Some (e, tb)"
  shows "52 \<le> length bs" "e_tokens e \<noteq> 0" "e_quant_bits e = 2 \<or> e_quant_bits e = 4" "e_reason e \<le> 6"
    "drop 48 bs = ds4_kvstore_le_put32 tb @ drop 52 bs" "e_text_bytes e = ucast tb"
    "e_sha e = []" "e_path e = []" "e_file_size e = 0"
proof -
  let ?h = "take 48 bs" and ?t = "take 4 (drop 48 bs)"
  have parts: "length ?h = 48" "length ?t = 4" "tb = ds4_kvstore_le_get32 ?t" "e = header_fields ?h tb"
    "e_tokens e \<noteq> 0" "e_quant_bits e = 2 \<or> e_quant_bits e = 4"
    using assms unfolding ds4_kvstore_read_header_def Let_def guard_Some guarded_Some option.inject prod.inject by blast+
  show "e_tokens e \<noteq> 0" "e_quant_bits e = 2 \<or> e_quant_bits e = 4" by (fact parts)+
  show "e_reason e \<le> 6" "e_text_bytes e = ucast tb" "e_sha e = []" "e_path e = []" "e_file_size e = 0"
    by (simp_all add: parts(4) header_fields_def DS4_KVSTORE_REASON_AGENT_SESSION_def DS4_KVSTORE_REASON_UNKNOWN_def)
  show "52 \<le> length bs" using parts(1,2) by simp
  have "ds4_kvstore_le_put32 tb = ?t" unfolding parts(3) using le32.put_get [of ?t] parts(2) by simp
  then show "drop 48 bs = ds4_kvstore_le_put32 tb @ drop 52 bs"
    using append_take_drop_id [of 4 "drop 48 bs"] by simp
qed

lemma entry_as_header:
  assumes "ds4_kvstore_read_header bs = Some (e, tb)"
  shows "header_entry (e_model_id e) (e_quant_bits e) (e_reason e) x (e_tokens e) n (e_ctx_size e) (e_created_at e) now (e_payload_bytes e) tb
    = e\<lparr>e_ext_flags := x, e_hits := n, e_last_used := now\<rparr>"
  using read_header_Some(6-9) [OF assms] by (simp add: header_entry_def)

lemma read_refilled_header:
  assumes "ds4_kvstore_read_header bs = Some (e, tb)"
  shows "ds4_kvstore_read_header (refill_header e x n now @ drop 48 bs)
    = Some (e\<lparr>e_ext_flags := x, e_hits := n, e_last_used := now\<rparr>, tb)"
proof -
  note r = read_header_Some [OF assms]
  show ?thesis
    unfolding r(5) using read_fill_header [OF r(2-4)] entry_as_header [OF assms] by simp
qed

text \<open>
  C14: A header written for a checkpoint with at least one token, 2- or 4-bit experts and a known reason,
  followed by the text length, reads back as the same fields whatever follows it in the file; the
  header fills exactly the fixed 48 bytes.
\<close>

theorem header_round_trip:
  assumes "t \<noteq> 0" "q = 2 \<or> q = 4" "r \<le> DS4_KVSTORE_REASON_AGENT_SESSION"
  shows "ds4_kvstore_read_header (ds4_kvstore_fill_header m q r x t n c created used p @ ds4_kvstore_le_put32 tb @ rest)
    = Some (\<lparr>e_sha = [], e_path = [], e_quant_bits = q, e_model_id = m, e_reason = r, e_tokens = t, e_hits = n,
        e_ctx_size = c, e_ext_flags = x, e_created_at = created, e_last_used = used, e_payload_bytes = p,
        e_text_bytes = ucast tb, e_file_size = 0\<rparr>, tb)
    \<and> length (ds4_kvstore_fill_header m q r x t n c created used p) = DS4_KVSTORE_FIXED_HEADER"
  using read_fill_header [of t q r m x n c created used p tb rest] assms
  by (simp add: header_entry_def DS4_KVSTORE_REASON_AGENT_SESSION_def DS4_KVSTORE_FIXED_HEADER_def)

lemma header_round_trip_witness:
  "ds4_kvstore_read_header (ds4_kvstore_fill_header 1 4 2 0 20480 7 65536 1700000000 1700003600 1048576 @ ds4_kvstore_le_put32 9 @ [])
    = Some (\<lparr>e_sha = [], e_path = [], e_quant_bits = 4, e_model_id = 1, e_reason = 2, e_tokens = 20480, e_hits = 7,
        e_ctx_size = 65536, e_ext_flags = 0, e_created_at = 1700000000, e_last_used = 1700003600,
        e_payload_bytes = 1048576, e_text_bytes = ucast (9 :: u32), e_file_size = 0\<rparr>, 9)"
  using header_round_trip [of 20480 4 2 1 0 7 65536 1700000000 1700003600 1048576 9 "[]"]
  by (simp add: DS4_KVSTORE_REASON_AGENT_SESSION_def)

end
