(* ===== verification/KvPolicy.thy ===== *)
theory KvPolicy
  imports KvCodec "HOL-Library.Signed_Division"
begin

text \<open>
  The decisions of the checkpoint store of \<open>ds4_kvstore.c\<close> that touch no file: names and reasons, how
  much of a prompt to store, when a growing conversation is stored again, and which sizes fit the
  budget. The store itself (\<open>ds4_kvstore\<close>) is a record; its entries are a list, the C array without
  its spare capacity.
\<close>

unbundle bit_operations_syntax

section \<open>Options and names\<close>

record ds4_kvstore_options =
  min_tokens :: int
  cold_max_tokens :: int
  continued_interval_tokens :: int
  boundary_trim_tokens :: int
  boundary_align_tokens :: int

record ds4_kvstore =
  kc_enabled :: bool
  kc_dir :: string
  kc_budget_bytes :: u64
  kc_reject_different_quant :: bool
  kc_opt :: ds4_kvstore_options
  kc_continued_last_store_tokens :: int
  kc_entry :: "ds4_kvstore_entry list"

definition ds4_kvstore_default_options :: ds4_kvstore_options where
  "ds4_kvstore_default_options =
     \<lparr>min_tokens = 512, cold_max_tokens = 30000, continued_interval_tokens = 10000,
      boundary_trim_tokens = 32, boundary_align_tokens = 2048\<rparr>"

definition ds4_kvstore_reason_code :: "string option \<Rightarrow> u8" where
  "ds4_kvstore_reason_code reason =
     (case reason of
        None \<Rightarrow> DS4_KVSTORE_REASON_UNKNOWN
      | Some r \<Rightarrow>
          if r = ''cold'' then DS4_KVSTORE_REASON_COLD
          else if r = ''continued'' then DS4_KVSTORE_REASON_CONTINUED
          else if r = ''evict'' then DS4_KVSTORE_REASON_EVICT
          else if r = ''shutdown'' then DS4_KVSTORE_REASON_SHUTDOWN
          else if r = ''agent-system'' then DS4_KVSTORE_REASON_AGENT_SYSTEM
          else if r = ''agent-session'' then DS4_KVSTORE_REASON_AGENT_SESSION
          else DS4_KVSTORE_REASON_UNKNOWN)"

definition DS4_KVSTORE_EXT_TOOL_MAP :: u8 where "DS4_KVSTORE_EXT_TOOL_MAP = 1"
definition DS4_KVSTORE_EXT_RESPONSES_VISIBLE :: u8 where "DS4_KVSTORE_EXT_RESPONSES_VISIBLE = 2"
definition DS4_KVSTORE_EXT_THINKING_VISIBLE :: u8 where "DS4_KVSTORE_EXT_THINKING_VISIBLE = 4"

definition ds4_kvstore_key_kind :: "u8 \<Rightarrow> string" where
  "ds4_kvstore_key_kind ext_flags =
     (if ext_flags AND DS4_KVSTORE_EXT_RESPONSES_VISIBLE \<noteq> 0 then ''responses-visible''
      else if ext_flags AND DS4_KVSTORE_EXT_THINKING_VISIBLE \<noteq> 0 then ''thinking-visible''
      else ''token-text'')"

text \<open>The name test; \<open>Some sha\<close> is \<open>true\<close> with the lower-case digits stored.\<close>

definition ds4_kvstore_sha_hex_name :: "string \<Rightarrow> string option" where
  "ds4_kvstore_sha_hex_name name =
     (if length name \<noteq> 43 \<or> drop 40 name \<noteq> ''.kv'' then None
      else if list_all isxdigit (take 40 name) then Some (map tolower (take 40 name)) else None)"

definition ds4_kvstore_path_join :: "string \<Rightarrow> string \<Rightarrow> string" where
  "ds4_kvstore_path_join dir name =
     (if dir = [] \<or> List.last dir \<noteq> CHR ''/'' then dir @ ''/'' @ name else dir @ name)"

definition ds4_kvstore_path_for_sha :: "ds4_kvstore \<Rightarrow> string \<Rightarrow> string" where
  "ds4_kvstore_path_for_sha kc sha = ds4_kvstore_path_join (kc_dir kc) (take 40 sha @ ''.kv'')"

text \<open>
  \<open>mkdir_p\<close> calls \<open>mkdir\<close> (true when it returns 0 or \<open>EEXIST\<close>) on every prefix of the path that ends
  before a slash, then on the path; the result has the directories it asked for, in order.
\<close>

fun mkdir_prefixes :: "(string \<Rightarrow> bool) \<Rightarrow> string \<Rightarrow> nat list \<Rightarrow> bool \<times> string list" where
  "mkdir_prefixes mkdir path [] = (mkdir path, [path])"
| "mkdir_prefixes mkdir path (i # is) =
     (if path ! i \<noteq> CHR ''/'' then mkdir_prefixes mkdir path is
      else if \<not> mkdir (take i path) then (False, [take i path])
      else let (ok, made) = mkdir_prefixes mkdir path is in (ok, take i path # made))"

definition kv_mkdir_p :: "(string \<Rightarrow> bool) \<Rightarrow> string option \<Rightarrow> bool \<times> string list" where
  "kv_mkdir_p mkdir path =
     (case path of None \<Rightarrow> (False, [])
      | Some p \<Rightarrow> if p = [] then (False, []) else mkdir_prefixes mkdir p [1..<length p])"

section \<open>Tokens and text\<close>

type_synonym ds4_tokens = "int list"

definition ds4_kvstore_render_tokens_text :: "(int \<Rightarrow> u8 list) \<Rightarrow> ds4_tokens \<Rightarrow> u8 list" where
  "ds4_kvstore_render_tokens_text token_text tokens = concat (map token_text tokens)"

definition ds4_kvstore_byte_prefix_match :: "u8 list \<Rightarrow> u8 list \<Rightarrow> bool" where
  "ds4_kvstore_byte_prefix_match text_bytes pre \<longleftrightarrow>
     length pre \<le> length text_bytes \<and> (length pre = 0 \<or> take (length pre) text_bytes = take (length pre) pre)"

definition ds4_kvstore_tokens_copy_prefix :: "ds4_tokens option \<Rightarrow> int \<Rightarrow> ds4_tokens" where
  "ds4_kvstore_tokens_copy_prefix src n =
     (case src of None \<Rightarrow> []
      | Some v \<Rightarrow> let n = (if n > int (length v) then int (length v) else n) in map (\<lambda>i. v ! i) [0..<nat n])"

definition tokens_append :: "ds4_tokens \<Rightarrow> ds4_tokens option \<Rightarrow> ds4_tokens" where
  "tokens_append dst src = (case src of None \<Rightarrow> dst | Some v \<Rightarrow> dst @ v)"

definition ds4_kvstore_build_prompt_from_exact_prefix_and_text_suffix ::
    "(u8 list \<Rightarrow> ds4_tokens) \<Rightarrow> ds4_tokens \<Rightarrow> u8 list option \<Rightarrow> ds4_tokens" where
  "ds4_kvstore_build_prompt_from_exact_prefix_and_text_suffix tokenize exact_prefix suffix_text =
     tokens_append exact_prefix (Some (tokenize (case suffix_text of None \<Rightarrow> [] | Some s \<Rightarrow> s)))"

section \<open>When to store, and how much\<close>

text \<open>
  C's \<open>int\<close> as \<open>int\<close> (its overflow is undefined), with the truncating \<open>/\<close> and \<open>%\<close> of C.
\<close>

definition ds4_kvstore_store_len :: "ds4_kvstore \<Rightarrow> int \<Rightarrow> int" where
  "ds4_kvstore_store_len kc tokens =
     (let trim = boundary_trim_tokens (kc_opt kc); align = boundary_align_tokens (kc_opt kc) in
      if tokens > min_tokens (kc_opt kc) + trim then
        let stable = tokens - trim;
            stable = (if align > 0 then stable - stable smod align else stable)
        in if stable \<ge> min_tokens (kc_opt kc) then stable else tokens
      else tokens)"

fun last_user_marker :: "int \<Rightarrow> int \<Rightarrow> int \<Rightarrow> ds4_tokens \<Rightarrow> int \<Rightarrow> int" where
  "last_user_marker user assistant i [] last_user = last_user"
| "last_user_marker user assistant i (t # ts) last_user =
     (if t = assistant then last_user
      else last_user_marker user assistant (i + 1) ts (if t = user then i else last_user))"

definition ds4_kvstore_chat_anchor_pos :: "ds4_kvstore \<Rightarrow> ds4_tokens option \<Rightarrow> int \<Rightarrow> int \<Rightarrow> int" where
  "ds4_kvstore_chat_anchor_pos kc prompt user_token_id assistant_token_id =
     (case prompt of None \<Rightarrow> -1
      | Some v \<Rightarrow>
          if user_token_id < 0 \<or> assistant_token_id < 0 then -1
          else let last_user = last_user_marker user_token_id assistant_token_id 0 v (-1) in
            if last_user \<ge> min_tokens (kc_opt kc) then last_user else -1)"

definition kv_cache_continued_step :: "ds4_kvstore \<Rightarrow> int" where
  "kv_cache_continued_step kc =
     (if \<not> kc_enabled kc \<or> continued_interval_tokens (kc_opt kc) \<le> 0 then 0
      else
        let step = continued_interval_tokens (kc_opt kc); align = boundary_align_tokens (kc_opt kc) in
        if align > 0 then
          let step = ((step + align - 1) sdiv align) * align in if step \<le> 0 then align else step
        else step)"

definition ds4_kvstore_continued_store_target :: "ds4_kvstore \<Rightarrow> int \<Rightarrow> int" where
  "ds4_kvstore_continued_store_target kc live_tokens =
     (let step = kv_cache_continued_step kc in
      if step \<le> 0 then 0
      else if live_tokens < min_tokens (kc_opt kc) then 0
      else if live_tokens smod step \<noteq> 0 then 0
      else if live_tokens \<le> kc_continued_last_store_tokens kc then 0
      else live_tokens)"

definition ds4_kvstore_note_store :: "ds4_kvstore \<Rightarrow> int \<Rightarrow> ds4_kvstore" where
  "ds4_kvstore_note_store kc tokens =
     (if tokens > kc_continued_last_store_tokens kc then kc\<lparr>kc_continued_last_store_tokens := tokens\<rparr> else kc)"

definition ds4_kvstore_suppress_continued_store :: "ds4_kvstore \<Rightarrow> int \<Rightarrow> int \<times> ds4_kvstore" where
  "ds4_kvstore_suppress_continued_store kc tokens =
     (if ds4_kvstore_continued_store_target kc tokens \<noteq> tokens then (-1, kc)
      else (kc_continued_last_store_tokens kc, ds4_kvstore_note_store kc tokens))"

definition ds4_kvstore_restore_suppressed_continued :: "ds4_kvstore \<Rightarrow> int \<Rightarrow> int \<Rightarrow> ds4_kvstore" where
  "ds4_kvstore_restore_suppressed_continued kc old_tokens suppressed_tokens =
     (if old_tokens \<ge> 0 \<and> kc_continued_last_store_tokens kc = suppressed_tokens
      then kc\<lparr>kc_continued_last_store_tokens := old_tokens\<rparr> else kc)"

section \<open>Sizes and the budget\<close>

definition kv_cache_file_size_bytes :: "u64 \<Rightarrow> u64 \<Rightarrow> u64 \<Rightarrow> u64 option" where
  "kv_cache_file_size_bytes text_bytes payload_bytes trailer_bytes =
     (let fixed = 48 + 4 :: u64 in
      if (-1) - fixed < text_bytes \<or> (-1) - fixed - text_bytes < payload_bytes
         \<or> (-1) - fixed - text_bytes - payload_bytes < trailer_bytes
      then None
      else Some (fixed + text_bytes + payload_bytes + trailer_bytes))"

definition kv_cache_budget_required :: "u64 \<Rightarrow> u64 option" where
  "kv_cache_budget_required file_bytes =
     (let slack = file_bytes div 100;
          slack = (if file_bytes mod 100 \<noteq> 0 then slack + 1 else slack) in
      if (-1) - file_bytes < slack then None else Some (file_bytes + slack))"

text \<open>The result with \<open>*file_bytes_out\<close> and \<open>*required_bytes_out\<close>; an output left alone keeps 0.\<close>

definition ds4_kvstore_file_size_fits :: "ds4_kvstore option \<Rightarrow> u64 \<Rightarrow> u64 \<Rightarrow> u64 \<Rightarrow> bool \<times> u64 \<times> u64" where
  "ds4_kvstore_file_size_fits kc text_bytes payload_bytes trailer_bytes =
     (case kv_cache_file_size_bytes text_bytes payload_bytes trailer_bytes of
        None \<Rightarrow> (False, 0, 0)
      | Some file_bytes \<Rightarrow>
          (case kc of None \<Rightarrow> (True, file_bytes, 0)
           | Some k \<Rightarrow>
               if kc_budget_bytes k = 0 then (True, file_bytes, 0)
               else case kv_cache_budget_required file_bytes of
                 None \<Rightarrow> (False, file_bytes, 0)
               | Some required \<Rightarrow> (required \<le> kc_budget_bytes k, file_bytes, required)))"

section \<open>Lemmas\<close>

lemma byte_prefix_match_prefix: "ds4_kvstore_byte_prefix_match t p \<longleftrightarrow> prefix p t"
  unfolding ds4_kvstore_byte_prefix_match_def
  by (auto simp: prefix_def) (metis append_take_drop_id take_all order_refl)+

lemma tokens_copy_prefix_take: "ds4_kvstore_tokens_copy_prefix (Some v) n = take (nat n) v"
  unfolding ds4_kvstore_tokens_copy_prefix_def Let_def
  by (auto intro!: nth_equalityI)

lemma build_prompt_append:
  "ds4_kvstore_build_prompt_from_exact_prefix_and_text_suffix tok pre (Some s) = pre @ tok s"
  by (simp add: ds4_kvstore_build_prompt_from_exact_prefix_and_text_suffix_def tokens_append_def)

lemma sha_hex_name_Some:
  "ds4_kvstore_sha_hex_name name = Some sha \<Longrightarrow>
    length name = 43 \<and> length sha = 40 \<and> name = take 40 name @ ''.kv'' \<and> sha = map tolower (take 40 name)
    \<and> list_all isxdigit (take 40 name)"
  unfolding ds4_kvstore_sha_hex_name_def guard_Some guarded_Some
  by (auto simp del: append_take_drop_id) (metis append_take_drop_id)

lemma unat_u64_max: "unat (- 1 :: u64) = UINT64_MAX"
  by (simp add: unsigned_minus_1_eq_mask mask_eq_exp_minus_1)

lemma headroom_guard: "(- 1) - a < b \<longleftrightarrow> UINT64_MAX < unat a + unat (b :: u64)"
proof -
  have "unat (- 1 - a) = UINT64_MAX - unat a" by (subst unat_sub) (simp_all add: unat_u64_max word_order.extremum)
  then show ?thesis using unat_u64_bound [of a] by (auto simp: word_less_nat_alt)
qed

lemma minus_minus_u64: "(- 1 :: u64) - a - b = - 1 - (a + b)"
  by (simp add: algebra_simps)

lemma file_size_bytes_exact:
  "kv_cache_file_size_bytes t p r =
    (if 52 + unat t + unat p + unat r \<le> UINT64_MAX then Some (52 + t + p + r) else None)"
proof -
  have sum: "unat (a + b) = unat a + unat b" if "unat a + unat b \<le> UINT64_MAX" for a b :: u64
    using that by (rule unat_add_exact)
  show ?thesis
  proof (cases "52 + unat t \<le> UINT64_MAX")
    case t: True
    then have st: "unat (52 + t) = 52 + unat t" using sum [of 52 t] by simp
    show ?thesis
    proof (cases "52 + unat t + unat p \<le> UINT64_MAX")
      case True
      then have "unat (52 + t + p) = 52 + unat t + unat p" using sum [of "52 + t" p] st by simp
      then show ?thesis using t True st unfolding kv_cache_file_size_bytes_def Let_def minus_minus_u64 headroom_guard
        by auto
    qed (use t st in \<open>auto simp: kv_cache_file_size_bytes_def Let_def minus_minus_u64 headroom_guard\<close>)
  qed (auto simp: kv_cache_file_size_bytes_def Let_def minus_minus_u64 headroom_guard)
qed

lemma file_size_unat:
  "52 + unat t + unat p + unat r \<le> UINT64_MAX \<Longrightarrow> unat (52 + t + p + r :: u64) = 52 + unat t + unat p + unat r"
  using unat_add_exact [of 52 t] unat_add_exact [of "52 + t" p] unat_add_exact [of "52 + t + p" r] by simp

lemma div_100_up: "(a + 99) div 100 = (if a mod 100 \<noteq> 0 then a div 100 + 1 else a div 100)" for a :: nat
proof -
  obtain q r where a: "a = 100 * q + r" "r < 100" by (metis div_mod_decomp mod_less_divisor mult.commute zero_less_numeral)
  then have "(a + 99) div 100 = q + (r + 99) div 100" by (simp add: add.assoc)
  moreover have "(r + 99) div 100 = (if r = 0 then 0 else 1)"
  proof (cases r)
    case (Suc k)
    then have "(r + 99) div 100 = (k + 100) div 100" by simp
    then show ?thesis using Suc a(2) by (simp add: div_add_self2)
  qed simp
  ultimately show ?thesis using a by simp
qed

lemma slack_exact:
  "unat (if f mod 100 \<noteq> 0 then f div 100 + 1 else f div 100 :: u64) = (unat f + 99) div 100"
proof -
  have div100: "unat (f div 100) = unat f div 100" and mod100: "unat (f mod 100) = unat f mod 100"
    by (simp_all add: unat_div unat_mod)
  have small: "unat f div 100 + 1 \<le> UINT64_MAX" using unat_u64_bound [of f] by linarith
  have inc: "unat (f div 100 + 1) = unat f div 100 + 1" using unat_add_exact [of "f div 100" 1] small div100 by simp
  have zero: "f mod 100 = 0 \<longleftrightarrow> unat f mod 100 = 0" using mod100 by (metis unat_eq_zero)
  show ?thesis using div_100_up [of "unat f"] inc div100 unfolding zero by (simp split: if_splits)
qed

lemma budget_required_exact:
  "kv_cache_budget_required f =
    (if unat f + (unat f + 99) div 100 \<le> UINT64_MAX
     then Some (f + (if f mod 100 \<noteq> 0 then f div 100 + 1 else f div 100)) else None)"
  unfolding kv_cache_budget_required_def Let_def headroom_guard slack_exact by auto

text \<open>The exact size of a checkpoint file, and the size with the 1\% headroom the policy asks for.\<close>

definition checkpoint_size :: "u64 \<Rightarrow> u64 \<Rightarrow> u64 \<Rightarrow> nat" where
  "checkpoint_size t p r = 52 + unat t + unat p + unat r"

definition with_headroom :: "nat \<Rightarrow> nat" where
  "with_headroom n = n + (n + 99) div 100"

text \<open>
  C15: The size test is exact: it accepts precisely when the true file size is representable and, with 1 percent
  headroom rounded up, within the budget; then the two sizes it reports are the true ones, with no
  wrap-around.
\<close>

theorem file_size_fits_exact:
  assumes "ds4_kvstore_file_size_fits (Some kc) text_bytes payload_bytes trailer_bytes = (ok, file_bytes, required)"
  defines "n \<equiv> checkpoint_size text_bytes payload_bytes trailer_bytes"
  shows "(ok \<longleftrightarrow> n \<le> UINT64_MAX \<and> (kc_budget_bytes kc = 0 \<or> with_headroom n \<le> unat (kc_budget_bytes kc)))
    \<and> (ok \<longrightarrow> unat file_bytes = n \<and> (kc_budget_bytes kc = 0 \<or> unat required = with_headroom n))"
proof -
  define f where "f = 52 + text_bytes + payload_bytes + trailer_bytes"
  define s where "s = (if f mod 100 \<noteq> 0 then f div 100 + 1 else f div 100)"
  have unat_f: "unat f = n" if "n \<le> UINT64_MAX" using that file_size_unat unfolding n_def checkpoint_size_def f_def by simp
  have required: "unat (f + s) = with_headroom n" if "with_headroom n \<le> UINT64_MAX"
  proof -
    have "n \<le> UINT64_MAX" using that by (simp add: with_headroom_def)
    then show ?thesis using unat_add_exact [of f s] slack_exact [of f, folded s_def] unat_f that by (simp add: with_headroom_def)
  qed
  have budget: "unat (kc_budget_bytes kc) \<le> UINT64_MAX" by (rule unat_u64_bound)
  have sizes: "kv_cache_file_size_bytes text_bytes payload_bytes trailer_bytes = (if n \<le> UINT64_MAX then Some f else None)"
    by (simp add: file_size_bytes_exact n_def checkpoint_size_def f_def)
  consider (big) "UINT64_MAX < n" | (nobudget) "n \<le> UINT64_MAX" "kc_budget_bytes kc = 0"
    | (over) "n \<le> UINT64_MAX" "kc_budget_bytes kc \<noteq> 0" "UINT64_MAX < with_headroom n"
    | (fits) "n \<le> UINT64_MAX" "kc_budget_bytes kc \<noteq> 0" "with_headroom n \<le> UINT64_MAX" by linarith
  then show ?thesis
  proof cases
    case big
    then show ?thesis using assms(1) by (auto simp: ds4_kvstore_file_size_fits_def sizes)
  next
    case nobudget
    then show ?thesis using assms(1) unat_f by (auto simp: ds4_kvstore_file_size_fits_def sizes)
  next
    case over
    then have "kv_cache_budget_required f = None" using unat_f unfolding budget_required_exact with_headroom_def s_def by simp
    then show ?thesis using assms(1) over budget
      by (auto simp: ds4_kvstore_file_size_fits_def sizes)
  next
    case fits
    then have "kv_cache_budget_required f = Some (f + s)" using unat_f unfolding budget_required_exact with_headroom_def s_def by simp
    then have "(ok, file_bytes, required) = (f + s \<le> kc_budget_bytes kc, f, f + s)"
      unfolding assms(1) [symmetric] using fits by (simp add: ds4_kvstore_file_size_fits_def sizes)
    then show ?thesis using required [OF fits(3)] unat_f fits by (auto simp: word_le_nat_alt)
  qed
qed

lemma file_size_fits_exact_witness:
  "\<exists>ok f r. ds4_kvstore_file_size_fits
      (Some \<lparr>kc_enabled = True, kc_dir = ''kv'', kc_budget_bytes = 2000, kc_reject_different_quant = False,
        kc_opt = ds4_kvstore_default_options, kc_continued_last_store_tokens = 0, kc_entry = []\<rparr>) 10 900 38 = (ok, f, r)
    \<and> ok \<and> unat f = 1000 \<and> unat r = 1010"
proof -
  let ?kc = "\<lparr>kc_enabled = True, kc_dir = ''kv'', kc_budget_bytes = 2000, kc_reject_different_quant = False,
        kc_opt = ds4_kvstore_default_options, kc_continued_last_store_tokens = 0, kc_entry = []\<rparr>"
  obtain ok f r where r: "ds4_kvstore_file_size_fits (Some ?kc) 10 900 38 = (ok, f, r)" by (metis prod_cases3)
  have "ok \<and> unat f = 1000 \<and> unat r = 1010" using file_size_fits_exact [OF r] by (simp add: checkpoint_size_def with_headroom_def)
  with r show ?thesis by blast
qed

section \<open>The cadence of continued checkpoints\<close>

lemma smod_dvd: "0 \<le> n \<Longrightarrow> 0 < m \<Longrightarrow> n smod m = n mod (m :: int)"
  by (simp add: signed_modulo_int_def sgn_if)

lemma sdiv_pos: "0 \<le> n \<Longrightarrow> 0 < m \<Longrightarrow> n sdiv m = n div (m :: int)"
  by (simp add: signed_divide_int_def sgn_if)

lemma store_len_bounds:
  assumes "0 \<le> min_tokens (kc_opt kc)" and "0 \<le> boundary_trim_tokens (kc_opt kc)"
  shows "ds4_kvstore_store_len kc n \<le> n
    \<and> (ds4_kvstore_store_len kc n \<noteq> n \<longrightarrow>
        min_tokens (kc_opt kc) \<le> ds4_kvstore_store_len kc n
        \<and> ds4_kvstore_store_len kc n \<le> n - boundary_trim_tokens (kc_opt kc)
        \<and> (0 < boundary_align_tokens (kc_opt kc) \<longrightarrow>
            boundary_align_tokens (kc_opt kc) dvd ds4_kvstore_store_len kc n
            \<and> n - boundary_trim_tokens (kc_opt kc) - ds4_kvstore_store_len kc n < boundary_align_tokens (kc_opt kc)))"
proof -
  let ?m = "min_tokens (kc_opt kc)" and ?t = "boundary_trim_tokens (kc_opt kc)" and ?a = "boundary_align_tokens (kc_opt kc)"
  define s where "s = n - ?t"
  show ?thesis
  proof (cases "?m + ?t < n")
    case True
    then have s: "0 \<le> s" "s \<le> n" using assms by (simp_all add: s_def)
    show ?thesis
    proof (cases "0 < ?a")
      case align: True
      define r where "r = s mod ?a"
      have r: "s smod ?a = r" "?a dvd s - r" "0 \<le> r" "r < ?a"
        using align smod_dvd [OF s(1) align] by (simp_all add: r_def)
      then show ?thesis using True align assms s by (auto simp: ds4_kvstore_store_len_def Let_def s_def [symmetric])
    qed (use True assms in \<open>simp add: ds4_kvstore_store_len_def\<close>)
  qed (simp add: ds4_kvstore_store_len_def)
qed

lemma continued_step_props:
  assumes "0 < kv_cache_continued_step kc"
  shows "continued_interval_tokens (kc_opt kc) \<le> kv_cache_continued_step kc"
    and "0 < boundary_align_tokens (kc_opt kc) \<Longrightarrow> boundary_align_tokens (kc_opt kc) dvd kv_cache_continued_step kc"
    and "0 < boundary_align_tokens (kc_opt kc) \<Longrightarrow>
      kv_cache_continued_step kc < continued_interval_tokens (kc_opt kc) + boundary_align_tokens (kc_opt kc)"
proof -
  let ?i = "continued_interval_tokens (kc_opt kc)" and ?a = "boundary_align_tokens (kc_opt kc)"
  have i: "0 < ?i" using assms by (cases "?i \<le> 0") (simp_all add: kv_cache_continued_step_def)
  have en: "kc_enabled kc" using assms by (cases "kc_enabled kc") (simp_all add: kv_cache_continued_step_def)
  define q r where "q = (?i + ?a - 1) div ?a" and "r = (?i + ?a - 1) mod ?a"
  have qr: "q * ?a + r = ?i + ?a - 1" by (simp add: q_def r_def)
  have step: "kv_cache_continued_step kc = (if 0 < ?a then q * ?a else ?i) \<and> (0 < ?a \<longrightarrow> 0 \<le> r \<and> r < ?a)"
  proof (cases "0 < ?a")
    case True
    then have up: "(?i + ?a - 1) sdiv ?a = q" and r: "0 \<le> r" "r < ?a"
      using sdiv_pos [of "?i + ?a - 1" ?a] i by (simp_all add: q_def r_def)
    then have "0 < q * ?a" using qr i by linarith
    then show ?thesis using True i en r by (simp add: kv_cache_continued_step_def up not_le Let_def)
  qed (use i en in \<open>simp add: kv_cache_continued_step_def\<close>)
  show "?i \<le> kv_cache_continued_step kc" "0 < ?a \<Longrightarrow> kv_cache_continued_step kc < ?i + ?a"
    using step qr by (auto split: if_splits)
  show "0 < ?a \<Longrightarrow> ?a dvd kv_cache_continued_step kc" using step by simp
qed

lemma note_store_fields [simp]:
  "kc_enabled (ds4_kvstore_note_store kc n) = kc_enabled kc" "kc_opt (ds4_kvstore_note_store kc n) = kc_opt kc"
  by (simp_all add: ds4_kvstore_note_store_def)

lemma continued_step_only: "kv_cache_continued_step (ds4_kvstore_note_store kc n) = kv_cache_continued_step kc"
  by (simp add: kv_cache_continued_step_def)

lemma continued_target_props:
  assumes "ds4_kvstore_continued_store_target kc n = t" "t \<noteq> 0"
  shows "t = n" "min_tokens (kc_opt kc) \<le> n" "kc_continued_last_store_tokens kc < n"
    "0 < kv_cache_continued_step kc" "kv_cache_continued_step kc dvd n"
  using assms by (auto simp: ds4_kvstore_continued_store_target_def Let_def signed_modulo_int_def mod_eq_0_iff_dvd sgn_if split: if_splits)

text \<open>
  The caller's use of the cadence: at each live length ask for a target and, when the store that
  follows succeeds, note it. The result lists the lengths stored.
\<close>

fun continued_run :: "ds4_kvstore \<Rightarrow> (int \<times> bool) list \<Rightarrow> ds4_kvstore \<times> int list" where
  "continued_run kc [] = (kc, [])"
| "continued_run kc ((n, store_ok) # xs) =
     (let t = ds4_kvstore_continued_store_target kc n in
      if t \<noteq> 0 \<and> store_ok
      then let (kc', stored) = continued_run (ds4_kvstore_note_store kc t) xs in (kc', t # stored)
      else continued_run kc xs)"

lemma continued_run_above:
  "continued_run kc xs = (kc', stored) \<Longrightarrow>
    (\<forall>t\<in>set stored. kc_continued_last_store_tokens kc < t \<and> kv_cache_continued_step kc dvd t \<and> 0 < kv_cache_continued_step kc
        \<and> min_tokens (kc_opt kc) \<le> t)
    \<and> sorted_wrt (\<lambda>a b. a + kv_cache_continued_step kc \<le> b) stored"
proof (induction xs arbitrary: kc kc' stored)
  case (Cons x xs)
  obtain n store_ok where x: "x = (n, store_ok)" by (cases x)
  let ?t = "ds4_kvstore_continued_store_target kc n" and ?s = "kv_cache_continued_step kc"
  show ?case
  proof (cases "?t \<noteq> 0 \<and> store_ok")
    case True
    then obtain st where st: "continued_run (ds4_kvstore_note_store kc ?t) xs = (kc', st)" "stored = ?t # st"
      using Cons.prems by (cases "continued_run (ds4_kvstore_note_store kc ?t) xs") (auto simp: x Let_def)
    note t = continued_target_props [OF refl, of kc n]
    have lastt: "kc_continued_last_store_tokens (ds4_kvstore_note_store kc ?t) = ?t"
      using t True by (simp add: ds4_kvstore_note_store_def)
    note ih = Cons.IH [OF st(1), unfolded continued_step_only lastt note_store_fields]
    have gap: "?t + ?s \<le> u" if "u \<in> set st" for u
    proof -
      have "?s dvd u - ?t" "0 < u - ?t" using ih that t True by auto
      then have "?s \<le> u - ?t" by (rule zdvd_imp_le)
      then show ?thesis by simp
    qed
    have "kc_continued_last_store_tokens kc < u" if "u \<in> set st" for u
      using ih that t True by fastforce
    then show ?thesis using st(2) ih t True gap by auto
  next
    case False
    then have "continued_run kc xs = (kc', stored)" using Cons.prems by (auto simp: x Let_def)
    from Cons.IH [OF this] show ?thesis .
  qed
qed simp

text \<open>
  However a conversation grows and whichever stores fail, the lengths at which it is stored again are at
  least the configured interval apart, aligned, above the minimum and above the length stored last.
\<close>

theorem continued_cadence:
  assumes "continued_run kc xs = (kc', stored)" and "t \<in> set stored"
  shows "kc_continued_last_store_tokens kc < t \<and> min_tokens (kc_opt kc) \<le> t
    \<and> sorted_wrt (\<lambda>a b. a + continued_interval_tokens (kc_opt kc) \<le> b) stored
    \<and> (0 < boundary_align_tokens (kc_opt kc) \<longrightarrow> boundary_align_tokens (kc_opt kc) dvd t)"
proof -
  note above = continued_run_above [OF assms(1)]
  with assms(2) have pos: "0 < kv_cache_continued_step kc" and dvd: "kv_cache_continued_step kc dvd t" by auto
  note step = continued_step_props [OF pos]
  have "sorted_wrt (\<lambda>a b. a + continued_interval_tokens (kc_opt kc) \<le> b) stored"
    using above step(1) by (auto elim!: sorted_wrt_mono_rel [rotated])
  then show ?thesis using above assms(2) step(2) dvd by (auto intro: dvd_trans)
qed

lemma continued_cadence_witness:
  "\<exists>kc' stored. continued_run \<lparr>kc_enabled = True, kc_dir = ''kv'', kc_budget_bytes = 2000, kc_reject_different_quant = False,
        kc_opt = ds4_kvstore_default_options, kc_continued_last_store_tokens = 0, kc_entry = []\<rparr>
        [(10239, True), (10240, True), (10240, True), (20480, False), (30720, True)] = (kc', stored)
     \<and> stored = [10240, 30720] \<and> 2048 dvd (30720 :: int)"
proof -
  let ?kc = "\<lparr>kc_enabled = True, kc_dir = ''kv'', kc_budget_bytes = 2000, kc_reject_different_quant = False,
        kc_opt = ds4_kvstore_default_options, kc_continued_last_store_tokens = 0, kc_entry = []\<rparr>"
  have run: "continued_run ?kc [(10239, True), (10240, True), (10240, True), (20480, False), (30720, True)]
    = (?kc\<lparr>kc_continued_last_store_tokens := 30720\<rparr>, [10240, 30720])"
    by (simp add: ds4_kvstore_continued_store_target_def kv_cache_continued_step_def ds4_kvstore_note_store_def
        ds4_kvstore_default_options_def sdiv_pos smod_dvd Let_def)
  show ?thesis using run continued_cadence [OF run, of 30720] by (auto simp: ds4_kvstore_default_options_def)
qed

lemma suppress_restore:
  assumes "ds4_kvstore_suppress_continued_store kc n = (old, kc')" and "0 \<le> old" and "0 < n"
  shows "ds4_kvstore_continued_store_target kc' n = 0 \<and> ds4_kvstore_restore_suppressed_continued kc' old n = kc"
proof -
  have target: "ds4_kvstore_continued_store_target kc n = n" and old: "old = kc_continued_last_store_tokens kc"
    and kc': "kc' = ds4_kvstore_note_store kc n"
    using assms by (auto simp: ds4_kvstore_suppress_continued_store_def split: if_splits)
  note t = continued_target_props [OF target]
  have "kc_continued_last_store_tokens kc < n" using t(3) assms(3) by simp
  then show ?thesis using assms(2) old
    by (simp add: kc' ds4_kvstore_continued_store_target_def Let_def ds4_kvstore_note_store_def ds4_kvstore_restore_suppressed_continued_def)
qed

lemma last_user_marker_props:
  "last_user_marker u a i ts l = p \<Longrightarrow> a \<noteq> u \<Longrightarrow>
    (p = l \<and> u \<notin> set (takeWhile (\<lambda>t. t \<noteq> a) ts))
    \<or> (i \<le> p \<and> p < i + int (length (takeWhile (\<lambda>t. t \<noteq> a) ts)) \<and> ts ! nat (p - i) = u
        \<and> u \<notin> set (drop (Suc (nat (p - i))) (takeWhile (\<lambda>t. t \<noteq> a) ts)))"
proof (induction ts arbitrary: i l)
  case (Cons t ts)
  show ?case
  proof (cases "t = a")
    case False
    have rec: "last_user_marker u a (i + 1) ts (if t = u then i else l) = p" using Cons.prems False by simp
    from Cons.IH [OF this Cons.prems(2)] show ?thesis
    proof (elim disjE conjE)
      assume ge: "i + 1 \<le> p" and rest: "p < i + 1 + int (length (takeWhile (\<lambda>t. t \<noteq> a) ts))" "ts ! nat (p - (i + 1)) = u"
        "u \<notin> set (drop (Suc (nat (p - (i + 1)))) (takeWhile (\<lambda>t. t \<noteq> a) ts))"
      have k: "nat (p - i) = Suc (nat (p - (i + 1)))" using ge by linarith
      show ?thesis unfolding k using ge rest False by auto
    qed (use False in \<open>auto split: if_splits\<close>)
  qed (use Cons.prems in simp)
qed simp

lemma chat_anchor_spec:
  assumes "ds4_kvstore_chat_anchor_pos kc (Some v) u a = p" "p \<noteq> -1" "a \<noteq> u" "0 \<le> min_tokens (kc_opt kc)"
  shows "min_tokens (kc_opt kc) \<le> p" "nat p < length v" "v ! nat p = u" "a \<notin> set (take (nat p) v)"
    "u \<notin> set (drop (Suc (nat p)) (takeWhile (\<lambda>t. t \<noteq> a) v))"
proof -
  have p: "last_user_marker u a 0 v (-1) = p" and m: "min_tokens (kc_opt kc) \<le> p"
    using assms(1,2) by (auto simp: ds4_kvstore_chat_anchor_pos_def Let_def split: if_splits)
  show "min_tokens (kc_opt kc) \<le> p" by (fact m)
  let ?w = "takeWhile (\<lambda>t. t \<noteq> a) v"
  have facts: "p < int (length ?w)" "v ! nat p = u" "u \<notin> set (drop (Suc (nat p)) ?w)" "0 \<le> p"
    using last_user_marker_props [OF p assms(3)] assms(2,4) m by auto
  then have n: "nat p < length ?w" by linarith
  moreover have "length ?w \<le> length v" by (rule length_takeWhile_le)
  ultimately show "nat p < length v" by simp
  show "v ! nat p = u" "u \<notin> set (drop (Suc (nat p)) ?w)" using facts by auto
  have "take (nat p) v = take (nat p) ?w" using n by (metis takeWhile_eq_take less_imp_le take_take min_absorb1)
  then have "set (take (nat p) v) \<subseteq> set ?w" by (metis set_take_subset)
  then show "a \<notin> set (take (nat p) v)" by (auto dest: set_takeWhileD)
qed

end
