(* ===== verification/Sha1.thy ===== *)
theory Sha1
  imports Streams CText
begin

text \<open>
  The SHA1 of \<open>ds4_kvstore.c\<close>, which names checkpoint files. The context is modelled as the code has
  it, fed in chunks and padded byte by byte; \<open>sha1_digest\<close> is the digest of a whole message as the
  standard states it (pad, then compress block by block), and \<open>sha1_chunks_digest\<close> is the refinement.
\<close>


unbundle bit_operations_syntax

section \<open>The code\<close>

text \<open>\<open>block\<close> holds the \<open>used\<close> first bytes of the code's 64-byte buffer.\<close>

record sha1_ctx =
  h :: "u32 list"
  bytes :: u64
  block :: "u8 list"

definition rol32 :: "u32 \<Rightarrow> nat \<Rightarrow> u32" where
  "rol32 v n = (push_bit n v) OR (drop_bit (32 - n) v)"

definition be_word :: "u8 list \<Rightarrow> nat \<Rightarrow> u32" where
  "be_word blk i = (push_bit 24 (ucast (blk ! (i * 4)))) OR (push_bit 16 (ucast (blk ! (i * 4 + 1)))) OR
     (push_bit 8 (ucast (blk ! (i * 4 + 2)))) OR ucast (blk ! (i * 4 + 3))"

fun expand_words :: "nat \<Rightarrow> u32 list \<Rightarrow> u32 list" where
  "expand_words 0 w = w"
| "expand_words (Suc n) w =
     (let i = length w
      in expand_words n (w @ [rol32 (w ! (i - 3) XOR w ! (i - 8) XOR w ! (i - 14) XOR w ! (i - 16)) 1]))"

definition round_step :: "(u32 \<times> u32 \<times> u32 \<times> u32 \<times> u32) \<Rightarrow> nat \<times> u32 \<Rightarrow> (u32 \<times> u32 \<times> u32 \<times> u32 \<times> u32)" where
  "round_step v iw = (case (v, iw) of ((a, b, cc, d, e), (i, w)) \<Rightarrow>
     let (f, k) =
       (if i < 20 then ((b AND cc) OR (NOT b AND d), 0x5a827999)
        else if i < 40 then (b XOR cc XOR d, 0x6ed9eba1)
        else if i < 60 then ((b AND cc) OR (b AND d) OR (cc AND d), 0x8f1bbcdc)
        else (b XOR cc XOR d, 0xca62c1d6))
     in (rol32 a 5 + f + e + k + w, a, rol32 b 30, cc, d))"

definition sha1_transform :: "u32 list \<Rightarrow> u8 list \<Rightarrow> u32 list" where
  "sha1_transform hs blk =
     (let w = expand_words 64 (map (be_word blk) [0..<16]);
          (a, b, cc, d, e) = foldl round_step (hs ! 0, hs ! 1, hs ! 2, hs ! 3, hs ! 4) (zip [0..<80] w)
      in [hs ! 0 + a, hs ! 1 + b, hs ! 2 + cc, hs ! 3 + d, hs ! 4 + e])"

definition sha1_init :: sha1_ctx where
  "sha1_init = \<lparr>h = [0x67452301, 0xefcdab89, 0x98badcfe, 0x10325476, 0xc3d2e1f0], bytes = 0, block = []\<rparr>"

text \<open>
  The copying loop. A context never keeps a full block; the second test only makes the recursion
  total on contexts that do not occur.
\<close>

function absorb_loop :: "sha1_ctx \<Rightarrow> u8 list \<Rightarrow> sha1_ctx" where
  "absorb_loop c p =
     (if p = [] \<or> 64 \<le> length (block c) then c
      else
        let n = min (64 - length (block c)) (length p);
            blk = block c @ take n p
        in absorb_loop (if length blk = 64 then c\<lparr>h := sha1_transform (h c) blk, block := []\<rparr> else c\<lparr>block := blk\<rparr>) (drop n p))"
  by pat_completeness auto
termination
  by (relation "measure (\<lambda>(c, p). length p)") auto

declare absorb_loop.simps [simp del]

definition sha1_update :: "sha1_ctx \<Rightarrow> u8 list \<Rightarrow> sha1_ctx" where
  "sha1_update c p = absorb_loop (c\<lparr>bytes := bytes c + of_nat (length p)\<rparr>) p"

lemma update_one:
  "length (block c) < 64 \<Longrightarrow> sha1_update c [b] =
     (if length (block c) = 63 then c\<lparr>bytes := bytes c + 1, h := sha1_transform (h c) (block c @ [b]), block := []\<rparr>
      else c\<lparr>bytes := bytes c + 1, block := block c @ [b]\<rparr>)"
  by (simp add: sha1_update_def absorb_loop.simps [of _ "[b]"] absorb_loop.simps [of _ "[]"] Let_def)

function pad_zeros :: "sha1_ctx \<Rightarrow> sha1_ctx" where
  "pad_zeros c = (if length (block c) = 56 \<or> 64 \<le> length (block c) then c else pad_zeros (sha1_update c [0]))"
  by pat_completeness auto
termination
  by (relation "measure (\<lambda>c. (120 - length (block c)) mod 64)") (auto simp: update_one mod_if)

declare pad_zeros.simps [simp del]

definition be64 :: "u64 \<Rightarrow> u8 list" where
  "be64 v = map (\<lambda>i. ucast (drop_bit (8 * (7 - i)) v)) [0..<8]"

definition sha1_final :: "sha1_ctx \<Rightarrow> u8 list" where
  "sha1_final c =
     (let bits = bytes c * 8;
          c1 = pad_zeros (sha1_update c [0x80]);
          c2 = sha1_update c1 (be64 bits)
      in concat (map (\<lambda>i. [ucast (drop_bit 24 (h c2 ! i)), ucast (drop_bit 16 (h c2 ! i)),
                            ucast (drop_bit 8 (h c2 ! i)), ucast (h c2 ! i)]) [0..<5]))"

definition hex_char :: "u8 \<Rightarrow> char" where
  "hex_char b = ''0123456789abcdef'' ! unat b"

definition hex20 :: "u8 list \<Rightarrow> string" where
  "hex20 inp = concat (map (\<lambda>i. [hex_char (drop_bit 4 (inp ! i)), hex_char (inp ! i AND 15)]) [0..<20])"

definition ds4_kvstore_sha1_bytes_hex :: "u8 list \<Rightarrow> string" where
  "ds4_kvstore_sha1_bytes_hex p = hex20 (sha1_final (sha1_update sha1_init p))"

section \<open>One byte at a time\<close>

definition absorb1 :: "sha1_ctx \<Rightarrow> u8 \<Rightarrow> sha1_ctx" where
  "absorb1 c b =
     (if length (block c) = 63 then c\<lparr>h := sha1_transform (h c) (block c @ [b]), block := []\<rparr>
      else c\<lparr>block := block c @ [b]\<rparr>)"

lemma absorb1_room: "length (block c) < 64 \<Longrightarrow> length (block (absorb1 c b)) < 64"
  by (simp add: absorb1_def)

lemma foldl_absorb1_room: "length (block c) < 64 \<Longrightarrow> length (block (foldl absorb1 c p)) < 64"
  by (induction p arbitrary: c) (simp_all add: absorb1_room)

lemma foldl_absorb1_fill:
  "length (block c) + length p < 64 \<Longrightarrow> foldl absorb1 c p = c\<lparr>block := block c @ p\<rparr>"
  by (induction p arbitrary: c) (simp_all add: absorb1_def)

lemma foldl_absorb1_block:
  assumes "length (block c) + length p = 64" and "p \<noteq> []"
  shows "foldl absorb1 c p = c\<lparr>h := sha1_transform (h c) (block c @ p), block := []\<rparr>"
proof -
  obtain q b where p: "p = q @ [b]" using assms(2) by (cases p rule: rev_cases) auto
  then show ?thesis using assms(1) foldl_absorb1_fill [of c q] by (simp add: absorb1_def)
qed

lemma absorb_loop_foldl: "length (block c) < 64 \<Longrightarrow> absorb_loop c p = foldl absorb1 c p"
proof (induction c p rule: absorb_loop.induct)
  case (1 c p)
  show ?case
  proof (cases "p = []")
    case True
    then show ?thesis by (simp add: absorb_loop.simps [of c "[]"])
  next
    case False
    define n where "n = min (64 - length (block c)) (length p)"
    define blk where "blk = block c @ take n p"
    define c' where "c' = (if length blk = 64 then c\<lparr>h := sha1_transform (h c) blk, block := []\<rparr> else c\<lparr>block := blk\<rparr>)"
    have guard: "\<not> (p = [] \<or> 64 \<le> length (block c))" using False "1.prems" by simp
    have n: "n \<le> length p" "length blk = length (block c) + n" "length blk \<le> 64" "take n p \<noteq> []"
      using "1.prems" False by (auto simp: n_def blk_def)
    have step: "absorb_loop c p = absorb_loop c' (drop n p)"
      using guard by (subst absorb_loop.simps) (simp add: Let_def n_def blk_def c'_def)
    have c': "c' = foldl absorb1 c (take n p)"
    proof (cases "length blk = 64")
      case True
      then show ?thesis using foldl_absorb1_block [of c "take n p"] n by (simp add: c'_def blk_def)
    next
      case False
      then show ?thesis using foldl_absorb1_fill [of c "take n p"] n by (simp add: c'_def blk_def)
    qed
    have room: "length (block c') < 64" unfolding c' by (rule foldl_absorb1_room [OF "1.prems"])
    have "absorb_loop c' (drop n p) = foldl absorb1 c' (drop n p)"
      unfolding c'_def by (rule "1.IH" [OF guard n_def blk_def]) (use room in \<open>simp add: c'_def\<close>)
    then show ?thesis unfolding step by (simp add: c' flip: foldl_append)
  qed
qed

lemma absorb1_bytes: "absorb1 (c\<lparr>bytes := x\<rparr>) b = (absorb1 c b)\<lparr>bytes := x\<rparr>" "bytes (absorb1 c b) = bytes c"
  by (simp_all add: absorb1_def)

lemma foldl_absorb1_bytes:
  "foldl absorb1 (c\<lparr>bytes := x\<rparr>) p = (foldl absorb1 c p)\<lparr>bytes := x\<rparr>" "bytes (foldl absorb1 c p) = bytes c"
  by (induction p arbitrary: c) (simp_all add: absorb1_bytes)

lemma update_foldl:
  "length (block c) < 64 \<Longrightarrow> sha1_update c p = (foldl absorb1 c p)\<lparr>bytes := bytes c + of_nat (length p)\<rparr>"
  by (simp add: sha1_update_def absorb_loop_foldl foldl_absorb1_bytes)

lemma update_room: "length (block c) < 64 \<Longrightarrow> length (block (sha1_update c p)) < 64"
  by (simp add: update_foldl foldl_absorb1_room)

lemma update_append:
  "length (block c) < 64 \<Longrightarrow> sha1_update c (p @ q) = sha1_update (sha1_update c p) q"
  by (simp add: update_foldl foldl_absorb1_room foldl_absorb1_bytes add.assoc)

definition sha1_step :: "sha1_ctx \<Rightarrow> u8 list \<Rightarrow> sha1_ctx \<times> unit list" where
  "sha1_step c p = (sha1_update c p, [])"

interpretation sha1_stream: stream_processor sha1_step "\<lambda>c. length (block c) < 64"
  by unfold_locales (simp_all add: sha1_step_def update_append update_room, simp add: update_foldl)

section \<open>The standard's digest\<close>

text \<open>Padding as FIPS 180 has it, and the blocks of the padded message in turn.\<close>

definition sha1_pad :: "u8 list \<Rightarrow> u8 list" where
  "sha1_pad m = m @ [0x80] @ replicate ((119 - length m mod 64) mod 64) 0 @ be64 (of_nat (length m) * 8)"

fun digest_blocks :: "nat \<Rightarrow> u32 list \<Rightarrow> u8 list \<Rightarrow> u32 list" where
  "digest_blocks 0 hs m = hs"
| "digest_blocks (Suc n) hs m = digest_blocks n (sha1_transform hs (take 64 m)) (drop 64 m)"

definition be_bytes :: "u32 \<Rightarrow> u8 list" where
  "be_bytes x = [ucast (drop_bit 24 x), ucast (drop_bit 16 x), ucast (drop_bit 8 x), ucast x]"

definition sha1_digest :: "u8 list \<Rightarrow> u8 list" where
  "sha1_digest m = concat (map be_bytes (digest_blocks (length (sha1_pad m) div 64) (h sha1_init) (sha1_pad m)))"

lemma length_be64 [simp]: "length (be64 v) = 8"
  by (simp add: be64_def)

lemma zero_count: "r < 64 \<Longrightarrow> (119 - r) mod 64 = (if r \<le> 55 then 55 - r else 119 - r)"
  for r :: nat
  using le_mod_geq [of 64 "119 - r"] by auto

lemma fill_count: "u < 64 \<Longrightarrow> (120 - u) mod 64 = (if u \<le> 56 then 56 - u else 120 - u)"
  for u :: nat
  using le_mod_geq [of 64 "120 - u"] by auto

lemma pad_zero_count: "(length m + 1 + (119 - length m mod 64) mod 64) mod 64 = 56"
proof -
  have "(r + 1 + (119 - r) mod 64) mod 64 = 56" if "r < 64" for r :: nat
    unfolding zero_count [OF that] using that by auto
  from this [of "length m mod 64"]
  have "(length m mod 64 + (1 + (119 - length m mod 64) mod 64)) mod 64 = 56" by simp
  then show ?thesis unfolding mod_add_left_eq by simp
qed

lemma length_sha1_pad: "64 dvd length (sha1_pad m)"
proof -
  have "length (sha1_pad m) mod 64 = ((length m + 1 + (119 - length m mod 64) mod 64) + 8) mod 64"
    by (simp add: sha1_pad_def add.commute add.left_commute)
  also have "\<dots> = ((length m + 1 + (119 - length m mod 64) mod 64) mod 64 + 8) mod 64"
    by (rule mod_add_left_eq [symmetric])
  also have "\<dots> = 0" unfolding pad_zero_count by simp
  finally show ?thesis by (rule mod_0_imp_dvd)
qed

lemma length_transform [simp]: "length (sha1_transform hs blk) = 5"
  by (simp add: sha1_transform_def split_beta Let_def)

lemma foldl_absorb_blocks:
  "length m = 64 * n \<Longrightarrow> block c = [] \<Longrightarrow> foldl absorb1 c m = c\<lparr>h := digest_blocks n (h c) m\<rparr>"
proof (induction n arbitrary: c m)
  case (Suc n)
  have m: "m = take 64 m @ drop 64 m" by simp
  have one: "foldl absorb1 c (take 64 m) = c\<lparr>h := sha1_transform (h c) (take 64 m), block := []\<rparr>"
  proof (rule trans [OF foldl_absorb1_block])
    show "length (block c) + length (take 64 m) = 64" "take 64 m \<noteq> []" using Suc.prems by auto
  qed (simp add: Suc.prems)
  have "foldl absorb1 c m = foldl absorb1 (foldl absorb1 c (take 64 m)) (drop 64 m)"
    by (metis m foldl_append)
  also have "\<dots> = (c\<lparr>h := sha1_transform (h c) (take 64 m), block := []\<rparr>)\<lparr>h := digest_blocks n (sha1_transform (h c) (take 64 m)) (drop 64 m)\<rparr>"
    unfolding one using Suc.IH [of "drop 64 m" "c\<lparr>h := sha1_transform (h c) (take 64 m), block := []\<rparr>"] Suc.prems(1) by simp
  finally show ?case using Suc.prems(2) by simp
qed simp

lemma used_foldl: "length (block c) < 64 \<Longrightarrow> length (block (foldl absorb1 c p)) = (length (block c) + length p) mod 64"
proof (induction p arbitrary: c)
  case (Cons b p)
  have "length (block (absorb1 c b)) = (length (block c) + 1) mod 64"
    using Cons.prems by (auto simp: absorb1_def mod_if)
  then show ?case using Cons.IH [of "absorb1 c b"] Cons.prems absorb1_room by (simp add: mod_simps)
qed simp

lemma pad_zeros_foldl:
  "length (block c) < 64 \<Longrightarrow>
     (let k = (120 - length (block c)) mod 64 in pad_zeros c = sha1_update c (replicate k 0))"
proof (induction c rule: pad_zeros.induct)
  case (1 c)
  show ?case
  proof (cases "length (block c) = 56")
    case True
    then show ?thesis by (simp add: pad_zeros.simps [of c] update_foldl)
  next
    case False
    let ?k = "(120 - length (block c)) mod 64" and ?c = "sha1_update c [0]"
    have room: "length (block ?c) < 64" using update_room "1.prems" by blast
    have used: "length (block ?c) = (length (block c) + 1) mod 64"
      using "1.prems" used_foldl [of c "[0]"] by (simp add: update_foldl)
    have k: "?k = Suc ((120 - length (block ?c)) mod 64)"
    proof -
      have "(120 - u) mod 64 = Suc ((120 - (u + 1) mod 64) mod 64)" if "u < 64" "u \<noteq> 56" for u :: nat
      proof -
        have "(u + 1) mod 64 = (if u = 63 then 0 else u + 1)" using that by auto
        then show ?thesis using that by (auto simp: fill_count)
      qed
      then show ?thesis unfolding used using "1.prems" False by blast
    qed
    have "pad_zeros c = pad_zeros ?c" using False "1.prems" by (subst pad_zeros.simps) simp
    also have "\<dots> = sha1_update ?c (replicate ((120 - length (block ?c)) mod 64) 0)"
      using "1.IH" room False "1.prems" by (simp add: Let_def)
    also have "\<dots> = sha1_update c ([0] @ replicate ((120 - length (block ?c)) mod 64) 0)"
      by (rule update_append [OF "1.prems", symmetric])
    finally show ?thesis unfolding Let_def k by simp
  qed
qed

lemma sha1_final_digest: "sha1_final (sha1_update sha1_init m) = sha1_digest m"
proof -
  let ?c0 = sha1_init
  have r0: "length (block ?c0) < 64" "bytes ?c0 = 0" "block ?c0 = []" by (simp_all add: sha1_init_def)
  let ?c1 = "sha1_update ?c0 (m @ [0x80])"
  have r1: "length (block ?c1) < 64" using update_room r0 by blast
  define k where "k = (119 - length m mod 64) mod 64"
  have "length (block ?c1) = (length m + 1) mod 64" using used_foldl [OF r0(1), of "m @ [0x80]"] r0 by (simp add: update_foldl)
  then have used: "length (block ?c1) = (length m mod 64 + 1) mod 64" unfolding mod_add_left_eq .
  have "(120 - (r + 1) mod 64) mod 64 = (119 - r) mod 64" if "r < 64" for r :: nat
  proof -
    have "(r + 1) mod 64 = (if r = 63 then 0 else r + 1)" using that by auto
    then show ?thesis using that by (auto simp: fill_count zero_count)
  qed
  then have k: "(120 - length (block ?c1)) mod 64 = k" unfolding k_def used by simp
  have bits: "bytes (sha1_update ?c0 m) = of_nat (length m)" using r0 by (simp add: update_foldl)
  have padded: "pad_zeros ?c1 = sha1_update ?c1 (replicate k 0)" using pad_zeros_foldl [OF r1] k by (simp add: Let_def)
  have "sha1_update (pad_zeros ?c1) (be64 (of_nat (length m) * 8)) = sha1_update ?c0 (sha1_pad m)"
  proof -
    have pad: "sha1_pad m = (m @ [0x80]) @ (replicate k 0 @ be64 (of_nat (length m) * 8))"
      by (simp add: sha1_pad_def k_def)
    show ?thesis unfolding pad update_append [OF r0(1), of "m @ [0x80]"] update_append [OF r1]
      by (simp only: padded)
  qed
  moreover have "?c1 = sha1_update (sha1_update ?c0 m) [0x80]" using update_append [OF r0(1)] by simp
  ultimately have final: "sha1_final (sha1_update ?c0 m) = concat (map (\<lambda>i. be_bytes (h (sha1_update ?c0 (sha1_pad m)) ! i)) [0..<5])"
    unfolding sha1_final_def Let_def bits be_bytes_def by simp
  obtain n where n: "length (sha1_pad m) = 64 * n" using length_sha1_pad by (auto elim: dvdE)
  then have "0 < n" by (cases n) (auto simp: sha1_pad_def)
  have hs: "h (sha1_update ?c0 (sha1_pad m)) = digest_blocks n (h ?c0) (sha1_pad m)"
    using foldl_absorb_blocks [OF n r0(3)] r0(1) by (simp add: update_foldl)
  have "length (digest_blocks n hs m') = 5" if "0 < n" for n hs m'
    using that by (induction n arbitrary: hs m') (simp, metis digest_blocks.simps gr0I length_transform)
  from this [OF \<open>0 < n\<close>] have "map (\<lambda>i. be_bytes (digest_blocks n (h ?c0) (sha1_pad m) ! i)) [0..<5] = map be_bytes (digest_blocks n (h ?c0) (sha1_pad m))"
    by (intro nth_equalityI) simp_all
  then show ?thesis unfolding final hs sha1_digest_def n by simp
qed


lemma sha1_hex_length: "length (ds4_kvstore_sha1_bytes_hex p) = 40"
  by (simp add: ds4_kvstore_sha1_bytes_hex_def hex20_def length_concat comp_def sum_list_triv)

end
