(* ===== verification/KvFiles.thy ===== *)
theory KvFiles
  imports KvPolicy Sha1
begin

text \<open>
  The directory of checkpoint files: the files and the operating system calls that may fail, reading
  one entry, listing the directory, and touching a file after a hit.
\<close>

unbundle bit_operations_syntax

section \<open>The files and the operating system\<close>

text \<open>
  The directory is a map from paths to contents. A call that can fail has a site of its own, so that
  every combination of failures within one operation is an assignment \<open>os_fails\<close>; \<open>os_torn\<close> is
  what a failing write left in the file of the bytes it was given. \<open>readdir\<close> is a function of the
  files: \<open>None\<close> when the directory cannot be opened.
\<close>

type_synonym kv_files = "string \<Rightarrow> u8 list option"

datatype kv_site =
    Stat_entry | Open_entry | Open_touch | Write_touch | Unlink_victim
  | Access_path | Open_text | Unlink_incompatible
  | Open_trailer | Seek_trailer | Truncate_trailer | Flush_trailer | Rewrite_header
  | Create_tmp | Write_tmp | Close_tmp | Rename_tmp | Unlink_tmp
  | Open_load | Unlink_corrupt

record kv_os =
  os_fails :: "kv_site \<Rightarrow> string \<Rightarrow> bool"
  os_torn :: "kv_site \<Rightarrow> string \<Rightarrow> u8 list \<Rightarrow> u8 list"
  os_readdir :: "string \<Rightarrow> kv_files \<Rightarrow> string list option"
  os_now :: u64
  os_pid :: int

text \<open>Writing at an offset of an open file, inside it.\<close>

definition write_at :: "nat \<Rightarrow> 'a list \<Rightarrow> 'a list \<Rightarrow> 'a list" where
  "write_at off new bs = take off bs @ new @ drop (off + length new) bs"

section \<open>Reading entries\<close>

definition ds4_kvstore_read_entry_file :: "kv_os \<Rightarrow> kv_files \<Rightarrow> string \<Rightarrow> string \<Rightarrow> ds4_kvstore_entry option" where
  "ds4_kvstore_read_entry_file os fs path sha =
     (case fs path of None \<Rightarrow> None
      | Some bs \<Rightarrow>
          if os_fails os Stat_entry path \<or> length bs < DS4_KVSTORE_FIXED_HEADER + 4 then None
          else if os_fails os Open_entry path then None
          else case ds4_kvstore_read_header bs of None \<Rightarrow> None
          | Some (e, text_bytes) \<Rightarrow>
              let fixed = 48 + 4 :: u64 in
              if (-1) - fixed < ucast text_bytes \<or> (-1) - fixed - ucast text_bytes < e_payload_bytes e then None
              else
                let expected = fixed + ucast text_bytes + e_payload_bytes e in
                if of_nat (length bs) < expected then None
                else Some (e\<lparr>e_sha := sha, e_path := path, e_file_size := of_nat (length bs)\<rparr>))"

fun refresh_entries :: "kv_os \<Rightarrow> kv_files \<Rightarrow> string \<Rightarrow> string list \<Rightarrow> ds4_kvstore_entry list" where
  "refresh_entries os fs dir [] = []"
| "refresh_entries os fs dir (name # names) =
     (case ds4_kvstore_sha_hex_name name of None \<Rightarrow> refresh_entries os fs dir names
      | Some sha \<Rightarrow>
          (case ds4_kvstore_read_entry_file os fs (ds4_kvstore_path_join dir name) sha of
             None \<Rightarrow> refresh_entries os fs dir names
           | Some e \<Rightarrow> e # refresh_entries os fs dir names))"

definition ds4_kvstore_clear :: "ds4_kvstore \<Rightarrow> ds4_kvstore" where
  "ds4_kvstore_clear kc = kc\<lparr>kc_entry := []\<rparr>"

definition kv_cache_refresh :: "kv_os \<Rightarrow> kv_files \<Rightarrow> ds4_kvstore \<Rightarrow> ds4_kvstore" where
  "kv_cache_refresh os fs kc =
     (if \<not> kc_enabled kc then kc
      else
        let kc = ds4_kvstore_clear kc in
        case os_readdir os (kc_dir kc) fs of None \<Rightarrow> kc
        | Some names \<Rightarrow> kc\<lparr>kc_entry := refresh_entries os fs (kc_dir kc) names\<rparr>)"

section \<open>Touching a file\<close>

definition ds4_kvstore_touch_file :: "kv_os \<Rightarrow> kv_files \<Rightarrow> string \<Rightarrow> u32 \<Rightarrow> bool \<times> kv_files" where
  "ds4_kvstore_touch_file os fs path n =
     (case fs path of None \<Rightarrow> (False, fs)
      | Some bs \<Rightarrow>
          if os_fails os Open_touch path then (False, fs)
          else case ds4_kvstore_read_header bs of None \<Rightarrow> (False, fs)
          | Some (e, text_bytes) \<Rightarrow>
              let hd = refill_header e (e_ext_flags e) n (os_now os) in
              if os_fails os Write_touch path
              then (False, fs(path \<mapsto> write_at 0 (os_torn os Write_touch path hd) bs))
              else (True, fs(path \<mapsto> write_at 0 hd bs)))"

section \<open>Lemmas\<close>

lemma path_join_inject [simp]: "ds4_kvstore_path_join dir a = ds4_kvstore_path_join dir b \<longleftrightarrow> a = b"
  by (simp add: ds4_kvstore_path_join_def)

text \<open>What every listed entry promises of the file it stands for.\<close>

definition listed_entry_ok :: "kv_files \<Rightarrow> string \<Rightarrow> ds4_kvstore_entry \<Rightarrow> bool" where
  "listed_entry_ok fs dir e \<longleftrightarrow>
     (\<exists>name bs tb. e_path e = ds4_kvstore_path_join dir name \<and> ds4_kvstore_sha_hex_name name = Some (e_sha e)
        \<and> fs (e_path e) = Some bs \<and> e_file_size e = of_nat (length bs) \<and> length (e_sha e) = 40
        \<and> ds4_kvstore_read_header bs = Some (e\<lparr>e_sha := [], e_path := [], e_file_size := 0\<rparr>, tb)
        \<and> e_text_bytes e = ucast tb
        \<and> 52 + unat (e_text_bytes e) + unat (e_payload_bytes e) \<le> UINT64_MAX
        \<and> (length bs \<le> UINT64_MAX \<longrightarrow> 52 + unat (e_text_bytes e) + unat (e_payload_bytes e) \<le> length bs))
     \<and> e_tokens e \<noteq> 0 \<and> (e_quant_bits e = 2 \<or> e_quant_bits e = 4) \<and> e_reason e \<le> DS4_KVSTORE_REASON_AGENT_SESSION"

lemma read_entry_file_Some:
  assumes "ds4_kvstore_read_entry_file os fs path sha = Some e"
  obtains bs tb where "fs path = Some bs" "e_path e = path" "e_sha e = sha" "e_file_size e = of_nat (length bs)"
    "ds4_kvstore_read_header bs = Some (e\<lparr>e_sha := [], e_path := [], e_file_size := 0\<rparr>, tb)"
    "e_text_bytes e = ucast tb" "52 + unat (e_text_bytes e) + unat (e_payload_bytes e) \<le> UINT64_MAX"
    "length bs \<le> UINT64_MAX \<Longrightarrow> 52 + unat (e_text_bytes e) + unat (e_payload_bytes e) \<le> length bs"
proof -
  from assms obtain bs h0 tb where fl: "fs path = Some bs" and hd: "ds4_kvstore_read_header bs = Some (h0, tb)"
    by (auto simp: ds4_kvstore_read_entry_file_def guard_Some split: option.splits prod.splits)
  have cond: "\<not> ((- 1) - 52 < (ucast tb :: u64) \<or> (- 1) - 52 - ucast tb < e_payload_bytes h0)"
    "\<not> of_nat (length bs) < 52 + (ucast tb :: u64) + e_payload_bytes h0"
    "e = h0\<lparr>e_sha := sha, e_path := path, e_file_size := of_nat (length bs)\<rparr>"
    using assms fl hd by (simp_all add: ds4_kvstore_read_entry_file_def guard_Some Let_def)
  note h0 = read_header_Some [OF hd]
  have "kv_cache_file_size_bytes (ucast tb) (e_payload_bytes h0) 0 \<noteq> None"
    using cond(1) by (simp add: kv_cache_file_size_bytes_def Let_def)
  then have total: "52 + unat (ucast tb :: u64) + unat (e_payload_bytes h0) \<le> UINT64_MAX"
    by (simp add: file_size_bytes_exact split: if_splits)
  then have exact: "unat (52 + ucast tb + e_payload_bytes h0 :: u64) = 52 + unat (ucast tb :: u64) + unat (e_payload_bytes h0)"
    using file_size_unat [of "ucast tb" "e_payload_bytes h0" 0] by simp
  show thesis
  proof (rule that)
    show "fs path = Some bs" by (fact fl)
    show "e_path e = path" "e_sha e = sha" "e_file_size e = of_nat (length bs)" by (simp_all add: cond(3))
    show "ds4_kvstore_read_header bs = Some (e\<lparr>e_sha := [], e_path := [], e_file_size := 0\<rparr>, tb)"
      using hd h0(7-9) by (simp add: cond(3))
    show "e_text_bytes e = ucast tb" using h0(6) by (simp add: cond(3))
    show "52 + unat (e_text_bytes e) + unat (e_payload_bytes e) \<le> UINT64_MAX" using total h0(6) by (simp add: cond(3))
    show "52 + unat (e_text_bytes e) + unat (e_payload_bytes e) \<le> length bs" if "length bs \<le> UINT64_MAX"
      using cond(2) exact h0(6) unat_u64_of_nat [OF that] by (simp add: cond(3) word_less_nat_alt)
  qed
qed

lemma refresh_entries_from:
  "e \<in> set (refresh_entries os fs dir names) \<Longrightarrow>
    \<exists>name sha. name \<in> set names \<and> ds4_kvstore_sha_hex_name name = Some sha
      \<and> ds4_kvstore_read_entry_file os fs (ds4_kvstore_path_join dir name) sha = Some e"
  by (induction names) (auto split: option.splits)

lemma refresh_entries_paths:
  "distinct names \<Longrightarrow> distinct (map e_path (refresh_entries os fs dir names))
    \<and> e_path ` set (refresh_entries os fs dir names) \<subseteq> ds4_kvstore_path_join dir ` set names"
proof (induction names)
  case (Cons n ns)
  have "e_path e = ds4_kvstore_path_join dir n"
    if "ds4_kvstore_read_entry_file os fs (ds4_kvstore_path_join dir n) sha = Some e" for sha e
    using read_entry_file_Some [OF that] by blast
  then show ?case using Cons by (auto split: option.splits)
qed simp

lemma refresh_fields [simp]:
  "kc_enabled (kv_cache_refresh os fs kc) = kc_enabled kc" "kc_dir (kv_cache_refresh os fs kc) = kc_dir kc"
  "kc_budget_bytes (kv_cache_refresh os fs kc) = kc_budget_bytes kc" "kc_opt (kv_cache_refresh os fs kc) = kc_opt kc"
  "kc_reject_different_quant (kv_cache_refresh os fs kc) = kc_reject_different_quant kc"
  by (simp_all add: kv_cache_refresh_def ds4_kvstore_clear_def Let_def split: option.splits)

lemma listing_ok:
  assumes "kc_enabled kc"
  shows "list_all (listed_entry_ok fs (kc_dir kc)) (kc_entry (kv_cache_refresh os fs kc))"
proof -
  have "listed_entry_ok fs (kc_dir kc) e" if e: "e \<in> set (refresh_entries os fs (kc_dir kc) names)" for e names
  proof -
    from refresh_entries_from [OF e] obtain name sha where n: "ds4_kvstore_sha_hex_name name = Some sha"
      and r: "ds4_kvstore_read_entry_file os fs (ds4_kvstore_path_join (kc_dir kc) name) sha = Some e" by blast
    from read_entry_file_Some [OF r] obtain bs tb where f: "fs (ds4_kvstore_path_join (kc_dir kc) name) = Some bs"
      "e_path e = ds4_kvstore_path_join (kc_dir kc) name" "e_sha e = sha" "e_file_size e = of_nat (length bs)"
      "ds4_kvstore_read_header bs = Some (e\<lparr>e_sha := [], e_path := [], e_file_size := 0\<rparr>, tb)"
      "e_text_bytes e = ucast tb" "52 + unat (e_text_bytes e) + unat (e_payload_bytes e) \<le> UINT64_MAX"
      "length bs \<le> UINT64_MAX \<longrightarrow> 52 + unat (e_text_bytes e) + unat (e_payload_bytes e) \<le> length bs" by metis
    show ?thesis
      unfolding listed_entry_ok_def
      using read_header_Some(2-4) [OF f(5)] sha_hex_name_Some [OF n] f n
      by (auto simp: DS4_KVSTORE_REASON_AGENT_SESSION_def)
  qed
  then show ?thesis using assms
    by (auto simp: kv_cache_refresh_def ds4_kvstore_clear_def Let_def list_all_iff split: option.splits)
qed

text \<open>
  C16: Every entry of a directory listing stands for a file of the directory whose name is its hash: its fields
  are the file's header, it has at least one token, 2- or 4-bit experts and a known reason, and the file
  is large enough for the text and the payload its header announces.
\<close>

theorem listing_well_formed:
  assumes "kc_enabled kc"
  shows "list_all (listed_entry_ok fs (kc_dir kc)) (kc_entry (kv_cache_refresh os fs kc))"
  using assms by (rule listing_ok)

text \<open>
  A successful touch changes the hit count and the time of last use of a checkpoint and nothing else: the
  other fields, the text length and every byte after the header stay as they were.
\<close>

theorem touch_updates_header:
  assumes "ds4_kvstore_touch_file os fs path n = (True, fs')"
  shows "\<exists>bs bs' e tb. fs path = Some bs \<and> fs' = fs(path \<mapsto> bs') \<and> length bs' = length bs \<and> drop 48 bs' = drop 48 bs
    \<and> ds4_kvstore_read_header bs = Some (e, tb)
    \<and> ds4_kvstore_read_header bs' = Some (e\<lparr>e_hits := n, e_last_used := os_now os\<rparr>, tb)"
proof -
  from assms obtain bs e tb where bs: "fs path = Some bs" and hd: "ds4_kvstore_read_header bs = Some (e, tb)"
    and fs': "fs' = fs(path \<mapsto> write_at 0 (refill_header e (e_ext_flags e) n (os_now os)) bs)"
    by (auto simp: ds4_kvstore_touch_file_def Let_def split: option.splits prod.splits if_splits)
  let ?bs' = "write_at 0 (refill_header e (e_ext_flags e) n (os_now os)) bs"
  have new: "?bs' = refill_header e (e_ext_flags e) n (os_now os) @ drop 48 bs" by (simp add: write_at_def)
  have "length ?bs' = length bs" "drop 48 ?bs' = drop 48 bs" using read_header_Some(1) [OF hd] by (simp_all add: new)
  moreover have "ds4_kvstore_read_header ?bs' = Some (e\<lparr>e_hits := n, e_last_used := os_now os\<rparr>, tb)"
    unfolding new read_refilled_header [OF hd] by simp
  ultimately show ?thesis using bs fs' hd by blast
qed

text \<open>One checkpoint file for the examples: one token, 4-bit experts, no text and no payload.\<close>

definition sample_file :: "u8 list" where
  "sample_file = ds4_kvstore_fill_header 0 4 1 0 1 0 4096 7 7 0 @ ds4_kvstore_le_put32 0 @ []"

definition sample_name :: string where
  "sample_name = replicate 40 CHR ''0'' @ ''.kv''"

definition sample_files :: kv_files where
  "sample_files = [ds4_kvstore_path_join ''kv'' sample_name \<mapsto> sample_file]"

definition sample_os :: kv_os where
  "sample_os = \<lparr>os_fails = \<lambda>_ _. False, os_torn = \<lambda>_ _ bs. bs, os_readdir = \<lambda>_ _. Some [sample_name], os_now = 9, os_pid = 1\<rparr>"

definition sample_kc :: "u64 \<Rightarrow> ds4_kvstore" where
  "sample_kc budget = \<lparr>kc_enabled = True, kc_dir = ''kv'', kc_budget_bytes = budget, kc_reject_different_quant = False,
     kc_opt = ds4_kvstore_default_options, kc_continued_last_store_tokens = 0, kc_entry = []\<rparr>"

definition sample_entry :: ds4_kvstore_entry where
  "sample_entry = \<lparr>e_sha = replicate 40 CHR ''0'', e_path = ds4_kvstore_path_join ''kv'' sample_name, e_quant_bits = 4, e_model_id = 0,
     e_reason = 1, e_tokens = 1, e_hits = 0, e_ctx_size = 4096, e_ext_flags = 0, e_created_at = 7, e_last_used = 7,
     e_payload_bytes = 0, e_text_bytes = 0, e_file_size = 52\<rparr>"

lemma sample_header:
  "ds4_kvstore_read_header sample_file = Some (sample_entry\<lparr>e_sha := [], e_path := [], e_file_size := 0\<rparr>, 0)"
  unfolding sample_file_def sample_entry_def
  using read_fill_header [of 1 4 1 0 0 0 4096 7 7 0 0 "[]"] by (simp add: header_entry_def)

lemma length_sample [simp]: "length sample_file = 52"
  by (simp add: sample_file_def le32.put_width)

lemma sample_name_sha: "ds4_kvstore_sha_hex_name sample_name = Some (replicate 40 CHR ''0'')"
proof -
  have d: "isxdigit CHR ''0''" "tolower CHR ''0'' = CHR ''0''" by code_simp+
  have "drop 40 sample_name = ''.kv''" "take 40 sample_name = replicate 40 CHR ''0''" "length sample_name = 43"
    by (simp_all add: sample_name_def)
  then show ?thesis using d by (simp add: ds4_kvstore_sha_hex_name_def list_all_iff)
qed

lemma sample_listing: "kc_entry (kv_cache_refresh sample_os sample_files (sample_kc budget)) = [sample_entry]"
proof -
  have read: "ds4_kvstore_read_entry_file sample_os sample_files (ds4_kvstore_path_join ''kv'' sample_name) (replicate 40 CHR ''0'') = Some sample_entry"
    using sample_header
    by (simp add: ds4_kvstore_read_entry_file_def sample_files_def sample_os_def DS4_KVSTORE_FIXED_HEADER_def sample_entry_def Let_def)
  show ?thesis
    by (simp add: kv_cache_refresh_def ds4_kvstore_clear_def sample_kc_def Let_def sample_name_sha read)
      (simp add: sample_os_def sample_name_sha read [unfolded sample_os_def])
qed

lemma listing_well_formed_witness:
  "kc_entry (kv_cache_refresh sample_os sample_files (sample_kc 4096)) = [sample_entry]
    \<and> listed_entry_ok sample_files ''kv'' sample_entry"
  using listing_well_formed [of "sample_kc 4096" sample_files sample_os] sample_listing [of 4096]
  by (simp add: sample_kc_def)

lemma touch_updates_header_witness:
  "\<exists>fs'. ds4_kvstore_touch_file sample_os [''f'' \<mapsto> sample_file] ''f'' 3 = (True, fs')
    \<and> (\<exists>bs' e. fs' = [''f'' \<mapsto> bs'] \<and> ds4_kvstore_read_header bs' = Some (e, 0) \<and> e_hits e = 3 \<and> e_last_used e = 9)"
proof -
  obtain fs' where t: "ds4_kvstore_touch_file sample_os [''f'' \<mapsto> sample_file] ''f'' 3 = (True, fs')"
    using sample_header by (simp add: ds4_kvstore_touch_file_def sample_os_def Let_def)
  from touch_updates_header [OF t] obtain bs' e tb where
    "fs' = [''f'' \<mapsto> sample_file, ''f'' \<mapsto> bs']" "ds4_kvstore_read_header sample_file = Some (e, tb)"
    "ds4_kvstore_read_header bs' = Some (e\<lparr>e_hits := 3, e_last_used := os_now sample_os\<rparr>, tb)" by auto
  then show ?thesis using t sample_header by (intro exI [of _ fs'] conjI exI [of _ bs']) (auto simp: sample_os_def)
qed

end
