(* ===== verification/KvEvict.thy ===== *)
theory KvEvict
  imports KvFiles
begin

text \<open>
  The eviction pass of the checkpoint store, with the score it sorts by, and opening and closing a
  store. \<open>greedy_evicts\<close> is the specification of a pass; \<open>evict_refines_greedy\<close> shows that the loop
  over the entry array implements it.
\<close>

unbundle bit_operations_syntax

section \<open>Scoring\<close>

text \<open>
  The checkpoint about to be written, and the \<open>double\<close> operations the score uses: the score is the
  same expression over any arithmetic with these operations.
\<close>

record ds4_kvstore_eviction_context =
  ic_text :: "u8 list option"
  ic_model_id :: u8
  ic_quant_bits :: u8
  ic_ctx_size :: u32
  ic_reject_different_quant :: bool

record 'd c_double =
  d_lit :: "nat \<Rightarrow> nat \<Rightarrow> 'd"
  d_of_u32 :: "u32 \<Rightarrow> 'd"
  d_of_u64 :: "u64 \<Rightarrow> 'd"
  d_add :: "'d \<Rightarrow> 'd \<Rightarrow> 'd"
  d_mul :: "'d \<Rightarrow> 'd \<Rightarrow> 'd"
  d_div :: "'d \<Rightarrow> 'd \<Rightarrow> 'd"
  d_neg :: "'d \<Rightarrow> 'd"
  d_exp2 :: "'d \<Rightarrow> 'd"
  d_less :: "'d \<Rightarrow> 'd \<Rightarrow> bool"
  d_eq :: "'d \<Rightarrow> 'd \<Rightarrow> bool"

definition DS4_KVSTORE_HIT_HALF_LIFE_SECONDS :: u64 where
  "DS4_KVSTORE_HIT_HALF_LIFE_SECONDS = 6 * 60 * 60"

definition kv_cache_incoming_supersedes_continued ::
    "ds4_kvstore_entry \<Rightarrow> ds4_kvstore_eviction_context option \<Rightarrow> bool" where
  "kv_cache_incoming_supersedes_continued e incoming =
     (case incoming of None \<Rightarrow> False
      | Some ic \<Rightarrow>
          (case ic_text ic of None \<Rightarrow> False
           | Some txt \<Rightarrow>
               if e_reason e \<noteq> DS4_KVSTORE_REASON_CONTINUED then False
               else if e_text_bytes e = 0 then False
               else if length txt \<le> unat (e_text_bytes e) then False
               else if e_model_id e \<noteq> ic_model_id ic then False
               else if ic_reject_different_quant ic \<and> e_quant_bits e \<noteq> ic_quant_bits ic then False
               else if ic_ctx_size ic > e_ctx_size e then False
               else ds4_kvstore_sha1_bytes_hex (take (unat (e_text_bytes e)) txt) = e_sha e))"

definition kv_cache_reason_is_anchor :: "u8 \<Rightarrow> bool" where
  "kv_cache_reason_is_anchor reason \<longleftrightarrow>
     reason = DS4_KVSTORE_REASON_COLD \<or> reason = DS4_KVSTORE_REASON_EVICT \<or> reason = DS4_KVSTORE_REASON_SHUTDOWN"

text \<open>\<open>d_lit p q\<close> is the literal \<open>p / q\<close>, e.g. \<open>d_lit 45 100\<close> for \<open>0.45\<close>.\<close>

definition effective_hits :: "'d c_double \<Rightarrow> ds4_kvstore_entry \<Rightarrow> u64 \<Rightarrow> 'd" where
  "effective_hits d e now =
     (let n = d_of_u32 d (e_hits e);
          used_at = (if e_last_used e \<noteq> 0 then e_last_used e else e_created_at e) in
      if used_at = 0 then d_lit d 0 1
      else if now > used_at then
        let elapsed = d_of_u64 d (now - used_at);
            n = d_mul d n (d_exp2 d (d_div d (d_neg d elapsed) (d_of_u64 d DS4_KVSTORE_HIT_HALF_LIFE_SECONDS)))
        in if d_less d n (d_lit d 1 100) then d_lit d 0 1 else n
      else n)"

definition ds4_kvstore_entry_eviction_score ::
    "'d c_double \<Rightarrow> ds4_kvstore_entry \<Rightarrow> u64 \<Rightarrow> ds4_kvstore_eviction_context option \<Rightarrow> 'd" where
  "ds4_kvstore_entry_eviction_score d e now incoming =
     (if e_file_size e = 0 then d_lit d 0 1
      else
        let n = effective_hits d e now;
            score = d_div d (d_mul d (d_add d n (d_lit d 1 1)) (d_of_u32 d (e_tokens e))) (d_of_u64 d (e_file_size e));
            score = (if kv_cache_reason_is_anchor (e_reason e) then d_mul d score (d_lit d 2 1) else score)
        in if kv_cache_incoming_supersedes_continued e incoming then
             let hh = (if d_less d (d_lit d 0 1) n then d_div d n (d_add d n (d_lit d 1 1)) else d_lit d 0 1)
             in d_mul d score (d_add d (d_lit d 5 100) (d_mul d (d_lit d 45 100) hh))
           else score)"

section \<open>Eviction\<close>

fun pick_victim :: "'d c_double \<Rightarrow> (ds4_kvstore_entry \<Rightarrow> 'd) \<Rightarrow> ds4_kvstore_entry list \<Rightarrow> nat list \<Rightarrow> nat \<Rightarrow> 'd \<Rightarrow> nat" where
  "pick_victim d score_of es [] victim victim_score = victim"
| "pick_victim d score_of es (i # is) victim victim_score =
     (let score = score_of (es ! i) in
      if d_less d score victim_score \<or> (d_eq d score victim_score \<and> e_last_used (es ! i) < e_last_used (es ! victim))
      then pick_victim d score_of es is i score
      else pick_victim d score_of es is victim victim_score)"

definition victim_index :: "'d c_double \<Rightarrow> (ds4_kvstore_entry \<Rightarrow> 'd) \<Rightarrow> ds4_kvstore_entry list \<Rightarrow> nat" where
  "victim_index d score_of es = pick_victim d score_of es [1..<length es] 0 (score_of (es ! 0))"

definition remove_at :: "nat \<Rightarrow> 'a list \<Rightarrow> 'a list" where
  "remove_at i xs = take i xs @ drop (i + 1) xs"

lemma pick_victim_bound:
  "(\<forall>i\<in>set is. i < length es) \<Longrightarrow> v < length es \<Longrightarrow> pick_victim d sc es is v s < length es"
  by (induction "is" arbitrary: v s) (auto simp: Let_def)

lemma victim_index_bound: "es \<noteq> [] \<Longrightarrow> victim_index d sc es < length es"
  by (simp add: victim_index_def pick_victim_bound)

lemma length_remove_at: "i < length xs \<Longrightarrow> length (remove_at i xs) < length xs"
  by (simp add: remove_at_def)

function evict_loop :: "kv_os \<Rightarrow> 'd c_double \<Rightarrow> (ds4_kvstore_entry \<Rightarrow> 'd) \<Rightarrow> u64 \<Rightarrow> kv_files \<Rightarrow> ds4_kvstore_entry list \<Rightarrow> u64
    \<Rightarrow> kv_files \<times> ds4_kvstore_entry list" where
  "evict_loop os d score_of target fs es tot =
     (if \<not> (tot > target \<and> es \<noteq> []) then (fs, es)
      else
        let victim = victim_index d score_of es; e = es ! victim;
            (fs', tot') =
              (if fs (e_path e) \<noteq> None \<and> \<not> os_fails os Unlink_victim (e_path e)
               then (fs(e_path e := None), if tot \<ge> e_file_size e then tot - e_file_size e else 0)
               else (fs, 0))
        in evict_loop os d score_of target fs' (remove_at victim es) tot')"
  by pat_completeness auto
termination
  by (relation "measure (\<lambda>(os, d, sc, tg, fs, es, tot). length es)")
    (auto intro!: length_remove_at victim_index_bound)

declare evict_loop.simps [simp del]

definition ds4_kvstore_evict :: "kv_os \<Rightarrow> 'd c_double \<Rightarrow> kv_files \<Rightarrow> ds4_kvstore \<Rightarrow> u64 \<Rightarrow> ds4_kvstore_eviction_context option
    \<Rightarrow> ds4_kvstore \<times> kv_files" where
  "ds4_kvstore_evict os d fs kc extra_bytes incoming =
     (if \<not> kc_enabled kc \<or> kc_budget_bytes kc = 0 then (kc, fs)
      else if extra_bytes > kc_budget_bytes kc then (kc, fs)
      else
        let kc = kv_cache_refresh os fs kc; now = os_now os;
            tot = foldl (\<lambda>t e. t + e_file_size e) 0 (kc_entry kc);
            target = kc_budget_bytes kc - extra_bytes;
            (fs', es) = evict_loop os d (\<lambda>e. ds4_kvstore_entry_eviction_score d e now incoming) target fs (kc_entry kc) tot
        in (kc\<lparr>kc_entry := es\<rparr>, fs'))"

section \<open>Opening and closing the store\<close>

definition DS4_KVSTORE_DEFAULT_MB :: u64 where "DS4_KVSTORE_DEFAULT_MB = 4096"

definition empty_store :: ds4_kvstore where
  "empty_store = \<lparr>kc_enabled = False, kc_dir = [], kc_budget_bytes = 0, kc_reject_different_quant = False,
     kc_opt = \<lparr>min_tokens = 0, cold_max_tokens = 0, continued_interval_tokens = 0, boundary_trim_tokens = 0,
       boundary_align_tokens = 0\<rparr>, kc_continued_last_store_tokens = 0, kc_entry = []\<rparr>"

definition ds4_kvstore_open :: "kv_os \<Rightarrow> 'd c_double \<Rightarrow> (string \<Rightarrow> bool) \<Rightarrow> kv_files \<Rightarrow> string option \<Rightarrow> u64 \<Rightarrow> bool
    \<Rightarrow> ds4_kvstore_options \<Rightarrow> bool \<times> ds4_kvstore \<times> kv_files" where
  "ds4_kvstore_open os d mkdir fs dir budget_mb reject opt =
     (case dir of None \<Rightarrow> (False, empty_store, fs)
      | Some dr \<Rightarrow>
          if \<not> fst (kv_mkdir_p mkdir (Some dr)) then (False, empty_store, fs)
          else
            let budget_mb = (if budget_mb = 0 then DS4_KVSTORE_DEFAULT_MB else budget_mb);
                kc = empty_store\<lparr>kc_enabled := True, kc_dir := dr, kc_budget_bytes := budget_mb * 1024 * 1024,
                       kc_reject_different_quant := reject, kc_opt := opt\<rparr>;
                (kc, fs) = ds4_kvstore_evict os d fs kc 0 None
            in (True, kc, fs))"

definition ds4_kvstore_close :: "ds4_kvstore \<Rightarrow> ds4_kvstore" where
  "ds4_kvstore_close kc = empty_store"

section \<open>What eviction promises\<close>

text \<open>
  The specification of an eviction pass: while the listed sizes (as numbers) exceed the target, the
  entry of least score is dropped, the least recently used one among equals.
\<close>

inductive greedy_evicts :: "(ds4_kvstore_entry \<Rightarrow> 'k::linorder) \<Rightarrow> nat \<Rightarrow> ds4_kvstore_entry list \<Rightarrow> ds4_kvstore_entry list \<Rightarrow> ds4_kvstore_entry list \<Rightarrow> bool"
  for sc target where
  fits: "(\<Sum>e\<leftarrow>es. unat (e_file_size e)) \<le> target \<Longrightarrow> greedy_evicts sc target es [] es"
| evict: "target < (\<Sum>e\<leftarrow>es. unat (e_file_size e)) \<Longrightarrow> v < length es
    \<Longrightarrow> (\<forall>e\<in>set es. sc (es ! v) < sc e \<or> sc (es ! v) = sc e \<and> e_last_used (es ! v) \<le> e_last_used e)
    \<Longrightarrow> greedy_evicts sc target (remove_at v es) vs rest
    \<Longrightarrow> greedy_evicts sc target es (es ! v # vs) rest"

lemma greedy_fits: "greedy_evicts sc target es vs rest \<Longrightarrow> (\<Sum>e\<leftarrow>rest. unat (e_file_size e)) \<le> target"
  by (induction rule: greedy_evicts.induct)

lemma remove_at_split:
  assumes "i < length xs"
  obtains a b x where "xs = a @ x # b" "xs ! i = x" "remove_at i xs = a @ b"
  using id_take_nth_drop [OF assms] that [of "take i xs" "xs ! i" "drop (Suc i) xs"] by (simp add: remove_at_def)

lemma set_remove_at: "i < length xs \<Longrightarrow> set xs = insert (xs ! i) (set (remove_at i xs))"
  by (erule remove_at_split) simp

lemma sum_remove_at:
  fixes f :: "'a \<Rightarrow> nat"
  shows "i < length xs \<Longrightarrow> sum_list (map f xs) = f (xs ! i) + sum_list (map f (remove_at i xs))"
  by (erule remove_at_split) simp

lemma distinct_remove_at:
  "i < length xs \<Longrightarrow> distinct (map f xs) \<Longrightarrow> f (xs ! i) \<notin> f ` set (remove_at i xs) \<and> distinct (map f (remove_at i xs))"
  by (erule remove_at_split) auto

text \<open>The index loop finds a least entry.\<close>

definition lex_le :: "(ds4_kvstore_entry \<Rightarrow> 'k::linorder) \<Rightarrow> ds4_kvstore_entry \<Rightarrow> ds4_kvstore_entry \<Rightarrow> bool" where
  "lex_le sc a b \<longleftrightarrow> sc a < sc b \<or> sc a = sc b \<and> e_last_used a \<le> e_last_used b"

lemma lex_le_trans: "lex_le sc a b \<Longrightarrow> lex_le sc b c \<Longrightarrow> lex_le sc a c"
  and lex_le_total: "lex_le sc a b \<or> lex_le sc b a"
  and lex_le_refl [simp]: "lex_le sc a a"
  unfolding lex_le_def by auto

lemma pick_victim_least:
  assumes cmp: "\<And>x y. d_less d x y \<longleftrightarrow> val x < (val y :: 'k::linorder)" "\<And>x y. d_eq d x y \<longleftrightarrow> val x = val y"
  shows "v < i \<Longrightarrow> i \<le> length es \<Longrightarrow> (\<forall>j<i. lex_le (\<lambda>e. val (sc e)) (es ! v) (es ! j)) \<Longrightarrow>
    \<forall>j<length es. lex_le (\<lambda>e. val (sc e)) (es ! pick_victim d sc es [i..<length es] v (sc (es ! v))) (es ! j)"
proof (induction "length es - i" arbitrary: v i)
  case 0
  then show ?case by simp
next
  case (Suc k)
  then have i: "i < length es" "[i..<length es] = i # [Suc i..<length es]" by (simp_all add: upt_conv_Cons)
  let ?better = "d_less d (sc (es ! i)) (sc (es ! v)) \<or> (d_eq d (sc (es ! i)) (sc (es ! v)) \<and> e_last_used (es ! i) < e_last_used (es ! v))"
  let ?w = "if ?better then i else v"
  have le: "lex_le (\<lambda>e. val (sc e)) (es ! ?w) (es ! v) \<and> lex_le (\<lambda>e. val (sc e)) (es ! ?w) (es ! i)"
    by (cases ?better) (auto simp: lex_le_def cmp)
  have "lex_le (\<lambda>e. val (sc e)) (es ! ?w) (es ! j)" if "j < Suc i" for j
  proof (cases "j = i")
    case False
    then have "j < i" using that by simp
    then have "lex_le (\<lambda>e. val (sc e)) (es ! v) (es ! j)" using Suc.prems(3) by blast
    with le show ?thesis by (blast intro: lex_le_trans)
  qed (use le in simp)
  then have least: "\<forall>j<length es. lex_le (\<lambda>e. val (sc e)) (es ! pick_victim d sc es [Suc i..<length es] ?w (sc (es ! ?w))) (es ! j)"
    using Suc.hyps(2) Suc.prems(1) i(1) by (intro Suc.hyps(1)) simp_all
  have "pick_victim d sc es [i..<length es] v (sc (es ! v)) = pick_victim d sc es [Suc i..<length es] ?w (sc (es ! ?w))"
    by (simp add: i(2) Let_def)
  then show ?case using least by (simp only:)
qed

lemma victim_index_least:
  assumes cmp: "\<And>x y. d_less d x y \<longleftrightarrow> val x < (val y :: 'k::linorder)" "\<And>x y. d_eq d x y \<longleftrightarrow> val x = val y"
    and "es \<noteq> []" "e \<in> set es"
  shows "lex_le (\<lambda>e. val (sc e)) (es ! victim_index d sc es) e"
proof -
  have "0 < length es" using assms(3) by simp
  then have "1 \<le> length es" by linarith
  then have "\<forall>j<length es. lex_le (\<lambda>e. val (sc e)) (es ! victim_index d sc es) (es ! j)"
    unfolding victim_index_def by (intro pick_victim_least [OF cmp]) auto
  then show ?thesis using assms(4) by (metis in_set_conv_nth)
qed

lemma evict_loop_greedy:
  assumes cmp: "\<And>x y. d_less d x y \<longleftrightarrow> val x < (val y :: 'k::linorder)" "\<And>x y. d_eq d x y \<longleftrightarrow> val x = val y"
    and ok: "\<And>p. \<not> os_fails os Unlink_victim p"
  shows "evict_loop os d sc target fs es tot = (fs', rest) \<Longrightarrow> unat tot = (\<Sum>e\<leftarrow>es. unat (e_file_size e)) \<Longrightarrow>
    distinct (map e_path es) \<Longrightarrow> (\<forall>e\<in>set es. fs (e_path e) \<noteq> None) \<Longrightarrow>
    \<exists>vs. greedy_evicts (\<lambda>e. val (sc e)) (unat target) es vs rest \<and> fs' = (\<lambda>p. if p \<in> e_path ` set vs then None else fs p)"
proof (induction "length es" arbitrary: fs es tot rule: less_induct)
  case less
  show ?case
  proof (cases "tot > target \<and> es \<noteq> []")
    case False
    then have "fs' = fs" "rest = es" using less.prems(1) by (simp_all add: evict_loop.simps)
    moreover have "(\<Sum>e\<leftarrow>es. unat (e_file_size e)) \<le> unat target" using False less.prems(2) by (auto simp: word_less_nat_alt)
    ultimately show ?thesis by (intro exI [of _ "[]"]) (auto intro: greedy_evicts.fits)
  next
    case True
    define v where "v = victim_index d sc es"
    have v: "v < length es" using True victim_index_bound [of es d sc] by (simp add: v_def)
    let ?e = "es ! v" and ?es = "remove_at v es"
    have inn: "?e \<in> set es" using v by simp
    then obtain bs where fl: "fs (e_path ?e) = Some bs" using less.prems(4) by blast
    have sum: "unat tot = unat (e_file_size ?e) + (\<Sum>e\<leftarrow>?es. unat (e_file_size e))"
      using less.prems(2) sum_remove_at [OF v, of "\<lambda>e. unat (e_file_size e)"] by simp
    then have ge: "e_file_size ?e \<le> tot" by (simp add: word_le_nat_alt)
    have loop: "evict_loop os d sc target (fs(e_path ?e := None)) ?es (tot - e_file_size ?e) = (fs', rest)"
      using less.prems(1) True fl ok [of "e_path ?e"] ge
      by (subst (asm) evict_loop.simps) (simp add: Let_def v_def)
    have dist: "e_path ?e \<notin> e_path ` set ?es" "distinct (map e_path ?es)" using distinct_remove_at [OF v less.prems(3)] by auto
    have "unat (tot - e_file_size ?e) = (\<Sum>e\<leftarrow>?es. unat (e_file_size e))" using sum ge by (simp add: unat_sub)
    moreover have "\<forall>e\<in>set ?es. (fs(e_path ?e := None)) (e_path e) \<noteq> None"
    proof
      fix e assume e: "e \<in> set ?es"
      then have "e_path e \<noteq> e_path ?e" using dist(1) by (metis imageI)
      moreover have "e \<in> set es" using e set_remove_at [OF v] by blast
      ultimately show "(fs(e_path ?e := None)) (e_path e) \<noteq> None" using less.prems(4) by simp
    qed
    ultimately obtain vs where vs: "greedy_evicts (\<lambda>e. val (sc e)) (unat target) ?es vs rest"
      "fs' = (\<lambda>p. if p \<in> e_path ` set vs then None else (fs(e_path ?e := None)) p)"
      using less.hyps [OF length_remove_at [OF v] loop _ dist(2)] by blast
    have "greedy_evicts (\<lambda>e. val (sc e)) (unat target) es (?e # vs) rest"
    proof (rule greedy_evicts.evict)
      show "unat target < (\<Sum>e\<leftarrow>es. unat (e_file_size e))" using True less.prems(2) by (simp add: word_less_nat_alt)
      show "\<forall>e\<in>set es. val (sc ?e) < val (sc e) \<or> val (sc ?e) = val (sc e) \<and> e_last_used ?e \<le> e_last_used e"
        using victim_index_least [OF cmp, where sc = sc and es = es] True unfolding lex_le_def v_def by blast
    qed (use v vs in simp_all)
    then show ?thesis using vs(2) by (intro exI [of _ "?e # vs"]) auto
  qed
qed

lemma foldl_size_sum:
  "(\<Sum>e\<leftarrow>es. unat (e_file_size e)) \<le> UINT64_MAX \<Longrightarrow>
    unat (foldl (\<lambda>t e. t + e_file_size e) 0 es) = (\<Sum>e\<leftarrow>es. unat (e_file_size e))"
proof (induction es rule: rev_induct)
  case (snoc e es)
  then show ?case using unat_add_exact [of "foldl (\<lambda>t e. t + e_file_size e) 0 es" "e_file_size e"] by simp
qed simp

lemma refresh_paths:
  assumes "kc_enabled kc" and "\<And>names. os_readdir os (kc_dir kc) fs = Some names \<Longrightarrow> distinct names"
  shows "distinct (map e_path (kc_entry (kv_cache_refresh os fs kc)))
    \<and> (\<forall>e\<in>set (kc_entry (kv_cache_refresh os fs kc)). fs (e_path e) \<noteq> None)"
proof
  show "distinct (map e_path (kc_entry (kv_cache_refresh os fs kc)))"
    using assms refresh_entries_paths
    by (auto simp: kv_cache_refresh_def ds4_kvstore_clear_def Let_def split: option.splits)
  show "\<forall>e\<in>set (kc_entry (kv_cache_refresh os fs kc)). fs (e_path e) \<noteq> None"
    using listing_ok [OF assms(1), of fs os] unfolding list_all_iff listed_entry_ok_def by blast
qed

text \<open>
  C17: When every unlink succeeds, an eviction pass is the greedy one: it deletes the files of a sequence of
  victims, each of least score (the least recently used among equals) while the sizes still exceed the
  budget less the bytes to come, keeps every other file, and ends within that bound.
\<close>

theorem evict_refines_greedy:
  fixes val :: "'d \<Rightarrow> 'k::linorder"
  assumes "\<And>x y. d_less d x y \<longleftrightarrow> val x < val y" and "\<And>x y. d_eq d x y \<longleftrightarrow> val x = val y"
    and "\<And>p. \<not> os_fails os Unlink_victim p"
    and "\<And>names. os_readdir os (kc_dir kc) fs = Some names \<Longrightarrow> distinct names"
    and "kc_enabled kc" "kc_budget_bytes kc \<noteq> 0" "extra \<le> kc_budget_bytes kc"
    and "(\<Sum>e\<leftarrow>kc_entry (kv_cache_refresh os fs kc). unat (e_file_size e)) \<le> UINT64_MAX"
    and "ds4_kvstore_evict os d fs kc extra incoming = (kc', fs')"
  shows "\<exists>victims. greedy_evicts (\<lambda>e. val (ds4_kvstore_entry_eviction_score d e (os_now os) incoming))
        (unat (kc_budget_bytes kc) - unat extra) (kc_entry (kv_cache_refresh os fs kc)) victims (kc_entry kc')
    \<and> fs' = (\<lambda>p. if p \<in> e_path ` set victims then None else fs p)
    \<and> (\<Sum>e\<leftarrow>kc_entry kc'. unat (e_file_size e)) \<le> unat (kc_budget_bytes kc) - unat extra"
proof -
  let ?r = "kv_cache_refresh os fs kc" and ?sc = "\<lambda>e. ds4_kvstore_entry_eviction_score d e (os_now os) incoming"
  let ?tot = "foldl (\<lambda>t e. t + e_file_size e) 0 (kc_entry ?r)" and ?target = "kc_budget_bytes kc - extra"
  obtain es where loop: "evict_loop os d ?sc ?target fs (kc_entry ?r) ?tot = (fs', es)" and kc': "kc_entry kc' = es"
    using assms(5,6,9) assms(7) [unfolded not_less [symmetric]]
    by (cases "evict_loop os d ?sc ?target fs (kc_entry ?r) ?tot") (auto simp: ds4_kvstore_evict_def Let_def)
  note paths = refresh_paths [OF assms(5,4)]
  from evict_loop_greedy [OF assms(1-3) loop foldl_size_sum [OF assms(8)]] paths
  obtain vs where vs: "greedy_evicts (\<lambda>e. val (?sc e)) (unat ?target) (kc_entry ?r) vs es"
    "fs' = (\<lambda>p. if p \<in> e_path ` set vs then None else fs p)" by blast
  have "unat ?target = unat (kc_budget_bytes kc) - unat extra" using assms(7) by (rule unat_sub)
  with vs kc' greedy_fits [OF vs(1)] show ?thesis by auto
qed

text \<open>An arithmetic for the example: natural numbers, where no hit ever fades.\<close>

definition nat_double :: "nat c_double" where
  "nat_double = \<lparr>d_lit = \<lambda>p q. p div q, d_of_u32 = unat, d_of_u64 = unat, d_add = (+), d_mul = (*), d_div = (div),
     d_neg = id, d_exp2 = \<lambda>_. 1, d_less = (<), d_eq = (=)\<rparr>"

lemma evict_refines_greedy_witness:
  "\<exists>kc' fs'. ds4_kvstore_evict sample_os nat_double sample_files (sample_kc 60) 10 None = (kc', fs')
    \<and> (\<Sum>e\<leftarrow>kc_entry kc'. unat (e_file_size e)) \<le> 50 \<and> kc_entry kc' \<noteq> [sample_entry]"
proof -
  obtain kc' fs' where ev: "ds4_kvstore_evict sample_os nat_double sample_files (sample_kc 60) 10 None = (kc', fs')" by (metis surj_pair)
  have "\<exists>victims. greedy_evicts (\<lambda>e. id (ds4_kvstore_entry_eviction_score nat_double e (os_now sample_os) None))
        (unat (kc_budget_bytes (sample_kc 60)) - unat (10 :: u64)) (kc_entry (kv_cache_refresh sample_os sample_files (sample_kc 60))) victims (kc_entry kc')
    \<and> fs' = (\<lambda>p. if p \<in> e_path ` set victims then None else sample_files p)
    \<and> (\<Sum>e\<leftarrow>kc_entry kc'. unat (e_file_size e)) \<le> unat (kc_budget_bytes (sample_kc 60)) - unat (10 :: u64)"
    by (rule evict_refines_greedy [OF _ _ _ _ _ _ _ _ ev])
      (simp_all add: nat_double_def sample_listing, simp_all add: sample_os_def sample_kc_def sample_entry_def)
  then have le: "(\<Sum>e\<leftarrow>kc_entry kc'. unat (e_file_size e)) \<le> 50" by (auto simp: sample_kc_def)
  moreover have "kc_entry kc' \<noteq> [sample_entry]" using le by (auto simp: sample_entry_def)
  ultimately show ?thesis using ev by blast
qed

end
