(* ===== verification/KvStore.thy ===== *)
theory KvStore
  imports KvEvict
begin

text \<open>
  Storing a checkpoint: the check for an existing one, the rewriting of its trailer, and the new file
  that is written under a temporary name and renamed. The engine and the trailer hooks are records of
  the functions the store calls.
\<close>

unbundle bit_operations_syntax

section \<open>The engine and the trailer hooks\<close>

text \<open>
  What the store asks of an inference session of type \<open>'s\<close>: its tokens, context size, the bytes of its
  staged payload (\<open>None\<close> when staging fails), loading a payload from the rest of a file (whether it
  succeeded, the session after it and how many bytes it consumed), and invalidating it.
\<close>

record 's kv_engine =
  ds4_engine_routed_quant_bits :: int
  ds4_engine_model_id :: int
  ds4_token_text :: "int \<Rightarrow> u8 list"
  ds4_tokenize_rendered_chat :: "u8 list \<Rightarrow> ds4_tokens"
  ds4_session_tokens :: "'s \<Rightarrow> ds4_tokens option"
  ds4_session_ctx :: "'s \<Rightarrow> int"
  ds4_session_stage_payload :: "'s \<Rightarrow> u8 list option"
  ds4_session_load_payload :: "'s \<Rightarrow> u8 list \<Rightarrow> u64 \<Rightarrow> bool \<times> 's \<times> nat"
  ds4_session_invalidate :: "'s \<Rightarrow> 's"

text \<open>
  Hooks with client data of type \<open>'u\<close>; a field that is \<open>None\<close> is a null pointer. \<open>hk_write\<close> returns
  success, the bytes it put in the stream and the count it reports.
\<close>

record 'u ds4_kvstore_trailer_hooks =
  hk_ext_flag :: u8
  hk_serialized_size :: "(u8 list \<Rightarrow> bool \<times> u64) option"
  hk_write :: "(u8 list \<Rightarrow> bool \<times> u8 list \<times> u64) option"
  hk_load :: "('u \<Rightarrow> u8 list \<Rightarrow> 'u) option"

definition kv_trailer_serialized_size :: "'u ds4_kvstore_trailer_hooks option \<Rightarrow> u8 list \<Rightarrow> bool \<times> u64" where
  "kv_trailer_serialized_size hooks txt =
     (case hooks of None \<Rightarrow> (True, 0)
      | Some hk \<Rightarrow> (case hk_serialized_size hk of None \<Rightarrow> (True, 0) | Some f \<Rightarrow> f txt))"

definition kv_trailer_write :: "'u ds4_kvstore_trailer_hooks option \<Rightarrow> u8 list \<Rightarrow> bool \<times> u8 list \<times> u64" where
  "kv_trailer_write hooks txt =
     (case hooks of None \<Rightarrow> (True, [], 0)
      | Some hk \<Rightarrow> (case hk_write hk of None \<Rightarrow> (True, [], 0) | Some f \<Rightarrow> f txt))"

section \<open>An existing checkpoint\<close>

definition kv_cache_file_text_matches :: "kv_os \<Rightarrow> kv_files \<Rightarrow> string \<Rightarrow> string \<Rightarrow> u8 list \<Rightarrow> bool" where
  "kv_cache_file_text_matches os fs path sha txt =
     (if UINT32_MAX < length txt then False
      else case fs path of None \<Rightarrow> False
      | Some bs \<Rightarrow>
          if os_fails os Open_text path then False
          else case ds4_kvstore_read_header bs of None \<Rightarrow> False
          | Some (e, text_bytes) \<Rightarrow>
              if text_bytes \<noteq> of_nat (length txt) then False
              else
                let stored = take (unat text_bytes) (drop 52 bs) in
                length stored = unat text_bytes \<and> ds4_kvstore_sha1_bytes_hex stored = sha
                \<and> (length txt = 0 \<or> take (length txt) stored = txt))"

definition kv_cache_existing_compatible ::
    "kv_os \<Rightarrow> kv_files \<Rightarrow> ds4_kvstore \<Rightarrow> string \<Rightarrow> string \<Rightarrow> u8 list \<Rightarrow> int \<Rightarrow> int \<Rightarrow> int \<Rightarrow> bool \<times> kv_files" where
  "kv_cache_existing_compatible os fs kc path sha txt model_id quant_bits ctx_size =
     (if fs path = None \<or> os_fails os Access_path path then (False, fs)
      else case ds4_kvstore_read_entry_file os fs path sha of None \<Rightarrow> (False, fs)
      | Some e \<Rightarrow>
          if e_model_id e = word_of_int model_id
             \<and> (\<not> kc_reject_different_quant kc \<or> e_quant_bits e = word_of_int quant_bits)
             \<and> e_ctx_size e \<le> word_of_int ctx_size
             \<and> kv_cache_file_text_matches os fs path sha txt
          then (True, fs)
          else (False, if os_fails os Unlink_incompatible path then fs else fs(path := None)))"

text \<open>\<open>ftruncate\<close> to a length: the tail is cut, or the file is filled with zeros.\<close>

definition truncate_to :: "nat \<Rightarrow> u8 list \<Rightarrow> u8 list" where
  "truncate_to n bs = take n bs @ replicate (n - length bs) 0"

definition kv_cache_rewrite_trailer ::
    "kv_os \<Rightarrow> kv_files \<Rightarrow> string \<Rightarrow> u8 list \<Rightarrow> 'u ds4_kvstore_trailer_hooks option \<Rightarrow> kv_files" where
  "kv_cache_rewrite_trailer os fs path txt hooks =
     (case hooks of None \<Rightarrow> fs
      | Some hk \<Rightarrow>
          let (size_ok, trailer_est) = kv_trailer_serialized_size hooks txt in
          if hk_write hk = None \<or> hk_serialized_size hk = None \<or> \<not> size_ok \<or> trailer_est = 0 then fs
          else case fs path of None \<Rightarrow> fs
          | Some bs \<Rightarrow>
              if os_fails os Open_trailer path then fs
              else case ds4_kvstore_read_header bs of None \<Rightarrow> fs
              | Some (e, text_bytes) \<Rightarrow>
                  let fend = 48 + 4 + ucast text_bytes + e_payload_bytes e in
                  if 0x7FFFFFFFFFFFFFFF < fend \<or> os_fails os Seek_trailer path \<or> os_fails os Truncate_trailer path then fs
                  else
                    let kept = truncate_to (unat fend) bs; (wok, out, reported) = kv_trailer_write hooks txt in
                    if \<not> wok \<or> os_fails os Flush_trailer path
                    then fs(path \<mapsto> kept @ os_torn os Flush_trailer path out)
                    else if reported = 0 then fs(path \<mapsto> kept @ out)
                    else
                      let hd = refill_header e (e_ext_flags e OR hk_ext_flag hk) (e_hits e) (os_now os) in
                      if os_fails os Rewrite_header path
                      then fs(path \<mapsto> write_at 0 (os_torn os Rewrite_header path hd) (kept @ out))
                      else fs(path \<mapsto> write_at 0 hd (kept @ out)))"

section \<open>Storing a prefix\<close>

text \<open>
  Before any file is touched: the prefix to store and the text it is named by, or \<open>None\<close> when the
  store is refused.
\<close>

definition store_subject ::
    "'s kv_engine \<Rightarrow> 's \<Rightarrow> ds4_kvstore \<Rightarrow> ds4_tokens option \<Rightarrow> int \<Rightarrow> u8 list option \<Rightarrow> (ds4_tokens \<times> u8 list \<times> bool) option" where
  "store_subject en session kc tokens store_len cache_text_override =
     (if \<not> kc_enabled kc then None
      else if tokens = None \<or> store_len < min_tokens (kc_opt kc) then None
      else
        let store_tokens = ds4_kvstore_tokens_copy_prefix tokens store_len;
            quant_bits = ds4_engine_routed_quant_bits en in
        if quant_bits \<noteq> 2 \<and> quant_bits \<noteq> 4 then None
        else case ds4_session_tokens en session of None \<Rightarrow> None
        | Some live \<Rightarrow>
            if length live \<noteq> length store_tokens \<or> \<not> prefix store_tokens live then None
            else
              let text_override = (case cache_text_override of None \<Rightarrow> False | Some t \<Rightarrow> t \<noteq> []);
                  txt = (if text_override then the cache_text_override
                         else ds4_kvstore_render_tokens_text (ds4_token_text en) store_tokens) in
              if UINT32_MAX < length txt then None else Some (store_tokens, txt, text_override))"

definition tmp_path :: "kv_os \<Rightarrow> string \<Rightarrow> string" where
  "tmp_path os path = path @ ''.tmp.'' @ show_int (os_pid os)"

text \<open>The bytes of a complete checkpoint file.\<close>

definition checkpoint_bytes ::
    "'s kv_engine \<Rightarrow> 's \<Rightarrow> u8 \<Rightarrow> u8 \<Rightarrow> u64 \<Rightarrow> ds4_tokens \<Rightarrow> u8 list \<Rightarrow> u8 list \<Rightarrow> u8 list \<Rightarrow> u8 list" where
  "checkpoint_bytes en session reason ext now store_tokens txt payload trailer =
     ds4_kvstore_fill_header (word_of_int (ds4_engine_model_id en)) (word_of_int (ds4_engine_routed_quant_bits en))
       reason ext (of_nat (length store_tokens)) 0 (word_of_int (ds4_session_ctx en session)) now now (of_nat (length payload))
     @ ds4_kvstore_le_put32 (of_nat (length txt)) @ txt @ payload @ trailer"

text \<open>Writing the new file under a temporary name and renaming it.\<close>

definition write_checkpoint ::
    "kv_os \<Rightarrow> kv_files \<Rightarrow> ds4_kvstore \<Rightarrow> 's kv_engine \<Rightarrow> 's \<Rightarrow> string \<Rightarrow> u8 \<Rightarrow> u8 \<Rightarrow> ds4_tokens \<Rightarrow> u8 list \<Rightarrow> u8 list
      \<Rightarrow> 'u ds4_kvstore_trailer_hooks option \<Rightarrow> bool \<times> kv_files" where
  "write_checkpoint os fs kc en session path reason ext store_tokens txt payload hooks =
     (let tmp = tmp_path os path in
      if os_fails os Create_tmp tmp then (False, fs)
      else
        let (wok, trailer, trailer_bytes) = kv_trailer_write hooks txt;
            bs = checkpoint_bytes en session reason ext (os_now os) store_tokens txt payload trailer;
            ok = (\<not> os_fails os Write_tmp tmp \<and> wok \<and> \<not> os_fails os Close_tmp tmp);
            fs = fs(tmp \<mapsto> if ok then bs else os_torn os Write_tmp tmp bs);
            ok = (ok \<and> fst (ds4_kvstore_file_size_fits (Some kc) (of_nat (length txt)) (of_nat (length payload)) trailer_bytes));
            ok = (ok \<and> \<not> os_fails os Rename_tmp tmp)
        in if ok then (True, fs(path := fs tmp, tmp := None))
           else (False, if os_fails os Unlink_tmp tmp then fs else fs(tmp := None)))"

definition ds4_kvstore_store_live_prefix_text ::
    "kv_os \<Rightarrow> 'd c_double \<Rightarrow> kv_files \<Rightarrow> ds4_kvstore \<Rightarrow> 's kv_engine \<Rightarrow> 's \<Rightarrow> ds4_tokens option \<Rightarrow> int \<Rightarrow> string option
      \<Rightarrow> u8 list option \<Rightarrow> u8 \<Rightarrow> 'u ds4_kvstore_trailer_hooks option \<Rightarrow> bool \<times> ds4_kvstore \<times> kv_files" where
  "ds4_kvstore_store_live_prefix_text os d fs kc en session tokens store_len reason cache_text_override cache_text_ext hooks =
     (case store_subject en session kc tokens store_len cache_text_override of
        None \<Rightarrow> (False, kc, fs)
      | Some (store_tokens, txt, text_override) \<Rightarrow>
          let (size_ok, trailer_est_bytes) = kv_trailer_serialized_size hooks txt in
          if \<not> size_ok then (False, kc, fs)
          else
            let sha = ds4_kvstore_sha1_bytes_hex txt;
                path = ds4_kvstore_path_for_sha kc sha;
                (compatible, fs) = kv_cache_existing_compatible os fs kc path sha txt (ds4_engine_model_id en)
                  (ds4_engine_routed_quant_bits en) (ds4_session_ctx en session) in
            if compatible then (True, kc, kv_cache_rewrite_trailer os fs path txt hooks)
            else case ds4_session_stage_payload en session of None \<Rightarrow> (False, kc, fs)
            | Some payload \<Rightarrow>
                let (fits, est_file_bytes, est_required_bytes) =
                  ds4_kvstore_file_size_fits (Some kc) (of_nat (length txt)) (of_nat (length payload)) trailer_est_bytes in
                if \<not> fits then (False, kc, fs)
                else
                  let incoming = \<lparr>ic_text = Some txt, ic_model_id = word_of_int (ds4_engine_model_id en),
                        ic_quant_bits = word_of_int (ds4_engine_routed_quant_bits en),
                        ic_ctx_size = word_of_int (ds4_session_ctx en session),
                        ic_reject_different_quant = kc_reject_different_quant kc\<rparr>;
                      (kc, fs) = ds4_kvstore_evict os d fs kc est_file_bytes (Some incoming);
                      ext = (if trailer_est_bytes > 0 then (case hooks of None \<Rightarrow> 0 | Some hk \<Rightarrow> hk_ext_flag hk) else 0);
                      ext = (if text_override then ext OR cache_text_ext else ext);
                      (ok, fs) = write_checkpoint os fs kc en session path (ds4_kvstore_reason_code reason) ext store_tokens txt payload hooks
                  in (ok, kc, fs))"

definition ds4_kvstore_store_live_prefix ::
    "kv_os \<Rightarrow> 'd c_double \<Rightarrow> kv_files \<Rightarrow> ds4_kvstore \<Rightarrow> 's kv_engine \<Rightarrow> 's \<Rightarrow> ds4_tokens option \<Rightarrow> int \<Rightarrow> string option
      \<Rightarrow> 'u ds4_kvstore_trailer_hooks option \<Rightarrow> bool \<times> ds4_kvstore \<times> kv_files" where
  "ds4_kvstore_store_live_prefix os d fs kc en session tokens store_len reason hooks =
     ds4_kvstore_store_live_prefix_text os d fs kc en session tokens store_len reason None 0 hooks"

definition ds4_kvstore_maybe_store_continued ::
    "kv_os \<Rightarrow> 'd c_double \<Rightarrow> kv_files \<Rightarrow> ds4_kvstore \<Rightarrow> 's kv_engine \<Rightarrow> 's \<Rightarrow> 'u ds4_kvstore_trailer_hooks option
      \<Rightarrow> bool \<times> ds4_kvstore \<times> kv_files" where
  "ds4_kvstore_maybe_store_continued os d fs kc en session hooks =
     (case ds4_session_tokens en session of None \<Rightarrow> (False, kc, fs)
      | Some live \<Rightarrow>
          let target = ds4_kvstore_continued_store_target kc (int (length live)) in
          if target = 0 then (False, kc, fs)
          else
            let (ok, kc, fs) = ds4_kvstore_store_live_prefix os d fs kc en session (Some live) target (Some ''continued'') hooks in
            if ok then (True, ds4_kvstore_note_store kc target, fs) else (False, kc, fs))"

section \<open>Names of checkpoint files\<close>

lemma hex_char_name: "unat b < 16 \<Longrightarrow> isxdigit (hex_char b) \<and> tolower (hex_char b) = hex_char b"
proof -
  assume "unat b < 16"
  moreover have "list_all (\<lambda>c. isxdigit c \<and> tolower c = c) ''0123456789abcdef''" by code_simp
  ultimately show ?thesis unfolding hex_char_def list_all_length by simp
qed

lemma nibbles: "unat (drop_bit 4 (x :: u8)) < 16" "unat (x AND 15) < 16"
proof -
  have "unat (drop_bit 4 x) = unat x div 16" by (simp add: unat_drop_bit_eq drop_bit_eq_div unat_div)
  then show "unat (drop_bit 4 x) < 16" using unat_u8_bound [of x] by simp
  have "x AND 15 \<le> 15" by (rule word_and_le1)
  then show "unat (x AND 15) < 16" by (simp add: word_le_nat_alt)
qed

lemma sha_hex_chars: "\<forall>c\<in>set (ds4_kvstore_sha1_bytes_hex p). isxdigit c \<and> tolower c = c"
  by (auto simp: ds4_kvstore_sha1_bytes_hex_def hex20_def hex_char_name nibbles)

lemma sha_name: "ds4_kvstore_sha_hex_name (take 40 (ds4_kvstore_sha1_bytes_hex p) @ ''.kv'') = Some (ds4_kvstore_sha1_bytes_hex p)"
proof -
  let ?s = "ds4_kvstore_sha1_bytes_hex p"
  have "map tolower ?s = ?s" using sha_hex_chars by (simp add: map_idI)
  then show ?thesis using sha_hex_chars by (simp add: ds4_kvstore_sha_hex_name_def sha1_hex_length list_all_iff)
qed

lemma tmp_never_listed:
  assumes "tmp_path os (ds4_kvstore_path_for_sha kc sha) = ds4_kvstore_path_join (kc_dir kc) name" and "length sha = 40"
  shows "ds4_kvstore_sha_hex_name name = None"
proof -
  have "name = take 40 sha @ ''.kv'' @ ''.tmp.'' @ show_int (os_pid os)"
    using assms(1) by (auto simp: tmp_path_def ds4_kvstore_path_for_sha_def ds4_kvstore_path_join_def split: if_splits)
  then have "48 \<le> length name" using assms(2) by simp
  then show ?thesis by (simp add: ds4_kvstore_sha_hex_name_def)
qed

section \<open>What a store promises\<close>

lemma evict_loop_files: "evict_loop os d sc target fs es tot = (fs', rest) \<Longrightarrow> fs' p = fs p \<or> fs' p = None"
proof (induction "length es" arbitrary: fs es tot rule: less_induct)
  case less
  show ?case
  proof (cases "tot > target \<and> es \<noteq> []")
    case True
    let ?v = "victim_index d sc es"
    have shorter: "length (remove_at ?v es) < length es" using True by (intro length_remove_at victim_index_bound) blast
    obtain fs1 tot1 where "evict_loop os d sc target fs1 (remove_at ?v es) tot1 = (fs', rest)" "fs1 p = fs p \<or> fs1 p = None"
      using less.prems True by (subst (asm) evict_loop.simps) (auto simp: Let_def split: if_splits)
    then show ?thesis using less.hyps [OF shorter] by metis
  qed (use less.prems in \<open>auto simp: evict_loop.simps\<close>)
qed

lemma evict_files:
  assumes "ds4_kvstore_evict os d fs kc extra incoming = (kc', fs')"
  shows "fs' p = fs p \<or> fs' p = None"
    and "kc_enabled kc' = kc_enabled kc" "kc_dir kc' = kc_dir kc" "kc_opt kc' = kc_opt kc"
    "kc_budget_bytes kc' = kc_budget_bytes kc" "kc_reject_different_quant kc' = kc_reject_different_quant kc"
proof -
  have "(fs' p = fs p \<or> fs' p = None) \<and> kc_enabled kc' = kc_enabled kc \<and> kc_dir kc' = kc_dir kc \<and> kc_opt kc' = kc_opt kc
    \<and> kc_budget_bytes kc' = kc_budget_bytes kc \<and> kc_reject_different_quant kc' = kc_reject_different_quant kc"
  proof (cases "\<not> kc_enabled kc \<or> kc_budget_bytes kc = 0 \<or> extra > kc_budget_bytes kc")
    case False
    then obtain sc target es0 tot es where loop: "evict_loop os d sc target fs es0 tot = (fs', es)"
      and kc': "kc' = (kv_cache_refresh os fs kc)\<lparr>kc_entry := es\<rparr>"
      using assms by (auto simp: ds4_kvstore_evict_def Let_def split: prod.splits)
    show ?thesis using evict_loop_files [OF loop, of p] by (simp add: kc')
  qed (use assms in \<open>auto simp: ds4_kvstore_evict_def split: if_splits\<close>)
  then show "fs' p = fs p \<or> fs' p = None"
    and "kc_enabled kc' = kc_enabled kc" "kc_dir kc' = kc_dir kc" "kc_opt kc' = kc_opt kc"
    "kc_budget_bytes kc' = kc_budget_bytes kc" "kc_reject_different_quant kc' = kc_reject_different_quant kc" by simp_all
qed

lemma existing_compatible_files:
  assumes "kv_cache_existing_compatible os fs kc path sha txt model quant ctx = (c, fs')"
  shows "fs' p = fs p \<or> fs' p = None" "c \<Longrightarrow> fs' = fs"
  using assms by (auto simp: kv_cache_existing_compatible_def split: if_splits option.splits)

lemma rewrite_trailer_files:
  "p \<noteq> path \<Longrightarrow> kv_cache_rewrite_trailer os fs path txt hooks p = fs p"
  by (auto simp: kv_cache_rewrite_trailer_def Let_def split: option.splits prod.splits)

lemma write_checkpoint_files:
  assumes "write_checkpoint os fs kc en session path reason ext toks txt payload hooks = (ok, fs')"
  shows "\<not> ok \<Longrightarrow> p \<noteq> tmp_path os path \<Longrightarrow> fs' p = fs p"
    and "ok \<Longrightarrow> p \<noteq> tmp_path os path \<Longrightarrow> p \<noteq> path \<Longrightarrow> fs' p = fs p"
    and "ok \<Longrightarrow> path \<noteq> tmp_path os path \<Longrightarrow> fs' path = Some (checkpoint_bytes en session reason ext (os_now os) toks txt payload
          (fst (snd (kv_trailer_write hooks txt))))"
    and "ok \<Longrightarrow> fst (ds4_kvstore_file_size_fits (Some kc) (of_nat (length txt)) (of_nat (length payload)) (snd (snd (kv_trailer_write hooks txt))))"
  using assms by (auto simp: write_checkpoint_def Let_def split: if_splits prod.splits)

lemma tmp_differs: "path \<noteq> tmp_path os path"
  by (simp add: tmp_path_def)

text \<open>The path of a checkpoint in the store, and the temporary name beside it.\<close>

abbreviation checkpoint_path :: "ds4_kvstore \<Rightarrow> u8 list \<Rightarrow> string" where
  "checkpoint_path kc txt \<equiv> ds4_kvstore_path_for_sha kc (ds4_kvstore_sha1_bytes_hex txt)"

lemma store_outcome:
  assumes "store_subject en session kc tokens store_len override = Some (store_tokens, txt, text_override)"
    and "ds4_kvstore_store_live_prefix_text os d fs kc en session tokens store_len reason override ext hooks = (ok, kc', fs')"
  shows "(\<forall>p. p \<noteq> checkpoint_path kc txt \<and> p \<noteq> tmp_path os (checkpoint_path kc txt) \<longrightarrow> fs' p = fs p \<or> fs' p = None)
    \<and> (\<not> ok \<longrightarrow> fs' (checkpoint_path kc txt) = fs (checkpoint_path kc txt) \<or> fs' (checkpoint_path kc txt) = None)
    \<and> (ok \<longrightarrow> fst (kv_cache_existing_compatible os fs kc (checkpoint_path kc txt) (ds4_kvstore_sha1_bytes_hex txt) txt
          (ds4_engine_model_id en) (ds4_engine_routed_quant_bits en) (ds4_session_ctx en session))
        \<or> (\<exists>payload flags. ds4_session_stage_payload en session = Some payload
             \<and> fs' (checkpoint_path kc txt) = Some (checkpoint_bytes en session (ds4_kvstore_reason_code reason) flags (os_now os)
                  store_tokens txt payload (fst (snd (kv_trailer_write hooks txt))))))
    \<and> kc_enabled kc' = kc_enabled kc \<and> kc_dir kc' = kc_dir kc \<and> kc_opt kc' = kc_opt kc
    \<and> kc_reject_different_quant kc' = kc_reject_different_quant kc"
proof -
  let ?path = "checkpoint_path kc txt" and ?sha = "ds4_kvstore_sha1_bytes_hex txt"
  obtain c fs1 where ex: "kv_cache_existing_compatible os fs kc ?path ?sha txt (ds4_engine_model_id en)
      (ds4_engine_routed_quant_bits en) (ds4_session_ctx en session) = (c, fs1)" by (metis surj_pair)
  note fs1 = existing_compatible_files [OF ex]
  have "(\<forall>p. p \<noteq> ?path \<and> p \<noteq> tmp_path os ?path \<longrightarrow> fs' p = fs p \<or> fs' p = None)
    \<and> (\<not> ok \<longrightarrow> fs' ?path = fs ?path \<or> fs' ?path = None)
    \<and> (ok \<longrightarrow> c \<or> (\<exists>payload flags. ds4_session_stage_payload en session = Some payload
             \<and> fs' ?path = Some (checkpoint_bytes en session (ds4_kvstore_reason_code reason) flags (os_now os)
                  store_tokens txt payload (fst (snd (kv_trailer_write hooks txt))))))
    \<and> kc_enabled kc' = kc_enabled kc \<and> kc_dir kc' = kc_dir kc \<and> kc_opt kc' = kc_opt kc
    \<and> kc_reject_different_quant kc' = kc_reject_different_quant kc"
  proof (cases "fst (kv_trailer_serialized_size hooks txt)")
    case sized: True
    show ?thesis
    proof (cases c)
      case True
      then have "ok" "kc' = kc" "fs' = kv_cache_rewrite_trailer os fs1 ?path txt hooks"
        using assms sized ex by (auto simp: ds4_kvstore_store_live_prefix_text_def Let_def split: prod.splits)
      then show ?thesis using True fs1(1) rewrite_trailer_files by metis
    next
      case False
      show ?thesis
      proof (cases "\<exists>payload est. ds4_session_stage_payload en session = Some payload
          \<and> ds4_kvstore_file_size_fits (Some kc) (of_nat (length txt)) (of_nat (length payload)) (snd (kv_trailer_serialized_size hooks txt)) = (True, est)")
        case True
        then obtain payload est where st: "ds4_session_stage_payload en session = Some payload"
          "ds4_kvstore_file_size_fits (Some kc) (of_nat (length txt)) (of_nat (length payload)) (snd (kv_trailer_serialized_size hooks txt)) = (True, est)" by blast
        obtain incoming extra kc1 fs2 flags where ev: "ds4_kvstore_evict os d fs1 kc extra incoming = (kc1, fs2)"
          and wr: "kc' = kc1" "write_checkpoint os fs2 kc1 en session ?path (ds4_kvstore_reason_code reason) flags store_tokens txt payload hooks = (ok, fs')"
          using assms sized False ex st by (auto simp: ds4_kvstore_store_live_prefix_text_def Let_def split: prod.splits)
        have base: "fs2 p = fs p \<or> fs2 p = None" for p using evict_files(1) [OF ev, of p] fs1(1) [of p] by auto
        note w = write_checkpoint_files [OF wr(2)]
        show ?thesis using base w tmp_differs [of ?path os] st(1) evict_files(2-4,6) [OF ev] wr(1) by metis
      next
        case none: False
        then have "ok = False" "kc' = kc" "fs' = fs1"
          using assms sized False ex by (auto simp: ds4_kvstore_store_live_prefix_text_def Let_def split: prod.splits option.splits if_splits)
        then show ?thesis using fs1(1) by auto
      qed
    qed
  next
    case False
    then have "ok = False" "kc' = kc" "fs' = fs" using assms
      by (auto simp: ds4_kvstore_store_live_prefix_text_def Let_def split: prod.splits)
    then show ?thesis by simp
  qed
  then show ?thesis using ex by simp
qed


section \<open>Examples\<close>

text \<open>A session that is its token list; loading a payload yields one token, or fails.\<close>

definition sample_engine :: "bool \<Rightarrow> ds4_tokens kv_engine" where
  "sample_engine loads =
     \<lparr>ds4_engine_routed_quant_bits = 4, ds4_engine_model_id = 0, ds4_token_text = \<lambda>_. [65],
      ds4_tokenize_rendered_chat = map (\<lambda>b. int (unat b)), ds4_session_tokens = Some, ds4_session_ctx = \<lambda>_. 4096,
      ds4_session_stage_payload = \<lambda>_. Some [], ds4_session_load_payload = \<lambda>s rest n. (loads, [1], 0),
      ds4_session_invalidate = \<lambda>_. []\<rparr>"

definition open_kc :: ds4_kvstore where
  "open_kc = (sample_kc 0)\<lparr>kc_opt := ds4_kvstore_default_options\<lparr>min_tokens := 1\<rparr>\<rparr>"

definition named_os :: "u8 list \<Rightarrow> kv_os" where
  "named_os txt = sample_os\<lparr>os_readdir := \<lambda>_ _. Some [take 40 (ds4_kvstore_sha1_bytes_hex txt) @ ''.kv'']\<rparr>"

lemma open_kc_fields [simp]:
  "kc_enabled open_kc" "kc_dir open_kc = ''kv''" "min_tokens (kc_opt open_kc) = 1" "kc_budget_bytes open_kc = 0"
  "\<not> kc_reject_different_quant open_kc"
  by (simp_all add: open_kc_def sample_kc_def)

lemma sample_subject: "store_subject (sample_engine True) [1] open_kc (Some [1]) 1 None = Some ([1], [65], False)"
  by (simp add: store_subject_def sample_engine_def ds4_kvstore_tokens_copy_prefix_def ds4_kvstore_render_tokens_text_def Let_def)

lemma sample_store:
  fixes hooks :: "unit ds4_kvstore_trailer_hooks option"
  assumes "hooks = None"
  obtains bs where "ds4_kvstore_store_live_prefix_text sample_os nat_double Map.empty open_kc (sample_engine True) [1] (Some [1]) 1
      (Some ''cold'') None 0 hooks = (True, open_kc, [checkpoint_path open_kc [65] \<mapsto> bs])"
proof -
  have subject: "store_subject (sample_engine True) [1] open_kc (Some [1]) 1 None = Some ([1], [65], False)" by (rule sample_subject)
  have ex: "kv_cache_existing_compatible sample_os Map.empty open_kc p sha t m q c = (False, Map.empty)" for p sha t m q c
    by (simp add: kv_cache_existing_compatible_def)
  have st: "ds4_session_stage_payload (sample_engine True) [1] = Some []" by (simp add: sample_engine_def)
  have fits: "ds4_kvstore_file_size_fits (Some open_kc) (of_nat (length [65 :: u8])) (of_nat (length ([] :: u8 list))) 0 = (True, 53, 0)"
    by (simp add: ds4_kvstore_file_size_fits_def file_size_bytes_exact)
  have ev: "ds4_kvstore_evict sample_os nat_double fs open_kc n ic = (open_kc, fs)" for fs n ic
    by (simp add: ds4_kvstore_evict_def)
  have nf: "\<not> os_fails sample_os site p" for site p by (simp add: sample_os_def)
  have upd: "[t \<mapsto> x](p \<mapsto> x, t := None) = [p \<mapsto> x]" if "p \<noteq> t" for t p :: string and x :: "u8 list"
    using that by (auto simp: fun_eq_iff)
  have wr: "\<exists>bs. write_checkpoint sample_os Map.empty open_kc (sample_engine True) [1] p r ext [1] [65] [] hooks = (True, [p \<mapsto> bs])" for p r ext
    using tmp_differs [of p sample_os] fits
    by (intro exI [of _ "checkpoint_bytes (sample_engine True) [1] r ext (os_now sample_os) [1] [65] [] []"])
      (simp add: write_checkpoint_def Let_def nf assms kv_trailer_write_def upd)
  show thesis
    using wr [of "checkpoint_path open_kc [65]" "ds4_kvstore_reason_code (Some ''cold'')" 0] that
    by (auto simp: ds4_kvstore_store_live_prefix_text_def subject kv_trailer_serialized_size_def assms ex st fits [simplified] ev Let_def)
qed


end
