(* ===== verification/KvLoad.thy ===== *)
theory KvLoad
  imports KvStore
begin

text \<open>
  The lookup of the longest stored prefix of a prompt and the load of the checkpoint it finds. The
  last section composes the two halves: what was stored is found.
\<close>

unbundle bit_operations_syntax

section \<open>Finding the longest stored prefix\<close>

definition prefix_candidate :: "ds4_kvstore \<Rightarrow> nat \<Rightarrow> int \<Rightarrow> int \<Rightarrow> int \<Rightarrow> ds4_kvstore_entry \<Rightarrow> bool" where
  "prefix_candidate kc prompt_bytes model_id quant_bits ctx_size e \<longleftrightarrow>
     \<not> prompt_bytes < unat (e_text_bytes e)
     \<and> \<not> sint (e_tokens e) < min_tokens (kc_opt kc)
     \<and> e_model_id e = word_of_int model_id
     \<and> \<not> word_of_int ctx_size < e_ctx_size e
     \<and> (kc_reject_different_quant kc \<longrightarrow> e_quant_bits e = word_of_int quant_bits)"

definition shadowed_by :: "ds4_kvstore_entry \<Rightarrow> ds4_kvstore_entry \<Rightarrow> bool" where
  "shadowed_by e b \<longleftrightarrow> e_text_bytes e < e_text_bytes b \<or> (e_text_bytes e = e_text_bytes b \<and> e_tokens e \<le> e_tokens b)"

fun find_prefix_loop :: "(ds4_kvstore_entry \<Rightarrow> bool) \<Rightarrow> u8 list \<Rightarrow> ds4_kvstore_entry list \<Rightarrow> nat list \<Rightarrow> nat option \<Rightarrow> nat option" where
  "find_prefix_loop candidate prompt_text es [] best = best"
| "find_prefix_loop candidate prompt_text es (i # is) best =
     (let e = es ! i in
      if \<not> candidate e then find_prefix_loop candidate prompt_text es is best
      else if (case best of None \<Rightarrow> False | Some b \<Rightarrow> shadowed_by e (es ! b)) then find_prefix_loop candidate prompt_text es is best
      else if ds4_kvstore_sha1_bytes_hex (take (unat (e_text_bytes e)) prompt_text) = e_sha e
      then find_prefix_loop candidate prompt_text es is (Some i)
      else find_prefix_loop candidate prompt_text es is best)"

text \<open>\<open>None\<close> is -1.\<close>

definition ds4_kvstore_find_text_prefix ::
    "kv_os \<Rightarrow> kv_files \<Rightarrow> ds4_kvstore \<Rightarrow> u8 list option \<Rightarrow> int \<Rightarrow> int \<Rightarrow> int \<Rightarrow> ds4_kvstore \<times> nat option" where
  "ds4_kvstore_find_text_prefix os fs kc prompt_text model_id quant_bits ctx_size =
     (case prompt_text of None \<Rightarrow> (kc, None)
      | Some txt \<Rightarrow>
          let kc = kv_cache_refresh os fs kc in
          (kc, find_prefix_loop (prefix_candidate kc (length txt) model_id quant_bits ctx_size) txt (kc_entry kc)
                 [0..<length (kc_entry kc)] None))"

section \<open>Loading\<close>

record ds4_kvstore_load_result =
  lr_tokens :: int
  lr_text_bytes :: u32
  lr_quant_bits :: u8
  lr_ext_flags :: u8
  lr_path :: "string option"

definition empty_load_result :: ds4_kvstore_load_result where
  "empty_load_result = \<lparr>lr_tokens = 0, lr_text_bytes = 0, lr_quant_bits = 0, lr_ext_flags = 0, lr_path = None\<rparr>"

datatype load_failure = Invalid_header | Other_model | Text_too_long | Truncated_text | Hash_mismatch | Prefix_mismatch

text \<open>
  Reading the cached text of the file that the lookup chose and comparing it with the prompt: the
  header, the text length and the rest of the file after the text, or why not.
\<close>

definition check_cached_text ::
    "u8 list \<Rightarrow> string \<Rightarrow> int \<Rightarrow> u8 list \<Rightarrow> load_failure + (ds4_kvstore_entry \<times> u32 \<times> u8 list)" where
  "check_cached_text bs sha model_id prompt_text =
     (case ds4_kvstore_read_header bs of None \<Rightarrow> Inl Invalid_header
      | Some (hdr, text_bytes) \<Rightarrow>
          if e_model_id hdr \<noteq> word_of_int model_id then Inl Other_model
          else if length prompt_text < unat text_bytes then Inl Text_too_long
          else
            let cached_text = take (unat text_bytes) (drop 52 bs) in
            if length cached_text \<noteq> unat text_bytes then Inl Truncated_text
            else if ds4_kvstore_sha1_bytes_hex cached_text \<noteq> sha then Inl Hash_mismatch
            else if \<not> ds4_kvstore_byte_prefix_match prompt_text cached_text then Inl Prefix_mismatch
            else Inr (hdr, text_bytes, drop (52 + unat text_bytes) bs))"

text \<open>
  \<open>try_load\<close> returns the number of tokens loaded, the effective prompt, the result record, and the
  store, files, session and hook data after it.
\<close>

record ('s, 'u) load_outcome =
  lo_loaded :: int
  lo_effective_prompt :: ds4_tokens
  lo_result :: ds4_kvstore_load_result
  lo_store :: ds4_kvstore
  lo_files :: kv_files
  lo_session :: 's
  lo_hook_data :: 'u

definition load_checkpoint ::
    "kv_os \<Rightarrow> kv_files \<Rightarrow> ds4_kvstore \<Rightarrow> 's kv_engine \<Rightarrow> 's \<Rightarrow> 'u \<Rightarrow> 'u ds4_kvstore_trailer_hooks option
      \<Rightarrow> string \<Rightarrow> u8 list \<Rightarrow> ds4_kvstore_entry \<Rightarrow> u32 \<Rightarrow> u8 list \<Rightarrow> ('s, 'u) load_outcome" where
  "load_checkpoint os fs kc en session ud hooks path prompt_text hdr text_bytes rest =
     (case ds4_session_load_payload en session rest (e_payload_bytes hdr) of
        (False, session, _) \<Rightarrow>
          \<lparr>lo_loaded = 0, lo_effective_prompt = [], lo_result = empty_load_result, lo_store = kc, lo_files = fs,
           lo_session = ds4_session_invalidate en session, lo_hook_data = ud\<rparr>
      | (True, session, consumed) \<Rightarrow>
          (case ds4_session_tokens en session of
             Some loaded_tokens \<Rightarrow>
               if int (length loaded_tokens) = sint (e_tokens hdr) then
                 let loaded = sint (e_tokens hdr);
                     prompt = ds4_kvstore_build_prompt_from_exact_prefix_and_text_suffix (ds4_tokenize_rendered_chat en)
                       loaded_tokens (Some (drop (unat text_bytes) prompt_text));
                     ud = (case hooks of None \<Rightarrow> ud
                           | Some hk \<Rightarrow> (case hk_load hk of None \<Rightarrow> ud
                             | Some f \<Rightarrow> if e_ext_flags hdr AND hk_ext_flag hk \<noteq> 0 then f ud (drop consumed rest) else ud))
                 in if loaded > 0 then
                      \<lparr>lo_loaded = loaded, lo_effective_prompt = prompt,
                       lo_result = \<lparr>lr_tokens = loaded, lr_text_bytes = text_bytes, lr_quant_bits = e_quant_bits hdr,
                         lr_ext_flags = e_ext_flags hdr, lr_path = Some path\<rparr>,
                       lo_store = kc\<lparr>kc_continued_last_store_tokens := loaded\<rparr>,
                       lo_files = snd (ds4_kvstore_touch_file os fs path (e_hits hdr + 1)), lo_session = session, lo_hook_data = ud\<rparr>
                    else \<lparr>lo_loaded = loaded, lo_effective_prompt = prompt, lo_result = empty_load_result, lo_store = kc,
                       lo_files = fs, lo_session = session, lo_hook_data = ud\<rparr>
               else \<lparr>lo_loaded = 0, lo_effective_prompt = [], lo_result = empty_load_result, lo_store = kc,
                       lo_files = (if os_fails os Unlink_corrupt path then fs else fs(path := None)),
                       lo_session = ds4_session_invalidate en session, lo_hook_data = ud\<rparr>
           | None \<Rightarrow> \<lparr>lo_loaded = 0, lo_effective_prompt = [], lo_result = empty_load_result, lo_store = kc,
                       lo_files = (if os_fails os Unlink_corrupt path then fs else fs(path := None)),
                       lo_session = ds4_session_invalidate en session, lo_hook_data = ud\<rparr>))"

definition ds4_kvstore_try_load_text ::
    "kv_os \<Rightarrow> kv_files \<Rightarrow> ds4_kvstore \<Rightarrow> 's kv_engine \<Rightarrow> 's \<Rightarrow> 'u \<Rightarrow> u8 list option \<Rightarrow> 'u ds4_kvstore_trailer_hooks option
      \<Rightarrow> ('s, 'u) load_outcome" where
  "ds4_kvstore_try_load_text os fs kc en session ud prompt_text hooks =
     (let nothing = (\<lambda>kc. \<lparr>lo_loaded = 0, lo_effective_prompt = [], lo_result = empty_load_result, lo_store = kc,
                      lo_files = fs, lo_session = session, lo_hook_data = ud\<rparr>);
          quant_bits = ds4_engine_routed_quant_bits en; model_id = ds4_engine_model_id en in
      if \<not> kc_enabled kc \<or> prompt_text = None then nothing kc
      else if quant_bits \<noteq> 2 \<and> quant_bits \<noteq> 4 then nothing kc
      else case ds4_kvstore_find_text_prefix os fs kc prompt_text model_id quant_bits (ds4_session_ctx en session) of
        (kc, None) \<Rightarrow> nothing kc
      | (kc, Some idx) \<Rightarrow>
          let e = kc_entry kc ! idx; path = e_path e in
          case fs path of None \<Rightarrow> nothing kc
          | Some bs \<Rightarrow>
              if os_fails os Open_load path then nothing kc
              else case check_cached_text bs (e_sha e) model_id (the prompt_text) of
                Inl reason \<Rightarrow> nothing kc
              | Inr (hdr, text_bytes, rest) \<Rightarrow>
                  load_checkpoint os fs kc en session ud hooks path (the prompt_text) hdr text_bytes rest)"

section \<open>The lookup finds the longest match\<close>

definition text_matches :: "u8 list \<Rightarrow> ds4_kvstore_entry \<Rightarrow> bool" where
  "text_matches txt e \<longleftrightarrow> ds4_kvstore_sha1_bytes_hex (take (unat (e_text_bytes e)) txt) = e_sha e"

lemma shadowed_trans: "shadowed_by a b \<Longrightarrow> shadowed_by b c \<Longrightarrow> shadowed_by a c"
  and shadowed_total: "shadowed_by a b \<or> shadowed_by b a"
  and shadowed_refl [simp]: "shadowed_by a a"
  unfolding shadowed_by_def by auto

definition best_so_far :: "(ds4_kvstore_entry \<Rightarrow> bool) \<Rightarrow> ds4_kvstore_entry list \<Rightarrow> nat \<Rightarrow> nat option \<Rightarrow> bool" where
  "best_so_far q es i best =
     (case best of None \<Rightarrow> (\<forall>j<i. \<not> q (es ! j))
      | Some b \<Rightarrow> b < i \<and> q (es ! b) \<and> (\<forall>j<i. q (es ! j) \<longrightarrow> shadowed_by (es ! j) (es ! b)))"

lemma best_so_far_keep:
  "best_so_far q es i best \<Longrightarrow> \<not> q (es ! i) \<or> (\<exists>b. best = Some b \<and> shadowed_by (es ! i) (es ! b)) \<Longrightarrow> best_so_far q es (Suc i) best"
  by (auto simp: best_so_far_def less_Suc_eq split: option.splits)

lemma best_so_far_take:
  assumes "best_so_far q es i best" "q (es ! i)" "\<not> (\<exists>b. best = Some b \<and> shadowed_by (es ! i) (es ! b))"
  shows "best_so_far q es (Suc i) (Some i)"
proof -
  have "shadowed_by (es ! j) (es ! i)" if "j < i" "q (es ! j)" for j
  proof (cases best)
    case (Some b)
    then have "shadowed_by (es ! j) (es ! b)" "shadowed_by (es ! b) (es ! i)"
      using assms that shadowed_total by (auto simp: best_so_far_def)
    then show ?thesis by (rule shadowed_trans)
  qed (use assms that in \<open>auto simp: best_so_far_def\<close>)
  then show ?thesis using assms(2) by (auto simp: best_so_far_def less_Suc_eq)
qed

lemma find_prefix_loop_best:
  "i \<le> length es \<Longrightarrow> best_so_far (\<lambda>e. cand e \<and> text_matches txt e) es i best \<Longrightarrow>
    best_so_far (\<lambda>e. cand e \<and> text_matches txt e) es (length es) (find_prefix_loop cand txt es [i..<length es] best)"
proof (induction "length es - i" arbitrary: i best)
  case (Suc k)
  then have i: "i < length es" "[i..<length es] = i # [Suc i..<length es]" by (simp_all add: upt_conv_Cons)
  let ?q = "\<lambda>e. cand e \<and> text_matches txt e"
  let ?s = "case best of None \<Rightarrow> False | Some b \<Rightarrow> shadowed_by (es ! i) (es ! b)"
  have s: "?s \<longleftrightarrow> (\<exists>b. best = Some b \<and> shadowed_by (es ! i) (es ! b))" by (cases best) auto
  have step: "find_prefix_loop cand txt es [i..<length es] best
    = find_prefix_loop cand txt es [Suc i..<length es] (if ?q (es ! i) \<and> \<not> ?s then Some i else best)"
    unfolding i(2) by (simp add: text_matches_def Let_def)
  have "best_so_far ?q es (Suc i) (if ?q (es ! i) \<and> \<not> ?s then Some i else best)"
  proof (cases "?q (es ! i) \<and> \<not> ?s")
    case True
    then show ?thesis using best_so_far_take [OF Suc.prems(2)] s by simp
  next
    case False
    then have "\<not> ?q (es ! i) \<or> ?s" by blast
    then have "best_so_far ?q es (Suc i) best" using best_so_far_keep [OF Suc.prems(2)] s by blast
    then show ?thesis unfolding if_not_P [OF False] .
  qed
  then show ?case unfolding step using Suc.hyps i(1) by (intro Suc.hyps(1)) simp_all
qed simp

text \<open>The entries the lookup may choose for a prompt.\<close>

abbreviation usable_prefix :: "ds4_kvstore \<Rightarrow> u8 list \<Rightarrow> int \<Rightarrow> int \<Rightarrow> int \<Rightarrow> ds4_kvstore_entry \<Rightarrow> bool" where
  "usable_prefix kc txt model quant ctx e \<equiv> prefix_candidate kc (length txt) model quant ctx e \<and> text_matches txt e"

lemma find_text_prefix_best:
  assumes "ds4_kvstore_find_text_prefix os fs kc (Some txt) model quant ctx = (kc', r)"
  shows "kc' = kv_cache_refresh os fs kc"
    and "case r of None \<Rightarrow> (\<forall>e\<in>set (kc_entry kc'). \<not> usable_prefix kc' txt model quant ctx e)
      | Some i \<Rightarrow> i < length (kc_entry kc') \<and> usable_prefix kc' txt model quant ctx (kc_entry kc' ! i)
          \<and> (\<forall>e\<in>set (kc_entry kc'). usable_prefix kc' txt model quant ctx e \<longrightarrow> shadowed_by e (kc_entry kc' ! i))"
proof -
  show kc': "kc' = kv_cache_refresh os fs kc" using assms by (simp add: ds4_kvstore_find_text_prefix_def Let_def)
  have r: "r = find_prefix_loop (prefix_candidate kc' (length txt) model quant ctx) txt (kc_entry kc') [0..<length (kc_entry kc')] None"
    using assms by (auto simp: ds4_kvstore_find_text_prefix_def Let_def)
  have "best_so_far (usable_prefix kc' txt model quant ctx) (kc_entry kc') (length (kc_entry kc')) r"
    unfolding r by (rule find_prefix_loop_best) (simp_all add: best_so_far_def)
  then show "case r of None \<Rightarrow> (\<forall>e\<in>set (kc_entry kc'). \<not> usable_prefix kc' txt model quant ctx e)
      | Some i \<Rightarrow> i < length (kc_entry kc') \<and> usable_prefix kc' txt model quant ctx (kc_entry kc' ! i)
          \<and> (\<forall>e\<in>set (kc_entry kc'). usable_prefix kc' txt model quant ctx e \<longrightarrow> shadowed_by e (kc_entry kc' ! i))"
    by (cases r) (auto simp: best_so_far_def in_set_conv_nth)
qed

section \<open>What a load promises\<close>

lemma check_cached_text_Inr:
  assumes "check_cached_text bs sha model prompt = Inr (hdr, tb, rest)"
  shows "ds4_kvstore_read_header bs = Some (hdr, tb)" "e_model_id hdr = word_of_int model"
    "take (unat tb) prompt = take (unat tb) (drop 52 bs)" "unat tb \<le> length prompt"
    "ds4_kvstore_sha1_bytes_hex (take (unat tb) prompt) = sha" "rest = drop (52 + unat tb) bs"
proof -
  obtain h0 t0 where hd: "ds4_kvstore_read_header bs = Some (h0, t0)"
    using assms by (auto simp: check_cached_text_def split: option.splits)
  let ?c = "take (unat tb) (drop 52 bs)"
  have conds: "h0 = hdr" "t0 = tb" "e_model_id hdr = word_of_int model" "unat tb \<le> length prompt" "length ?c = unat tb"
    "ds4_kvstore_sha1_bytes_hex ?c = sha" "ds4_kvstore_byte_prefix_match prompt ?c" "rest = drop (52 + unat tb) bs"
    using assms unfolding check_cached_text_def hd by (auto simp: Let_def split: if_splits)
  show "ds4_kvstore_read_header bs = Some (hdr, tb)" using hd conds(1,2) by simp
  have "prefix ?c prompt" using conds(7) byte_prefix_match_prefix by blast
  then obtain r where "prompt = ?c @ r" by (auto simp: prefix_def)
  then show c: "take (unat tb) prompt = ?c" using conds(5) by (metis append_eq_conv_conj)
  show "ds4_kvstore_sha1_bytes_hex (take (unat tb) prompt) = sha" using conds(6) c by simp
  show "e_model_id hdr = word_of_int model" "unat tb \<le> length prompt" "rest = drop (52 + unat tb) bs" by (fact conds)+
qed

lemma load_checkpoint_cases:
  assumes "load_checkpoint os fs kc en session ud hooks path prompt hdr tb rest = r" and "e_tokens hdr \<noteq> 0"
  obtains (loaded) toks consumed s' where
      "ds4_session_load_payload en session rest (e_payload_bytes hdr) = (True, s', consumed)"
      "ds4_session_tokens en s' = Some toks" "lo_loaded r = int (length toks)" "0 < lo_loaded r"
      "lo_session r = s'" "lo_effective_prompt r = toks @ ds4_tokenize_rendered_chat en (drop (unat tb) prompt)"
      "lo_store r = kc\<lparr>kc_continued_last_store_tokens := lo_loaded r\<rparr>"
      "lo_files r = snd (ds4_kvstore_touch_file os fs path (e_hits hdr + 1))"
  | (failed) s' where "lo_loaded r = 0" "lo_effective_prompt r = []" "lo_session r = ds4_session_invalidate en s'"
      "lo_store r = kc" "lo_files r = fs \<or> lo_files r = fs(path := None)" "lo_hook_data r = ud"
proof -
  obtain ok s' consumed where ld: "ds4_session_load_payload en session rest (e_payload_bytes hdr) = (ok, s', consumed)"
    by (metis prod_cases3)
  have nz: "sint (e_tokens hdr) \<noteq> 0" using assms(2) signed_word_eqI [of "e_tokens hdr" 0] by auto
  show thesis
  proof (cases "ok \<and> (\<exists>toks. ds4_session_tokens en s' = Some toks \<and> int (length toks) = sint (e_tokens hdr))")
    case True
    then obtain toks where t: "ok" "ds4_session_tokens en s' = Some toks" "int (length toks) = sint (e_tokens hdr)" by blast
    then have pos: "0 < sint (e_tokens hdr)" using nz by linarith
    show thesis
      by (rule loaded [of s' consumed toks])
        (use assms(1) t ld pos in \<open>auto simp: load_checkpoint_def Let_def build_prompt_append\<close>)
  next
    case False
    show thesis
      by (rule failed [of s'])
        (use assms(1) ld False in \<open>auto simp: load_checkpoint_def Let_def split: bool.splits option.splits if_splits\<close>)
  qed
qed

lemma touch_keeps_body:
  assumes "\<And>p b. prefix (os_torn os Write_touch p b) b" and "fs path = Some bs"
  shows "\<exists>bs'. snd (ds4_kvstore_touch_file os fs path n) = fs(path \<mapsto> bs') \<and> drop 48 bs' = drop 48 bs \<and> length bs' = length bs"
proof -
  have at: "drop 48 (write_at 0 t bs) = drop 48 bs \<and> length (write_at 0 t bs) = length bs"
    if "length t \<le> 48" "48 \<le> length bs" for t
    using that by (simp add: write_at_def)
  have torn: "length (os_torn os Write_touch path b) \<le> length b" for b
    using assms(1) prefix_length_le by blast
  show ?thesis
  proof (cases "ds4_kvstore_read_header bs")
    case (Some x)
    then obtain e tb where hd: "ds4_kvstore_read_header bs = Some (e, tb)" by (cases x) simp
    have "48 \<le> length bs" using read_header_Some(1) [OF hd] by simp
    moreover have "length (os_torn os Write_touch path (refill_header e (e_ext_flags e) n (os_now os))) \<le> 48"
      using torn [of "refill_header e (e_ext_flags e) n (os_now os)"] by simp
    ultimately show ?thesis using assms(2) hd at
      by (auto simp: ds4_kvstore_touch_file_def Let_def fun_upd_idem intro: exI [of _ bs])
  qed (use assms(2) in \<open>auto simp: ds4_kvstore_touch_file_def fun_upd_idem intro: exI [of _ bs]\<close>)
qed

lemma try_load_cases:
  assumes "ds4_kvstore_try_load_text os fs kc en session ud (Some prompt) hooks = r"
  obtains (nothing) kc' where "r = \<lparr>lo_loaded = 0, lo_effective_prompt = [], lo_result = empty_load_result, lo_store = kc',
                      lo_files = fs, lo_session = session, lo_hook_data = ud\<rparr>"
  | (chosen) kc' i bs hdr tb where
      "ds4_kvstore_find_text_prefix os fs kc (Some prompt) (ds4_engine_model_id en) (ds4_engine_routed_quant_bits en)
        (ds4_session_ctx en session) = (kc', Some i)"
      "kc_enabled kc" "fs (e_path (kc_entry kc' ! i)) = Some bs"
      "check_cached_text bs (e_sha (kc_entry kc' ! i)) (ds4_engine_model_id en) prompt = Inr (hdr, tb, drop (52 + unat tb) bs)"
      "load_checkpoint os fs kc' en session ud hooks (e_path (kc_entry kc' ! i)) prompt hdr tb (drop (52 + unat tb) bs) = r"
proof -
  obtain kc' ro where f: "ds4_kvstore_find_text_prefix os fs kc (Some prompt) (ds4_engine_model_id en)
      (ds4_engine_routed_quant_bits en) (ds4_session_ctx en session) = (kc', ro)" by (metis surj_pair)
  show thesis
  proof (cases "kc_enabled kc \<and> (ds4_engine_routed_quant_bits en = 2 \<or> ds4_engine_routed_quant_bits en = 4) \<and>
      (\<exists>i bs hdr tb rest. ro = Some i \<and> fs (e_path (kc_entry kc' ! i)) = Some bs \<and> \<not> os_fails os Open_load (e_path (kc_entry kc' ! i))
        \<and> check_cached_text bs (e_sha (kc_entry kc' ! i)) (ds4_engine_model_id en) prompt = Inr (hdr, tb, rest))")
    case True
    then obtain i bs hdr tb rest where c: "kc_enabled kc" "ds4_engine_routed_quant_bits en = 2 \<or> ds4_engine_routed_quant_bits en = 4"
      "ro = Some i" "fs (e_path (kc_entry kc' ! i)) = Some bs" "\<not> os_fails os Open_load (e_path (kc_entry kc' ! i))"
      "check_cached_text bs (e_sha (kc_entry kc' ! i)) (ds4_engine_model_id en) prompt = Inr (hdr, tb, rest)" by blast
    show thesis
      by (rule chosen [of kc' i bs hdr tb])
        (use c f assms check_cached_text_Inr(6) [OF c(6)] in \<open>auto simp: ds4_kvstore_try_load_text_def Let_def\<close>)
  next
    case False
    show thesis
    proof (cases "kc_enabled kc \<and> (ds4_engine_routed_quant_bits en = 2 \<or> ds4_engine_routed_quant_bits en = 4)")
      case True
      show thesis
        by (rule nothing [of kc'])
          (use True False assms f in \<open>auto simp: ds4_kvstore_try_load_text_def Let_def split: option.splits sum.splits\<close>)
    next
      case False
      show thesis
        by (rule nothing [of kc]) (use assms False in \<open>auto simp: ds4_kvstore_try_load_text_def Let_def\<close>)
    qed
  qed
qed


text \<open>
  C19: A load that reports tokens is sound whatever the files contain and whichever hashes collide: the cached
  text is byte for byte a prefix of the prompt, the checkpoint is for this model, the session holds
  exactly the tokens reported, the effective prompt is those tokens followed by the tokens of the rest
  of the prompt, and only the header of the loaded file is touched.
\<close>

theorem load_sound:
  assumes "ds4_kvstore_try_load_text os fs kc en session ud (Some prompt) hooks = r" and "0 < lo_loaded r"
    and "\<And>p b. prefix (os_torn os Write_touch p b) b"
  shows "\<exists>e bs bs' hdr tb toks consumed. e \<in> set (kc_entry (kv_cache_refresh os fs kc)) \<and> fs (e_path e) = Some bs
    \<and> ds4_kvstore_read_header bs = Some (hdr, tb) \<and> e_model_id hdr = word_of_int (ds4_engine_model_id en)
    \<and> unat tb \<le> length prompt \<and> take (unat tb) (drop 52 bs) = take (unat tb) prompt
    \<and> ds4_session_load_payload en session (drop (52 + unat tb) bs) (e_payload_bytes hdr) = (True, lo_session r, consumed)
    \<and> ds4_session_tokens en (lo_session r) = Some toks \<and> lo_loaded r = int (length toks)
    \<and> lo_effective_prompt r = toks @ ds4_tokenize_rendered_chat en (drop (unat tb) prompt)
    \<and> kc_continued_last_store_tokens (lo_store r) = lo_loaded r
    \<and> lo_files r = fs(e_path e \<mapsto> bs') \<and> drop 48 bs' = drop 48 bs"
  using assms(1)
proof (cases rule: try_load_cases)
  case (chosen kc' i bs hdr tb)
  note found = find_text_prefix_best [OF chosen(1)]
  then have i: "kc_entry kc' ! i \<in> set (kc_entry (kv_cache_refresh os fs kc))" by auto
  note ct = check_cached_text_Inr [OF chosen(4)]
  from chosen(5) read_header_Some(2) [OF ct(1)] show ?thesis
  proof (cases rule: load_checkpoint_cases)
    case (loaded toks consumed s')
    have "\<exists>bs'. snd (ds4_kvstore_touch_file os fs (e_path (kc_entry kc' ! i)) (e_hits hdr + 1)) = fs(e_path (kc_entry kc' ! i) \<mapsto> bs')
        \<and> drop 48 bs' = drop 48 bs \<and> length bs' = length bs"
      using chosen(3) assms(3) by (intro touch_keeps_body)
    with loaded(8) obtain bs' where "lo_files r = fs(e_path (kc_entry kc' ! i) \<mapsto> bs')" "drop 48 bs' = drop 48 bs" by auto
    then show ?thesis using i chosen(3) ct loaded
      by (intro exI [of _ "kc_entry kc' ! i"] exI [of _ bs] exI [of _ bs'] exI [of _ hdr] exI [of _ tb] exI [of _ toks]
          exI [of _ consumed]) simp
  qed (use assms(2) in simp)
qed (use assms(2) in simp)

text \<open>
  C20: A load that reports nothing leaves no half-loaded session: either nothing was touched at all, or the
  session was invalidated and at most the corrupt file removed; there is no effective prompt.
\<close>

theorem load_failure_clean:
  assumes "ds4_kvstore_try_load_text os fs kc en session ud (Some prompt) hooks = r" and "\<not> 0 < lo_loaded r"
  shows "lo_loaded r = 0 \<and> lo_effective_prompt r = [] \<and> lo_hook_data r = ud
    \<and> (lo_session r = session \<and> lo_files r = fs
       \<or> (\<exists>s'. lo_session r = ds4_session_invalidate en s') \<and> (\<forall>p. lo_files r p = fs p \<or> lo_files r p = None))"
  using assms(1)
proof (cases rule: try_load_cases)
  case (chosen kc' i bs hdr tb)
  note ct = check_cached_text_Inr [OF chosen(4)]
  from chosen(5) read_header_Some(2) [OF ct(1)] show ?thesis
  proof (cases rule: load_checkpoint_cases)
    case (failed s')
    then show ?thesis by (auto split: if_splits)
  qed (use assms(2) in simp)
qed simp

lemma refresh_entries_member:
  "name \<in> set names \<Longrightarrow> ds4_kvstore_sha_hex_name name = Some sha \<Longrightarrow>
    ds4_kvstore_read_entry_file os fs (ds4_kvstore_path_join dir name) sha = Some e \<Longrightarrow> e \<in> set (refresh_entries os fs dir names)"
  by (induction names) (auto split: option.splits)

lemma unat_ucast_u64: "unat (ucast (x :: u32) :: u64) = unat x"
proof -
  have "unat x < 2 ^ 64" using unat_u32_bound [of x] by simp
  then show ?thesis by (simp add: unsigned_ucast_eq take_bit_nat_eq_self)
qed

lemma read_entry_file_complete:
  assumes "fs path = Some bs" "ds4_kvstore_read_header bs = Some (hdr, tb)"
    and "\<not> os_fails os Stat_entry path" "\<not> os_fails os Open_entry path"
    and "52 + unat tb + unat (e_payload_bytes hdr) \<le> length bs" "length bs \<le> UINT64_MAX"
  shows "ds4_kvstore_read_entry_file os fs path sha = Some (hdr\<lparr>e_sha := sha, e_path := path, e_file_size := of_nat (length bs)\<rparr>)"
proof -
  have tb: "unat (ucast tb :: u64) = unat tb" by (rule unat_ucast_u64)
  have total: "52 + unat (ucast tb :: u64) + unat (e_payload_bytes hdr) + unat (0 :: u64) \<le> UINT64_MAX" using assms(5,6) tb by simp
  then have "kv_cache_file_size_bytes (ucast tb) (e_payload_bytes hdr) 0 = Some (52 + ucast tb + e_payload_bytes hdr)"
    by (simp add: file_size_bytes_exact)
  then have guard: "\<not> ((- 1) - (48 + 4) < (ucast tb :: u64) \<or> (- 1) - (48 + 4) - ucast tb < e_payload_bytes hdr)"
    by (auto simp: kv_cache_file_size_bytes_def Let_def split: if_splits)
  have "unat (52 + ucast tb + e_payload_bytes hdr :: u64) = 52 + unat tb + unat (e_payload_bytes hdr)"
    using file_size_unat [OF total] tb by simp
  then have "\<not> of_nat (length bs) < (48 + 4 + ucast tb + e_payload_bytes hdr :: u64)"
    using assms(5) unat_u64_of_nat [OF assms(6)] by (simp add: word_less_nat_alt)
  moreover have "52 \<le> length bs" using read_header_Some(1) [OF assms(2)] .
  ultimately show ?thesis using assms(1-4) guard
    by (simp add: ds4_kvstore_read_entry_file_def DS4_KVSTORE_FIXED_HEADER_def Let_def)
qed

lemma reason_code_known: "ds4_kvstore_reason_code r \<le> 6"
  by (simp add: ds4_kvstore_reason_code_def reason_codes split: option.splits)

lemma store_subject_Some:
  assumes "store_subject en session kc tokens store_len override = Some (toks, txt, ov)"
  shows "kc_enabled kc" "ds4_engine_routed_quant_bits en = 2 \<or> ds4_engine_routed_quant_bits en = 4"
    "length txt \<le> UINT32_MAX" "\<exists>live. ds4_session_tokens en session = Some live \<and> live = toks"
proof -
  have len: "prefix a b \<Longrightarrow> length b = length a \<Longrightarrow> b = a" for a b :: "int list"
    by (metis prefix_order.eq_iff prefix_length_prefix le_refl prefix_def append_eq_append_conv append_Nil2)
  show "kc_enabled kc" "ds4_engine_routed_quant_bits en = 2 \<or> ds4_engine_routed_quant_bits en = 4"
    "length txt \<le> UINT32_MAX" "\<exists>live. ds4_session_tokens en session = Some live \<and> live = toks"
    using assms len by (auto simp: store_subject_def Let_def split: if_splits option.splits)
qed

lemma checkpoint_header:
  assumes "0 < length toks" "length toks < 2147483648"
    and "ds4_engine_routed_quant_bits en = 2 \<or> ds4_engine_routed_quant_bits en = 4" and "reason \<le> 6"
  shows "ds4_kvstore_read_header (checkpoint_bytes en session reason flags now toks txt payload trailer)
    = Some (header_entry (word_of_int (ds4_engine_model_id en)) (word_of_int (ds4_engine_routed_quant_bits en)) reason flags
        (of_nat (length toks)) 0 (word_of_int (ds4_session_ctx en session)) now now (of_nat (length payload))
        (of_nat (length txt)), of_nat (length txt))"
proof -
  have "unat (of_nat (length toks) :: u32) = length toks" using assms(2) by (intro unat_u32_of_nat) simp
  then have "(of_nat (length toks) :: u32) \<noteq> 0" using assms(1) by (metis unat_0 less_numeral_extra(3))
  moreover have "(word_of_int (ds4_engine_routed_quant_bits en) :: u8) = 2 \<or> (word_of_int (ds4_engine_routed_quant_bits en) :: u8) = 4"
    using assms(3) by auto
  ultimately show ?thesis unfolding checkpoint_bytes_def by (intro read_fill_header assms(4))
qed

text \<open>
  C21: A checkpoint that was stored is found again: for every prompt that extends its text, the lookup returns
  an entry whose text is at least as long.
\<close>

theorem stored_is_found:
  assumes subject: "store_subject en session kc tokens store_len override = Some (toks, txt, text_override)"
    and store: "ds4_kvstore_store_live_prefix_text os d fs kc en session tokens store_len reason override ext hooks = (True, kc', fs')"
    and fresh: "fs (checkpoint_path kc txt) = None"
    and tokens: "0 < length toks" "length toks < 2147483648" "min_tokens (kc_opt kc) \<le> int (length toks)"
    and small: "\<And>payload. ds4_session_stage_payload en session = Some payload \<Longrightarrow>
      52 + length txt + length payload + length (fst (snd (kv_trailer_write hooks txt))) \<le> UINT64_MAX"
    and reads: "\<And>p. \<not> os_fails os' Stat_entry p" "\<And>p. \<not> os_fails os' Open_entry p"
    and listed: "os_readdir os' (kc_dir kc) fs' = Some names" "\<And>n. fs' (ds4_kvstore_path_join (kc_dir kc) n) \<noteq> None \<Longrightarrow> n \<in> set names"
  shows "\<exists>kc'' i. ds4_kvstore_find_text_prefix os' fs' kc' (Some (txt @ tail_text)) (ds4_engine_model_id en)
        (ds4_engine_routed_quant_bits en) (ds4_session_ctx en session) = (kc'', Some i)
    \<and> i < length (kc_entry kc'') \<and> length txt \<le> unat (e_text_bytes (kc_entry kc'' ! i))"
proof -
  let ?path = "checkpoint_path kc txt" and ?sha = "ds4_kvstore_sha1_bytes_hex txt"
  note subj = store_subject_Some [OF subject]
  note out = store_outcome [OF subject store]
  have "\<not> fst (kv_cache_existing_compatible os fs kc ?path ?sha txt (ds4_engine_model_id en)
      (ds4_engine_routed_quant_bits en) (ds4_session_ctx en session))"
    using fresh by (simp add: kv_cache_existing_compatible_def)
  with out obtain payload flags where st: "ds4_session_stage_payload en session = Some payload"
    and fl: "fs' ?path = Some (checkpoint_bytes en session (ds4_kvstore_reason_code reason) flags (os_now os)
                  toks txt payload (fst (snd (kv_trailer_write hooks txt))))" by blast
  let ?bs = "checkpoint_bytes en session (ds4_kvstore_reason_code reason) flags (os_now os) toks txt payload (fst (snd (kv_trailer_write hooks txt)))"
  note hd = checkpoint_header [OF tokens(1,2) subj(2) reason_code_known, of "session" reason flags "os_now os" "txt" payload
      "fst (snd (kv_trailer_write hooks txt))"]
  let ?hdr = "header_entry (word_of_int (ds4_engine_model_id en)) (word_of_int (ds4_engine_routed_quant_bits en)) (ds4_kvstore_reason_code reason) flags
        (of_nat (length toks)) 0 (word_of_int (ds4_session_ctx en session)) (os_now os) (os_now os) (of_nat (length payload)) (of_nat (length txt))"
  have lens: "length ?bs = 52 + length txt + length payload + length (fst (snd (kv_trailer_write hooks txt)))"
    by (simp add: checkpoint_bytes_def le32.put_width)
  have tl: "unat (of_nat (length txt) :: u32) = length txt" using subj(3) by (rule unat_u32_of_nat)
  have pl: "unat (of_nat (length payload) :: u64) = length payload" using small [OF st] by (intro unat_u64_of_nat) simp
  have tt: "unat (of_nat (length toks) :: u32) = length toks" using tokens(2) by (intro unat_u32_of_nat) simp
  let ?e = "?hdr\<lparr>e_sha := ?sha, e_path := ?path, e_file_size := of_nat (length ?bs)\<rparr>"
  have read: "ds4_kvstore_read_entry_file os' fs' ?path ?sha = Some ?e"
    by (rule read_entry_file_complete [where fs = fs' and os = os' and path = ?path, OF fl hd reads(1) [of ?path] reads(2) [of ?path]]) (use lens small [OF st] tl pl in \<open>simp_all add: header_entry_def\<close>)
  let ?name = "take 40 ?sha @ ''.kv''"
  have path: "?path = ds4_kvstore_path_join (kc_dir kc) ?name" by (simp add: ds4_kvstore_path_for_sha_def)
  have "?name \<in> set names" using fl path by (intro listed(2)) simp
  then have mem: "?e \<in> set (refresh_entries os' fs' (kc_dir kc) names)"
    by (rule refresh_entries_member [OF _ sha_name]) (use read path in simp)
  obtain kc'' r where find: "ds4_kvstore_find_text_prefix os' fs' kc' (Some (txt @ tail_text)) (ds4_engine_model_id en)
        (ds4_engine_routed_quant_bits en) (ds4_session_ctx en session) = (kc'', r)" by (metis surj_pair)
  note best = find_text_prefix_best [OF find]
  have mem'': "?e \<in> set (kc_entry kc'')"
    using mem out listed(1) subj(1) by (simp add: best(1) kv_cache_refresh_def ds4_kvstore_clear_def Let_def)
  have et: "unat (e_text_bytes ?e) = length txt"
    using tl by (simp add: header_entry_def unat_ucast_u64) 
  have "sint (of_nat (length toks) :: u32) = int (length toks)"
    using tokens(2) by (simp add: signed_of_nat signed_take_bit_int_eq_self)
  then have "usable_prefix kc'' (txt @ tail_text) (ds4_engine_model_id en) (ds4_engine_routed_quant_bits en) (ds4_session_ctx en session) ?e"
    using et tokens(3) out by (simp add: prefix_candidate_def text_matches_def best(1) header_entry_def)
  with best(2) mem'' obtain i where i: "r = Some i" "i < length (kc_entry kc'')" "shadowed_by ?e (kc_entry kc'' ! i)"
    by (cases r) auto
  then have "unat (e_text_bytes ?e) \<le> unat (e_text_bytes (kc_entry kc'' ! i))"
    by (auto simp: shadowed_by_def word_less_nat_alt)
  with i find et show ?thesis by auto
qed

section \<open>Examples\<close>

lemma stored_is_found_witness:
  "\<exists>fs' kc'' i. ds4_kvstore_store_live_prefix_text sample_os nat_double Map.empty open_kc (sample_engine True) [1] (Some [1]) 1
      (Some ''cold'') None 0 (None :: unit ds4_kvstore_trailer_hooks option) = (True, open_kc, fs')
    \<and> ds4_kvstore_find_text_prefix (named_os [65]) fs' open_kc (Some ([65] @ [66])) 0 4 4096 = (kc'', Some i)
    \<and> 1 \<le> unat (e_text_bytes (kc_entry kc'' ! i))"
proof -
  obtain bs where s: "ds4_kvstore_store_live_prefix_text sample_os nat_double Map.empty open_kc (sample_engine True) [1] (Some [1]) 1
      (Some ''cold'') None 0 (None :: unit ds4_kvstore_trailer_hooks option) = (True, open_kc, [checkpoint_path open_kc [65] \<mapsto> bs])"
    by (rule sample_store [OF refl])
  let ?fs = "[checkpoint_path open_kc [65] \<mapsto> bs]" and ?name = "take 40 (ds4_kvstore_sha1_bytes_hex [65]) @ ''.kv''"
  have "\<exists>kc'' i. ds4_kvstore_find_text_prefix (named_os [65]) ?fs open_kc (Some ([65] @ [66])) (ds4_engine_model_id (sample_engine True))
        (ds4_engine_routed_quant_bits (sample_engine True)) (ds4_session_ctx (sample_engine True) [1]) = (kc'', Some i)
    \<and> i < length (kc_entry kc'') \<and> length [65 :: u8] \<le> unat (e_text_bytes (kc_entry kc'' ! i))"
  proof (rule stored_is_found [OF sample_subject s])
    show "os_readdir (named_os [65]) (kc_dir open_kc) ?fs = Some [?name]" by (simp add: named_os_def)
    show "n \<in> set [?name]" if "?fs (ds4_kvstore_path_join (kc_dir open_kc) n) \<noteq> None" for n
      using that by (simp add: ds4_kvstore_path_for_sha_def split: if_splits)
  qed (simp_all add: named_os_def sample_os_def sample_engine_def kv_trailer_write_def)
  then show ?thesis using s by (auto simp: sample_engine_def)
qed

text \<open>The sample file under the name of the empty text.\<close>

lemma empty_text_load:
  fixes ud :: unit
  defines "fs \<equiv> [checkpoint_path open_kc [] \<mapsto> sample_file]"
  shows "lo_loaded (ds4_kvstore_try_load_text (named_os []) fs open_kc (sample_engine loads) [] ud (Some [72]) None) = (if loads then 1 else 0)"
proof -
  let ?sha = "ds4_kvstore_sha1_bytes_hex []" and ?path = "checkpoint_path open_kc []"
  let ?e = "sample_entry\<lparr>e_sha := ?sha, e_path := ?path\<rparr>"
  have os: "\<not> os_fails (named_os []) site p" for site p by (simp add: named_os_def sample_os_def)
  have rd: "os_readdir (named_os []) dir f = Some [take 40 ?sha @ ''.kv'']" for dir f by (simp add: named_os_def)
  have pj: "ds4_kvstore_path_join ''kv'' (take 40 ?sha @ ''.kv'') = ?path" by (simp add: ds4_kvstore_path_for_sha_def)
  have read: "ds4_kvstore_read_entry_file (named_os []) fs ?path ?sha = Some ?e"
    using sample_header
    by (simp add: ds4_kvstore_read_entry_file_def fs_def os DS4_KVSTORE_FIXED_HEADER_def sample_entry_def Let_def)
  have ref: "kv_cache_refresh (named_os []) fs open_kc = open_kc\<lparr>kc_entry := [?e]\<rparr>"
    by (simp add: kv_cache_refresh_def ds4_kvstore_clear_def rd sha_name pj read)
  have cand: "prefix_candidate (open_kc\<lparr>kc_entry := [?e]\<rparr>) (length [72 :: u8]) 0 4 4096 ?e"
    by (simp add: prefix_candidate_def sample_entry_def)
  have text_empty: "unat (e_text_bytes ?e) = 0" "e_sha ?e = ?sha" "e_path ?e = ?path" by (simp_all add: sample_entry_def)
  have find: "ds4_kvstore_find_text_prefix (named_os []) fs open_kc (Some [72]) 0 4 4096 = (open_kc\<lparr>kc_entry := [?e]\<rparr>, Some 0)"
    using cand text_empty by (simp add: ds4_kvstore_find_text_prefix_def ref Let_def)
  have check: "check_cached_text sample_file ?sha 0 [72] = Inr (sample_entry\<lparr>e_sha := [], e_path := [], e_file_size := 0\<rparr>, 0, drop 52 sample_file)"
    by (simp add: check_cached_text_def sample_header ds4_kvstore_byte_prefix_match_def) (simp add: sample_entry_def)
  show ?thesis
    using find check
    by (simp add: ds4_kvstore_try_load_text_def sample_engine_def os text_empty)
      (simp add: fs_def load_checkpoint_def sample_entry_def Let_def os)
qed

lemma load_sound_witness:
  "\<exists>r toks. ds4_kvstore_try_load_text (named_os []) [checkpoint_path open_kc [] \<mapsto> sample_file] open_kc (sample_engine True) [] ()
      (Some [72]) None = r \<and> lo_loaded r = 1 \<and> lo_effective_prompt r = toks @ map (\<lambda>b. int (unat b)) (drop (unat (0 :: u32)) [72 :: u8])"
proof -
  define fs where "fs = [checkpoint_path open_kc [] \<mapsto> sample_file]"
  define r where "r = ds4_kvstore_try_load_text (named_os []) fs open_kc (sample_engine True) [] () (Some [72]) None"
  have torn: "prefix (os_torn (named_os []) Write_touch p b) b" for p b by (simp add: named_os_def sample_os_def)
  have pos: "lo_loaded r = 1" using empty_text_load [of True "()"] by (simp add: r_def fs_def)
  have "0 < lo_loaded r" using pos by simp
  from load_sound [where r = r and ud = "()" and os = "named_os []" and fs = fs and kc = open_kc and en = "sample_engine True"
        and prompt = "[72]" and hooks = None, OF r_def [symmetric] this torn]
  obtain e :: ds4_kvstore_entry and bs hdr tb toks where found: "fs (e_path e) = Some bs" "ds4_kvstore_read_header bs = Some (hdr, tb)"
    "lo_effective_prompt r = toks @ ds4_tokenize_rendered_chat (sample_engine True) (drop (unat tb) [72])"
    by (elim exE conjE) blast
  then have "tb = 0" using sample_header by (auto simp: fs_def split: if_splits)
  then have "lo_effective_prompt r = toks @ map (\<lambda>b. int (unat b)) (drop (unat (0 :: u32)) [72 :: u8])"
    using found(3) by (simp add: sample_engine_def)
  with pos show ?thesis unfolding r_def fs_def by blast
qed

lemma load_failure_clean_witness:
  "\<exists>r. ds4_kvstore_try_load_text (named_os []) [checkpoint_path open_kc [] \<mapsto> sample_file] open_kc (sample_engine False) [] ()
      (Some [72]) None = r \<and> lo_loaded r = 0 \<and> lo_effective_prompt r = []"
proof -
  let ?r = "ds4_kvstore_try_load_text (named_os []) [checkpoint_path open_kc [] \<mapsto> sample_file] open_kc (sample_engine False) [] () (Some [72]) None"
  have "\<not> 0 < lo_loaded ?r" using empty_text_load [of False "()"] by simp
  from load_failure_clean [OF refl this] show ?thesis by blast
qed

end
