(* ===== verification/ServerJson.thy ===== *)
theory ServerJson
  imports CText
begin

text \<open>
  The JSON reader and writer of \<open>ds4_server.c\<close>. A pointer into the request is the rest of the text and
  a failed parse is \<open>None\<close>; a string keeps the bytes it was decoded to (the C caller that reads it as a
  C string stops at a decoded NUL). The syntax that \<open>strtod\<close> accepts is written out, its value is a
  parameter.
\<close>

unbundle bit_operations_syntax

section \<open>Scanning\<close>

definition json_ws :: "string \<Rightarrow> string" where
  "json_ws p = dropWhile isspace p"

definition json_lit :: "string \<Rightarrow> string \<Rightarrow> string option" where
  "json_lit p lit = (if take (length lit) p = lit then Some (drop (length lit) p) else None)"

text \<open>-1 for no digit; the NUL at the end of the text is none.\<close>

definition json_hex :: "char \<Rightarrow> int" where
  "json_hex c =
     (let k = int (char_code c) in
      if 48 \<le> k \<and> k \<le> 57 then k - 48
      else if 97 \<le> k \<and> k \<le> 102 then 10 + k - 97
      else if 65 \<le> k \<and> k \<le> 70 then 10 + k - 65
      else -1)"

abbreviation byte_char :: "nat \<Rightarrow> char" where
  "byte_char n \<equiv> char_of n"

definition utf8_put :: "nat \<Rightarrow> string" where
  "utf8_put cp =
     (let cp = (if 0x10ffff < cp \<or> (0xd800 \<le> cp \<and> cp \<le> 0xdfff) then 0xfffd else cp) in
      if cp \<le> 0x7f then [byte_char cp]
      else if cp \<le> 0x7ff then [byte_char (0xc0 + cp div 64), byte_char (0x80 + cp mod 64)]
      else if cp \<le> 0xffff then
        [byte_char (0xe0 + cp div 4096), byte_char (0x80 + cp div 64 mod 64), byte_char (0x80 + cp mod 64)]
      else
        [byte_char (0xf0 + cp div 262144), byte_char (0x80 + cp div 4096 mod 64), byte_char (0x80 + cp div 64 mod 64),
         byte_char (0x80 + cp mod 64)])"

text \<open>Four hexadecimal digits; \<open>None\<close> when one of them is missing.\<close>

fun hex4 :: "nat \<Rightarrow> nat \<Rightarrow> string \<Rightarrow> nat option" where
  "hex4 0 cp s = Some cp"
| "hex4 (Suc n) cp [] = None"
| "hex4 (Suc n) cp (c # s) = (if json_hex c < 0 then None else hex4 n (cp * 16 + nat (json_hex c)) s)"

definition json_u16 :: "string \<Rightarrow> (nat \<times> string) option" where
  "json_u16 p =
     (case p of c # u # ds \<Rightarrow>
        if c \<noteq> CHR 0x5C \<or> u \<noteq> CHR ''u'' then None
        else (case hex4 4 0 ds of None \<Rightarrow> None | Some cp \<Rightarrow> Some (cp, drop 4 ds))
      | _ \<Rightarrow> None)"

text \<open>The escape at a backslash: the decoded bytes and the rest.\<close>

definition json_escape_at :: "string \<Rightarrow> (string \<times> string) option" where
  "json_escape_at p =
     (case p of b # c # q \<Rightarrow>
        if c = CHR 0x22 then Some ([CHR 0x22], q)
        else if c = CHR 0x5C then Some ([CHR 0x5C], q)
        else if c = CHR ''/'' then Some ([CHR ''/''], q)
        else if c = CHR ''b'' then Some ([CHR 0x08], q)
        else if c = CHR ''f'' then Some ([CHR 0x0C], q)
        else if c = CHR ''n'' then Some ([CHR 0x0A], q)
        else if c = CHR ''r'' then Some ([CHR 0x0D], q)
        else if c = CHR ''t'' then Some ([CHR 0x09], q)
        else if c = CHR ''u'' then
          (case json_u16 p of None \<Rightarrow> None
           | Some (cp, q) \<Rightarrow>
               if 0xd800 \<le> cp \<and> cp \<le> 0xdbff then
                 (case json_u16 q of
                    Some (lo, q') \<Rightarrow>
                      if 0xdc00 \<le> lo \<and> lo \<le> 0xdfff
                      then Some (utf8_put (0x10000 + (cp - 0xd800) * 1024 + (lo - 0xdc00)), q')
                      else Some (utf8_put 0xfffd, q)
                  | None \<Rightarrow> Some (utf8_put 0xfffd, q))
               else Some (utf8_put cp, q))
        else None
      | _ \<Rightarrow> None)"

lemma json_u16_shorter: "json_u16 p = Some (cp, q) \<Longrightarrow> length q < length p"
  by (auto simp: json_u16_def split: list.splits if_splits option.splits)

lemma json_escape_shorter: "json_escape_at p = Some (out, q) \<Longrightarrow> length q < length p"
  by (auto simp: json_escape_at_def dest!: json_u16_shorter split: list.splits if_splits option.splits)

text \<open>The body of a string, after the opening quote.\<close>

function json_string_body :: "string \<Rightarrow> (string \<times> string) option" where
  "json_string_body p =
     (case p of [] \<Rightarrow> None
      | c # q \<Rightarrow>
          if c = CHR 0x22 then Some ([], q)
          else if c \<noteq> CHR 0x5C then map_option (\<lambda>(out, r). (c # out, r)) (json_string_body q)
          else (case json_escape_at p of None \<Rightarrow> None
            | Some (bs, q) \<Rightarrow> map_option (\<lambda>(out, r). (bs @ out, r)) (json_string_body q)))"
  by pat_completeness auto
termination
  by (relation "measure length") (auto dest: json_escape_shorter)

declare json_string_body.simps [simp del]

definition json_string :: "string \<Rightarrow> (string \<times> string) option" where
  "json_string p =
     (case json_ws p of c # q \<Rightarrow> if c = CHR 0x22 then json_string_body q else None | [] \<Rightarrow> None)"

section \<open>Numbers\<close>

text \<open>
  The subject sequence of \<open>strtod\<close>: the text after it, or \<open>None\<close> when there is none (\<open>end\<close> is then the
  start). The value is the parameter of the functions that use it.
\<close>

definition skip_sign :: "string \<Rightarrow> string" where
  "skip_sign s = (case s of c # r \<Rightarrow> if c = CHR ''+'' \<or> c = CHR ''-'' then r else s | [] \<Rightarrow> s)"

definition scan_exponent :: "(char \<Rightarrow> bool) \<Rightarrow> string \<Rightarrow> string" where
  "scan_exponent marker s =
     (case s of c # r \<Rightarrow>
        if marker c \<and> takeWhile isdigit (skip_sign r) \<noteq> [] then dropWhile isdigit (skip_sign r) else s
      | [] \<Rightarrow> s)"

definition scan_mantissa :: "(char \<Rightarrow> bool) \<Rightarrow> string \<Rightarrow> string option" where
  "scan_mantissa digit s =
     (let a = takeWhile digit s; r = dropWhile digit s in
      if r \<noteq> [] \<and> hd r = CHR ''.'' \<and> (a \<noteq> [] \<or> takeWhile digit (tl r) \<noteq> []) then Some (dropWhile digit (tl r))
      else if a \<noteq> [] then Some r else None)"

definition starts_ci :: "string \<Rightarrow> string \<Rightarrow> bool" where
  "starts_ci w s \<longleftrightarrow> map tolower (take (length w) s) = w"

definition nan_char :: "char \<Rightarrow> bool" where
  "nan_char x \<longleftrightarrow> isdigit x \<or> (97 \<le> char_code (tolower x) \<and> char_code (tolower x) \<le> 122) \<or> x = CHR ''_''"

definition scan_nan_payload :: "string \<Rightarrow> string" where
  "scan_nan_payload s =
     (case s of c # r \<Rightarrow>
        let body = dropWhile nan_char r in
        if c = CHR ''('' \<and> body \<noteq> [] \<and> hd body = CHR '')'' then tl body else s
      | [] \<Rightarrow> s)"

definition strtod_rest :: "string \<Rightarrow> string option" where
  "strtod_rest s =
     (let u = skip_sign (dropWhile isspace s) in
      if starts_ci ''infinity'' u then Some (drop 8 u)
      else if starts_ci ''inf'' u then Some (drop 3 u)
      else if starts_ci ''nan'' u then Some (scan_nan_payload (drop 3 u))
      else case (if starts_ci ''0x'' u then scan_mantissa isxdigit (drop 2 u) else None) of
        Some r \<Rightarrow> Some (scan_exponent (\<lambda>c. tolower c = CHR ''p'') r)
      | None \<Rightarrow> map_option (scan_exponent (\<lambda>c. tolower c = CHR ''e'')) (scan_mantissa isdigit u))"

record 'd json_double =
  jd_value :: "string \<Rightarrow> 'd"
  jd_ge_0 :: "'d \<Rightarrow> bool"
  jd_gt_int_max :: "'d \<Rightarrow> bool"
  jd_to_int :: "'d \<Rightarrow> int"

definition json_number :: "'d json_double \<Rightarrow> string \<Rightarrow> ('d \<times> string) option" where
  "json_number d p =
     (let p = json_ws p in
      case strtod_rest p of None \<Rightarrow> None | Some r \<Rightarrow> Some (jd_value d (take (length p - length r) p), r))"

definition json_int :: "'d json_double \<Rightarrow> string \<Rightarrow> (int \<times> string) option" where
  "json_int d p =
     (case json_number d p of None \<Rightarrow> None
      | Some (v, r) \<Rightarrow> Some (if \<not> jd_ge_0 d v then 0 else if jd_gt_int_max d v then INT_MAX else jd_to_int d v, r))"

definition json_bool :: "string \<Rightarrow> (bool \<times> string) option" where
  "json_bool p =
     (let p = json_ws p in
      case json_lit p ''true'' of Some r \<Rightarrow> Some (True, r)
      | None \<Rightarrow> (case json_lit p ''false'' of Some r \<Rightarrow> Some (False, r) | None \<Rightarrow> None))"

lemma json_ws_shorter: "length (json_ws p) \<le> length p"
  unfolding json_ws_def by (rule length_dropWhile_le)

lemma json_string_body_shorter: "json_string_body p = Some (out, r) \<Longrightarrow> length r < length p"
proof (induction p arbitrary: out r rule: json_string_body.induct)
  case (1 p)
  show ?case
  proof (cases p)
    case (Cons c q)
    consider "c = CHR 0x22" | "c \<noteq> CHR 0x22" "c \<noteq> CHR 0x5C" | "c = CHR 0x5C" by blast
    then show ?thesis
    proof cases
      case 2
      then obtain out' where "json_string_body q = Some (out', r)" using "1.prems" Cons by (subst (asm) json_string_body.simps) auto
      from "1.IH"(1) [OF Cons 2 this] show ?thesis using Cons by simp
    next
      case 3
      then obtain bs q' out' where e: "json_escape_at p = Some (bs, q')" "json_string_body q' = Some (out', r)"
        using "1.prems" Cons by (subst (asm) json_string_body.simps) (auto split: option.splits)
      from "1.IH"(2) [OF Cons _ _ e(1) refl e(2)] 3 json_escape_shorter [OF e(1)] show ?thesis by simp
    qed (use "1.prems" Cons in \<open>subst (asm) json_string_body.simps, simp\<close>)
  qed (use "1.prems" in \<open>simp add: json_string_body.simps\<close>)
qed

lemma json_string_shorter: "json_string p = Some (out, r) \<Longrightarrow> length r < length p"
  using json_ws_shorter [of p]
  by (auto simp: json_string_def dest!: json_string_body_shorter split: list.splits if_splits)

lemma skip_sign_shorter: "length (skip_sign s) \<le> length s"
  by (simp add: skip_sign_def split: list.splits)

lemma scan_exponent_shorter: "length (scan_exponent m s) \<le> length s"
  using skip_sign_shorter [of "tl s"] length_dropWhile_le [of isdigit "skip_sign (tl s)"]
  by (auto simp: scan_exponent_def split: list.splits)

lemma scan_mantissa_shorter: "scan_mantissa d s = Some r \<Longrightarrow> length r < length s"
proof -
  assume a: "scan_mantissa d s = Some r"
  have split: "length s = length (takeWhile d s) + length (dropWhile d s)" by (metis length_append takeWhile_dropWhile_id)
  show ?thesis
  proof (cases "dropWhile d s \<noteq> [] \<and> r = dropWhile d (tl (dropWhile d s))")
    case True
    then have "length r \<le> length (tl (dropWhile d s))" by (metis length_dropWhile_le)
    then show ?thesis using True split by (cases "dropWhile d s") auto
  next
    case False
    then have "r = dropWhile d s" "takeWhile d s \<noteq> []" using a by (auto simp: scan_mantissa_def Let_def split: if_splits)
    then show ?thesis using split by (metis length_greater_0_conv less_add_same_cancel2)
  qed
qed

lemma starts_ci_length: "starts_ci w s \<Longrightarrow> length w \<le> length s"
  by (auto simp: starts_ci_def dest: arg_cong [where f = length])

lemma scan_nan_payload_shorter: "length (scan_nan_payload s) \<le> length s"
proof (cases s)
  case (Cons c r)
  have "length (dropWhile nan_char r) \<le> length r" by (rule length_dropWhile_le)
  then show ?thesis unfolding Cons by (auto simp: scan_nan_payload_def Let_def)
qed (simp add: scan_nan_payload_def)

lemma strtod_progress: "strtod_rest s = Some r \<Longrightarrow> length r < length s"
proof -
  assume a: "strtod_rest s = Some r"
  let ?u = "skip_sign (dropWhile isspace s)"
  have u: "length ?u \<le> length s" using skip_sign_shorter length_dropWhile_le by (meson order_trans)
  have word: "length (drop n ?u) < length s" if "starts_ci w ?u" "n = length w" "0 < n" for n w
    using starts_ci_length [OF that(1)] that(2,3) u by (simp only: length_drop)
  consider (infinity) "starts_ci ''infinity'' ?u" "r = drop 8 ?u" | (inf) "starts_ci ''inf'' ?u" "r = drop 3 ?u"
    | (nan) "starts_ci ''nan'' ?u" "r = scan_nan_payload (drop 3 ?u)"
    | (hex) r0 m where "scan_mantissa isxdigit (drop 2 ?u) = Some r0" "r = scan_exponent m r0"
    | (dec) r0 m where "scan_mantissa isdigit ?u = Some r0" "r = scan_exponent m r0"
    using a by (auto simp: strtod_rest_def Let_def split: if_splits option.splits)
  then show ?thesis
  proof cases
    case infinity
    then show ?thesis using word [OF infinity(1), of 8] by simp
  next
    case inf
    then show ?thesis using word [OF inf(1), of 3] by simp
  next
    case nan
    then show ?thesis using word [OF nan(1), of 3] scan_nan_payload_shorter [of "drop 3 ?u"] by simp
  next
    case hex
    then show ?thesis using scan_mantissa_shorter [OF hex(1)] scan_exponent_shorter [of m r0] u by simp
  next
    case dec
    then show ?thesis using scan_mantissa_shorter [OF dec(1)] scan_exponent_shorter [of m r0] u by simp
  qed
qed

lemma json_lit_shorter: "json_lit p l = Some r \<Longrightarrow> l \<noteq> [] \<Longrightarrow> length r < length p"
  by (cases p) (auto simp: json_lit_def split: if_splits)

lemma json_ws_Cons: "json_ws p = c # q \<Longrightarrow> length q < length p"
  using json_ws_shorter [of p] by simp

section \<open>Skipping a value\<close>

definition JSON_MAX_NESTING :: nat where "JSON_MAX_NESTING = 256"

text \<open>
  The rest after the value, or \<open>None\<close>. The recursion is on the remaining text: a loop goes on only
  when the value it skipped consumed some of it, which \<open>json_skip_shorter\<close> shows it always does, so the
  test is redundant and the equations of the code hold as they are written there.
\<close>

function (sequential) json_skip_value_depth :: "string \<Rightarrow> nat \<Rightarrow> string option"
  and json_skip_array_depth :: "string \<Rightarrow> nat \<Rightarrow> string option"
  and json_skip_object_depth :: "string \<Rightarrow> nat \<Rightarrow> string option"
  and skip_elements :: "string \<Rightarrow> nat \<Rightarrow> string option"
  and skip_members :: "string \<Rightarrow> nat \<Rightarrow> string option" where
  "json_skip_value_depth p depth =
     (let p = json_ws p in
      if p \<noteq> [] \<and> hd p = CHR 0x22 then map_option snd (json_string p)
      else if p \<noteq> [] \<and> hd p = CHR ''{'' then json_skip_object_depth p depth
      else if p \<noteq> [] \<and> hd p = CHR ''['' then json_skip_array_depth p depth
      else case json_lit p ''true'' of Some r \<Rightarrow> Some r
      | None \<Rightarrow> (case json_lit p ''false'' of Some r \<Rightarrow> Some r
        | None \<Rightarrow> (case json_lit p ''null'' of Some r \<Rightarrow> Some r
          | None \<Rightarrow> strtod_rest (json_ws p))))"
| "json_skip_array_depth p depth =
     (if JSON_MAX_NESTING \<le> depth then None
      else case json_ws p of [] \<Rightarrow> None
      | c # q \<Rightarrow>
          if c \<noteq> CHR ''['' then None
          else
            let q = json_ws q in
            if q \<noteq> [] \<and> hd q = CHR '']'' then Some (tl q) else skip_elements q depth)"
| "json_skip_object_depth p depth =
     (if JSON_MAX_NESTING \<le> depth then None
      else case json_ws p of [] \<Rightarrow> None
      | c # q \<Rightarrow>
          if c \<noteq> CHR ''{'' then None
          else
            let q = json_ws q in
            if q \<noteq> [] \<and> hd q = CHR ''}'' then Some (tl q) else skip_members q depth)"
| "skip_elements p depth =
     (case json_skip_value_depth p (depth + 1) of None \<Rightarrow> None
      | Some q \<Rightarrow>
          (case json_ws q of [] \<Rightarrow> None
           | c # r \<Rightarrow>
               if c = CHR '']'' then Some r
               else if c \<noteq> CHR '','' then None
               else if length r < length p then skip_elements r depth else None))"
| "skip_members p depth =
     (case json_string p of None \<Rightarrow> None
      | Some (key, q) \<Rightarrow>
          (case json_ws q of [] \<Rightarrow> None
           | c # q' \<Rightarrow>
               if c \<noteq> CHR '':'' then None
               else if length q' < length p then
                 (case json_skip_value_depth q' (depth + 1) of None \<Rightarrow> None
                  | Some r \<Rightarrow>
                      (case json_ws r of [] \<Rightarrow> None
                       | c' # r' \<Rightarrow>
                           if c' = CHR ''}'' then Some r'
                           else if c' \<noteq> CHR '','' then None
                           else if length r' < length p then skip_members r' depth else None))
               else None))"
  by pat_completeness auto
termination
proof (relation "measure (\<lambda>x. case x of Inl (Inl (p, d)) \<Rightarrow> 3 * length p + 1
    | Inl (Inr (p, d)) \<Rightarrow> 3 * length p
    | Inr (Inl (p, d)) \<Rightarrow> 3 * length p
    | Inr (Inr (Inl (p, d))) \<Rightarrow> 3 * length p + 2
    | Inr (Inr (Inr (p, d))) \<Rightarrow> 3 * length p + 2)", goal_cases)
  case (2 p d q)
  then show ?case using json_ws_shorter [of p] by simp
next
  case (3 p d q)
  then show ?case using json_ws_shorter [of p] by simp
next
  case (4 p d c q)
  then show ?case using json_ws_Cons [of p c q] json_ws_shorter [of q] by simp
next
  case (5 p d c q)
  then show ?case using json_ws_Cons [of p c q] json_ws_shorter [of q] by simp
qed simp_all

declare json_skip_value_depth.simps [simp del] json_skip_array_depth.simps [simp del] json_skip_object_depth.simps [simp del]
  skip_elements.simps [simp del] skip_members.simps [simp del]

lemma skip_shorter:
  "json_skip_value_depth p d = Some r \<Longrightarrow> length r < length p"
  "json_skip_array_depth p d = Some r \<Longrightarrow> length r < length p"
  "json_skip_object_depth p d = Some r \<Longrightarrow> length r < length p"
  "skip_elements p d = Some r \<Longrightarrow> length r < length p"
  "skip_members p d = Some r \<Longrightarrow> length r < length p"
proof (induction p d and p d and p d and p d and p d arbitrary: r and r and r and r and r
    rule: json_skip_value_depth_json_skip_array_depth_json_skip_object_depth_skip_elements_skip_members.induct)
  case (1 p d)
  let ?q = "json_ws p"
  have le: "length ?q \<le> length p" by (rule json_ws_shorter)
  consider (str) "?q \<noteq> []" "hd ?q = CHR 0x22" | (obj) "?q \<noteq> []" "hd ?q = CHR ''{''" "hd ?q \<noteq> CHR 0x22"
    | (arr) "?q \<noteq> []" "hd ?q = CHR ''[''" "hd ?q \<noteq> CHR 0x22" "hd ?q \<noteq> CHR ''{''"
    | (other) "\<not> (?q \<noteq> [] \<and> (hd ?q = CHR 0x22 \<or> hd ?q = CHR ''{'' \<or> hd ?q = CHR ''[''))" by blast
  then show ?case
  proof cases
    case str
    then obtain s where "json_string ?q = Some (s, r)" using "1.prems" by (auto simp: json_skip_value_depth.simps [of p d] Let_def)
    from json_string_shorter [OF this] le show ?thesis by simp
  next
    case obj
    then have "json_skip_object_depth ?q d = Some r" using "1.prems" by (auto simp: json_skip_value_depth.simps [of p d] Let_def)
    from "1.IH"(1) [OF refl _ _ this] obj le show ?thesis by simp
  next
    case arr
    then have "json_skip_array_depth ?q d = Some r" using "1.prems" by (auto simp: json_skip_value_depth.simps [of p d] Let_def)
    from "1.IH"(2) [OF refl _ _ _ this] arr le show ?thesis by simp
  next
    case other
    then have "json_lit ?q ''true'' = Some r \<or> json_lit ?q ''false'' = Some r \<or> json_lit ?q ''null'' = Some r \<or> strtod_rest (json_ws ?q) = Some r"
      using "1.prems" by (auto simp: json_skip_value_depth.simps [of p d] Let_def split: option.splits)
    then have "length r < length ?q"
    proof (elim disjE)
      assume "strtod_rest (json_ws ?q) = Some r"
      from strtod_progress [OF this] json_ws_shorter [of ?q] show ?thesis by simp
    qed (auto dest: json_lit_shorter)
    then show ?thesis using le by simp
  qed
next
  case (2 p d)
  then obtain q where q: "json_ws p = CHR ''['' # q" "\<not> JSON_MAX_NESTING \<le> d"
    by (auto simp: json_skip_array_depth.simps [of p d] Let_def split: if_splits list.splits)
  have le: "length (json_ws q) < length p" using json_ws_Cons [OF q(1)] json_ws_shorter [of q] by simp
  show ?case
  proof (cases "json_ws q \<noteq> [] \<and> hd (json_ws q) = CHR '']''")
    case True
    then have "r = tl (json_ws q)" using "2.prems" q by (simp add: json_skip_array_depth.simps [of p d] Let_def)
    then show ?thesis using le by simp
  next
    case False
    then have "skip_elements (json_ws q) d = Some r" using "2.prems" q by (auto simp: json_skip_array_depth.simps [of p d] Let_def split: if_splits)
    from "2.IH" [OF q(2) q(1) _ refl False this] le show ?thesis by simp
  qed
next
  case (3 p d)
  then obtain q where q: "json_ws p = CHR ''{'' # q" "\<not> JSON_MAX_NESTING \<le> d"
    by (auto simp: json_skip_object_depth.simps [of p d] Let_def split: if_splits list.splits)
  have le: "length (json_ws q) < length p" using json_ws_Cons [OF q(1)] json_ws_shorter [of q] by simp
  show ?case
  proof (cases "json_ws q \<noteq> [] \<and> hd (json_ws q) = CHR ''}''")
    case True
    then have "r = tl (json_ws q)" using "3.prems" q by (simp add: json_skip_object_depth.simps [of p d] Let_def)
    then show ?thesis using le by simp
  next
    case False
    then have "skip_members (json_ws q) d = Some r" using "3.prems" q by (auto simp: json_skip_object_depth.simps [of p d] Let_def split: if_splits)
    from "3.IH" [OF q(2) q(1) _ refl False this] le show ?thesis by simp
  qed
next
  case (4 p d)
  from "4.prems" obtain q c t where q: "json_skip_value_depth p (d + 1) = Some q" "json_ws q = c # t"
    by (subst (asm) skip_elements.simps) (auto split: option.splits list.splits)
  have tl: "length t < length p" using "4.IH"(1) [OF q(1)] json_ws_Cons [OF q(2)] by simp
  show ?case
  proof (cases "c = CHR '']''")
    case True
    then show ?thesis using "4.prems" q tl by (simp add: skip_elements.simps [of p d])
  next
    case False
    then have "c = CHR '',''" "skip_elements t d = Some r" using "4.prems" q tl by (auto simp: skip_elements.simps [of p d] split: if_splits)
    from "4.IH"(2) [OF q False _ tl this(2)] this(1) tl show ?thesis by simp
  qed
next
  case (5 p d)
  from "5.prems" obtain key q t u c v where q: "json_string p = Some (key, q)" "json_ws q = CHR '':'' # t" "length t < length p"
    "json_skip_value_depth t (d + 1) = Some u" "json_ws u = c # v"
    by (subst (asm) skip_members.simps) (auto split: option.splits list.splits if_splits)
  have "length u < length t" using "5.IH"(1) [OF q(1) refl q(2) _ q(3,4)] by simp
  then have v: "length v < length p" using json_ws_Cons [OF q(5)] q(3) by simp
  show ?case
  proof (cases "c = CHR ''}''")
    case True
    then show ?thesis using "5.prems" q v by (simp add: skip_members.simps [of p d])
  next
    case False
    then have "c = CHR '',''" "skip_members v d = Some r" using "5.prems" q v by (auto simp: skip_members.simps [of p d] split: if_splits)
    from "5.IH"(2) [OF q(1) refl q(2) _ q(3) q(4) q(5) False _ v this(2)] this(1) v show ?thesis by simp
  qed
qed

lemma skip_elements_step:
  "skip_elements p d =
     (case json_skip_value_depth p (d + 1) of None \<Rightarrow> None
      | Some q \<Rightarrow> (case json_ws q of [] \<Rightarrow> None
         | c # r \<Rightarrow> if c = CHR '']'' then Some r else if c \<noteq> CHR '','' then None else skip_elements r d))"
  by (subst skip_elements.simps) (auto split: option.splits list.splits dest!: skip_shorter(1) json_ws_Cons)

lemma skip_members_step:
  "skip_members p d =
     (case json_string p of None \<Rightarrow> None
      | Some (key, q) \<Rightarrow> (case json_ws q of [] \<Rightarrow> None
         | c # q' \<Rightarrow> if c \<noteq> CHR '':'' then None
             else (case json_skip_value_depth q' (d + 1) of None \<Rightarrow> None
               | Some r \<Rightarrow> (case json_ws r of [] \<Rightarrow> None
                  | c' # r' \<Rightarrow> if c' = CHR ''}'' then Some r' else if c' \<noteq> CHR '','' then None else skip_members r' d))))"
  by (subst skip_members.simps) (auto split: option.splits list.splits dest!: skip_shorter(1) json_ws_Cons json_string_shorter)

definition json_skip_value :: "string \<Rightarrow> string option" where
  "json_skip_value p = json_skip_value_depth p 0"

lemma ws_bracket [simp]: "json_ws (CHR ''['' # q) = CHR ''['' # q" "json_ws (CHR 0x22 # q) = CHR 0x22 # q"
proof -
  have "\<not> isspace CHR ''[''" "\<not> isspace CHR 0x22" by code_simp+
  then show "json_ws (CHR ''['' # q) = CHR ''['' # q" "json_ws (CHR 0x22 # q) = CHR 0x22 # q" by (simp_all add: json_ws_def)
qed

lemma deep_brackets: "0 < n \<Longrightarrow> JSON_MAX_NESTING < d + n \<Longrightarrow> json_skip_value_depth (replicate n CHR ''['' @ s) d = None"
proof (induction n arbitrary: d)
  case (Suc n)
  have arr: "json_skip_value_depth (replicate (Suc n) CHR ''['' @ s) d = json_skip_array_depth (CHR ''['' # replicate n CHR ''['' @ s) d"
    by (simp add: json_skip_value_depth.simps Let_def)
  show ?case
  proof (cases "JSON_MAX_NESTING \<le> d")
    case True
    then show ?thesis unfolding arr by (simp add: json_skip_array_depth.simps)
  next
    case False
    then have n: "0 < n" "JSON_MAX_NESTING < (d + 1) + n" using Suc.prems by simp_all
    then obtain m where m: "n = Suc m" by (cases n) auto
    have "skip_elements (replicate n CHR ''['' @ s) d = None" using Suc.IH [OF n] by (simp add: skip_elements_step)
    then show ?thesis unfolding arr using False by (simp add: json_skip_array_depth.simps Let_def m)
  qed
qed simp


definition json_raw_value :: "string \<Rightarrow> (string \<times> string) option" where
  "json_raw_value p =
     (let start = json_ws p in
      case json_skip_value start of None \<Rightarrow> None | Some r \<Rightarrow> Some (take (length start - length r) start, r))"

fun minify_loop :: "bool \<Rightarrow> bool \<Rightarrow> string \<Rightarrow> string" where
  "minify_loop in_string escape [] = []"
| "minify_loop in_string escape (c # s) =
     (if in_string then
        c # (if escape then minify_loop True False s
             else if c = CHR 0x5C then minify_loop True True s
             else if c = CHR 0x22 then minify_loop False False s
             else minify_loop True False s)
      else if c = CHR 0x22 then c # minify_loop True escape s
      else if \<not> isspace c then c # minify_loop False escape s
      else minify_loop False escape s)"

definition json_minify_raw_value :: "string option \<Rightarrow> string" where
  "json_minify_raw_value json =
     (let start = json_ws (case json of None \<Rightarrow> ''null'' | Some j \<Rightarrow> j) in
      case json_skip_value start of None \<Rightarrow> (case json of None \<Rightarrow> ''null'' | Some j \<Rightarrow> j)
      | Some e \<Rightarrow> minify_loop False False (take (length start - length e) start))"

section \<open>Writing strings\<close>

definition hex_digit :: "nat \<Rightarrow> char" where
  "hex_digit n = ''0123456789abcdef'' ! n"

text \<open>\<open>printf("%04x")\<close> of a byte.\<close>

definition show_04x :: "nat \<Rightarrow> string" where
  "show_04x n = [hex_digit (n div 4096 mod 16), hex_digit (n div 256 mod 16), hex_digit (n div 16 mod 16), hex_digit (n mod 16)]"

definition escape_char :: "char \<Rightarrow> string" where
  "escape_char c =
     (if c = CHR 0x22 \<or> c = CHR 0x5C then [CHR 0x5C, c]
      else if c = CHR 0x0A then [CHR 0x5C, CHR ''n'']
      else if c = CHR 0x0D then [CHR 0x5C, CHR ''r'']
      else if c = CHR 0x09 then [CHR 0x5C, CHR ''t'']
      else if char_code c < 0x20 then [CHR 0x5C, CHR ''u''] @ show_04x (char_code c)
      else [c])"

definition json_escape :: "string \<Rightarrow> string" where
  "json_escape s = [CHR 0x22] @ concat (map escape_char s) @ [CHR 0x22]"

definition json_escape_n :: "string option \<Rightarrow> nat \<Rightarrow> string" where
  "json_escape_n s n = json_escape (take n (case s of None \<Rightarrow> [] | Some t \<Rightarrow> t))"

definition json_escape_fragment_n :: "string \<Rightarrow> nat \<Rightarrow> string" where
  "json_escape_fragment_n s n = concat (map (\<lambda>i. escape_char (s ! i)) [0..<n])"

lemma json_hex_digit: "n < 16 \<Longrightarrow> json_hex (hex_digit n) = int n"
proof -
  assume "n < 16"
  moreover have "list_all (\<lambda>k. json_hex (hex_digit k) = int k) [0..<16]" by code_simp
  ultimately show ?thesis by (simp add: list_all_iff)
qed

lemma hex4_digits:
  assumes "a < 16" "b < 16" "c < 16" "e < 16"
  shows "hex4 4 0 (hex_digit a # hex_digit b # hex_digit c # hex_digit e # r) = Some (((a * 16 + b) * 16 + c) * 16 + e)"
proof -
  have four: "(4 :: nat) = Suc (Suc (Suc (Suc 0)))" by simp
  show ?thesis unfolding four hex4.simps using assms by (simp add: json_hex_digit)
qed

lemma hex4_show: "n < 65536 \<Longrightarrow> hex4 4 0 (show_04x n @ r) = Some n"
proof -
  assume n: "n < 65536"
  have "n div 16 div 16 div 16 < 16" using n by simp
  then have "((n div 4096 mod 16 * 16 + n div 256 mod 16) * 16 + n div 16 mod 16) * 16 + n mod 16 = n"
  proof -
    have a: "n = n div 16 * 16 + n mod 16" by simp
    have b: "n div 16 = n div 256 * 16 + n div 16 mod 16" using div_mult_mod_eq [of "n div 16" 16] by (simp add: div_mult2_eq [symmetric])
    have c: "n div 256 = n div 4096 * 16 + n div 256 mod 16" using div_mult_mod_eq [of "n div 256" 16] by (simp add: div_mult2_eq [symmetric])
    have d: "n div 4096 mod 16 = n div 4096" using n by (intro mod_less) simp
    show ?thesis by (simp only: d c [symmetric] b [symmetric] a [symmetric])
  qed
  moreover have "hex4 4 0 (show_04x n @ r)
    = Some (((n div 4096 mod 16 * 16 + n div 256 mod 16) * 16 + n div 16 mod 16) * 16 + n mod 16)"
    unfolding show_04x_def append_Cons append_Nil by (rule hex4_digits) simp_all
  ultimately show ?thesis by (simp only:)
qed

lemma escape_char_parsed:
  "json_string_body (escape_char c @ q) = map_option (\<lambda>(out, r). (c # out, r)) (json_string_body q)"
proof -
  consider (quote) "c = CHR 0x22" | (slash) "c = CHR 0x5C" | (n) "c = CHR 0x0A" | (r) "c = CHR 0x0D" | (t) "c = CHR 0x09"
    | (ctl) "c \<notin> {CHR 0x22, CHR 0x5C, CHR 0x0A, CHR 0x0D, CHR 0x09}" "char_code c < 32"
    | (plain) "c \<notin> {CHR 0x22, CHR 0x5C}" "\<not> char_code c < 32" "c \<notin> {CHR 0x0A, CHR 0x0D, CHR 0x09}" by (auto simp: char_code_def)
  then show ?thesis
  proof cases
    case ctl
    have u16: "json_u16 (CHR 0x5C # CHR ''u'' # show_04x (char_code c) @ q) = Some (char_code c, q)"
      using hex4_show [of "char_code c" q] ctl(2) by (simp add: json_u16_def) (simp add: show_04x_def)
    have "utf8_put (char_code c) = [c]" using ctl(2) by (simp add: utf8_put_def char_code_def)
    then have "json_escape_at (CHR 0x5C # CHR ''u'' # show_04x (char_code c) @ q) = Some ([c], q)"
      using u16 ctl(2) by (simp add: json_escape_at_def)
    then show ?thesis using ctl by (simp add: escape_char_def json_string_body.simps [of "CHR 0x5C # _"])
  next
    case plain
    then show ?thesis by (simp add: escape_char_def json_string_body.simps [of "c # q"])
  qed (simp_all add: escape_char_def json_string_body.simps [of "CHR 0x5C # _"] json_escape_at_def)
qed

lemma escape_body: "json_string_body (concat (map escape_char s) @ CHR 0x22 # r) = Some (s, r)"
  by (induction s) (simp_all add: escape_char_parsed json_string_body.simps [of "CHR 0x22 # r"])

text \<open>
  C23: Whatever bytes a string holds, reading back what the server writes for it gives the string and leaves
  the text that follows.
\<close>

theorem json_string_round_trip: "json_string (json_escape s @ r) = Some (s, r)"
  by (simp add: json_string_def json_escape_def escape_body)

end
