(* ===== verification/ServerText.thy ===== *)
theory ServerText
  imports ServerJson
begin

text \<open>
  Text handling of \<open>ds4_server.c\<close> around a request: base64 images, stop sequences, and how much of the
  generated text may be streamed before a stop sequence or a character is complete.
\<close>

section \<open>Base64 images\<close>

definition base64_value :: "char \<Rightarrow> int" where
  "base64_value c =
     (let k = int (char_code c) in
      if 65 \<le> k \<and> k \<le> 90 then k - 65
      else if 97 \<le> k \<and> k \<le> 122 then 26 + k - 97
      else if 48 \<le> k \<and> k \<le> 57 then 52 + k - 48
      else if c = CHR ''+'' then 62
      else if c = CHR ''/'' then 63
      else -1)"

text \<open>The loop over groups of four; a group with padding must be the last.\<close>

fun base64_groups :: "string \<Rightarrow> u8 list option" where
  "base64_groups (c0 # c1 # c2 # c3 # rest) =
     (let a = base64_value c0; b = base64_value c1;
          pad2 = (c2 = CHR ''=''); pad3 = (c3 = CHR ''='');
          c = (if pad2 then 0 else base64_value c2);
          d = (if pad3 then 0 else base64_value c3) in
      if a < 0 \<or> b < 0 \<or> c < 0 \<or> d < 0 \<or> (pad2 \<and> \<not> pad3) \<or> ((pad2 \<or> pad3) \<and> rest \<noteq> []) then None
      else
        let bits = nat a * 262144 + nat b * 4096 + nat c * 64 + nat d in
        map_option (\<lambda>more.
            [of_nat (bits div 65536)] @ (if pad2 then [] else [of_nat (bits div 256)]) @ (if pad3 then [] else [of_nat bits]) @ more)
          (base64_groups rest))"
| "base64_groups _ = Some []"

definition server_decode_base64 :: "string option \<Rightarrow> u8 list option" where
  "server_decode_base64 src =
     (let s = (case src of None \<Rightarrow> [] | Some t \<Rightarrow> t); n = length s in
      if n = 0 \<or> n mod 4 \<noteq> 0 \<or> 64 * 1024 * 1024 < n then None else base64_groups s)"

definition server_image_media_type :: "string option \<Rightarrow> bool" where
  "server_image_media_type media_type =
     (case media_type of None \<Rightarrow> False
      | Some m \<Rightarrow> map tolower m = ''image/png'' \<or> map tolower m = ''image/jpeg'' \<or> map tolower m = ''image/jpg'')"

text \<open>The encoding of RFC 4648, as the specification.\<close>

definition base64_char :: "nat \<Rightarrow> char" where
  "base64_char n =
     (if n < 26 then char_of (65 + n) else if n < 52 then char_of (71 + n) else if n < 62 then char_of (n - 4)
      else if n = 62 then CHR ''+'' else CHR ''/'')"

fun base64_encode :: "u8 list \<Rightarrow> string" where
  "base64_encode (x # y # z # r) =
     (let bits = unat x * 65536 + unat y * 256 + unat z in
      [base64_char (bits div 262144), base64_char (bits div 4096 mod 64), base64_char (bits div 64 mod 64), base64_char (bits mod 64)]
      @ base64_encode r)"
| "base64_encode [x, y] =
     (let bits = unat x * 65536 + unat y * 256 in
      [base64_char (bits div 262144), base64_char (bits div 4096 mod 64), base64_char (bits div 64 mod 64), CHR ''=''])"
| "base64_encode [x] =
     (let bits = unat x * 65536 in [base64_char (bits div 262144), base64_char (bits div 4096 mod 64), CHR ''='', CHR ''=''])"
| "base64_encode [] = []"

lemma base64_char_value: "n < 64 \<Longrightarrow> base64_value (base64_char n) = int n"
proof -
  assume n: "n < 64"
  have ends: "base64_value CHR ''+'' = 62" "base64_value CHR ''/'' = 63" by code_simp+
  consider "n < 26" | "26 \<le> n" "n < 52" | "52 \<le> n" "n < 62" | "n = 62" | "n = 63" using n by linarith
  then show ?thesis
    by cases (simp_all add: base64_char_def ends, simp_all add: base64_value_def Let_def)
qed

lemma base64_char_no_pad: "n < 64 \<Longrightarrow> base64_char n \<noteq> CHR ''=''"
proof
  assume "n < 64" "base64_char n = CHR ''=''"
  moreover have "base64_value CHR ''='' = - 1" by code_simp
  ultimately show False using base64_char_value [of n] by simp
qed

lemma base64_group:
  assumes "a < 64" "b < 64" "c < 64" "d < 64"
  shows "base64_groups (base64_char a # base64_char b # base64_char c # base64_char d # rest) =
    (let bits = a * 262144 + b * 4096 + c * 64 + d in
     map_option (\<lambda>more. [of_nat (bits div 65536), of_nat (bits div 256), of_nat bits] @ more) (base64_groups rest))"
  using assms base64_char_no_pad by (simp add: base64_char_value Let_def)

lemma sextets:
  fixes n :: nat
  shows "n div 262144 * 262144 + n div 4096 mod 64 * 4096 + n div 64 mod 64 * 64 + n mod 64 = n"
proof -
  have "n = n div 64 * 64 + n mod 64" by simp
  moreover have "n div 64 = n div 4096 * 64 + n div 64 mod 64" using div_mult_mod_eq [of "n div 64" 64] by (simp add: div_mult2_eq [symmetric])
  moreover have "n div 4096 = n div 262144 * 64 + n div 4096 mod 64" using div_mult_mod_eq [of "n div 4096" 64] by (simp add: div_mult2_eq [symmetric])
  ultimately show ?thesis by linarith
qed

lemma of_nat_low: "(of_nat (k * 256 + unat (z :: u8)) :: u8) = z"
proof -
  have z: "(256 :: u8) = 0" by simp
  have "(of_nat (k * 256) :: u8) = 0" by (simp only: of_nat_mult of_nat_numeral z mult_zero_right)
  then show ?thesis by simp
qed

lemma octets:
  fixes x y z :: u8
  defines "n \<equiv> unat x * 65536 + unat y * 256 + unat z"
  shows "of_nat (n div 65536) = x" "of_nat (n div 256) = y" "of_nat n = z" "n div 262144 < 64"
proof -
  have b: "unat x \<le> 255" "unat y \<le> 255" "unat z \<le> 255" by (rule unat_u8_bound)+
  have "n div 65536 = unat x" "n div 256 = unat x * 256 + unat y" using b unfolding n_def by simp_all
  then show "of_nat (n div 65536) = x" "of_nat (n div 256) = y" using of_nat_low [of "unat x" y] by simp_all
  have "n = (unat x * 256 + unat y) * 256 + unat z" unfolding n_def by simp
  then show "of_nat n = z" using of_nat_low by metis
  show "n div 262144 < 64" using b unfolding n_def by simp
qed

lemma base64_round: "base64_groups (base64_encode bs) = Some bs"
proof (induction bs rule: base64_encode.induct)
  case (1 x y z r)
  define n where "n = unat x * 65536 + unat y * 256 + unat z"
  note o = octets [of x y z, folded n_def]
  have "base64_groups (base64_encode (x # y # z # r)) =
    map_option (\<lambda>more. [of_nat (n div 65536), of_nat (n div 256), of_nat n] @ more) (base64_groups (base64_encode r))"
    using base64_group [of "n div 262144" "n div 4096 mod 64" "n div 64 mod 64" "n mod 64" "base64_encode r"] o(4)
    by (simp add: n_def [symmetric] Let_def sextets)
  then show ?case using 1 o by simp
next
  case (2 x y)
  define n where "n = unat x * 65536 + unat y * 256 + unat (0 :: u8)"
  note o = octets [of x y 0, folded n_def]
  have bits: "unat x * 65536 + unat y * 256 = n" by (simp add: n_def)
  have low: "n mod 64 = 0" unfolding n_def by (simp add: mod_add_eq [symmetric] mod_mult_right_eq [symmetric])
  show ?case
    using o base64_char_no_pad sextets [of n] low
    by (simp add: bits Let_def base64_char_value)
next
  case (3 x)
  define n where "n = unat x * 65536 + unat (0 :: u8) * 256 + unat (0 :: u8)"
  note o = octets [of x 0 0, folded n_def]
  have bits: "unat x * 65536 = n" by (simp add: n_def)
  have low: "n mod 64 = 0" "n div 64 mod 64 = 0" unfolding n_def by simp_all
  show ?case
    using o base64_char_no_pad sextets [of n] low
    by (simp add: bits Let_def base64_char_value)
qed simp

lemma length_base64: "length (base64_encode bs) = 4 * ((length bs + 2) div 3)"
proof (induction bs rule: base64_encode.induct)
  case (1 x y z r)
  have "(length r + 3 + 2) div 3 = (length r + 2) div 3 + 1" using div_add_self2 [of 3 "length r + 2"] by simp
  then show ?case using 1 by (simp add: Let_def)
qed (simp_all add: Let_def)

text \<open>
  C24: The image decoder inverts the standard base64 encoding, padding included, for every image up to 48 MiB.
\<close>

theorem base64_round_trip:
  assumes "bs \<noteq> []" and "length bs \<le> 48 * 1024 * 1024"
  shows "server_decode_base64 (Some (base64_encode bs)) = Some bs"
proof -
  let ?n = "length bs"
  have "3 \<le> ?n + 2" using assms(1) by (cases bs) simp_all
  then have "0 < (?n + 2) div 3" using div_greater_zero_iff [of "?n + 2" 3] by linarith
  moreover have "(?n + 2) div 3 \<le> 16777216" using assms(2) div_le_mono [of "?n + 2" 50331650 3] by simp
  ultimately have "0 < (?n + 2) div 3" "4 * ((?n + 2) div 3) \<le> 67108864" by simp_all
  moreover have "base64_encode bs \<noteq> []" using calculation(1) length_base64 [of bs] by auto
  ultimately show ?thesis by (simp add: server_decode_base64_def base64_round length_base64 Let_def)
qed

lemma base64_round_trip_witness: "server_decode_base64 (Some (base64_encode [100, 115, 52, 255])) = Some [100, 115, 52, 255]"
  by (rule base64_round_trip) simp_all

section \<open>Stop sequences\<close>

record stop_list =
  sl_v :: "string list"
  sl_max_len :: nat

definition stop_list_clear :: "stop_list \<Rightarrow> stop_list" where
  "stop_list_clear stops = \<lparr>sl_v = [], sl_max_len = 0\<rparr>"

definition stop_list_push :: "stop_list \<Rightarrow> string \<Rightarrow> stop_list" where
  "stop_list_push stops s =
     (if s = [] then stops
      else \<lparr>sl_v = sl_v stops @ [s], sl_max_len = (if sl_max_len stops < length s then length s else sl_max_len stops)\<rparr>)"

definition stop_item :: "string \<Rightarrow> stop_list \<Rightarrow> (stop_list \<times> string) option" where
  "stop_item p stops =
     (if p \<noteq> [] \<and> hd p = CHR 0x22 then map_option (\<lambda>(s, r). (stop_list_push stops s, r)) (json_string p)
      else map_option (\<lambda>r. (stops, r)) (json_skip_value p))"

definition skip_comma :: "string \<Rightarrow> string" where
  "skip_comma r = (let r = json_ws r in json_ws (if r \<noteq> [] \<and> hd r = CHR '','' then tl r else r))"

lemma stop_item_shorter: "stop_item p stops = Some (out, r) \<Longrightarrow> length r < length p"
  by (auto simp: stop_item_def json_skip_value_def split: if_splits dest: json_string_shorter skip_shorter(1))

lemma skip_comma_shorter: "length (skip_comma r) \<le> length r"
proof -
  have "length (json_ws (tl (json_ws r))) \<le> length r" "length (json_ws (json_ws r)) \<le> length r"
    using json_ws_shorter [of r] json_ws_shorter [of "tl (json_ws r)"] json_ws_shorter [of "json_ws r"] by simp_all
  then show ?thesis by (simp add: skip_comma_def Let_def)
qed

function parse_stop_loop :: "string \<Rightarrow> stop_list \<Rightarrow> (stop_list \<times> string) option" where
  "parse_stop_loop p stops =
     (if p = [] then None
      else if hd p = CHR '']'' then Some (stops, tl p)
      else case stop_item p stops of None \<Rightarrow> None
      | Some (stops, r) \<Rightarrow> parse_stop_loop (skip_comma r) stops)"
  by pat_completeness auto
termination
  by (relation "measure (\<lambda>(p, s). length p)") (auto dest!: stop_item_shorter intro: le_less_trans [OF skip_comma_shorter])

declare parse_stop_loop.simps [simp del]

definition parse_stop :: "string \<Rightarrow> stop_list \<Rightarrow> (stop_list \<times> string) option" where
  "parse_stop p out =
     (let p = json_ws p; out = stop_list_clear out in
      if p \<noteq> [] \<and> hd p = CHR 0x22 then map_option (\<lambda>(s, r). (stop_list_push out s, r)) (json_string p)
      else if \<not> (p \<noteq> [] \<and> hd p = CHR ''['') then map_option (\<lambda>r. (out, r)) (json_skip_value p)
      else parse_stop_loop (json_ws (tl p)) out)"

text \<open>The first stop in the text from an offset on: position and length.\<close>

fun stop_search :: "string list \<Rightarrow> string \<Rightarrow> nat \<Rightarrow> (nat \<times> nat) option \<Rightarrow> (nat \<times> nat) option" where
  "stop_search [] txt from best = best"
| "stop_search (v # vs) txt from best =
     (case strstr (drop from txt) v of None \<Rightarrow> stop_search vs txt from best
      | Some i \<Rightarrow>
          if (case best of None \<Rightarrow> True | Some (bp, bl) \<Rightarrow> from + i < bp)
          then stop_search vs txt from (Some (from + i, length v)) else stop_search vs txt from best)"

definition stop_list_find_from :: "stop_list \<Rightarrow> string option \<Rightarrow> nat \<Rightarrow> (nat \<times> nat) option" where
  "stop_list_find_from stops txt from =
     (case txt of None \<Rightarrow> None | Some t \<Rightarrow> if sl_v stops = [] then None else stop_search (sl_v stops) t from None)"

definition stop_list_stream_safe_len :: "stop_list \<Rightarrow> nat \<Rightarrow> nat" where
  "stop_list_stream_safe_len stops text_len =
     (if sl_v stops = [] \<or> sl_max_len stops \<le> 1 then text_len
      else let hold = sl_max_len stops - 1 in if hold < text_len then text_len - hold else 0)"

section \<open>Not splitting a character\<close>

definition utf8_expected_len :: "char \<Rightarrow> nat" where
  "utf8_expected_len c =
     (let k = char_code c in
      if k < 0x80 then 1
      else if 0xc2 \<le> k \<and> k \<le> 0xdf then 2
      else if 0xe0 \<le> k \<and> k \<le> 0xef then 3
      else if 0xf0 \<le> k \<and> k \<le> 0xf4 then 4
      else 1)"

definition is_continuation :: "char \<Rightarrow> bool" where
  "is_continuation c \<longleftrightarrow> char_code c div 64 = 2"

function utf8_back :: "string \<Rightarrow> nat \<Rightarrow> nat \<Rightarrow> nat \<Rightarrow> nat" where
  "utf8_back s start p cont =
     (if start < p \<and> cont < 4 \<and> is_continuation (s ! (p - 1)) then utf8_back s start (p - 1) (cont + 1) else p)"
  by pat_completeness auto
termination by (relation "measure (\<lambda>(s, start, p, cont). p)") auto

declare utf8_back.simps [simp del]

definition utf8_stream_safe_len :: "string option \<Rightarrow> nat \<Rightarrow> nat \<Rightarrow> bool \<Rightarrow> nat" where
  "utf8_stream_safe_len txt start limit final =
     (case txt of None \<Rightarrow> limit
      | Some s \<Rightarrow>
          if final \<or> limit \<le> start then limit
          else
            let p = utf8_back s start limit 0 in
            if p = limit then (if 1 < utf8_expected_len (s ! (limit - 1)) then limit - 1 else limit)
            else if p = start \<and> is_continuation (s ! p) then start
            else
              let lead = p - 1; need = utf8_expected_len (s ! lead) in
              if limit - lead < need then lead else limit)"

section \<open>What streaming promises\<close>

definition stop_list_ok :: "stop_list \<Rightarrow> bool" where
  "stop_list_ok stops \<longleftrightarrow> (\<forall>v\<in>set (sl_v stops). v \<noteq> [] \<and> length v \<le> sl_max_len stops)"

lemma stop_list_push_ok: "stop_list_ok stops \<Longrightarrow> stop_list_ok (stop_list_push stops s)"
  by (auto simp: stop_list_ok_def stop_list_push_def)

lemma stop_item_ok: "stop_list_ok stops \<Longrightarrow> stop_item p stops = Some (out, r) \<Longrightarrow> stop_list_ok out"
  using stop_list_push_ok by (auto simp: stop_item_def split: if_splits)

lemma parse_stop_loop_ok: "stop_list_ok stops \<Longrightarrow> parse_stop_loop p stops = Some (out, r) \<Longrightarrow> stop_list_ok out"
proof (induction p stops arbitrary: out r rule: parse_stop_loop.induct)
  case (1 p stops)
  show ?case
  proof (cases "p = [] \<or> hd p = CHR '']''")
    case True
    then show ?thesis using "1.prems" by (subst (asm) parse_stop_loop.simps) (auto split: if_splits)
  next
    case False
    then obtain st q where item: "stop_item p stops = Some (st, q)" "parse_stop_loop (skip_comma q) st = Some (out, r)"
      using "1.prems"(2) by (subst (asm) parse_stop_loop.simps) (auto split: option.splits)
    from stop_item_ok [OF "1.prems"(1) item(1)] show ?thesis using "1.IH" [OF _ _ item(1) refl _ item(2)] False by simp
  qed
qed

lemma parse_stop_ok: "parse_stop p out = Some (stops, r) \<Longrightarrow> stop_list_ok stops"
proof -
  assume a: "parse_stop p out = Some (stops, r)"
  have empty: "stop_list_ok (stop_list_clear out)" by (simp add: stop_list_clear_def stop_list_ok_def)
  with a show ?thesis using parse_stop_loop_ok [OF empty] stop_list_push_ok [OF empty]
    by (auto simp: parse_stop_def Let_def split: if_splits)
qed

lemma stop_search_Some:
  "stop_search vs txt from best = Some (p, l) \<Longrightarrow>
    best = Some (p, l) \<or> (\<exists>v\<in>set vs. \<exists>i. strstr (drop from txt) v = Some i \<and> p = from + i \<and> l = length v)"
  by (induction vs arbitrary: best) (fastforce split: option.splits if_splits)+

lemma stop_search_found: "\<exists>a b. stop_search vs txt from (Some (p, l)) = Some (a, b)"
  by (induction vs arbitrary: p l) (auto split: option.splits)

lemma stop_search_None: "stop_search vs txt from best = None \<longleftrightarrow> best = None \<and> (\<forall>v\<in>set vs. strstr (drop from txt) v = None)"
  by (induction vs arbitrary: best) (auto simp: stop_search_found split: option.splits)

lemma stop_search_least:
  "stop_search vs txt from best = Some (p, l) \<Longrightarrow> (\<forall>bp bl. best = Some (bp, bl) \<longrightarrow> p \<le> bp)
    \<and> (\<forall>v\<in>set vs. \<forall>i. strstr (drop from txt) v = Some i \<longrightarrow> p \<le> from + i)"
proof (induction vs arbitrary: best)
  case (Cons v vs)
  show ?case
  proof (cases "strstr (drop from txt) v")
    case None
    then show ?thesis using Cons by simp
  next
    case (Some i)
    show ?thesis
    proof (cases "case best of None \<Rightarrow> True | Some (bp, bl) \<Rightarrow> from + i < bp")
      case True
      then have "stop_search vs txt from (Some (from + i, length v)) = Some (p, l)" using Cons.prems Some by simp
      from Cons.IH [OF this] show ?thesis using Some True by (auto split: option.splits)
    next
      case False
      then obtain bp bl where b: "best = Some (bp, bl)" "bp \<le> from + i" by (auto split: option.splits)
      have "stop_search vs txt from best = Some (p, l)" using Cons.prems Some False by simp
      from Cons.IH [OF this] show ?thesis using Some b by fastforce
    qed
  qed
qed simp



text \<open>A well-formed character: a lead byte that announces the length, then continuation bytes.\<close>

definition utf8_char :: "string \<Rightarrow> bool" where
  "utf8_char ch \<longleftrightarrow> ch \<noteq> [] \<and> \<not> is_continuation (hd ch) \<and> utf8_expected_len (hd ch) = length ch \<and> length ch \<le> 4
     \<and> list_all is_continuation (tl ch)"

lemma utf8_put_char: "utf8_char (utf8_put cp)"
proof -
  define k where "k = (if 0x10ffff < cp \<or> (0xd800 \<le> cp \<and> cp \<le> 0xdfff) then 0xfffd else cp)"
  have k: "k \<le> 0x10ffff" by (simp add: k_def)
  have cont: "is_continuation (byte_char (0x80 + n mod 64))" for n
  proof -
    have "n mod 64 < 64" by simp
    then have "(0x80 + n mod 64) < 256" "(0x80 + n mod 64) div 64 = 2" by simp_all
    then show ?thesis by (simp add: is_continuation_def)
  qed
  consider (1) "k \<le> 0x7f" | (2) "0x7f < k" "k \<le> 0x7ff" | (3) "0x7ff < k" "k \<le> 0xffff" | (4) "0xffff < k" using k by linarith
  then have "utf8_char (if k \<le> 0x7f then [byte_char k]
      else if k \<le> 0x7ff then [byte_char (0xc0 + k div 64), byte_char (0x80 + k mod 64)]
      else if k \<le> 0xffff then [byte_char (0xe0 + k div 4096), byte_char (0x80 + k div 64 mod 64), byte_char (0x80 + k mod 64)]
      else [byte_char (0xf0 + k div 262144), byte_char (0x80 + k div 4096 mod 64), byte_char (0x80 + k div 64 mod 64), byte_char (0x80 + k mod 64)])"
  proof cases
    case 1
    then have "k div 64 < 2" by simp
    then show ?thesis using 1 by (simp add: utf8_char_def is_continuation_def utf8_expected_len_def)
  next
    case 2
    then have b: "2 \<le> k div 64" "k div 64 < 32" using div_le_mono [of 128 k 64] by simp_all
    then have "(0xc0 + k div 64) div 64 = 3" by simp
    then show ?thesis using 2 b cont by (simp add: utf8_char_def is_continuation_def utf8_expected_len_def Let_def)
  next
    case 3
    then have b: "k div 4096 < 16" by simp
    then have "(0xe0 + k div 4096) div 64 = 3" by simp
    then show ?thesis using 3 b cont by (simp add: utf8_char_def is_continuation_def utf8_expected_len_def Let_def)
  next
    case 4
    then have b: "k div 262144 < 5" using k by simp
    then have "(0xf0 + k div 262144) div 64 = 3" by simp
    then show ?thesis using 4 b cont by (simp add: utf8_char_def is_continuation_def utf8_expected_len_def Let_def)
  qed
  then show ?thesis unfolding utf8_put_def k_def [symmetric] Let_def .
qed

text \<open>The scan stops at the lead byte of the last, possibly cut, character.\<close>

lemma utf8_back_stops:
  "list_all is_continuation cs \<Longrightarrow> length cs + cont \<le> 3 \<Longrightarrow> \<not> is_continuation c \<Longrightarrow> start \<le> length u \<Longrightarrow>
    utf8_back (u @ c # cs @ v) start (length u + 1 + length cs) cont = length u + 1"
proof (induction cs arbitrary: v cont rule: rev_induct)
  case Nil
  then show ?case by (simp add: utf8_back.simps nth_append)
next
  case (snoc d cs)
  have tail: "(u @ c # (cs @ [d]) @ v) ! (length u + 1 + length cs) = d" by (simp add: nth_append)
  have "utf8_back (u @ c # (cs @ [d]) @ v) start (length u + 1 + length (cs @ [d])) cont
    = utf8_back (u @ c # cs @ (d # v)) start (length u + 1 + length cs) (cont + 1)"
    by (subst utf8_back.simps) (use snoc.prems tail in simp)
  also have "\<dots> = length u + 1" using snoc.prems by (intro snoc.IH) simp_all
  finally show ?case .
qed

lemma utf8_safe_partial:
  assumes "list_all is_continuation cs" "length cs \<le> 3" "\<not> is_continuation c" "start \<le> length u"
  shows "utf8_stream_safe_len (Some (u @ c # cs @ v)) start (length u + 1 + length cs) False
    = (if 1 + length cs < utf8_expected_len c then length u else length u + 1 + length cs)"
proof -
  let ?s = "u @ c # cs @ v" and ?l = "length u + 1 + length cs"
  have bk: "utf8_back ?s start ?l 0 = length u + 1" using utf8_back_stops [of cs 0 c start u v] assms by simp
  have lead: "?s ! length u = c" by simp
  show ?thesis
  proof (cases "cs = []")
    case True
    then show ?thesis using bk lead assms(4) by (simp add: utf8_stream_safe_len_def)
  next
    case False
    then have ne: "length u + 1 \<noteq> ?l" by simp
    have "\<not> (length u + 1 = start)" using assms(4) by simp
    then show ?thesis using bk lead ne assms(4) by (simp add: utf8_stream_safe_len_def Let_def)
  qed
qed

abbreviation utf8_text :: "nat list \<Rightarrow> string" where
  "utf8_text cps \<equiv> concat (map utf8_put cps)"

lemma utf8_cut:
  "n \<le> length (utf8_text cps) \<Longrightarrow> \<exists>j k. j \<le> length cps \<and> n = length (utf8_text (take j cps)) + k
    \<and> (k = 0 \<or> (j < length cps \<and> k < length (utf8_put (cps ! j))))"
proof (induction cps rule: rev_induct)
  case (snoc cp cps)
  show ?case
  proof (cases "n \<le> length (utf8_text cps)")
    case True
    then obtain j k where jk: "j \<le> length cps" "n = length (utf8_text (take j cps)) + k" "k = 0 \<or> (j < length cps \<and> k < length (utf8_put (cps ! j)))"
      using snoc.IH by blast
    then have "take j (cps @ [cp]) = take j cps" by simp
    moreover have "j < length cps \<Longrightarrow> (cps @ [cp]) ! j = cps ! j" by (simp add: nth_append)
    ultimately show ?thesis using jk by (intro exI [of _ j] exI [of _ k]) auto
  next
    case False
    then have "n - length (utf8_text cps) \<le> length (utf8_put cp)" using snoc.prems by simp
    then consider "n = length (utf8_text (cps @ [cp]))" | "n - length (utf8_text cps) < length (utf8_put cp)" using False by fastforce
    then show ?thesis
    proof cases
      case 1
      then show ?thesis by (intro exI [of _ "length (cps @ [cp])"] exI [of _ 0]) simp
    next
      case 2
      then show ?thesis using False by (intro exI [of _ "length cps"] exI [of _ "n - length (utf8_text cps)"]) simp
    qed
  qed
qed simp

lemma utf8_take_mono: "i \<le> j \<Longrightarrow> length (utf8_text (take i cps)) \<le> length (utf8_text (take j cps))"
proof -
  assume "i \<le> j"
  then have "take j cps = take i cps @ take (j - i) (drop i cps)" by (metis le_add_diff_inverse take_add)
  then show ?thesis by simp
qed

text \<open>
  Streaming never splits a character: in UTF-8 text the part released from a character boundary ends at a
  character boundary, and holds back fewer than four bytes.
\<close>

theorem utf8_never_split:
  assumes "i \<le> length cps" and "length (utf8_text (take i cps)) \<le> limit" and "limit \<le> length (utf8_text cps)"
  shows "\<exists>j. i \<le> j \<and> j \<le> length cps
    \<and> utf8_stream_safe_len (Some (utf8_text cps)) (length (utf8_text (take i cps))) limit False = length (utf8_text (take j cps))
    \<and> length (utf8_text (take j cps)) \<le> limit \<and> limit < length (utf8_text (take j cps)) + 4"
proof -
  let ?T = "\<lambda>j. utf8_text (take j cps)" and ?s = "utf8_text cps"
  let ?start = "length (?T i)"
  obtain j k where jk: "j \<le> length cps" "limit = length (?T j) + k" "k = 0 \<or> (j < length cps \<and> k < length (utf8_put (cps ! j)))"
    using utf8_cut [OF assms(3)] by blast
  have pos: "0 < length (utf8_put (cps ! m))" for m using utf8_put_char [of "cps ! m"] by (simp add: utf8_char_def)
  have split: "?s = ?T m @ utf8_put (cps ! m) @ utf8_text (drop (Suc m) cps)" "?T (Suc m) = ?T m @ utf8_put (cps ! m)" if "m < length cps" for m
    using that by (simp_all add: take_Suc_conv_app_nth)  (metis append.assoc concat_append id_take_nth_drop list.simps(9) map_append concat.simps(2))
  have ij: "i \<le> j"
  proof (rule ccontr)
    assume "\<not> i \<le> j"
    then have "Suc j \<le> i" "j < length cps" using assms(1) by simp_all
    then have "length (?T j) + length (utf8_put (cps ! j)) \<le> ?start" using utf8_take_mono [of "Suc j" i cps] split(2) [of j] by simp
    then show False using assms(2) jk pos [of j] by auto
  qed
  show ?thesis
  proof (cases "k = 0")
    case whole: True
    show ?thesis
    proof (cases "limit \<le> ?start")
      case True
      then have "limit = length (?T j)" "utf8_stream_safe_len (Some ?s) ?start limit False = limit"
        using whole jk(2) by (simp_all add: utf8_stream_safe_len_def)
      then show ?thesis using ij jk(1) by (intro exI [of _ j]) simp
    next
      case False
      then obtain m where m: "j = Suc m" "i \<le> m" "m < length cps" using ij jk(1,2) whole by (cases j) (auto simp: le_Suc_eq)
      obtain c cs where ch: "utf8_put (cps ! m) = c # cs" using pos [of m] by (cases "utf8_put (cps ! m)") auto
      note u = utf8_put_char [of "cps ! m", unfolded utf8_char_def ch]
      have "utf8_stream_safe_len (Some (?T m @ c # cs @ utf8_text (drop (Suc m) cps))) ?start (length (?T m) + 1 + length cs) False = length (?T m) + 1 + length cs"
        using utf8_safe_partial [of cs c ?start "?T m" "utf8_text (drop (Suc m) cps)"] u utf8_take_mono [OF m(2), of cps] by simp
      then have "utf8_stream_safe_len (Some ?s) ?start limit False = length (?T j)"
        using split [OF m(3)] ch m(1) whole jk(2) by simp
      then show ?thesis using ij jk whole by (intro exI [of _ j]) simp
    qed
  next
    case False
    then have j: "j < length cps" "k < length (utf8_put (cps ! j))" using jk(3) by simp_all
    obtain c cs where ch: "utf8_put (cps ! j) = c # cs" using pos [of j] by (cases "utf8_put (cps ! j)") auto
    note u = utf8_put_char [of "cps ! j", unfolded utf8_char_def ch]
    let ?cs = "take (k - 1) cs" and ?v = "drop (k - 1) cs @ utf8_text (drop (Suc j) cps)"
    have len: "length ?cs = k - 1" using j(2) ch by simp
    moreover have "k - 1 \<le> 3" using u j(2) ch by (simp, linarith)
    ultimately have le3: "length ?cs \<le> 3" by simp
    have "list_all is_continuation ?cs" using u by (auto simp: list_all_iff dest: in_set_takeD)
    then have "utf8_stream_safe_len (Some (?T j @ c # ?cs @ ?v)) ?start (length (?T j) + 1 + length ?cs) False = length (?T j)"
      using utf8_safe_partial [of ?cs c ?start "?T j" ?v] u utf8_take_mono [OF ij, of cps] len le3 j(2) ch False by simp
    moreover have "?T j @ c # ?cs @ ?v = ?s" using split(1) [OF j(1)] ch by (simp add: append.assoc [symmetric] del: append.assoc) 
    moreover have "length (?T j) + 1 + length ?cs = limit" using len False jk(2) by simp
    ultimately have "utf8_stream_safe_len (Some ?s) ?start limit False = length (?T j)" by simp
    then show ?thesis using ij jk(1,2) j(2) u ch by (intro exI [of _ j]) simp
  qed
qed

lemma utf8_never_split_witness:
  "\<exists>j. utf8_stream_safe_len (Some (utf8_text [0x41, 0x20AC])) (length (utf8_text (take 1 [0x41, 0x20AC]))) 3 False
      = length (utf8_text (take j [0x41, 0x20AC])) \<and> j \<le> 2"
proof -
  have l: "length (utf8_text [0x41, 0x20AC]) = 4" "length (utf8_text (take 1 [0x41, 0x20AC])) = 1" by (simp_all add: utf8_put_def)
  show ?thesis using utf8_never_split [of 1 "[0x41, 0x20AC]" 3] l by auto
qed

end
