(* ===== verification/ServerQueue.thy ===== *)
theory ServerQueue
  imports Prelude
begin

text \<open>
  The linked list of waiting jobs in \<open>src/ds4_server.c\<close>: the tail push of \<open>enqueue\<close>, the head pop of
  \<open>dequeue\<close>, and the search and unlink of \<open>server_cancel_job\<close> and \<open>dispatch_jobs_locked\<close>, on explicit
  \<open>head\<close>, \<open>tail\<close> and \<open>next\<close> pointers. The interface \<open>queue_impl\<close> says that they act on the sequence of
  waiting jobs, which is what \<open>ServerSched\<close> works with.
\<close>

section \<open>The linked list\<close>

text \<open>Jobs are addresses; \<open>next\<close> is the field of every job, \<open>None\<close> the null pointer.\<close>

record job_queue =
  q_head :: "nat option"
  q_tail :: "nat option"
  q_next :: "nat \<Rightarrow> nat option"

definition empty_queue :: job_queue where
  "empty_queue = \<lparr>q_head = None, q_tail = None, q_next = \<lambda>_. None\<rparr>"

definition push_job :: "job_queue \<Rightarrow> nat \<Rightarrow> job_queue" where
  "push_job q j =
     (let q = (case q_tail q of Some t \<Rightarrow> q\<lparr>q_next := (q_next q)(t := Some j)\<rparr> | None \<Rightarrow> q\<lparr>q_head := Some j\<rparr>)
      in q\<lparr>q_tail := Some j\<rparr>)"

definition pop_job :: "job_queue \<Rightarrow> nat option \<times> job_queue" where
  "pop_job q =
     (case q_head q of None \<Rightarrow> (None, q)
      | Some j \<Rightarrow>
          let q = q\<lparr>q_head := q_next q j\<rparr>; q = (if q_head q = None then q\<lparr>q_tail := None\<rparr> else q)
          in (Some j, q\<lparr>q_next := (q_next q)(j := None)\<rparr>))"

text \<open>Unlinking a job when the search has found it behind \<open>prev\<close>.\<close>

definition unlink_job :: "job_queue \<Rightarrow> nat option \<Rightarrow> nat \<Rightarrow> job_queue" where
  "unlink_job q prev j =
     (let q = (case prev of Some p \<Rightarrow> q\<lparr>q_next := (q_next q)(p := q_next q j)\<rparr> | None \<Rightarrow> q\<lparr>q_head := q_next q j\<rparr>);
          q = (if q_tail q = Some j then q\<lparr>q_tail := prev\<rparr> else q)
      in q\<lparr>q_next := (q_next q)(j := None)\<rparr>)"

text \<open>
  The search along the list: \<open>None\<close> when it does not end, \<open>Some None\<close> when the job is not there,
  \<open>Some (Some prev)\<close> when it is.
\<close>

partial_function (option) find_job :: "(nat \<Rightarrow> nat option) \<Rightarrow> nat \<Rightarrow> nat option \<Rightarrow> nat option \<Rightarrow> nat option option option" where
  "find_job next j prev it =
     (if it = None then Some None
      else if the it = j then Some (Some prev)
      else find_job next j it (next (the it)))"

definition detach_job :: "job_queue \<Rightarrow> nat \<Rightarrow> (bool \<times> job_queue) option" where
  "detach_job q j =
     (case find_job (q_next q) j None (q_head q) of None \<Rightarrow> None
      | Some None \<Rightarrow> Some (False, q)
      | Some (Some prev) \<Rightarrow> Some (True, unlink_job q prev j))"

section \<open>The queue interface\<close>

datatype queue_op = Push nat | Pop | Detach nat

text \<open>What the scheduler relies on: the three operations act on the sequence of waiting jobs.\<close>

locale queue_impl =
  fixes push :: "'q \<Rightarrow> nat \<Rightarrow> 'q"
    and pop :: "'q \<Rightarrow> nat option \<times> 'q"
    and detach :: "'q \<Rightarrow> nat \<Rightarrow> (bool \<times> 'q) option"
    and repr :: "'q \<Rightarrow> nat list \<Rightarrow> nat set \<Rightarrow> bool"
  assumes push_law: "repr q xs free \<Longrightarrow> j \<in> free \<Longrightarrow> repr (push q j) (xs @ [j]) (free - {j})"
    and pop_none: "repr q [] free \<Longrightarrow> pop q = (None, q)"
    and pop_some: "repr q (x # xs) free \<Longrightarrow> \<exists>q'. pop q = (Some x, q') \<and> repr q' xs (insert x free)"
    and detach_law: "repr q xs free \<Longrightarrow>
      \<exists>q'. detach q j = Some (j \<in> set xs, q') \<and> repr q' (remove1 j xs) (if j \<in> set xs then insert j free else free)"
begin

fun run_impl :: "'q \<Rightarrow> queue_op list \<Rightarrow> nat option list option" where
  "run_impl q [] = Some []"
| "run_impl q (Push j # ops) = run_impl (push q j) ops"
| "run_impl q (Pop # ops) = (case pop q of (r, q') \<Rightarrow> map_option ((#) r) (run_impl q' ops))"
| "run_impl q (Detach j # ops) =
     (case detach q j of None \<Rightarrow> None | Some (b, q') \<Rightarrow> map_option ((#) (if b then Some j else None)) (run_impl q' ops))"

end

text \<open>The specification on sequences, and the runs that push only jobs that are not waiting.\<close>

fun run_spec :: "nat list \<Rightarrow> queue_op list \<Rightarrow> nat option list" where
  "run_spec xs [] = []"
| "run_spec xs (Push j # ops) = run_spec (xs @ [j]) ops"
| "run_spec xs (Pop # ops) = (case xs of [] \<Rightarrow> None # run_spec [] ops | x # ys \<Rightarrow> Some x # run_spec ys ops)"
| "run_spec xs (Detach j # ops) = (if j \<in> set xs then Some j else None) # run_spec (remove1 j xs) ops"

fun fresh_pushes :: "nat list \<Rightarrow> nat set \<Rightarrow> queue_op list \<Rightarrow> bool" where
  "fresh_pushes xs free [] = True"
| "fresh_pushes xs free (Push j # ops) = (j \<in> free \<and> fresh_pushes (xs @ [j]) (free - {j}) ops)"
| "fresh_pushes xs free (Pop # ops) =
     (case xs of [] \<Rightarrow> fresh_pushes [] free ops | x # ys \<Rightarrow> fresh_pushes ys (insert x free) ops)"
| "fresh_pushes xs free (Detach j # ops) =
     fresh_pushes (remove1 j xs) (if j \<in> set xs then insert j free else free) ops"

context queue_impl
begin

lemma run_refines: "repr q xs free \<Longrightarrow> fresh_pushes xs free ops \<Longrightarrow> run_impl q ops = Some (run_spec xs ops)"
proof (induction ops arbitrary: q xs free)
  case (Cons op ops)
  show ?case
  proof (cases op)
    case (Push j)
    then have "repr (push q j) (xs @ [j]) (free - {j})" using Cons.prems by (intro push_law) simp_all
    from Cons.IH [OF this] show ?thesis using Cons.prems(2) Push by simp
  next
    case Pop
    show ?thesis
    proof (cases xs)
      case Nil
      then show ?thesis using Cons pop_none Pop by simp
    next
      case (Cons y ys)
      then obtain q' where "pop q = (Some y, q')" "repr q' ys (insert y free)" using pop_some Cons.prems(1) by blast
      then show ?thesis using Cons.IH Cons.prems(2) Pop Cons by simp
    qed
  next
    case (Detach j)
    obtain q' where "detach q j = Some (j \<in> set xs, q')" "repr q' (remove1 j xs) (if j \<in> set xs then insert j free else free)"
      using detach_law Cons.prems(1) by blast
    then show ?thesis using Cons.IH Cons.prems(2) Detach by simp
  qed
qed simp

end

section \<open>The list is a queue\<close>

fun chain :: "(nat \<Rightarrow> nat option) \<Rightarrow> nat option \<Rightarrow> nat list \<Rightarrow> bool" where
  "chain next p [] = (p = None)"
| "chain next p (x # xs) = (p = Some x \<and> chain next (next x) xs)"

definition represents :: "job_queue \<Rightarrow> nat list \<Rightarrow> nat set \<Rightarrow> bool" where
  "represents q xs free \<longleftrightarrow>
     chain (q_next q) (q_head q) xs \<and> distinct xs \<and> q_tail q = (if xs = [] then None else Some (List.last xs))
     \<and> free \<inter> set xs = {} \<and> (\<forall>j\<in>free. q_next q j = None)"

fun path :: "(nat \<Rightarrow> nat option) \<Rightarrow> nat option \<Rightarrow> nat list \<Rightarrow> bool" where
  "path next p [] = True"
| "path next p (x # xs) = (p = Some x \<and> path next (next x) xs)"

lemma chain_cong: "(\<forall>x\<in>set xs. f x = g x) \<Longrightarrow> chain f p xs = chain g p xs"
  by (induction xs arbitrary: p) auto

lemma path_cong: "(\<forall>x\<in>set xs. f x = g x) \<Longrightarrow> path f p xs = path g p xs"
  by (induction xs arbitrary: p) auto

lemma chain_append:
  "chain next p (xs @ ys) \<longleftrightarrow> path next p xs \<and> chain next (if xs = [] then p else next (List.last xs)) ys"
  by (induction xs arbitrary: p) auto

lemma path_update_last: "distinct xs \<Longrightarrow> path (next(List.last xs := r)) p xs = path next p xs"
proof (induction xs arbitrary: p)
  case (Cons x xs)
  show ?case
  proof (cases "xs = []")
    case False
    then have "List.last (x # xs) = List.last xs" "List.last xs \<noteq> x" using Cons.prems by (auto dest: last_in_set)
    then show ?thesis using Cons.IH Cons.prems by (simp del: last.simps)
  qed simp
qed simp

lemma find_job_chain:
  "chain next p xs \<Longrightarrow> find_job next j prev p
    = Some (if j \<in> set xs then Some (case rev (takeWhile (\<lambda>x. x \<noteq> j) xs) of [] \<Rightarrow> prev | l # _ \<Rightarrow> Some l) else None)"
proof (induction xs arbitrary: p prev)
  case Nil
  then show ?case by (simp add: find_job.simps)
next
  case (Cons x xs)
  then have p: "p = Some x" "chain next (next x) xs" by simp_all
  show ?case
  proof (cases "x = j")
    case True
    then show ?thesis using p by (simp add: find_job.simps)
  next
    case False
    have "find_job next j prev p = find_job next j (Some x) (next x)" using p False by (subst find_job.simps) simp
    also have "\<dots> = Some (if j \<in> set xs then Some (case rev (takeWhile (\<lambda>x. x \<noteq> j) xs) of [] \<Rightarrow> Some x | l # _ \<Rightarrow> Some l) else None)"
      by (rule Cons.IH [OF p(2)])
    finally show ?thesis using False by (cases "rev (takeWhile (\<lambda>x. x \<noteq> j) xs)") simp_all
  qed
qed

lemma unlink_represents:
  assumes "represents q (ys @ j # zs) free"
  shows "represents (unlink_job q (if ys = [] then None else Some (List.last ys)) j) (ys @ zs) (insert j free)"
proof -
  let ?q = "unlink_job q (if ys = [] then None else Some (List.last ys)) j"
  have r: "chain (q_next q) (q_head q) (ys @ j # zs)" "distinct (ys @ j # zs)"
    "q_tail q = Some (if zs = [] then j else List.last zs)" "free \<inter> set (ys @ j # zs) = {}" "\<forall>j\<in>free. q_next q j = None"
    using assms by (auto simp: represents_def split: if_splits)
  have path: "path (q_next q) (q_head q) ys" and zs: "chain (q_next q) (q_next q j) zs" using r(1) by (simp_all add: chain_append)
  have tail: "q_tail ?q = (if ys @ zs = [] then None else Some (List.last (ys @ zs)))"
    using r(2,3) by (auto simp: unlink_job_def Let_def split: if_splits dest: last_in_set)
  have chain': "chain (q_next ?q) (q_head ?q) (ys @ zs)"
  proof (cases "ys = []")
    case True
    have "chain ((q_next q)(j := None)) (q_next q j) zs = chain (q_next q) (q_next q j) zs"
      using r(2) by (intro chain_cong) auto
    then show ?thesis using True zs by (simp add: unlink_job_def Let_def)
  next
    case False
    let ?n = "(q_next q)(List.last ys := q_next q j, j := None)"
    have n: "q_next ?q = ?n" "q_head ?q = q_head q" using False by (simp_all add: unlink_job_def Let_def)
    have ysd: "distinct ys" "j \<notin> set ys" "List.last ys \<in> set ys" "List.last ys \<noteq> j" using r(2) False by (auto dest: last_in_set)
    have "path ?n (q_head q) ys = path ((q_next q)(List.last ys := q_next q j)) (q_head q) ys"
      using ysd by (intro path_cong) auto
    then have p: "path ?n (q_head q) ys" using path path_update_last [OF ysd(1)] by simp
    have "chain ?n (q_next q j) zs = chain (q_next q) (q_next q j) zs"
      using r(2) ysd by (intro chain_cong) auto
    then show ?thesis unfolding n chain_append using p zs False ysd(4) by simp
  qed
  have free': "insert j free \<inter> set (ys @ zs) = {}" using r(2,4) by auto
  have "q_next ?q k = None" if "k \<in> insert j free" for k
    using that r(4,5) by (auto simp: unlink_job_def Let_def dest: last_in_set)
  then show ?thesis using chain' tail free' r(2) by (auto simp: represents_def)
qed

lemma push_represents:
  assumes "represents q xs free" "j \<in> free"
  shows "represents (push_job q j) (xs @ [j]) (free - {j})"
proof (cases "xs = []")
  case True
  then show ?thesis using assms by (auto simp: represents_def push_job_def)
next
  case False
  have r: "chain (q_next q) (q_head q) xs" "distinct xs" "q_tail q = Some (List.last xs)" "free \<inter> set xs = {}" "\<forall>k\<in>free. q_next q k = None"
    using assms False by (auto simp: represents_def)
  have "path (q_next q) (q_head q) xs" using r(1) chain_append [of "q_next q" "q_head q" xs "[]"] by simp
  moreover have "q_next q j = None" "j \<noteq> List.last xs" using r(4,5) assms(2) False by (auto dest: last_in_set)
  ultimately have "chain ((q_next q)(List.last xs := Some j)) (q_head q) (xs @ [j])"
    using False path_update_last [OF r(2)] by (simp add: chain_append)
  moreover have "j \<notin> set xs" using r(4) assms(2) by blast
  ultimately show ?thesis using r assms(2) False by (auto simp: represents_def push_job_def dest: last_in_set)
qed

interpretation jobs: queue_impl push_job pop_job detach_job represents
proof unfold_locales
  fix q xs free j
  show "represents q xs free \<Longrightarrow> j \<in> free \<Longrightarrow> represents (push_job q j) (xs @ [j]) (free - {j})" by (rule push_represents)
  show "represents q [] free \<Longrightarrow> pop_job q = (None, q)" by (simp add: represents_def pop_job_def)
  show "\<exists>q'. pop_job q = (Some x, q') \<and> represents q' xs (insert x free)" if r: "represents q (x # xs) free" for x
  proof -
    have "represents (unlink_job q None x) xs (insert x free)" using unlink_represents [of q "[]" x xs free] r by simp
    moreover have "pop_job q = (Some x, unlink_job q None x)"
      using r by (cases xs) (auto simp: represents_def pop_job_def unlink_job_def Let_def)
    ultimately show ?thesis by blast
  qed
  show "\<exists>q'. detach_job q j = Some (j \<in> set xs, q') \<and> represents q' (remove1 j xs) (if j \<in> set xs then insert j free else free)"
    if r: "represents q xs free"
  proof (cases "j \<in> set xs")
    case False
    then show ?thesis using r find_job_chain [of "q_next q" "q_head q" xs j None]
      by (simp add: detach_job_def represents_def remove1_idem)
  next
    case True
    obtain ys zs where xs: "xs = ys @ j # zs" "j \<notin> set ys" using split_list_first [OF True] by blast
    then have tw: "takeWhile (\<lambda>x. x \<noteq> j) xs = ys" by (simp add: takeWhile_tail) (metis takeWhile_eq_all_conv)
    have "find_job (q_next q) j None (q_head q) = Some (Some (if ys = [] then None else Some (List.last ys)))"
      using r find_job_chain [of "q_next q" "q_head q" xs j None] True
      by (cases ys rule: rev_cases) (simp_all add: represents_def tw)
    moreover have "remove1 j xs = ys @ zs" using xs by (simp add: remove1_append)
    ultimately show ?thesis using True unlink_represents [of q ys j zs free] r xs(1) by (simp add: detach_job_def)
  qed
qed

text \<open>
  C26: The linked list is a queue: any sequence of pushes (of jobs that are not waiting), pops and detachings
  ends, returns what the operations on the sequence of waiting jobs return, and never follows a stale pointer.
\<close>

theorem job_queue_refines:
  assumes "fresh_pushes [] UNIV ops"
  shows "jobs.run_impl empty_queue ops = Some (run_spec [] ops)"
  by (rule jobs.run_refines [OF _ assms]) (simp add: represents_def empty_queue_def)

lemma job_queue_refines_witness:
  "jobs.run_impl empty_queue [Push 1, Push 2, Push 3, Detach 3, Push 3, Pop, Detach 7, Pop, Pop, Pop]
    = Some [Some 3, Some 1, None, Some 2, Some 3, None]"
  using job_queue_refines [of "[Push 1, Push 2, Push 3, Detach 3, Push 3, Pop, Detach 7, Pop, Pop, Pop]"] by simp

end
