(* ===== verification/ServerSched.thy ===== *)
theory ServerSched
  imports ServerQueue CText "HOL-Library.Multiset" "HOL-Library.Sublist"
begin

text \<open>
  The job scheduler of \<open>src/ds4_server.c\<close>: which session slot a job may run on (\<open>job_slot_score\<close> and the
  visible-replay key), dispatching, enqueueing, cancelling, and the loops of the two kinds of worker as
  steps, one per critical section of the scheduler mutex. What a slot's session knows (position, common
  token prefix, image check) is the environment of a step and may differ from step to step. The
  invariant: every accepted job is in exactly one place, and each slot's flags agree with its worker.
\<close>

section \<open>Which slot a job may run on\<close>

record visible_image_key =
  ik_offsets :: "nat list"

definition visible_image_prefix_matches :: "visible_image_key \<Rightarrow> visible_image_key \<Rightarrow> nat \<Rightarrow> bool" where
  "visible_image_prefix_matches incoming old boundary =
     (if length (ik_offsets incoming) < length (ik_offsets old) then False
      else if \<exists>i<length (ik_offsets old). ik_offsets incoming ! i \<noteq> ik_offsets old ! i then False
      else length (ik_offsets incoming) = length (ik_offsets old)
        \<or> boundary \<le> ik_offsets incoming ! length (ik_offsets old))"

record live_tool_state =
  lt_valid :: bool
  lt_live_tokens :: int
  lt_visible_text :: "string option"
  lt_visible_len :: nat
  lt_images :: visible_image_key
  lt_call_ids :: "string list"

record visible_live_state =
  vl_valid :: bool
  vl_live_tokens :: int
  vl_visible_text :: "string option"
  vl_visible_len :: nat
  vl_images :: visible_image_key

text \<open>
  What the choice reads of a slot's session and of a request. \<open>env_vision\<close> and \<open>env_common\<close> are the session's image check and common token prefix.
\<close>

record slot_view =
  sv_responses_live :: live_tool_state
  sv_anthropic_live :: live_tool_state
  sv_thinking_live :: visible_live_state
  sv_pos :: int

record request_view =
  rq_responses_required :: bool
  rq_responses_ids :: "string list"
  rq_anthropic_required :: bool
  rq_anthropic_ids :: "string list"
  rq_prompt_text :: "string option"
  rq_image_markers :: "string list"
  rq_api_responses :: bool
  rq_chat :: bool

record sched_env =
  env_slot :: "nat \<Rightarrow> slot_view"
  env_request :: "nat \<Rightarrow> request_view"
  env_vision :: "nat \<Rightarrow> nat \<Rightarrow> bool"
  env_common :: "nat \<Rightarrow> nat \<Rightarrow> int"

text \<open>
  The prompt with every image marker overwritten, and the markers' offsets. \<open>at\<close> is the cursor.
\<close>

fun mark_images :: "string \<Rightarrow> string \<Rightarrow> nat \<Rightarrow> string list \<Rightarrow> nat list \<Rightarrow> (string \<times> visible_image_key) option" where
  "mark_images txt key at [] offs = Some (key, \<lparr>ik_offsets = offs\<rparr>)"
| "mark_images txt key at (m # ms) offs =
     (case strstr (drop at txt) m of None \<Rightarrow> None
      | Some i \<Rightarrow>
          if length m = 0 then None
          else mark_images txt (take (at + i) key @ replicate (length m) (CHR 0x1E) @ drop (at + i + length m) key)
                 (at + i + length m) ms (offs @ [at + i]))"

definition visible_prompt_key :: "request_view \<Rightarrow> (string \<times> visible_image_key) option" where
  "visible_prompt_key r =
     (case rq_prompt_text r of None \<Rightarrow> None
      | Some txt \<Rightarrow> if 16 < length (rq_image_markers r) then None else mark_images txt txt 0 (rq_image_markers r) [])"

definition id_list_contains :: "string list \<Rightarrow> string \<Rightarrow> bool" where
  "id_list_contains ids k \<longleftrightarrow> k \<noteq> [] \<and> k \<in> set ids"

definition live_state_contains_all :: "live_tool_state \<Rightarrow> string list \<Rightarrow> bool" where
  "live_state_contains_all st ids \<longleftrightarrow> lt_valid st \<and> ids \<noteq> [] \<and> list_all (id_list_contains (lt_call_ids st)) ids"

fun required_slot_from :: "sched_env \<Rightarrow> nat \<Rightarrow> nat list \<Rightarrow> nat option" where
  "required_slot_from env j [] = None"
| "required_slot_from env j (i # is) =
     (let r = env_request env j; slot = env_slot env i in
      if rq_responses_required r \<and> live_state_contains_all (sv_responses_live slot) (rq_responses_ids r) then Some i
      else if rq_anthropic_required r \<and> live_state_contains_all (sv_anthropic_live slot) (rq_anthropic_ids r) then Some i
      else required_slot_from env j is)"

section \<open>The scheduler's state\<close>

text \<open>
  Where a slot's worker is: waiting, generating a job it took, or between completing the job and
  releasing the slot; \<open>Exited\<close> when its thread has returned.
\<close>

datatype worker_phase = Waiting | Generating nat | Releasing | Exited

record server_slot =
  sl_assigned :: "nat option"
  sl_busy :: bool
  sl_phase :: worker_phase

record server =
  sv_queue :: "nat list"
  sv_slots :: "server_slot list"
  sv_batched :: bool
  sv_stopping :: bool
  sv_accepted :: "nat set"
  sv_cancelled :: "nat set"
  sv_detached :: "nat list"
  sv_completed :: "nat list"

abbreviation INT_MIN :: int where "INT_MIN \<equiv> - 2147483648"

definition job_required_slot_locked :: "sched_env \<Rightarrow> server \<Rightarrow> nat \<Rightarrow> nat option" where
  "job_required_slot_locked env s j = required_slot_from env j [0..<length (sv_slots s)]"

definition visible_match :: "sched_env \<Rightarrow> nat \<Rightarrow> nat \<Rightarrow> bool" where
  "visible_match env i j =
     (let slot = env_slot env i; r = env_request env j in
      case visible_prompt_key r of None \<Rightarrow> False
      | Some (key, images) \<Rightarrow>
          if rq_api_responses r then
            let st = sv_responses_live slot in
            lt_valid st \<and> lt_live_tokens st = sv_pos slot
            \<and> (case lt_visible_text st of None \<Rightarrow> False
               | Some t \<Rightarrow> lt_visible_len st < length key \<and> visible_image_prefix_matches images (lt_images st) (lt_visible_len st)
                   \<and> take (lt_visible_len st) key = take (lt_visible_len st) t)
          else if rq_chat r then
            let st = sv_thinking_live slot in
            vl_valid st \<and> vl_live_tokens st = sv_pos slot
            \<and> (case vl_visible_text st of None \<Rightarrow> False
               | Some t \<Rightarrow> vl_visible_len st < length key \<and> visible_image_prefix_matches images (vl_images st) (vl_visible_len st)
                   \<and> take (vl_visible_len st) key = take (vl_visible_len st) t)
          else False)"

definition job_slot_score :: "sched_env \<Rightarrow> server \<Rightarrow> nat \<Rightarrow> nat \<Rightarrow> nat option \<Rightarrow> int" where
  "job_slot_score env s i j required_slot =
     (let slot = sv_slots s ! i in
      if sl_busy slot \<or> sl_assigned slot \<noteq> None then INT_MIN
      else if required_slot \<noteq> None \<and> required_slot \<noteq> Some i then INT_MIN
      else if required_slot = Some i then INT_MAX
      else if visible_match env i j then sv_pos (env_slot env i)
      else if 0 < sv_pos (env_slot env i) \<and> \<not> env_vision env i j then -1
      else env_common env i j)"

section \<open>Dispatching\<close>

fun best_slot :: "(nat \<Rightarrow> int) \<Rightarrow> nat list \<Rightarrow> nat option \<Rightarrow> int \<Rightarrow> nat option" where
  "best_slot score [] best best_score = best"
| "best_slot score (i # is) best best_score =
     (if score i > best_score then best_slot score is (Some i) (score i) else best_slot score is best best_score)"

definition slot_for :: "sched_env \<Rightarrow> server \<Rightarrow> nat \<Rightarrow> nat option" where
  "slot_for env s j =
     best_slot (\<lambda>i. job_slot_score env s i j (job_required_slot_locked env s j)) [0..<length (sv_slots s)] None INT_MIN"

fun choose_job :: "(nat \<Rightarrow> nat option) \<Rightarrow> nat list \<Rightarrow> (nat \<times> nat) option" where
  "choose_job slot_of [] = None"
| "choose_job slot_of (j # js) = (case slot_of j of Some i \<Rightarrow> Some (j, i) | None \<Rightarrow> choose_job slot_of js)"

definition assign_job :: "server \<Rightarrow> nat \<Rightarrow> nat \<Rightarrow> server" where
  "assign_job s j i =
     s\<lparr>sv_queue := remove1 j (sv_queue s),
       sv_slots := (sv_slots s)[i := (sv_slots s ! i)\<lparr>sl_assigned := Some j, sl_busy := True\<rparr>]\<rparr>"

lemma choose_job_member: "choose_job f js = Some (j, i) \<Longrightarrow> j \<in> set js \<and> f j = Some i"
  by (induction js) (auto split: option.splits)

function dispatch_loop :: "sched_env \<Rightarrow> server \<Rightarrow> server" where
  "dispatch_loop env s =
     (case choose_job (slot_for env s) (sv_queue s) of None \<Rightarrow> s
      | Some (j, i) \<Rightarrow> dispatch_loop env (assign_job s j i))"
  by pat_completeness auto
termination
proof (relation "measure (\<lambda>(env, s). length (sv_queue s))", goal_cases)
  case (2 env s p j i)
  then have "j \<in> set (sv_queue s)" using choose_job_member [of "slot_for env s" "sv_queue s" j i] by simp
  then have "length (remove1 j (sv_queue s)) < length (sv_queue s)"
    using length_pos_if_in_set [of j "sv_queue s"] by (simp add: length_remove1)
  then show ?case by (simp add: assign_job_def)
qed simp

declare dispatch_loop.simps [simp del]

definition dispatch_jobs_locked :: "sched_env \<Rightarrow> server \<Rightarrow> server" where
  "dispatch_jobs_locked env s = (if \<not> sv_batched s then s else dispatch_loop env s)"

section \<open>The operations\<close>

definition enqueue :: "sched_env \<Rightarrow> server \<Rightarrow> nat \<Rightarrow> bool \<times> server" where
  "enqueue env s j =
     (if sv_stopping s then (False, s)
      else
        let s = s\<lparr>sv_queue := sv_queue s @ [j], sv_accepted := insert j (sv_accepted s)\<rparr> in
        (True, if sv_batched s then dispatch_jobs_locked env s else s))"

text \<open>\<open>dequeue\<close> when it does not wait: the next job, or the null pointer when the server stops.\<close>

definition dequeue_ready :: "server \<Rightarrow> bool" where
  "dequeue_ready s \<longleftrightarrow> sv_queue s \<noteq> [] \<or> sv_stopping s"

definition dequeue :: "server \<Rightarrow> nat option \<times> server" where
  "dequeue s = (case sv_queue s of [] \<Rightarrow> (None, s) | j # js \<Rightarrow> (Some j, s\<lparr>sv_queue := js\<rparr>))"

definition set_slot :: "server \<Rightarrow> nat \<Rightarrow> (server_slot \<Rightarrow> server_slot) \<Rightarrow> server" where
  "set_slot s i f = s\<lparr>sv_slots := (sv_slots s)[i := f (sv_slots s ! i)]\<rparr>"

definition job_complete :: "server \<Rightarrow> nat \<Rightarrow> server" where
  "job_complete s j = s\<lparr>sv_completed := sv_completed s @ [j]\<rparr>"

fun first_assigned :: "server_slot list \<Rightarrow> nat \<Rightarrow> nat \<Rightarrow> nat option" where
  "first_assigned [] j i = None"
| "first_assigned (sl # sls) j i = (if sl_assigned sl = Some j then Some i else first_assigned sls j (i + 1))"

text \<open>The critical section of \<open>server_cancel_job\<close> under the scheduler mutex; the job detached is completed later.\<close>

definition cancel_detach :: "sched_env \<Rightarrow> server \<Rightarrow> nat \<Rightarrow> server" where
  "cancel_detach env s j =
     (if j \<in> set (sv_queue s)
      then s\<lparr>sv_queue := remove1 j (sv_queue s), sv_detached := sv_detached s @ [j]\<rparr>
      else if \<not> sv_batched s then s
      else case first_assigned (sv_slots s) j 0 of None \<Rightarrow> s
      | Some i \<Rightarrow>
          dispatch_jobs_locked env
            ((set_slot s i (\<lambda>sl. sl\<lparr>sl_assigned := None, sl_busy := False\<rparr>))\<lparr>sv_detached := sv_detached s @ [j]\<rparr>))"

text \<open>
  Sessions change while jobs run, so the environment of a step that dispatches is arbitrary, except
  that positions and common prefixes are counts.
\<close>

definition sane_env :: "sched_env \<Rightarrow> bool" where
  "sane_env env \<longleftrightarrow> (\<forall>i j. 0 \<le> env_common env i j \<and> 0 \<le> sv_pos (env_slot env i))"

text \<open>
  The threads, one step per critical section. Clients submit, mark a job cancelled and detach it; the
  stop flag is set.
\<close>

inductive client_step :: "server \<Rightarrow> server \<Rightarrow> bool" where
  submit: "j \<notin> sv_accepted s \<Longrightarrow> sane_env env \<Longrightarrow> enqueue env s j = (ok, s') \<Longrightarrow> client_step s s'"
| mark_cancelled: "j \<in> sv_accepted s \<Longrightarrow> client_step s (s\<lparr>sv_cancelled := insert j (sv_cancelled s)\<rparr>)"
| cancel: "j \<in> sv_cancelled s \<Longrightarrow> sane_env env \<Longrightarrow> client_step s (cancel_detach env s j)"
| stop: "client_step s (s\<lparr>sv_stopping := True\<rparr>)"

text \<open>
  The single worker (slot 0, without batching) and the slot workers take, complete and release jobs; a
  canceller completes the job it detached.
\<close>

inductive worker_step :: "server \<Rightarrow> server \<Rightarrow> bool" where
  complete_detached: "j \<in> set (sv_detached s) \<Longrightarrow>
    worker_step s (job_complete (s\<lparr>sv_detached := remove1 j (sv_detached s)\<rparr>) j)"
| worker_take: "\<not> sv_batched s \<Longrightarrow> sv_slots s \<noteq> [] \<Longrightarrow> sl_phase (sv_slots s ! 0) = Waiting \<Longrightarrow> dequeue_ready s \<Longrightarrow>
    dequeue s = (Some j, s') \<Longrightarrow> worker_step s (set_slot s' 0 (\<lambda>sl. sl\<lparr>sl_phase := Generating j\<rparr>))"
| worker_exit: "\<not> sv_batched s \<Longrightarrow> sv_slots s \<noteq> [] \<Longrightarrow> sl_phase (sv_slots s ! 0) = Waiting \<Longrightarrow> dequeue_ready s \<Longrightarrow>
    dequeue s = (None, s') \<Longrightarrow> worker_step s (set_slot s' 0 (\<lambda>sl. sl\<lparr>sl_phase := Exited\<rparr>))"
| worker_complete: "\<not> sv_batched s \<Longrightarrow> sv_slots s \<noteq> [] \<Longrightarrow> sl_phase (sv_slots s ! 0) = Generating j \<Longrightarrow>
    worker_step s (job_complete (set_slot s 0 (\<lambda>sl. sl\<lparr>sl_phase := Waiting\<rparr>)) j)"
| slot_take: "sv_batched s \<Longrightarrow> i < length (sv_slots s) \<Longrightarrow> sl_phase (sv_slots s ! i) = Waiting \<Longrightarrow>
    sl_assigned (sv_slots s ! i) = Some j \<Longrightarrow>
    worker_step s (set_slot s i (\<lambda>sl. sl\<lparr>sl_assigned := None, sl_phase := Generating j\<rparr>))"
| slot_exit: "sv_batched s \<Longrightarrow> i < length (sv_slots s) \<Longrightarrow> sl_phase (sv_slots s ! i) = Waiting \<Longrightarrow>
    sl_assigned (sv_slots s ! i) = None \<Longrightarrow> sv_stopping s \<Longrightarrow> sv_queue s = [] \<Longrightarrow>
    worker_step s (set_slot s i (\<lambda>sl. sl\<lparr>sl_phase := Exited\<rparr>))"
| slot_complete: "sv_batched s \<Longrightarrow> i < length (sv_slots s) \<Longrightarrow> sl_phase (sv_slots s ! i) = Generating j \<Longrightarrow>
    worker_step s (job_complete (set_slot s i (\<lambda>sl. sl\<lparr>sl_phase := Releasing\<rparr>)) j)"
| slot_release: "sv_batched s \<Longrightarrow> i < length (sv_slots s) \<Longrightarrow> sl_phase (sv_slots s ! i) = Releasing \<Longrightarrow> sane_env env \<Longrightarrow>
    worker_step s (dispatch_jobs_locked env (set_slot s i (\<lambda>sl. sl\<lparr>sl_busy := False, sl_phase := Waiting\<rparr>)))"

definition server_init :: "bool \<Rightarrow> nat \<Rightarrow> server" where
  "server_init batched n =
     \<lparr>sv_queue = [], sv_slots = replicate n \<lparr>sl_assigned = None, sl_busy = False, sl_phase = Waiting\<rparr>, sv_batched = batched,
      sv_stopping = False, sv_accepted = {}, sv_cancelled = {}, sv_detached = [], sv_completed = []\<rparr>"

inductive reachable :: "bool \<Rightarrow> nat \<Rightarrow> server \<Rightarrow> bool" for batched n where
  init: "reachable batched n (server_init batched n)"
| step: "reachable batched n s \<Longrightarrow> client_step s s' \<or> worker_step s s' \<Longrightarrow> reachable batched n s'"

section \<open>Where every job is\<close>

definition slot_jobs :: "server_slot \<Rightarrow> nat list" where
  "slot_jobs sl = (case sl_assigned sl of None \<Rightarrow> [] | Some j \<Rightarrow> [j]) @ (case sl_phase sl of Generating j \<Rightarrow> [j] | _ \<Rightarrow> [])"

definition places :: "server \<Rightarrow> nat multiset" where
  "places s = mset (sv_queue s) + mset (concat (map slot_jobs (sv_slots s))) + mset (sv_detached s) + mset (sv_completed s)"

definition slot_ok :: "server \<Rightarrow> server_slot \<Rightarrow> bool" where
  "slot_ok s sl \<longleftrightarrow>
     (if sv_batched s
      then (sl_busy sl \<longleftrightarrow> sl_assigned sl \<noteq> None \<or> (sl_phase sl \<noteq> Waiting \<and> sl_phase sl \<noteq> Exited))
        \<and> (sl_assigned sl \<noteq> None \<longrightarrow> sl_phase sl = Waiting)
      else sl_assigned sl = None \<and> \<not> sl_busy sl \<and> sl_phase sl \<noteq> Releasing)
     \<and> (sl_phase sl = Exited \<longrightarrow> sv_stopping s \<and> sv_queue s = [] \<and> sl_assigned sl = None)"

definition server_inv :: "server \<Rightarrow> bool" where
  "server_inv s \<longleftrightarrow> finite (sv_accepted s) \<and> places s = mset_set (sv_accepted s) \<and> sv_cancelled s \<subseteq> sv_accepted s
     \<and> (\<forall>sl\<in>set (sv_slots s). slot_ok s sl)
     \<and> (sv_batched s \<and> sv_slots s \<noteq> [] \<and> sv_queue s \<noteq> [] \<longrightarrow> (\<exists>sl\<in>set (sv_slots s). sl_busy sl))
     \<and> (\<not> sv_batched s \<longrightarrow> (\<forall>sl\<in>set (tl (sv_slots s)). sl_phase sl = Waiting))"

lemma mset_concat_update:
  assumes "i < length xs"
  shows "mset (concat (map f (xs[i := y]))) + mset (f (xs ! i)) = mset (concat (map f xs)) + mset (f y)"
proof -
  have "mset (concat (map f xs)) = mset (concat (map f (take i xs @ xs ! i # drop (Suc i) xs)))"
    using id_take_nth_drop [OF assms] by simp
  then show ?thesis by (simp add: upd_conv_take_nth_drop [OF assms])
qed

lemma places_set_slot:
  assumes "i < length (sv_slots s)"
  shows "places (set_slot s i f) + mset (slot_jobs (sv_slots s ! i)) = places s + mset (slot_jobs (f (sv_slots s ! i)))"
  using mset_concat_update [OF assms, of slot_jobs "f (sv_slots s ! i)"]
  by (simp add: places_def set_slot_def ac_simps)

lemma set_slot_fields [simp]:
  "sv_queue (set_slot s i f) = sv_queue s" "sv_batched (set_slot s i f) = sv_batched s"
  "sv_stopping (set_slot s i f) = sv_stopping s" "sv_accepted (set_slot s i f) = sv_accepted s"
  "sv_cancelled (set_slot s i f) = sv_cancelled s" "sv_detached (set_slot s i f) = sv_detached s"
  "sv_completed (set_slot s i f) = sv_completed s" "length (sv_slots (set_slot s i f)) = length (sv_slots s)"
  by (simp_all add: set_slot_def)

lemma slot_in_set_slot: "sl \<in> set (sv_slots (set_slot s i f)) \<Longrightarrow> sl = f (sv_slots s ! i) \<or> sl \<in> set (sv_slots s)"
  by (auto simp: set_slot_def dest: set_update_subset_insert [THEN subsetD])

section \<open>Choosing a slot\<close>

lemma best_slot_Some:
  "best_slot score is best bs = Some i \<Longrightarrow> best = Some i \<or> (i \<in> set is \<and> bs < score i)"
  by (induction "is" arbitrary: best bs) (fastforce split: if_splits)+

lemma best_slot_None: "best_slot score is None bs = None \<Longrightarrow> i \<in> set is \<Longrightarrow> score i \<le> bs"
proof (induction "is")
  case (Cons k "is")
  have some: "best_slot score ks (Some l) b \<noteq> None" for ks l b
    by (induction ks arbitrary: l b) auto
  then have "\<not> bs < score k" using Cons.prems(1) by (metis best_slot.simps(2))
  then show ?case using Cons by auto
qed simp

lemma required_slot_member: "required_slot_from env j is = Some i \<Longrightarrow> i \<in> set is"
  by (induction "is") (auto simp: Let_def split: if_splits)

lemma slot_for_Some:
  assumes "slot_for env s j = Some i"
  shows "i < length (sv_slots s)" "\<not> sl_busy (sv_slots s ! i)" "sl_assigned (sv_slots s ! i) = None"
    "job_required_slot_locked env s j = None \<or> job_required_slot_locked env s j = Some i"
proof -
  have "i \<in> set [0..<length (sv_slots s)]" "INT_MIN < job_slot_score env s i j (job_required_slot_locked env s j)"
    using assms best_slot_Some unfolding slot_for_def by fastforce+
  then show "i < length (sv_slots s)" "\<not> sl_busy (sv_slots s ! i)" "sl_assigned (sv_slots s ! i) = None"
    "job_required_slot_locked env s j = None \<or> job_required_slot_locked env s j = Some i"
    by (auto simp: job_slot_score_def Let_def split: if_splits)
qed

lemma eligible_score:
  assumes "sane_env env" "\<not> sl_busy (sv_slots s ! i)" "sl_assigned (sv_slots s ! i) = None" "req = None \<or> req = Some i"
  shows "INT_MIN < job_slot_score env s i j req"
proof -
  have pos: "INT_MIN < sv_pos (env_slot env i)" and com: "INT_MIN < env_common env i j"
    using assms(1) unfolding sane_env_def by (smt (verit, best))+
  have "job_slot_score env s i j req \<in> {INT_MAX, sv_pos (env_slot env i), - 1, env_common env i j}"
    using assms(2-4) by (auto simp: job_slot_score_def Let_def)
  then show ?thesis using pos com by auto
qed

lemma slot_for_None:
  assumes "slot_for env s j = None" "sane_env env" "i < length (sv_slots s)"
  shows "sl_busy (sv_slots s ! i) \<or> sl_assigned (sv_slots s ! i) \<noteq> None
    \<or> (\<exists>k. job_required_slot_locked env s j = Some k \<and> k \<noteq> i)"
proof (rule ccontr)
  assume free: "\<not> ?thesis"
  have "job_slot_score env s i j (job_required_slot_locked env s j) \<le> INT_MIN"
    by (rule best_slot_None [OF assms(1) [unfolded slot_for_def]]) (use assms(3) in simp)
  moreover have "job_required_slot_locked env s j = None \<or> job_required_slot_locked env s j = Some i"
    using free by (cases "job_required_slot_locked env s j") auto
  then have "INT_MIN < job_slot_score env s i j (job_required_slot_locked env s j)"
    using free assms(2) by (intro eligible_score) simp_all
  ultimately show False by simp
qed

lemma choose_job_None: "choose_job f js = None \<Longrightarrow> j \<in> set js \<Longrightarrow> f j = None"
  by (induction js) (auto split: option.splits)

section \<open>Dispatching keeps the invariant\<close>

definition slots_ok :: "server \<Rightarrow> bool" where
  "slots_ok s \<longleftrightarrow> (\<forall>sl\<in>set (sv_slots s). slot_ok s sl)"

definition same_jobs :: "server \<Rightarrow> server \<Rightarrow> bool" where
  "same_jobs s s' \<longleftrightarrow> places s' = places s \<and> sv_batched s' = sv_batched s \<and> sv_stopping s' = sv_stopping s
     \<and> sv_accepted s' = sv_accepted s \<and> sv_cancelled s' = sv_cancelled s \<and> sv_detached s' = sv_detached s
     \<and> sv_completed s' = sv_completed s \<and> length (sv_slots s') = length (sv_slots s)"

lemma assign_job_ok:
  assumes "slots_ok s" "sv_batched s" "j \<in> set (sv_queue s)" "slot_for env s j = Some i"
  shows "slots_ok (assign_job s j i) \<and> same_jobs s (assign_job s j i)"
proof
  note i = slot_for_Some [OF assms(4)]
  let ?sl = "sv_slots s ! i"
  have ok: "slot_ok s ?sl" using assms(1) i(1) by (simp add: slots_ok_def)
  have ph: "sl_phase ?sl = Waiting" using ok i(2,3) assms(2,3) by (auto simp: slot_ok_def)
  have "slot_ok (assign_job s j i) sl" if sl: "sl \<in> set (sv_slots (assign_job s j i))" for sl
  proof -
    have "sl = ?sl\<lparr>sl_assigned := Some j, sl_busy := True\<rparr> \<or> sl \<in> set (sv_slots s)"
      using sl by (auto simp: assign_job_def dest: set_update_subset_insert [THEN subsetD])
    moreover have "sl_phase x \<noteq> Exited" if "x \<in> set (sv_slots s)" for x using that assms(1,3) by (auto simp: slots_ok_def slot_ok_def)
    ultimately show ?thesis using assms(1,2) ph by (auto simp: slots_ok_def slot_ok_def assign_job_def)
  qed
  then show "slots_ok (assign_job s j i)" by (simp add: slots_ok_def)
  have "mset (concat (map slot_jobs ((sv_slots s)[i := ?sl\<lparr>sl_assigned := Some j, sl_busy := True\<rparr>]))) + mset (slot_jobs ?sl)
    = mset (concat (map slot_jobs (sv_slots s))) + mset (slot_jobs (?sl\<lparr>sl_assigned := Some j, sl_busy := True\<rparr>))"
    by (rule mset_concat_update [OF i(1)])
  then have "mset (concat (map slot_jobs ((sv_slots s)[i := ?sl\<lparr>sl_assigned := Some j, sl_busy := True\<rparr>]))) = add_mset j (mset (concat (map slot_jobs (sv_slots s))))"
    using i(3) ph by (simp add: slot_jobs_def)
  then have "places (assign_job s j i) = places s"
    using assms(3) by (simp add: places_def assign_job_def)
  then show "same_jobs s (assign_job s j i)" by (simp add: same_jobs_def assign_job_def)
qed

lemma subseq_remove1: "subseq (remove1 x xs) xs"
  by (induction xs) auto

lemma same_jobs_trans: "same_jobs a b \<Longrightarrow> same_jobs b c \<Longrightarrow> same_jobs a c"
  by (simp add: same_jobs_def)

lemma dispatch_loop_ok:
  "slots_ok s \<Longrightarrow> sv_batched s \<Longrightarrow> slots_ok (dispatch_loop env s) \<and> same_jobs s (dispatch_loop env s)
    \<and> (\<forall>j\<in>set (sv_queue (dispatch_loop env s)). slot_for env (dispatch_loop env s) j = None)
    \<and> subseq (sv_queue (dispatch_loop env s)) (sv_queue s)"
proof (induction env s rule: dispatch_loop.induct)
  case (1 env s)
  show ?case
  proof (cases "choose_job (slot_for env s) (sv_queue s)")
    case None
    then have "dispatch_loop env s = s" by (simp add: dispatch_loop.simps)
    then show ?thesis using "1.prems" choose_job_None [OF None] by (simp add: same_jobs_def)
  next
    case (Some c)
    then obtain j i where c: "choose_job (slot_for env s) (sv_queue s) = Some (j, i)" by (cases c) simp
    note m = choose_job_member [OF c]
    from assign_job_ok [OF "1.prems" m [THEN conjunct1] m [THEN conjunct2]]
    have a: "slots_ok (assign_job s j i)" "same_jobs s (assign_job s j i)" by simp_all
    then have b: "sv_batched (assign_job s j i)" using "1.prems"(2) by (simp add: same_jobs_def)
    have "subseq (sv_queue (assign_job s j i)) (sv_queue s)" by (simp add: assign_job_def subseq_remove1)
    moreover have "dispatch_loop env s = dispatch_loop env (assign_job s j i)" using c by (subst dispatch_loop.simps) simp
    ultimately show ?thesis using "1.IH" [OF c refl a(1) b] same_jobs_trans [OF a(2)] subseq_order.trans by metis
  qed
qed

text \<open>After a dispatch a job waits only while some slot is busy.\<close>

lemma waiting_means_busy:
  assumes "slots_ok s" "sv_batched s" "sane_env env" "sv_slots s \<noteq> []" "\<forall>j\<in>set (sv_queue s). slot_for env s j = None" "sv_queue s \<noteq> []"
  shows "\<exists>sl\<in>set (sv_slots s). sl_busy sl"
proof -
  obtain j where j: "j \<in> set (sv_queue s)" using assms(6) by (cases "sv_queue s") auto
  obtain k where k: "k < length (sv_slots s)" "job_required_slot_locked env s j = None \<or> job_required_slot_locked env s j = Some k"
  proof (cases "job_required_slot_locked env s j")
    case None
    then show thesis using that [of 0] assms(4) by simp
  next
    case (Some k)
    then show thesis using that [of k] required_slot_member [of env j "[0..<length (sv_slots s)]" k]
      by (auto simp: job_required_slot_locked_def)
  qed
  then have "sl_busy (sv_slots s ! k) \<or> sl_assigned (sv_slots s ! k) \<noteq> None"
    using slot_for_None [OF _ assms(3) k(1), of j] assms(5) j by auto
  moreover have "slot_ok s (sv_slots s ! k)" using assms(1) k(1) by (simp add: slots_ok_def)
  ultimately have "sl_busy (sv_slots s ! k)" using assms(2) unfolding slot_ok_def by auto
  then show ?thesis using nth_mem [OF k(1)] by blast
qed

lemma dispatch_ok:
  assumes "slots_ok s" "sane_env env" "finite (sv_accepted s)" "places s = mset_set (sv_accepted s)" "sv_cancelled s \<subseteq> sv_accepted s"
    and "sv_batched s"
  shows "server_inv (dispatch_jobs_locked env s)"
proof -
  let ?s = "dispatch_loop env s"
  have eq: "dispatch_jobs_locked env s = ?s" using assms(6) by (simp add: dispatch_jobs_locked_def)
  have d: "slots_ok ?s" "same_jobs s ?s" "\<forall>j\<in>set (sv_queue ?s). slot_for env ?s j = None"
    using dispatch_loop_ok [OF assms(1,6), of env] by blast+
  have b: "sv_batched ?s" using d(2) assms(6) by (simp add: same_jobs_def)
  have busy: "sv_batched ?s \<and> sv_slots ?s \<noteq> [] \<and> sv_queue ?s \<noteq> [] \<longrightarrow> (\<exists>sl\<in>set (sv_slots ?s). sl_busy sl)"
    using waiting_means_busy [OF d(1) b assms(2) _ d(3)] by blast
  have ok: "\<forall>sl\<in>set (sv_slots ?s). slot_ok ?s sl" using d(1) by (simp only: slots_ok_def)
  have "finite (sv_accepted ?s)" "places ?s = mset_set (sv_accepted ?s)" "sv_cancelled ?s \<subseteq> sv_accepted ?s"
    using d(2) assms(3,4,5) by (simp_all only: same_jobs_def)
  moreover have "\<not> sv_batched ?s \<longrightarrow> (\<forall>sl\<in>set (tl (sv_slots ?s)). sl_phase sl = Waiting)" using b by blast
  ultimately show ?thesis using busy ok unfolding eq server_inv_def by (intro conjI)
qed

section \<open>Every step keeps the invariant\<close>

lemma slot_ok_cong:
  "sv_batched s' = sv_batched s \<Longrightarrow> sv_stopping s' = sv_stopping s \<Longrightarrow> sv_queue s' = sv_queue s \<Longrightarrow> slot_ok s' sl = slot_ok s sl"
  by (simp add: slot_ok_def)

lemma slots_ok_set_slot:
  "slots_ok s \<Longrightarrow> slot_ok s (f (sv_slots s ! i)) \<Longrightarrow> slots_ok (set_slot s i f)"
  using slot_in_set_slot [of _ s i f] slot_ok_cong [of "set_slot s i f" s] unfolding slots_ok_def by auto

lemma server_invD:
  assumes "server_inv s"
  shows "finite (sv_accepted s)" "places s = mset_set (sv_accepted s)" "sv_cancelled s \<subseteq> sv_accepted s" "slots_ok s"
    "sv_batched s \<Longrightarrow> sv_slots s \<noteq> [] \<Longrightarrow> sv_queue s \<noteq> [] \<Longrightarrow> \<exists>sl\<in>set (sv_slots s). sl_busy sl"
    "\<not> sv_batched s \<Longrightarrow> sl \<in> set (tl (sv_slots s)) \<Longrightarrow> sl_phase sl = Waiting"
    "i < length (sv_slots s) \<Longrightarrow> slot_ok s (sv_slots s ! i)"
  using assms by (auto simp: server_inv_def slots_ok_def)

lemma places_fields:
  "sv_queue s' = sv_queue s \<Longrightarrow> sv_slots s' = sv_slots s \<Longrightarrow> sv_detached s' = sv_detached s \<Longrightarrow> sv_completed s' = sv_completed s
    \<Longrightarrow> places s' = places s"
  by (simp add: places_def)

lemma enqueue_inv:
  assumes "server_inv s" "j \<notin> sv_accepted s" "sane_env env" "enqueue env s j = (ok, s')"
  shows "server_inv s'"
proof (cases "sv_stopping s")
  case True
  then show ?thesis using assms by (simp add: enqueue_def)
next
  case False
  let ?s = "s\<lparr>sv_queue := sv_queue s @ [j], sv_accepted := insert j (sv_accepted s)\<rparr>"
  note inv = server_invD [OF assms(1)]
  have ok: "slots_ok ?s" using inv(4) False by (auto simp: slots_ok_def slot_ok_def)
  have pl: "places ?s = mset_set (insert j (sv_accepted s))"
    using inv(1,2) assms(2) by (simp add: places_def)
  show ?thesis
  proof (cases "sv_batched s")
    case True
    then have "s' = dispatch_jobs_locked env ?s" using assms(4) False by (simp add: enqueue_def Let_def)
    moreover have "server_inv (dispatch_jobs_locked env ?s)"
      by (rule dispatch_ok) (use ok pl inv(1,3) assms(3) True in auto)
    ultimately show ?thesis by simp
  next
    case nb: False
    then have s': "s' = ?s" using assms(4) False by (simp add: enqueue_def Let_def)
    have "\<forall>sl\<in>set (sv_slots ?s). slot_ok ?s sl" using ok by (simp only: slots_ok_def)
    then show ?thesis unfolding s' server_inv_def using pl inv(1,3,6) nb by auto
  qed
qed

lemma first_assigned_Some:
  "first_assigned sls j n = Some i \<Longrightarrow> n \<le> i \<and> i - n < length sls \<and> sl_assigned (sls ! (i - n)) = Some j"
proof (induction sls arbitrary: n)
  case (Cons sl sls)
  then show ?case by (cases "sl_assigned sl = Some j") (fastforce simp: nth_Cons' Suc_diff_le)+
qed simp

lemma cancel_inv:
  assumes "server_inv s" "j \<in> sv_cancelled s" "sane_env env"
  shows "server_inv (cancel_detach env s j)"
proof (cases "j \<in> set (sv_queue s)")
  case True
  let ?s = "s\<lparr>sv_queue := remove1 j (sv_queue s), sv_detached := sv_detached s @ [j]\<rparr>"
  note inv = server_invD [OF assms(1)]
  have "places ?s = places s" using True by (simp add: places_def)
  moreover have "\<forall>sl\<in>set (sv_slots s). slot_ok ?s sl" using inv(4) by (auto simp: slots_ok_def slot_ok_def)
  moreover have "sv_queue s \<noteq> []" using True by auto
  ultimately have "server_inv ?s" unfolding server_inv_def using inv(1,2,3,5,6) by auto
  then show ?thesis using True by (simp add: cancel_detach_def)
next
  case nq: False
  note inv = server_invD [OF assms(1)]
  show ?thesis
  proof (cases "sv_batched s \<and> first_assigned (sv_slots s) j 0 \<noteq> None")
    case False
    then have "cancel_detach env s j = s" using nq by (auto simp: cancel_detach_def)
    then show ?thesis using assms(1) by simp
  next
    case True
    then obtain i where fa: "first_assigned (sv_slots s) j 0 = Some i" and b: "sv_batched s" by blast
    let ?f = "\<lambda>sl. sl\<lparr>sl_assigned := None, sl_busy := False\<rparr>"
    let ?s = "(set_slot s i ?f)\<lparr>sv_detached := sv_detached s @ [j]\<rparr>"
    have i: "i < length (sv_slots s)" "sl_assigned (sv_slots s ! i) = Some j" using first_assigned_Some [OF fa] by simp_all
    have ph: "sl_phase (sv_slots s ! i) = Waiting" using inv(7) [OF i(1)] i(2) b by (auto simp: slot_ok_def)
    have "slots_ok (set_slot s i ?f)" by (rule slots_ok_set_slot [OF inv(4)]) (use ph b in \<open>simp add: slot_ok_def\<close>)
    then have ok: "slots_ok ?s" using slot_ok_cong [of ?s "set_slot s i ?f"] by (simp add: slots_ok_def)
    have "places (set_slot s i ?f) + {#j#} = places s"
      using places_set_slot [OF i(1), of ?f] i(2) ph by (simp add: slot_jobs_def)
    then have pl: "places ?s = places s" by (simp add: places_def)
    have "cancel_detach env s j = dispatch_jobs_locked env ?s" using nq b fa by (simp add: cancel_detach_def)
    moreover have "server_inv (dispatch_jobs_locked env ?s)"
      by (rule dispatch_ok) (use ok pl inv(1,2,3) assms(3) b in simp_all)
    ultimately show ?thesis by simp
  qed
qed

lemma client_step_inv: "client_step s s' \<Longrightarrow> server_inv s \<Longrightarrow> server_inv s'"
proof (induction rule: client_step.induct)
  case (submit j s env ok s')
  then show ?case using enqueue_inv by blast
next
  case (mark_cancelled j s)
  have "slot_ok (s\<lparr>sv_cancelled := insert j (sv_cancelled s)\<rparr>) = slot_ok s" by (rule ext) (simp add: slot_ok_def)
  then show ?case using mark_cancelled by (simp add: server_inv_def places_def)
next
  case (cancel j s env)
  then show ?case using cancel_inv by blast
next
  case (stop s)
  have "slot_ok s sl \<Longrightarrow> slot_ok (s\<lparr>sv_stopping := True\<rparr>) sl" for sl by (auto simp: slot_ok_def)
  then show ?case using stop by (simp add: server_inv_def places_def)
qed

lemma completed_nothing [simp]: "set_slot s i f\<lparr>sv_completed := sv_completed s\<rparr> = set_slot s i f"
  by (cases s) (simp add: set_slot_def)

lemma places_completed: "places (set_slot s i f\<lparr>sv_completed := sv_completed s @ gone\<rparr>) = places (set_slot s i f) + mset gone"
  by (simp add: places_def)

text \<open>A step of a worker that changes one slot and keeps the queue.\<close>

lemma set_slot_inv:
  assumes "server_inv s" "i < length (sv_slots s)" "slot_ok s (f (sv_slots s ! i))"
    and "sl_busy (sv_slots s ! i) \<longrightarrow> sl_busy (f (sv_slots s ! i))"
    and "\<not> sv_batched s \<longrightarrow> i = 0"
    and "places (set_slot s i f) + mset gone = places s"
  shows "server_inv (set_slot s i f\<lparr>sv_completed := sv_completed s @ gone\<rparr>)"
proof -
  let ?s = "set_slot s i f\<lparr>sv_completed := sv_completed s @ gone\<rparr>"
  note inv = server_invD [OF assms(1)]
  have "slots_ok (set_slot s i f)" by (rule slots_ok_set_slot [of s f i, OF inv(4) assms(3)])
  then have ok: "\<forall>sl\<in>set (sv_slots ?s). slot_ok ?s sl" by (simp add: slots_ok_def slot_ok_cong [of ?s "set_slot s i f"])
  have pl: "places ?s = mset_set (sv_accepted s)" using assms(6) inv(2) places_completed by simp
  have busy: "\<exists>sl\<in>set (sv_slots ?s). sl_busy sl" if q: "sv_batched s" "sv_slots s \<noteq> []" "sv_queue s \<noteq> []"
  proof -
    obtain k where k: "k < length (sv_slots s)" "sl_busy (sv_slots s ! k)" using inv(5) [OF q] by (auto simp: in_set_conv_nth)
    then have "sl_busy (sv_slots ?s ! k)" using assms(4) by (cases "k = i") (simp_all add: set_slot_def)
    then show ?thesis using k(1) nth_mem [of k "sv_slots ?s"] by auto
  qed
  have tl: "sl_phase sl = Waiting" if "\<not> sv_batched s" "sl \<in> set (tl (sv_slots ?s))" for sl
  proof -
    have "i = 0" using assms(5) that(1) by blast
    then have "tl (sv_slots ?s) = tl (sv_slots s)" by (cases "sv_slots s") (simp_all add: set_slot_def)
    then show ?thesis using inv(6) that by simp
  qed
  have f: "sv_accepted ?s = sv_accepted s" "sv_cancelled ?s = sv_cancelled s" "sv_batched ?s = sv_batched s"
    "sv_queue ?s = sv_queue s" "sv_slots ?s \<noteq> [] \<longleftrightarrow> sv_slots s \<noteq> []" by (simp_all add: set_slot_def)
  show ?thesis unfolding server_inv_def f using ok pl inv(1,3) busy tl by (intro conjI impI ballI) (simp_all only: ball_simps f, blast+)
qed

lemma phase_step_inv:
  assumes "server_inv s" "sv_batched s \<or> i = 0" "i < length (sv_slots s)" "slot_ok s (f (sv_slots s ! i))"
    and "sl_busy (f (sv_slots s ! i)) = sl_busy (sv_slots s ! i)"
    and "mset (slot_jobs (f (sv_slots s ! i))) + mset gone = mset (slot_jobs (sv_slots s ! i))"
  shows "server_inv (set_slot s i f\<lparr>sv_completed := sv_completed s @ gone\<rparr>)"
proof (rule set_slot_inv)
  have "places (set_slot s i f) + mset gone + mset (slot_jobs (f (sv_slots s ! i))) = places s + mset (slot_jobs (f (sv_slots s ! i)))"
    using places_set_slot [OF assms(3), of f] assms(6) by (metis add.assoc add.commute)
  then show "places (set_slot s i f) + mset gone = places s" by simp
qed (use assms in auto)

lemma worker_step_inv: "worker_step s s' \<Longrightarrow> server_inv s \<Longrightarrow> server_inv s'"
proof (induction rule: worker_step.induct)
  case (complete_detached j s)
  let ?s = "job_complete (s\<lparr>sv_detached := remove1 j (sv_detached s)\<rparr>) j"
  have "slot_ok ?s = slot_ok s" by (rule ext) (simp add: slot_ok_def job_complete_def)
  moreover have "places ?s = places s" using complete_detached(1) by (simp add: places_def job_complete_def)
  ultimately show ?case using complete_detached(2) by (simp add: server_inv_def job_complete_def)
next
  case (worker_take s j s')
  note inv = server_invD [OF worker_take(6)]
  obtain js where q: "sv_queue s = j # js" and s': "s' = s\<lparr>sv_queue := js\<rparr>"
    using worker_take(5) by (auto simp: dequeue_def split: list.splits)
  have i: "0 < length (sv_slots s)" using worker_take(2) by simp
  let ?f = "\<lambda>sl. sl\<lparr>sl_phase := Generating j\<rparr>"
  have sl: "slot_ok s (sv_slots s ! 0)" "sl_assigned (sv_slots s ! 0) = None"
    using inv(7) [OF i] worker_take(1) by (simp_all add: slot_ok_def)
  have sok: "slots_ok s'" using inv(4) q unfolding s' slots_ok_def by (auto simp: slot_ok_def)
  then have "slots_ok (set_slot s' 0 ?f)"
    by (rule slots_ok_set_slot) (use sl worker_take(1,3) q in \<open>simp add: s' slot_ok_def\<close>)
  moreover have "places (set_slot s' 0 ?f) = places s"
    using places_set_slot [of 0 s' ?f] i sl(2) worker_take(3) q by (simp add: s' slot_jobs_def places_def)
  moreover have "tl (sv_slots (set_slot s' 0 ?f)) = tl (sv_slots s)" by (cases "sv_slots s") (simp_all add: s' set_slot_def)
  ultimately show ?case unfolding server_inv_def using inv(1,2,3,6) worker_take(1) by (simp add: slots_ok_def s')
next
  case (worker_exit s s')
  then have q: "s' = s" "sv_queue s = []" "sv_stopping s"
    by (auto simp: dequeue_def dequeue_ready_def split: list.splits)
  have i: "0 < length (sv_slots s)" using worker_exit(2) by simp
  have "slot_ok s (sv_slots s ! 0)" by (rule server_invD(7) [OF worker_exit(6) i])
  then show ?case
    using phase_step_inv [of s 0 "\<lambda>sl. sl\<lparr>sl_phase := Exited\<rparr>" "[]"] worker_exit(1,3,6) i q
    by (simp add: slot_ok_def slot_jobs_def)
next
  case (worker_complete s j)
  have i: "0 < length (sv_slots s)" using worker_complete(2) by simp
  have "slot_ok s (sv_slots s ! 0)" by (rule server_invD(7) [OF worker_complete(4) i])
  then show ?case
    using phase_step_inv [of s 0 "\<lambda>sl. sl\<lparr>sl_phase := Waiting\<rparr>" "[j]"] worker_complete(1,3,4) i
    by (simp add: slot_ok_def slot_jobs_def job_complete_def)
next
  case (slot_take s i j)
  have "slot_ok s (sv_slots s ! i)" by (rule server_invD(7) [OF slot_take(5,2)])
  then show ?case
    using phase_step_inv [of s i "\<lambda>sl. sl\<lparr>sl_assigned := None, sl_phase := Generating j\<rparr>" "[]"] slot_take
    by (simp add: slot_ok_def slot_jobs_def)
next
  case (slot_exit s i)
  have "slot_ok s (sv_slots s ! i)" by (rule server_invD(7) [OF slot_exit(7,2)])
  then show ?case
    using phase_step_inv [of s i "\<lambda>sl. sl\<lparr>sl_phase := Exited\<rparr>" "[]"] slot_exit
    by (simp add: slot_ok_def slot_jobs_def)
next
  case (slot_complete s i j)
  have "slot_ok s (sv_slots s ! i)" by (rule server_invD(7) [OF slot_complete(4,2)])
  then show ?case
    using phase_step_inv [of s i "\<lambda>sl. sl\<lparr>sl_phase := Releasing\<rparr>" "[j]"] slot_complete
    by (simp add: slot_ok_def slot_jobs_def job_complete_def)
next
  case (slot_release s i env)
  note inv = server_invD [OF slot_release(5)]
  let ?f = "\<lambda>sl. sl\<lparr>sl_busy := False, sl_phase := Waiting\<rparr>"
  have sl: "slot_ok s (sv_slots s ! i)" by (rule inv(7) [OF slot_release(2)])
  then have "sl_assigned (sv_slots s ! i) = None" using slot_release(1,3) by (auto simp: slot_ok_def)
  then have "slots_ok (set_slot s i ?f)" "places (set_slot s i ?f) = places s"
    using places_set_slot [OF slot_release(2), of ?f] slots_ok_set_slot [of s ?f i, OF inv(4)] slot_release(1,3)
    by (simp_all add: slot_ok_def slot_jobs_def)
  then show ?case using inv(1,2,3) slot_release(1,4) by (intro dispatch_ok) simp_all
qed

lemma init_inv: "server_inv (server_init batched n)"
  by (auto simp: server_inv_def server_init_def places_def slot_ok_def slot_jobs_def concat_map_singleton dest!: list.set_sel(2) split: if_splits)

lemma reachable_inv: "reachable batched n s \<Longrightarrow> server_inv s"
proof (induction rule: reachable.induct)
  case init
  show ?case by (rule init_inv)
next
  case (step s s')
  then show ?case using client_step_inv worker_step_inv by blast
qed

end
