(* ===== verification/ServerProgress.thy ===== *)
theory ServerProgress
  imports ServerSched
begin

text \<open>
  What the scheduler achieves: dispatching is work conserving and keeps the order of the waiting jobs,
  and the workers finish every accepted job in a bounded number of steps, then return after a stop.
\<close>

section \<open>Dispatching\<close>

lemma required_frame: "length (sv_slots s') = length (sv_slots s) \<Longrightarrow> job_required_slot_locked env s' j = job_required_slot_locked env s j"
  by (simp add: job_required_slot_locked_def)

text \<open>What a dispatch changes.\<close>

definition assigned_well :: "sched_env \<Rightarrow> server \<Rightarrow> server \<Rightarrow> bool" where
  "assigned_well env s s' \<longleftrightarrow>
     (\<forall>i<length (sv_slots s). sv_slots s' ! i = sv_slots s ! i
       \<or> (\<exists>j\<in>set (sv_queue s). \<not> sl_busy (sv_slots s ! i) \<and> job_required_slot_locked env s j \<in> {None, Some i}
            \<and> sv_slots s' ! i = (sv_slots s ! i)\<lparr>sl_assigned := Some j, sl_busy := True\<rparr>))"

lemma assigned_well_refl: "assigned_well env s s"
  by (simp add: assigned_well_def)

lemma assigned_well_step:
  assumes "j \<in> set (sv_queue s)" "slot_for env s j = Some i" "assigned_well env (assign_job s j i) s'"
  shows "assigned_well env s s'"
  unfolding assigned_well_def
proof (intro allI impI)
  fix k assume k: "k < length (sv_slots s)"
  note i = slot_for_Some [OF assms(2)]
  let ?t = "assign_job s j i"
  have len: "length (sv_slots ?t) = length (sv_slots s)" by (simp add: assign_job_def)
  have q: "set (sv_queue ?t) \<subseteq> set (sv_queue s)" by (simp add: assign_job_def set_remove1_subset)
  have t: "sv_slots ?t ! k = (if k = i then (sv_slots s ! i)\<lparr>sl_assigned := Some j, sl_busy := True\<rparr> else sv_slots s ! k)"
    using k by (simp add: assign_job_def)
  from assms(3) k len consider (same) "sv_slots s' ! k = sv_slots ?t ! k"
    | (new) l where "l \<in> set (sv_queue ?t)" "\<not> sl_busy (sv_slots ?t ! k)" "job_required_slot_locked env ?t l \<in> {None, Some k}"
        "sv_slots s' ! k = (sv_slots ?t ! k)\<lparr>sl_assigned := Some l, sl_busy := True\<rparr>"
    unfolding assigned_well_def by metis
  then show "sv_slots s' ! k = sv_slots s ! k \<or> (\<exists>j\<in>set (sv_queue s). \<not> sl_busy (sv_slots s ! k)
      \<and> job_required_slot_locked env s j \<in> {None, Some k} \<and> sv_slots s' ! k = (sv_slots s ! k)\<lparr>sl_assigned := Some j, sl_busy := True\<rparr>)"
  proof cases
    case same
    then show ?thesis using t i assms(1) by (cases "k = i") auto
  next
    case new
    then have "k \<noteq> i" using t by auto
    then show ?thesis using new t q required_frame [OF len] by auto
  qed
qed

lemma dispatch_loop_assigns:
  "assigned_well env s (dispatch_loop env s) \<and> length (sv_slots (dispatch_loop env s)) = length (sv_slots s)
    \<and> sv_accepted (dispatch_loop env s) = sv_accepted s \<and> sv_batched (dispatch_loop env s) = sv_batched s
    \<and> sv_stopping (dispatch_loop env s) = sv_stopping s \<and> sv_detached (dispatch_loop env s) = sv_detached s"
proof (induction env s rule: dispatch_loop.induct)
  case (1 env s)
  show ?case
  proof (cases "choose_job (slot_for env s) (sv_queue s)")
    case None
    then show ?thesis by (simp add: dispatch_loop.simps assigned_well_refl)
  next
    case (Some c)
    then obtain j i where c: "choose_job (slot_for env s) (sv_queue s) = Some (j, i)" by (cases c) simp
    then have eq: "dispatch_loop env s = dispatch_loop env (assign_job s j i)" by (subst dispatch_loop.simps) simp
    note IH = "1.IH" [OF c refl, folded eq]
    then have "assigned_well env s (dispatch_loop env s)" using assigned_well_step choose_job_member [OF c] by blast
    then show ?thesis using IH by (simp add: assign_job_def)
  qed
qed

section \<open>Progress\<close>

definition phase_work :: "worker_phase \<Rightarrow> nat" where
  "phase_work p = (case p of Exited \<Rightarrow> 0 | Waiting \<Rightarrow> 1 | Releasing \<Rightarrow> 2 | Generating j \<Rightarrow> 3)"

definition slot_work :: "server_slot \<Rightarrow> nat" where
  "slot_work sl = phase_work (sl_phase sl) + (if sl_assigned sl = None then 0 else 3)"

definition work :: "server \<Rightarrow> nat" where
  "work s = 4 * length (sv_queue s) + sum_list (map slot_work (sv_slots s)) + length (sv_detached s)"

lemma slots_work_update:
  "i < length sls \<Longrightarrow> sum_list (map slot_work (sls[i := sl])) + slot_work (sls ! i) = sum_list (map slot_work sls) + slot_work sl"
  using sum_list_update_nat [of i "map slot_work sls" "slot_work sl"] by (simp add: map_update)

lemma work_set_slot:
  "i < length (sv_slots s) \<Longrightarrow> work (set_slot s i f) + slot_work (sv_slots s ! i) = work s + slot_work (f (sv_slots s ! i))"
  using slots_work_update [of i "sv_slots s" "f (sv_slots s ! i)"] by (simp add: work_def set_slot_def)

lemma work_assign:
  assumes "j \<in> set (sv_queue s)" "slot_for env s j = Some i"
  shows "work (assign_job s j i) < work s"
proof -
  note i = slot_for_Some [OF assms(2)]
  obtain n where "length (sv_queue s) = Suc n" using length_pos_if_in_set [OF assms(1)] gr0_implies_Suc by blast
  then show ?thesis
    using slots_work_update [OF i(1), of "(sv_slots s ! i)\<lparr>sl_assigned := Some j, sl_busy := True\<rparr>"] i(3) assms(1)
    by (simp add: work_def assign_job_def length_remove1 slot_work_def)
qed

lemma work_dispatch: "work (dispatch_jobs_locked env s) \<le> work s"
proof -
  have "work (dispatch_loop env s) \<le> work s"
  proof (induction env s rule: dispatch_loop.induct)
    case (1 env s)
    show ?case
    proof (cases "choose_job (slot_for env s) (sv_queue s)")
      case None
      then show ?thesis by (simp add: dispatch_loop.simps)
    next
      case (Some c)
      then obtain j i where c: "choose_job (slot_for env s) (sv_queue s) = Some (j, i)" by (cases c) simp
      then have eq: "dispatch_loop env s = dispatch_loop env (assign_job s j i)" by (subst dispatch_loop.simps) simp
      show ?thesis using "1.IH" [OF c refl] work_assign choose_job_member [OF c] unfolding eq by fastforce
    qed
  qed
  then show ?thesis by (simp add: dispatch_jobs_locked_def)
qed

lemma work_decreases: "worker_step s s' \<Longrightarrow> server_inv s \<Longrightarrow> work s' < work s"
proof (induction rule: worker_step.induct)
  case (complete_detached j s)
  then show ?case using length_pos_if_in_set [of j "sv_detached s"] by (simp add: work_def job_complete_def length_remove1)
next
  case (worker_take s j s')
  then obtain js where q: "sv_queue s = j # js" and s': "s' = s\<lparr>sv_queue := js\<rparr>"
    by (auto simp: dequeue_def split: list.splits)
  have "sl_assigned (sv_slots s ! 0) = None" using server_invD(7) [OF worker_take(6), of 0] worker_take(1,2) by (simp add: slot_ok_def)
  then show ?case using work_set_slot [of 0 s' "\<lambda>sl. sl\<lparr>sl_phase := Generating j\<rparr>"] worker_take(2,3) q
    by (simp add: s' slot_work_def phase_work_def work_def)
next
  case (worker_exit s s')
  then have "s' = s" by (auto simp: dequeue_def split: list.splits)
  then show ?case using work_set_slot [of 0 s "\<lambda>sl. sl\<lparr>sl_phase := Exited\<rparr>"] worker_exit(2,3)
    by (simp add: slot_work_def phase_work_def)
next
  case (worker_complete s j)
  then show ?case using work_set_slot [of 0 s "\<lambda>sl. sl\<lparr>sl_phase := Waiting\<rparr>"]
    by (simp add: slot_work_def phase_work_def job_complete_def work_def)
next
  case (slot_take s i j)
  then show ?case using work_set_slot [of i s "\<lambda>sl. sl\<lparr>sl_assigned := None, sl_phase := Generating j\<rparr>"]
    by (simp add: slot_work_def phase_work_def)
next
  case (slot_exit s i)
  then show ?case using work_set_slot [of i s "\<lambda>sl. sl\<lparr>sl_phase := Exited\<rparr>"] by (simp add: slot_work_def phase_work_def)
next
  case (slot_complete s i j)
  then show ?case using work_set_slot [of i s "\<lambda>sl. sl\<lparr>sl_phase := Releasing\<rparr>"]
    by (simp add: slot_work_def phase_work_def job_complete_def work_def)
next
  case (slot_release s i env)
  then have "work (set_slot s i (\<lambda>sl. sl\<lparr>sl_busy := False, sl_phase := Waiting\<rparr>)) < work s"
    using work_set_slot [of i s "\<lambda>sl. sl\<lparr>sl_busy := False, sl_phase := Waiting\<rparr>"] by (simp add: slot_work_def phase_work_def)
  then show ?case using work_dispatch le_less_trans by blast
qed

lemma busy_slot_steps:
  assumes "server_inv s" "sv_batched s" "i < length (sv_slots s)" "sl_busy (sv_slots s ! i)"
  shows "\<exists>s'. worker_step s s'"
proof -
  have ok: "slot_ok s (sv_slots s ! i)" by (rule server_invD(7) [OF assms(1,3)])
  have env: "sane_env \<lparr>env_slot = \<lambda>_. \<lparr>sv_responses_live = undefined, sv_anthropic_live = undefined, sv_thinking_live = undefined, sv_pos = 0\<rparr>,
      env_request = undefined, env_vision = undefined, env_common = \<lambda>_ _. 0\<rparr>" by (simp add: sane_env_def)
  show ?thesis
  proof (cases "sl_assigned (sv_slots s ! i)")
    case (Some j)
    then show ?thesis using worker_step.slot_take [OF assms(2,3)] ok assms(2) by (auto simp: slot_ok_def)
  next
    case None
    then show ?thesis using worker_step.slot_complete [OF assms(2,3)] worker_step.slot_release [OF assms(2,3) _ env] ok assms(2,4)
      by (cases "sl_phase (sv_slots s ! i)") (auto simp: slot_ok_def)
  qed
qed

text \<open>Without a worker step left, no job is anywhere but completed, and after a stop every worker has returned.\<close>

definition workers :: "server \<Rightarrow> server_slot list" where
  "workers s = (if sv_batched s then sv_slots s else take 1 (sv_slots s))"

lemma stuck_slot:
  assumes "server_inv s" "\<nexists>s'. worker_step s s'" "i < length (sv_slots s)"
  shows "sl_assigned (sv_slots s ! i) = None" "sl_phase (sv_slots s ! i) \<in> {Waiting, Exited}"
proof -
  have ok: "slot_ok s (sv_slots s ! i)" by (rule server_invD(7) [OF assms(1,3)])
  have "sl_assigned (sv_slots s ! i) = None \<and> sl_phase (sv_slots s ! i) \<in> {Waiting, Exited}"
  proof (cases "sv_batched s")
    case True
    then have "\<not> sl_busy (sv_slots s ! i)" using busy_slot_steps [OF assms(1) True assms(3)] assms(2) by blast
    then show ?thesis using ok True by (auto simp: slot_ok_def)
  next
    case False
    show ?thesis
    proof (cases i)
      case 0
      have ne: "sv_slots s \<noteq> []" using assms(3) by auto
      have "sl_phase (sv_slots s ! 0) \<noteq> Generating j" for j using worker_step.worker_complete [OF False ne] assms(2) by blast
      then show ?thesis using ok False 0 by (cases "sl_phase (sv_slots s ! i)") (auto simp: slot_ok_def)
    next
      case (Suc k)
      then have "sv_slots s ! i \<in> set (tl (sv_slots s))" using assms(3) by (cases "sv_slots s") auto
      then show ?thesis using server_invD(6) [OF assms(1) False] ok False by (simp add: slot_ok_def)
    qed
  qed
  then show "sl_assigned (sv_slots s ! i) = None" "sl_phase (sv_slots s ! i) \<in> {Waiting, Exited}" by blast+
qed

lemma stuck_queue:
  assumes "server_inv s" "\<nexists>s'. worker_step s s'" "sv_slots s \<noteq> []"
  shows "sv_queue s = []" "sv_detached s = []"
proof -
  show "sv_detached s = []" using worker_step.complete_detached [of "hd (sv_detached s)" s] assms(2) hd_in_set by blast
  show "sv_queue s = []"
  proof (rule ccontr)
    assume q: "sv_queue s \<noteq> []"
    show False
    proof (cases "sv_batched s")
      case True
      then obtain sl where "sl \<in> set (sv_slots s)" "sl_busy sl" using server_invD(5) [OF assms(1) True assms(3) q] by blast
      then show False using busy_slot_steps [OF assms(1) True] assms(2) by (metis in_set_conv_nth)
    next
      case False
      have z: "0 < length (sv_slots s)" using assms(3) by simp
      have "sl_phase (sv_slots s ! 0) = Waiting"
        using stuck_slot(2) [OF assms(1,2) z] server_invD(7) [OF assms(1) z] q by (auto simp: slot_ok_def)
      moreover obtain j js where "sv_queue s = j # js" using q by (cases "sv_queue s") auto
      then have "dequeue s = (Some j, s\<lparr>sv_queue := js\<rparr>)" by (simp add: dequeue_def)
      ultimately show False using worker_step.worker_take [OF False assms(3)] q assms(2) by (auto simp: dequeue_ready_def)
    qed
  qed
qed

lemma stuck_complete:
  assumes "server_inv s" "\<nexists>s'. worker_step s s'" "sv_slots s \<noteq> []"
  shows "mset (sv_completed s) = mset_set (sv_accepted s)"
proof -
  have "slot_jobs sl = []" if sl: "sl \<in> set (sv_slots s)" for sl
  proof -
    obtain i where i: "i < length (sv_slots s)" "sl = sv_slots s ! i" using sl by (auto simp: in_set_conv_nth)
    show ?thesis using stuck_slot [OF assms(1,2) i(1)] unfolding i(2) [symmetric] slot_jobs_def
      by (cases "sl_phase sl") simp_all
  qed
  then have e: "mset (concat (map slot_jobs (sv_slots s))) = {#}" by simp
  show ?thesis using server_invD(2) [OF assms(1)] by (simp add: places_def stuck_queue [OF assms] e)
qed

lemma stuck_stopped:
  assumes "server_inv s" "\<nexists>s'. worker_step s s'" "sv_slots s \<noteq> []" "sv_stopping s" "sl \<in> set (workers s)"
  shows "sl_phase sl = Exited"
proof (cases "sv_batched s")
  case True
  then obtain i where i: "i < length (sv_slots s)" "sl = sv_slots s ! i" using assms(5) by (auto simp: workers_def in_set_conv_nth)
  then show ?thesis using stuck_slot [OF assms(1,2) i(1)] worker_step.slot_exit [OF True i(1) _ _ assms(4)] stuck_queue [OF assms(1-3)] assms(2)
    by blast
next
  case False
  then have sl: "sl = sv_slots s ! 0" using assms(3,5) by (cases "sv_slots s") (simp_all add: workers_def)
  have "dequeue s = (None, s)" using stuck_queue [OF assms(1-3)] by (simp add: dequeue_def)
  then show ?thesis
    using sl stuck_slot(2) [OF assms(1,2), of 0] worker_step.worker_exit [OF False assms(3)] assms(2-4) by (auto simp: dequeue_ready_def)
qed

lemma worker_steps_inv: "(worker_step ^^ k) s s' \<Longrightarrow> server_inv s \<Longrightarrow> server_inv s' \<and> k + work s' \<le> work s"
proof (induction k arbitrary: s')
  case (Suc k)
  then obtain t where t: "(worker_step ^^ k) s t" "worker_step t s'" by auto
  then show ?case using Suc.IH [OF t(1) Suc.prems(2)] worker_step_inv [OF t(2)] work_decreases [OF t(2)] by simp
qed simp

lemma worker_step_frame: "worker_step s s' \<Longrightarrow> sv_accepted s' = sv_accepted s \<and> length (sv_slots s') = length (sv_slots s)"
  by (induction rule: worker_step.induct)
    (auto simp: job_complete_def dequeue_def dispatch_jobs_locked_def dispatch_loop_assigns split: list.splits)

lemma client_step_frame: "client_step s s' \<Longrightarrow> length (sv_slots s') = length (sv_slots s)"
  by (induction rule: client_step.induct)
    (auto simp: enqueue_def cancel_detach_def Let_def dispatch_jobs_locked_def dispatch_loop_assigns split: option.splits if_splits)

lemma worker_steps_frame: "(worker_step ^^ k) s s' \<Longrightarrow> sv_accepted s' = sv_accepted s \<and> length (sv_slots s') = length (sv_slots s)"
  by (induction k arbitrary: s') (auto dest: worker_step_frame)

lemma reachable_slots: "reachable batched n s \<Longrightarrow> length (sv_slots s) = n"
  by (induction rule: reachable.induct) (auto simp: server_init_def dest: worker_step_frame client_step_frame)

text \<open>
  C27: In every reachable state each accepted job is in exactly one place (waiting, assigned to a slot, being
  generated, detached by its canceller, or completed), only accepted jobs are cancelled, and each slot's flags agree
  with what its worker does.
\<close>

theorem scheduler_invariant:
  assumes "reachable batched n s"
  shows "finite (sv_accepted s) \<and> places s = mset_set (sv_accepted s) \<and> sv_cancelled s \<subseteq> sv_accepted s
    \<and> (\<forall>sl\<in>set (sv_slots s). slot_ok s sl)"
  using reachable_inv [OF assms] by (simp add: server_inv_def)

text \<open>
  C28: No job is lost and no worker waits forever: from every reachable state the workers take a bounded number
  of steps, and when they have none left every accepted job was completed exactly once and, after a stop, every worker
  has returned.
\<close>

theorem scheduler_drains:
  assumes "reachable batched n s" "0 < n" "(worker_step ^^ k) s s'"
  shows "k \<le> work s \<and> ((\<exists>s''. worker_step s' s'')
    \<or> mset (sv_completed s') = mset_set (sv_accepted s) \<and> (sv_stopping s' \<longrightarrow> (\<forall>sl\<in>set (workers s'). sl_phase sl = Exited)))"
proof -
  note inv = worker_steps_inv [OF assms(3) reachable_inv [OF assms(1)]]
  have ne: "sv_slots s' \<noteq> []" using worker_steps_frame [OF assms(3)] reachable_slots [OF assms(1)] assms(2) by auto
  show ?thesis using inv stuck_complete [OF _ _ ne] stuck_stopped [OF _ _ ne] worker_steps_frame [OF assms(3)] by auto
qed

lemma reachable_batched: "reachable batched n s \<Longrightarrow> sv_batched s = batched"
proof (induction rule: reachable.induct)
  case (step s s')
  have "client_step a b \<Longrightarrow> sv_batched b = sv_batched a" for a b
    by (induction rule: client_step.induct)
      (auto simp: enqueue_def cancel_detach_def Let_def dispatch_jobs_locked_def dispatch_loop_assigns split: option.splits if_splits)
  moreover have "worker_step a b \<Longrightarrow> sv_batched b = sv_batched a" for a b
    by (induction rule: worker_step.induct)
      (auto simp: job_complete_def dequeue_def dispatch_jobs_locked_def dispatch_loop_assigns split: list.splits)
  ultimately show ?case using step by auto
qed (simp add: server_init_def)

text \<open>
  C29: A dispatch keeps the order of the jobs still waiting, gives a job only to an idle slot that may run
  it, and leaves a slot idle beside a waiting job only when that job needs another slot, which is busy.
\<close>

theorem dispatch_work_conserving:
  assumes "reachable True n s" "sane_env env" "s' = dispatch_jobs_locked env s"
  shows "subseq (sv_queue s') (sv_queue s) \<and> assigned_well env s s'
    \<and> (\<forall>j\<in>set (sv_queue s'). \<forall>i<n. \<not> sl_busy (sv_slots s' ! i)
        \<longrightarrow> (\<exists>k<n. k \<noteq> i \<and> job_required_slot_locked env s' j = Some k \<and> sl_busy (sv_slots s' ! k)))"
proof -
  note inv = server_invD [OF reachable_inv [OF assms(1)]]
  have b: "sv_batched s" using reachable_batched [OF assms(1)] by simp
  then have s': "s' = dispatch_loop env s" using assms(3) by (simp add: dispatch_jobs_locked_def)
  have d: "slots_ok s'" "\<forall>j\<in>set (sv_queue s'). slot_for env s' j = None" "subseq (sv_queue s') (sv_queue s)"
    using dispatch_loop_ok [OF inv(4) b, of env] unfolding s' by blast+
  have a: "assigned_well env s s'" "length (sv_slots s') = n" "sv_batched s'"
    using dispatch_loop_assigns [of env s] reachable_slots [OF assms(1)] b unfolding s' by simp_all
  have "\<exists>k<n. k \<noteq> i \<and> job_required_slot_locked env s' j = Some k \<and> sl_busy (sv_slots s' ! k)"
    if j: "j \<in> set (sv_queue s')" and i: "i < n" "\<not> sl_busy (sv_slots s' ! i)" for i j
  proof -
    have idle: "sl_assigned (sv_slots s' ! m) \<noteq> None \<Longrightarrow> sl_busy (sv_slots s' ! m)" if "m < n" for m
      using d(1) a(2,3) that by (auto simp: slots_ok_def slot_ok_def)
    have "slot_for env s' j = None" using d(2) j by blast
    note none = slot_for_None [OF this assms(2)]
    obtain k where k: "job_required_slot_locked env s' j = Some k" "k \<noteq> i"
      using none [of i] i idle [OF i(1)] a(2) by auto
    have kn: "k < n" using required_slot_member [of env j "[0..<n]" k] k(1) a(2) by (simp add: job_required_slot_locked_def)
    then have "sl_busy (sv_slots s' ! k)" using none [of k] k(1) idle [OF kn] a(2) by auto
    then show ?thesis using k kn by blast
  qed
  then show ?thesis using d(3) a(1) by blast
qed

section \<open>Witnesses\<close>

definition idle_env :: sched_env where
  "idle_env =
     \<lparr>env_slot = \<lambda>_. \<lparr>sv_responses_live = \<lparr>lt_valid = False, lt_live_tokens = 0, lt_visible_text = None, lt_visible_len = 0, lt_images = \<lparr>ik_offsets = []\<rparr>, lt_call_ids = []\<rparr>,
        sv_anthropic_live = \<lparr>lt_valid = False, lt_live_tokens = 0, lt_visible_text = None, lt_visible_len = 0, lt_images = \<lparr>ik_offsets = []\<rparr>, lt_call_ids = []\<rparr>,
        sv_thinking_live = \<lparr>vl_valid = False, vl_live_tokens = 0, vl_visible_text = None, vl_visible_len = 0, vl_images = \<lparr>ik_offsets = []\<rparr>\<rparr>, sv_pos = 0\<rparr>,
      env_request = \<lambda>_. \<lparr>rq_responses_required = False, rq_responses_ids = [], rq_anthropic_required = False, rq_anthropic_ids = [],
        rq_prompt_text = None, rq_image_markers = [], rq_api_responses = False, rq_chat = True\<rparr>,
      env_vision = \<lambda>_ _. True, env_common = \<lambda>_ _. 0\<rparr>"

lemma idle_env_sane: "sane_env idle_env"
  by (simp add: sane_env_def idle_env_def)

lemma one_submitted: "reachable b n (snd (enqueue idle_env (server_init b n) 5))"
proof -
  obtain ok s' where e: "enqueue idle_env (server_init b n) 5 = (ok, s')" by fastforce
  have "client_step (server_init b n) s'" by (rule client_step.submit [OF _ idle_env_sane e]) (simp add: server_init_def)
  then show ?thesis using reachable.step [OF reachable.init] e by auto
qed

lemma scheduler_invariant_witness: "places (snd (enqueue idle_env (server_init True 2) 5)) = {#5#}"
  using scheduler_invariant [OF one_submitted [of True 2]]
  by (simp add: enqueue_def server_init_def Let_def dispatch_jobs_locked_def dispatch_loop_assigns)

lemma dispatch_work_conserving_witness:
  "assigned_well idle_env (snd (enqueue idle_env (server_init True 2) 5)) (dispatch_jobs_locked idle_env (snd (enqueue idle_env (server_init True 2) 5)))"
  using dispatch_work_conserving [OF one_submitted [of True 2] idle_env_sane refl] by blast

lemma scheduler_drains_witness:
  "\<exists>s s'. reachable False 1 s \<and> (worker_step ^^ 2) s s' \<and> 2 \<le> work s
    \<and> ((\<exists>s''. worker_step s' s'') \<or> mset (sv_completed s') = mset_set (sv_accepted s))"
proof -
  define s where "s = snd (enqueue idle_env (server_init False 1) 5)"
  have s: "s = (server_init False 1)\<lparr>sv_queue := [5], sv_accepted := {5}\<rparr>" by (simp add: s_def enqueue_def server_init_def)
  define t where "t = set_slot (s\<lparr>sv_queue := []\<rparr>) 0 (\<lambda>sl. sl\<lparr>sl_phase := Generating 5\<rparr>)"
  define u where "u = job_complete (set_slot t 0 (\<lambda>sl. sl\<lparr>sl_phase := Waiting\<rparr>)) 5"
  have "worker_step s t" unfolding t_def
    by (rule worker_step.worker_take) (simp_all add: s server_init_def dequeue_ready_def dequeue_def)
  moreover have "worker_step t u" unfolding u_def
    by (rule worker_step.worker_complete) (simp_all add: t_def s server_init_def set_slot_def)
  ultimately have r: "(worker_step ^^ 2) s u" by (auto simp: numeral_2_eq_2)
  have "reachable False 1 s" unfolding s_def by (rule one_submitted)
  then show ?thesis using scheduler_drains [OF _ _ r, of False 1] r by fastforce
qed

end
