(* ===== verification/Incremental.thy ===== *)
theory Incremental
  imports Prelude
begin

text \<open>
  The interface of a parser that is called again and again with a longer text, as the server calls its
  tool-call parsers after every generated token: the laws of one step and what follows for feeding a text
  in pieces. \<open>ToolChunks\<close> and \<open>ToolTracker\<close> interpret it on the parsers of \<open>src/ds4_server.c\<close>. A second interface
  compares two such programs step by step; \<open>ToolAnthropic\<close> interprets it on the two streams of tool calls.
\<close>

section \<open>Parsers that are fed a growing text\<close>

datatype 's outcome = Go 's | Stop 's

text \<open>
  A parser runs steps over the text received so far until one of them stops, and is called again when
  more text has come. \<open>steady\<close> is what its state promises about the text, \<open>same\<close> what two states have in
  common for a client, \<open>settled\<close> says that no value is half read.
\<close>

locale incremental =
  fixes step :: "string \<Rightarrow> 's \<Rightarrow> 's outcome"
    and run :: "string \<Rightarrow> 's \<Rightarrow> 's"
    and steady :: "string \<Rightarrow> 's \<Rightarrow> bool"
    and work :: "string \<Rightarrow> 's \<Rightarrow> nat"
    and same :: "'s \<Rightarrow> 's \<Rightarrow> bool"
    and settled :: "'s \<Rightarrow> bool"
    and plain :: "string \<Rightarrow> bool"
  assumes run_step: "run r s = (case step r s of Go t \<Rightarrow> run r t | Stop t \<Rightarrow> t)"
    and go_work: "steady r s \<Longrightarrow> step r s = Go t \<Longrightarrow> work r t < work r s"
    and go_steady: "steady r s \<Longrightarrow> step r s = Go t \<Longrightarrow> steady r t"
    and go_more: "steady r s \<Longrightarrow> step r s = Go t \<Longrightarrow> step (r @ x) s = Go t"
    and stop_steady: "steady r s \<Longrightarrow> step r s = Stop t \<Longrightarrow> steady r t"
    and more_steady: "steady r s \<Longrightarrow> steady (r @ x) s"
    and stop_resume: "steady r s \<Longrightarrow> plain (r @ x) \<Longrightarrow> step r s = Stop t \<Longrightarrow> settled (run (r @ x) s) \<Longrightarrow> same (run (r @ x) t) (run (r @ x) s)"
    and same_refl: "same s s"
    and same_trans: "same s t \<Longrightarrow> same t u \<Longrightarrow> same s u"
    and same_settled: "same s t \<Longrightarrow> settled t \<Longrightarrow> settled s"
begin

lemma run_steady: "steady r s \<Longrightarrow> steady r (run r s)"
proof (induction "work r s" arbitrary: s rule: less_induct)
  case less
  show ?case
  proof (cases "step r s")
    case (Go t)
    then have "steady r (run r t)" using less.hyps [OF go_work] go_steady less.prems by blast
    then show ?thesis using Go run_step [of r s] by simp
  next
    case (Stop t)
    then show ?thesis using stop_steady less.prems run_step [of r s] by simp
  qed
qed

lemma resume: "steady r s \<Longrightarrow> plain (r @ x) \<Longrightarrow> settled (run (r @ x) s) \<Longrightarrow> same (run (r @ x) (run r s)) (run (r @ x) s)"
proof (induction "work r s" arbitrary: s rule: less_induct)
  case less
  show ?case
  proof (cases "step r s")
    case (Go t)
    then have g: "steady r t" "step (r @ x) s = Go t" using go_steady go_more less.prems(1) by blast+
    then have rx: "run (r @ x) s = run (r @ x) t" using run_step [of "r @ x" s] by simp
    have "same (run (r @ x) (run r t)) (run (r @ x) t)"
      using less.hyps [OF go_work [OF less.prems(1) Go] g(1) less.prems(2)] less.prems(3) rx by simp
    then show ?thesis using Go rx run_step [of r s] by simp
  next
    case (Stop t)
    then show ?thesis using stop_resume [OF less.prems(1,2) Stop less.prems(3)] run_step [of r s] by simp
  qed
qed

fun feed :: "string \<Rightarrow> 's \<Rightarrow> string list \<Rightarrow> 's" where
  "feed r s [] = s"
| "feed r s (c # cs) = feed (r @ c) (run (r @ c) s) cs"

lemma feed_run:
  "steady r s \<Longrightarrow> plain (r @ concat cs) \<Longrightarrow> cs \<noteq> [] \<Longrightarrow> settled (run (r @ concat cs) s) \<Longrightarrow> same (feed r s cs) (run (r @ concat cs) s)"
proof (induction cs arbitrary: r s)
  case (Cons c cs)
  have st: "steady (r @ c) s" using Cons.prems(1) by (rule more_steady)
  show ?case
  proof (cases "cs = []")
    case True
    then show ?thesis by (simp add: same_refl)
  next
    case False
    have res: "same (run ((r @ c) @ concat cs) (run (r @ c) s)) (run ((r @ c) @ concat cs) s)"
      by (rule resume [OF st]) (use Cons.prems(2,4) in simp_all)
    have "settled (run ((r @ c) @ concat cs) (run (r @ c) s))" using same_settled [OF res] Cons.prems(4) by simp
    from Cons.IH [OF run_steady [OF st] _ False this] Cons.prems(2) show ?thesis using same_trans [OF _ res] by simp
  qed
qed simp

end

section \<open>Two programs in lock step\<close>

text \<open>
  Two programs that run steps until one stops, in lock step: a match between their states is kept by every pair of
  steps, so it holds between what they return.
\<close>

locale lock_step =
  fixes step1 :: "'a \<Rightarrow> 'a outcome" and run1 :: "'a \<Rightarrow> 'a"
    and step2 :: "'b \<Rightarrow> 'b outcome" and run2 :: "'b \<Rightarrow> 'b"
    and work :: "'a \<Rightarrow> nat"
    and match :: "'a \<Rightarrow> 'b \<Rightarrow> bool"
  assumes run1_step: "run1 s = (case step1 s of Go t \<Rightarrow> run1 t | Stop t \<Rightarrow> t)"
    and run2_step: "run2 u = (case step2 u of Go t \<Rightarrow> run2 t | Stop t \<Rightarrow> t)"
    and go_work: "step1 s = Go t \<Longrightarrow> work t < work s"
    and match_step: "match s u \<Longrightarrow> rel_outcome match (step1 s) (step2 u)"
begin

lemma match_run: "match s u \<Longrightarrow> match (run1 s) (run2 u)"
proof (induction "work s" arbitrary: s u rule: less_induct)
  case less
  have m: "rel_outcome match (step1 s) (step2 u)" by (rule match_step) (rule less.prems)
  show ?case
  proof (cases "step1 s")
    case (Go t)
    then obtain v where v: "step2 u = Go v" "match t v" using m by (cases "step2 u") auto
    then show ?thesis using less.hyps [OF go_work [OF Go] v(2)] Go run1_step [of s] run2_step [of u] by simp
  next
    case (Stop t)
    then obtain v where v: "step2 u = Stop v" "match t v" using m by (cases "step2 u") auto
    then show ?thesis using Stop run1_step [of s] run2_step [of u] by simp
  qed
qed

end

end
