(* ===== verification/ToolText.thy ===== *)
theory ToolText
  imports ServerText
begin

text \<open>
  The bodies of tool calls and tool results: \<open>src/ds4_tool_text.h\<close> (the escape of a body's own closing
  delimiter) and, from \<open>src/ds4_server.c\<close>, the loop that writes a body and
  \<open>tool_param_value_stream_safe_len\<close>, which says how much of a value that is still arriving may be passed
  on. The lemmas say that the escape is undone and hides the delimiter, and that the limit cuts a value
  where its two parts can be unescaped on their own.
\<close>

section \<open>The delimiter escape of tool bodies\<close>

text \<open>The characters after \<open>&\<close> with every leading \<open>amp;\<close> skipped.\<close>

function skip_amp :: "string \<Rightarrow> string" where
  "skip_amp s = (if prefix ''amp;'' s then skip_amp (drop 4 s) else s)"
  by pat_completeness auto
termination by (relation "measure length") (auto simp: prefix_def)

declare skip_amp.simps [simp del]

lemma skip_amp_stop: "\<not> prefix ''amp;'' s \<Longrightarrow> skip_amp s = s"
  and skip_amp_step: "skip_amp (''amp;'' @ s) = skip_amp s"
  by (subst skip_amp.simps, simp)+

definition ds4_tool_text_escaped_close :: "string \<Rightarrow> string \<Rightarrow> bool" where
  "ds4_tool_text_escaped_close s end_tag =
     (case s of [] \<Rightarrow> False
      | c # t \<Rightarrow> c = CHR ''&'' \<and> (let u = skip_amp t in prefix ''lt;'' u \<and> prefix (tl end_tag) (drop 3 u)))"

definition ds4_tool_text_needs_escape :: "string \<Rightarrow> string \<Rightarrow> bool" where
  "ds4_tool_text_needs_escape s end_tag \<longleftrightarrow> prefix end_tag s \<or> ds4_tool_text_escaped_close s end_tag"

function ds4_tool_text_unescape :: "string \<Rightarrow> string \<Rightarrow> string" where
  "ds4_tool_text_unescape s end_tag =
     (if s = [] then []
      else if ds4_tool_text_escaped_close s end_tag then
        (if prefix ''&amp;'' s then CHR ''&'' # ds4_tool_text_unescape (drop 5 s) end_tag
         else CHR ''<'' # ds4_tool_text_unescape (drop 4 s) end_tag)
      else hd s # ds4_tool_text_unescape (tl s) end_tag)"
  by pat_completeness auto
termination by (relation "measure (\<lambda>(s, end_tag). length s)") auto

declare ds4_tool_text_unescape.simps [simp del]

text \<open>
  The bytes of a fragment of length \<open>n\<close>; the count of the C code is the length of the list.
\<close>

definition ds4_tool_text_partial_escape :: "string \<Rightarrow> string \<Rightarrow> bool" where
  "ds4_tool_text_partial_escape s end_tag =
     (case s of [] \<Rightarrow> False
      | c # t \<Rightarrow>
          if c \<noteq> CHR ''&'' then False
          else
            let u = skip_amp t in
            if length u < 4 \<and> prefix u ''amp;'' then True
            else if length u < 3 then prefix u ''lt;''
            else if \<not> prefix ''lt;'' u then False
            else let v = drop 3 u in length v < length (tl end_tag) \<and> prefix v (tl end_tag))"

text \<open>
  The four writers of tool bodies share one loop: \<open>append_glm_tag_body_text\<close> has it with the delimiter as
  an argument.
\<close>

fun append_glm_tag_body_text :: "string \<Rightarrow> string \<Rightarrow> string" where
  "append_glm_tag_body_text [] end_tag = []"
| "append_glm_tag_body_text (c # s) end_tag =
     (if ds4_tool_text_needs_escape (c # s) end_tag then (if c = CHR ''<'' then ''&lt;'' else ''&amp;'') else [c])
     @ append_glm_tag_body_text s end_tag"

definition close_tag :: "string \<Rightarrow> bool" where
  "close_tag e \<longleftrightarrow> e \<noteq> [] \<and> hd e = CHR ''<'' \<and> CHR ''<'' \<notin> set (tl e) \<and> CHR ''&'' \<notin> set (tl e)"

section \<open>Escaping is undone, and hides the delimiter\<close>

lemma body_head:
  "s = [] \<and> append_glm_tag_body_text s e = []
   \<or> (\<exists>c t. s = c # t \<and> append_glm_tag_body_text s e
        = (if ds4_tool_text_needs_escape s e then (if c = CHR ''<'' then ''&lt;'' else ''&amp;'') else [c]) @ append_glm_tag_body_text t e)"
  by (cases s) auto

lemma needs_escape_head: "ds4_tool_text_needs_escape s e \<Longrightarrow> close_tag e \<Longrightarrow> s \<noteq> [] \<and> (hd s = CHR ''<'' \<or> hd s = CHR ''&'')"
  by (cases s; cases e) (auto simp: ds4_tool_text_needs_escape_def ds4_tool_text_escaped_close_def close_tag_def)

text \<open>A text without \<open>&\<close> and \<open><\<close> is found in the escaped text where it is in the original.\<close>

lemma prefix_body:
  assumes "close_tag e" "CHR ''&'' \<notin> set p" "CHR ''<'' \<notin> set p"
  shows "prefix p (append_glm_tag_body_text s e) \<longleftrightarrow> prefix p s"
    and "prefix p s \<Longrightarrow> drop (length p) (append_glm_tag_body_text s e) = append_glm_tag_body_text (drop (length p) s) e"
  using assms(2,3)
proof (induction p arbitrary: s)
  case (Cons x p)
  { case 1
    then show ?case
    proof (cases s)
      case s: (Cons c t)
      then show ?thesis using needs_escape_head [of s e, OF _ assms(1)] "Cons.IH"(1) [of t] 1 by auto
    qed simp
  next
    case 2
    then obtain t where s: "s = x # t" "prefix p t" by (cases s) auto
    then have "\<not> ds4_tool_text_needs_escape s e" using needs_escape_head [of s e, OF _ assms(1)] 2 by auto
    then show ?case using s "Cons.IH"(2) [of t] 2 by simp
  }
qed simp_all

lemma skip_amp_body: "close_tag e \<Longrightarrow> skip_amp (append_glm_tag_body_text s e) = append_glm_tag_body_text (skip_amp s) e"
proof (induction s rule: skip_amp.induct)
  case (1 s)
  have p: "prefix ''amp;'' (append_glm_tag_body_text s e) \<longleftrightarrow> prefix ''amp;'' s" by (rule prefix_body(1) [OF 1(2)]) simp_all
  show ?case
  proof (cases "prefix ''amp;'' s")
    case True
    have "drop 4 (append_glm_tag_body_text s e) = append_glm_tag_body_text (drop 4 s) e"
      using prefix_body(2) [OF 1(2) _ _ True] by (simp add: eval_nat_numeral)
    then show ?thesis using True p 1 skip_amp.simps [of s] skip_amp.simps [of "append_glm_tag_body_text s e"] by simp
  next
    case False
    then show ?thesis using p skip_amp.simps [of s] skip_amp.simps [of "append_glm_tag_body_text s e"] by simp
  qed
qed

lemma escaped_close_body:
  assumes "close_tag e"
  shows "ds4_tool_text_escaped_close (CHR ''&'' # append_glm_tag_body_text s e) e \<longleftrightarrow> ds4_tool_text_escaped_close (CHR ''&'' # s) e"
proof -
  have lt: "prefix ''lt;'' (append_glm_tag_body_text u e) \<longleftrightarrow> prefix ''lt;'' u" for u by (rule prefix_body(1) [OF assms]) simp_all
  have "prefix (tl e) (drop 3 (append_glm_tag_body_text u e)) \<longleftrightarrow> prefix (tl e) (drop 3 u)" if u: "prefix ''lt;'' u" for u
  proof -
    have "drop 3 (append_glm_tag_body_text u e) = append_glm_tag_body_text (drop 3 u) e" using prefix_body(2) [OF assms _ _ u] by (simp add: eval_nat_numeral)
    then show ?thesis using prefix_body(1) [OF assms] assms by (simp add: close_tag_def)
  qed
  then show ?thesis using lt by (auto simp: ds4_tool_text_escaped_close_def skip_amp_body [OF assms] Let_def)
qed

lemma unescape_body: "close_tag e \<Longrightarrow> ds4_tool_text_unescape (append_glm_tag_body_text s e) e = s"
proof (induction s)
  case Nil
  then show ?case by (simp add: ds4_tool_text_unescape.simps)
next
  case (Cons c t)
  let ?b = "append_glm_tag_body_text t e"
  have IH: "ds4_tool_text_unescape ?b e = t" using Cons by simp
  show ?case
  proof (cases "ds4_tool_text_needs_escape (c # t) e")
    case False
    then have "\<not> ds4_tool_text_escaped_close (c # ?b) e"
      using escaped_close_body [OF Cons.prems, of t] by (auto simp: ds4_tool_text_needs_escape_def ds4_tool_text_escaped_close_def)
    then show ?thesis using False IH by (subst ds4_tool_text_unescape.simps) simp
  next
    case True
    show ?thesis
    proof (cases "c = CHR ''<''")
      case True
      then have "prefix (tl e) t"
        using \<open>ds4_tool_text_needs_escape (c # t) e\<close> Cons.prems
        by (cases e) (auto simp: ds4_tool_text_needs_escape_def ds4_tool_text_escaped_close_def close_tag_def)
      then have "prefix (tl e) ?b" using prefix_body(1) [OF Cons.prems, of "tl e"] Cons.prems by (simp add: close_tag_def)
      then have "ds4_tool_text_escaped_close (''&lt;'' @ ?b) e"
        using skip_amp_stop [of "''lt;'' @ ?b"] by (simp add: ds4_tool_text_escaped_close_def)
      then show ?thesis using True \<open>ds4_tool_text_needs_escape (c # t) e\<close> IH by (subst ds4_tool_text_unescape.simps) simp
    next
      case False
      then have amp: "c = CHR ''&''" using needs_escape_head [OF True Cons.prems] by simp
      then have close: "ds4_tool_text_escaped_close (CHR ''&'' # t) e"
        using True Cons.prems by (cases e) (auto simp: ds4_tool_text_needs_escape_def close_tag_def)
      have "ds4_tool_text_escaped_close (''&amp;'' @ ?b) e"
        using escaped_close_body [OF Cons.prems, of t] close skip_amp_step [of ?b] by (simp add: ds4_tool_text_escaped_close_def)
      then show ?thesis using True False amp IH by (subst ds4_tool_text_unescape.simps) simp
    qed
  qed
qed

lemma body_no_delimiter: "close_tag e \<Longrightarrow> i \<le> length (append_glm_tag_body_text s e) \<Longrightarrow> \<not> prefix e (drop i (append_glm_tag_body_text s e))"
proof (induction s arbitrary: i)
  case Nil
  then show ?case by (cases e) (auto simp: close_tag_def)
next
  case (Cons c t)
  let ?b = "append_glm_tag_body_text t e"
  obtain f where e: "e = CHR ''<'' # f" "CHR ''<'' \<notin> set f" "CHR ''&'' \<notin> set f" using Cons.prems(1) by (cases e) (auto simp: close_tag_def)
  show ?case
  proof (cases "ds4_tool_text_needs_escape (c # t) e")
    case False
    then have "\<not> prefix e (c # t)" by (simp add: ds4_tool_text_needs_escape_def)
    then have "\<not> prefix e (c # ?b)" using prefix_body(1) [OF Cons.prems(1) e(3,2), of t] e(1) by auto
    then show ?thesis using False Cons by (cases i) simp_all
  next
    case True
    obtain w where w: "append_glm_tag_body_text (c # t) e = w @ ?b" "CHR ''<'' \<notin> set w" using True by auto
    show ?thesis
    proof (cases "i < length w")
      case True
      then have "drop i (w @ ?b) = w ! i # drop (Suc i) (w @ ?b)" by (subst Cons_nth_drop_Suc [symmetric]) (auto simp: nth_append)
      then show ?thesis using w True e(1) by (auto dest: nth_mem)
    next
      case False
      then show ?thesis using Cons w(1) by simp
    qed
  qed
qed

section \<open>How much of a value may be streamed\<close>

text \<open>The last position of \<open>c\<close> in \<open>[lo, hi)\<close>, searched from the end.\<close>

fun last_at :: "string \<Rightarrow> char \<Rightarrow> nat \<Rightarrow> nat \<Rightarrow> nat option" where
  "last_at raw c lo 0 = None"
| "last_at raw c lo (Suc i) = (if Suc i \<le> lo then None else if raw ! i = c then Some i else last_at raw c lo i)"

definition tool_param_value_stream_safe_len :: "string \<Rightarrow> nat \<Rightarrow> nat \<Rightarrow> string \<Rightarrow> bool \<Rightarrow> nat" where
  "tool_param_value_stream_safe_len raw start raw_len param_end is_string =
     (let end_len = length param_end;
          scan = (if start + end_len < raw_len then raw_len - end_len else start);
          limit = (case last_at raw CHR ''<'' scan raw_len of None \<Rightarrow> raw_len
                   | Some marker \<Rightarrow>
                       if raw_len - marker < end_len \<and> prefix (take (raw_len - marker) (drop marker raw)) param_end then marker
                       else raw_len);
          limit = (if \<not> is_string then limit
                   else case last_at raw CHR ''&'' start limit of None \<Rightarrow> limit
                     | Some a \<Rightarrow> if ds4_tool_text_partial_escape (take (limit - a) (drop a raw)) param_end then a else limit)
      in utf8_stream_safe_len (Some raw) start limit False)"

lemma last_at_Some: "last_at raw c lo hi = Some m \<Longrightarrow> lo \<le> m \<and> m < hi \<and> raw ! m = c \<and> (\<forall>j. m < j \<and> j < hi \<longrightarrow> raw ! j \<noteq> c)"
  by (induction hi) (auto split: if_splits simp: less_Suc_eq)

lemma last_at_None: "last_at raw c lo hi = None \<Longrightarrow> lo \<le> j \<Longrightarrow> j < hi \<Longrightarrow> raw ! j \<noteq> c"
  by (induction hi) (auto split: if_splits simp: less_Suc_eq)

section \<open>Escapes as patterns\<close>

definition escape_pattern :: "nat \<Rightarrow> string \<Rightarrow> string" where
  "escape_pattern k e = CHR ''&'' # concat (replicate k ''amp;'') @ ''lt;'' @ tl e"

lemma skip_amp_split: "\<exists>k. s = concat (replicate k ''amp;'') @ skip_amp s"
proof (induction s rule: skip_amp.induct)
  case (1 s)
  show ?case
  proof (cases "prefix ''amp;'' s")
    case True
    then obtain t where t: "s = ''amp;'' @ t" by (auto simp: prefix_def)
    then obtain k where "t = concat (replicate k ''amp;'') @ skip_amp t" using 1 [OF True] by auto
    then have "s = concat (replicate (Suc k) ''amp;'') @ skip_amp s" using t skip_amp_step [of t] by simp
    then show ?thesis by blast
  next
    case False
    then show ?thesis by (intro exI [of _ 0]) (simp add: skip_amp_stop)
  qed
qed

lemma skip_amps: "skip_amp (concat (replicate k ''amp;'') @ ''lt;'' @ t) = ''lt;'' @ t"
proof (induction k)
  case 0
  show ?case by (simp add: skip_amp_stop)
next
  case (Suc k)
  then show ?case using skip_amp_step [of "concat (replicate k ''amp;'') @ ''lt;'' @ t"] by simp
qed

lemma escaped_close_pattern: "ds4_tool_text_escaped_close s e \<longleftrightarrow> (\<exists>k. prefix (escape_pattern k e) s)"
proof
  assume "ds4_tool_text_escaped_close s e"
  then obtain t where s: "s = CHR ''&'' # t" and p: "prefix ''lt;'' (skip_amp t)" "prefix (tl e) (drop 3 (skip_amp t))"
    by (auto simp: ds4_tool_text_escaped_close_def Let_def split: list.splits)
  obtain u where u: "skip_amp t = ''lt;'' @ u" using p(1) by (auto simp: prefix_def)
  then obtain w where "u = tl e @ w" using p(2) by (auto simp: prefix_def)
  moreover obtain k where "t = concat (replicate k ''amp;'') @ skip_amp t" using skip_amp_split by blast
  ultimately have "s = escape_pattern k e @ w" using s u by (simp add: escape_pattern_def)
  then show "\<exists>k. prefix (escape_pattern k e) s" by (auto simp: prefix_def)
next
  assume "\<exists>k. prefix (escape_pattern k e) s"
  then obtain k w where "s = escape_pattern k e @ w" by (auto simp: prefix_def)
  then have "s = CHR ''&'' # concat (replicate k ''amp;'') @ ''lt;'' @ (tl e @ w)" by (simp add: escape_pattern_def)
  then show "ds4_tool_text_escaped_close s e"
    using skip_amps [of k "tl e @ w"] by (simp add: ds4_tool_text_escaped_close_def)
qed

lemma escaped_close_mono: "ds4_tool_text_escaped_close s e \<Longrightarrow> ds4_tool_text_escaped_close (s @ t) e"
  unfolding escaped_close_pattern by (meson prefix_def prefix_order.trans)

lemma partial_escape_take:
  assumes "m < length (concat (replicate k ''amp;'') @ ''lt;'' @ f)"
  shows "ds4_tool_text_partial_escape (CHR ''&'' # take m (concat (replicate k ''amp;'') @ ''lt;'' @ f)) (c # f)"
  using assms
proof (induction k arbitrary: m)
  case 0
  have "\<not> prefix ''amp;'' (take m (''lt;'' @ f))" by (cases m) auto
  then have s: "skip_amp (take m (''lt;'' @ f)) = take m (''lt;'' @ f)" by (rule skip_amp_stop)
  consider "m = 0" | "m = 1" | "m = 2" | j where "m = j + 3" by (metis One_nat_def Suc_1 add.commute le_add_diff_inverse not_less_eq_eq numeral_3_eq_3 le_SucE le_zero_eq)
  then show ?case
  proof cases
    case 4
    then have "take m (''lt;'' @ f) = ''lt;'' @ take j f" "j < length f" using 0 by (simp_all add: numeral_3_eq_3)
    then show ?thesis using s by (simp add: ds4_tool_text_partial_escape_def take_is_prefix)
  qed (use s in \<open>simp_all add: ds4_tool_text_partial_escape_def numeral_2_eq_2\<close>)
next
  case (Suc k)
  let ?w = "concat (replicate k ''amp;'') @ ''lt;'' @ f"
  consider "m = 0" | "m = 1" | "m = 2" | "m = 3" | j where "m = j + 4"
    by (metis One_nat_def add.commute le_add_diff_inverse not_less_eq_eq le_SucE le_zero_eq eval_nat_numeral(2,3) numeral_1_eq_Suc_0 BitM.simps numeral_One Suc_numeral)
  then show ?case
  proof cases
    case 5
    then have t: "take m (concat (replicate (Suc k) ''amp;'') @ ''lt;'' @ f) = ''amp;'' @ take j ?w" by (simp add: eval_nat_numeral)
    have "j < length ?w" using Suc.prems 5 by simp
    from Suc.IH [OF this] show ?thesis unfolding t using skip_amp_step [of "take j ?w"] by (simp add: ds4_tool_text_partial_escape_def)
  qed (simp_all add: ds4_tool_text_partial_escape_def skip_amp_stop eval_nat_numeral)
qed

lemma partial_pattern:
  assumes "0 < m" "m < length (escape_pattern k e)" "e \<noteq> []"
  shows "ds4_tool_text_partial_escape (take m (escape_pattern k e)) e"
proof -
  obtain c f where e: "e = c # f" using assms(3) by (cases e) auto
  obtain j where j: "m = Suc j" using assms(1) by (cases m) auto
  then have "j < length (concat (replicate k ''amp;'') @ ''lt;'' @ f)" using assms(2) e by (simp add: escape_pattern_def)
  from partial_escape_take [OF this] show ?thesis using e j by (simp add: escape_pattern_def)
qed

section \<open>Where a text may be cut\<close>

definition safe_cut :: "string \<Rightarrow> string \<Rightarrow> nat \<Rightarrow> bool" where
  "safe_cut e v p \<longleftrightarrow> (\<forall>a<p. ds4_tool_text_escaped_close (drop a v) e \<longrightarrow> ds4_tool_text_escaped_close (drop a (take p v)) e)"

lemma pattern_length: "escape_pattern k e = w \<Longrightarrow> 4 \<le> length w \<and> (prefix ''&amp;'' w \<longrightarrow> 5 \<le> length w)"
  by (cases k) (auto simp: escape_pattern_def)

lemma unescape_cut:
  "safe_cut e v p \<Longrightarrow> p \<le> length v \<Longrightarrow> ds4_tool_text_unescape v e = ds4_tool_text_unescape (take p v) e @ ds4_tool_text_unescape (drop p v) e"
proof (induction v e arbitrary: p rule: ds4_tool_text_unescape.induct)
  case (1 v e)
  show ?case
  proof (cases "p = 0")
    case True
    then show ?thesis by (subst (2) ds4_tool_text_unescape.simps) simp
  next
    case False
    then have v: "v \<noteq> []" "take p v \<noteq> []" using "1.prems"(2) by auto
    have cut: "safe_cut e (drop n v) (p - n)" if "n \<le> p" for n
      unfolding safe_cut_def
    proof (intro allI impI)
      fix a assume a: "a < p - n" "ds4_tool_text_escaped_close (drop a (drop n v)) e"
      then have "ds4_tool_text_escaped_close (drop (a + n) (take p v)) e" using "1.prems"(1) by (simp add: safe_cut_def)
      then show "ds4_tool_text_escaped_close (drop a (take (p - n) (drop n v))) e" by (simp add: take_drop that)
    qed
    show ?thesis
    proof (cases "ds4_tool_text_escaped_close v e")
      case True
      then have tp: "ds4_tool_text_escaped_close (take p v) e" using "1.prems"(1) False by (auto simp: safe_cut_def dest!: spec [of _ 0])
      then obtain k where k: "prefix (escape_pattern k e) (take p v)" using escaped_close_pattern by blast
      have len: "4 \<le> p" using pattern_length [OF refl, of k e] prefix_length_le [OF k] by simp
      have pre: "prefix ''&amp;'' (take p v) \<longleftrightarrow> prefix ''&amp;'' v" and len5: "prefix ''&amp;'' v \<Longrightarrow> 5 \<le> p"
      proof -
        have v4: "take 4 (take p v) = take 4 v" using len by simp
        have iff: "prefix ''&amp;'' (escape_pattern k e) \<longleftrightarrow> 0 < k" by (cases k) (auto simp: escape_pattern_def)
        have "prefix ''&amp;'' w \<longleftrightarrow> 0 < k" if "prefix (escape_pattern k e) w" for w
          using that by (cases k) (auto simp: escape_pattern_def prefix_def)
        then have "prefix ''&amp;'' (take p v) \<longleftrightarrow> 0 < k" "prefix ''&amp;'' v \<longleftrightarrow> 0 < k"
          using k prefix_order.trans [OF k take_is_prefix] by blast+
        then show "prefix ''&amp;'' (take p v) \<longleftrightarrow> prefix ''&amp;'' v" "prefix ''&amp;'' v \<Longrightarrow> 5 \<le> p"
          using iff pattern_length [OF refl, of k e] prefix_length_le [OF k] by auto
      qed
      show ?thesis
      proof (cases "prefix ''&amp;'' v")
        case amp: True
        have "ds4_tool_text_unescape (drop 5 v) e
          = ds4_tool_text_unescape (take (p - 5) (drop 5 v)) e @ ds4_tool_text_unescape (drop (p - 5) (drop 5 v)) e"
          by (rule "1.IH"(1) [OF v(1) True amp cut [OF len5 [OF amp]]]) (use "1.prems"(2) in simp)
        then show ?thesis using amp True tp pre v len5 [OF amp]
          by (subst (1 2) ds4_tool_text_unescape.simps) (simp add: drop_take)
      next
        case namp: False
        have "ds4_tool_text_unescape (drop 4 v) e
          = ds4_tool_text_unescape (take (p - 4) (drop 4 v)) e @ ds4_tool_text_unescape (drop (p - 4) (drop 4 v)) e"
          by (rule "1.IH"(2) [OF v(1) True namp cut [OF len]]) (use "1.prems"(2) in simp)
        then show ?thesis using namp True tp pre v len by (subst (1 2) ds4_tool_text_unescape.simps) (simp add: drop_take)
      qed
    next
      case no: False
      then have ntp: "\<not> ds4_tool_text_escaped_close (take p v) e"
        using escaped_close_mono [of "take p v" e "drop p v"] by auto
      have "safe_cut e (tl v) (p - 1)" using cut [of 1] False by (simp add: drop_Suc)
      from "1.IH"(3) [OF v(1) no this] have "ds4_tool_text_unescape (tl v) e
          = ds4_tool_text_unescape (take (p - 1) (tl v)) e @ ds4_tool_text_unescape (drop (p - 1) (tl v)) e"
        using "1.prems"(2) by simp
      then show ?thesis using no ntp v False
        by (cases v; cases p) (subst (1 2) ds4_tool_text_unescape.simps, simp)+
    qed
  qed
qed

section \<open>The limit is a safe cut\<close>

lemma utf8_back_props:
  "start \<le> p \<Longrightarrow> start \<le> utf8_back s start p n \<and> utf8_back s start p n \<le> p
    \<and> (\<forall>i. utf8_back s start p n \<le> i \<and> i < p \<longrightarrow> is_continuation (s ! i))"
proof (induction s start p n rule: utf8_back.induct)
  case (1 s start p n)
  show ?case
  proof (cases "start < p \<and> n < 4 \<and> is_continuation (s ! (p - 1))")
    case True
    then have "start \<le> p - 1" by arith
    note IH = "1.IH" [OF True this]
    have "utf8_back s start p n = utf8_back s start (p - 1) (n + 1)" using True by (subst utf8_back.simps) simp
    moreover have "is_continuation (s ! i)" if "utf8_back s start (p - 1) (n + 1) \<le> i" "i < p" for i
      using IH that True by (cases "i = p - 1") auto
    ultimately show ?thesis using IH by auto
  next
    case False
    then have "utf8_back s start p n = p" by (subst utf8_back.simps) (rule if_not_P)
    then show ?thesis using "1.prems" by auto
  qed
qed

lemma utf8_cut_bounds:
  assumes "start \<le> limit"
  shows "start \<le> utf8_stream_safe_len (Some s) start limit False" "utf8_stream_safe_len (Some s) start limit False \<le> limit"
    and "utf8_stream_safe_len (Some s) start limit False \<le> i \<Longrightarrow> i < limit \<Longrightarrow> 0x80 \<le> char_code (s ! i)"
proof -
  let ?p = "utf8_back s start limit 0"
  let ?L = "utf8_stream_safe_len (Some s) start limit False"
  note b = utf8_back_props [OF assms, of s 0]
  have cont: "is_continuation c \<Longrightarrow> 0x80 \<le> char_code c" for c by (auto simp: is_continuation_def)
  have wide: "1 < utf8_expected_len c \<Longrightarrow> 0x80 \<le> char_code c" for c by (auto simp: utf8_expected_len_def Let_def split: if_splits)
  have "start \<le> ?L \<and> ?L \<le> limit \<and> (\<forall>i. ?L \<le> i \<and> i < limit \<longrightarrow> 0x80 \<le> char_code (s ! i))"
  proof (cases "limit = start")
    case True
    then show ?thesis by (simp add: utf8_stream_safe_len_def)
  next
    case False
    then have lt: "start < limit" using assms by simp
    consider "?p = limit" | "?p \<noteq> limit" "?p = start \<and> is_continuation (s ! ?p)" | "?p \<noteq> limit" "\<not> (?p = start \<and> is_continuation (s ! ?p))" by blast
    then show ?thesis
    proof cases
      case 1
      then have "?L = (if 1 < utf8_expected_len (s ! (limit - 1)) then limit - 1 else limit)"
        using lt by (simp add: utf8_stream_safe_len_def)
      moreover have "i = limit - 1" if "limit - 1 \<le> i" "i < limit" for i using that by simp
      ultimately show ?thesis using lt wide by auto
    next
      case 2
      then have "?L = start" using lt 2(2) by (simp add: utf8_stream_safe_len_def Let_def)
      then show ?thesis using lt b 2 cont by auto
    next
      case 3
      then have c: "is_continuation (s ! ?p)" using b by (metis le_less order_refl)
      then have gt: "start < ?p" using 3 b by (metis le_less)
      have ne: "\<not> (False \<or> limit \<le> start)" using lt by simp
      have "?L = (if limit - (?p - 1) < utf8_expected_len (s ! (?p - 1)) then ?p - 1 else limit)"
        by (simp only: utf8_stream_safe_len_def Let_def option.case if_not_P [OF ne] if_not_P [OF 3(1)] if_not_P [OF 3(2)])
      moreover have "0x80 \<le> char_code (s ! i)"
        if "limit - (?p - 1) < utf8_expected_len (s ! (?p - 1))" "?p - 1 \<le> i" "i < limit" for i
        using that b cont wide [of "s ! (?p - 1)"] gt by (cases "i = ?p - 1") auto
      ultimately show ?thesis using gt b by auto
    qed
  qed
  then show "start \<le> ?L" "?L \<le> limit" "?L \<le> i \<Longrightarrow> i < limit \<Longrightarrow> 0x80 \<le> char_code (s ! i)" by blast+
qed

text \<open>
  A value \<open>v\<close> from position \<open>start\<close> on, and the delimiter that ends it; \<open>n\<close> bytes have arrived, the
  delimiter not among them.
\<close>

definition value_at :: "string \<Rightarrow> nat \<Rightarrow> string \<Rightarrow> string \<Rightarrow> bool" where
  "value_at w start v e \<longleftrightarrow> start + length v + length e \<le> length w \<and> take (length v) (drop start w) = v
     \<and> (\<forall>i. start \<le> i \<and> i \<le> start + length v \<longrightarrow> (prefix e (drop i w) \<longleftrightarrow> i = start + length v))"

definition ascii_end :: "string \<Rightarrow> bool" where
  "ascii_end e \<longleftrightarrow> tl e \<noteq> [] \<and> char_code (List.last e) < 0x80"

lemma prefix_nth: "prefix p w \<Longrightarrow> i < length p \<Longrightarrow> w ! i = p ! i"
  by (auto simp: prefix_def nth_append)

lemma value_at_nth: "value_at w start v e \<Longrightarrow> i < length v \<Longrightarrow> w ! (start + i) = v ! i"
  unfolding value_at_def by (metis nth_take nth_drop le_add1 add_leD1 trans_le_add1)

lemma value_at_end: "value_at w start v e \<Longrightarrow> i < length e \<Longrightarrow> w ! (start + length v + i) = e ! i"
  using prefix_nth [of e "drop (start + length v) w" i] by (simp add: value_at_def)

lemma marker_limit:
  assumes "close_tag e" "value_at w start v e" "n \<le> length w" "start \<le> n" "n < start + length v + length e"
    and "limit = (case last_at (take n w) CHR ''<'' (if start + length e < n then n - length e else start) n of None \<Rightarrow> n
      | Some m \<Rightarrow> if n - m < length e \<and> prefix (take (n - m) (drop m (take n w))) e then m else n)"
  shows "start \<le> limit" "limit \<le> n" "limit \<le> start + length v"
proof -
  let ?scan = "if start + length e < n then n - length e else start"
  let ?q = "start + length v"
  have scan: "start \<le> ?scan" by auto
  have "start \<le> limit \<and> limit \<le> n"
    using assms(4,6) scan by (auto split: option.splits dest!: last_at_Some)
  moreover have "limit \<le> ?q"
  proof (cases "n \<le> ?q")
    case True
    then show ?thesis using calculation by simp
  next
    case False
    have at: "take n w ! (?q + j) = e ! j" if "j < n - ?q" for j
      using value_at_end [OF assms(2), of j] that assms(5) by simp
    have q: "take n w ! ?q = CHR ''<''" using at [of 0] False assms(1) by (auto simp: close_tag_def hd_conv_nth)
    have tail: "take n w ! j \<noteq> CHR ''<''" if j: "?q < j" "j < n" for j
    proof -
      define k where "k = j - ?q - 1"
      have k: "j = ?q + Suc k" using j(1) by (simp add: k_def)
      then have "take n w ! j = tl e ! k" using at [of "Suc k"] that assms(5) by (simp add: nth_tl)
      moreover have "tl e ! k \<in> set (tl e)" using k that(2) assms(5) by simp
      ultimately show ?thesis using assms(1) by (auto simp: close_tag_def)
    qed
    have sq: "?scan \<le> ?q" using assms(5) by auto
    have "last_at (take n w) CHR ''<'' ?scan n = Some ?q"
    proof (cases "last_at (take n w) CHR ''<'' ?scan n")
      case None
      then show ?thesis using last_at_None [OF None sq] q False by simp
    next
      case (Some m)
      then show ?thesis using last_at_Some [OF Some] q sq tail [of m] False by (metis linorder_neqE_nat not_le)
    qed
    moreover have "prefix (take (n - ?q) (drop ?q (take n w))) e"
    proof -
      have "take (n - ?q) (drop ?q (take n w)) = take (n - ?q) e"
        by (rule nth_equalityI) (use at assms(3,5) False in auto)
      then show ?thesis by (simp add: take_is_prefix)
    qed
    ultimately show ?thesis using assms(5,6) False by simp
  qed
  ultimately show "start \<le> limit" "limit \<le> n" "limit \<le> ?q" by simp_all
qed

lemma pattern_chars: "close_tag e \<Longrightarrow> 0 < j \<Longrightarrow> j < length (escape_pattern k e) \<Longrightarrow> escape_pattern k e ! j \<noteq> CHR ''&''"
proof -
  assume a: "close_tag e" "0 < j" "j < length (escape_pattern k e)"
  then obtain i where i: "j = Suc i" by (cases j) auto
  have "escape_pattern k e ! j \<in> set (concat (replicate k ''amp;'') @ ''lt;'' @ tl e)"
    using a(3) unfolding i escape_pattern_def nth_Cons_Suc by (intro nth_mem) simp
  then show ?thesis using a(1) by (auto simp: close_tag_def split: if_splits)
qed

lemma escape_limit:
  assumes "close_tag e" "prefix (escape_pattern k e) (drop a w)" "start \<le> a" "n \<le> length w" "limit1 \<le> n"
    and "limit2 = (case last_at (take n w) CHR ''&'' start limit1 of None \<Rightarrow> limit1
      | Some m \<Rightarrow> if ds4_tool_text_partial_escape (take (limit1 - m) (drop m (take n w))) e then m else limit1)"
    and "a < limit2"
  shows "a + length (escape_pattern k e) \<le> limit2"
proof -
  let ?P = "escape_pattern k e"
  have P: "w ! (a + j) = ?P ! j" if "j < length ?P" for j
    using prefix_nth [OF assms(2) that] prefix_length_le [OF assms(2)] that by simp
  have l21: "limit2 \<le> limit1" using assms(6) by (auto split: option.splits if_splits dest!: last_at_Some)
  have amp: "take n w ! a = CHR ''&''" using P [of 0] assms(5,7) l21 by (simp add: escape_pattern_def)
  obtain m where m: "last_at (take n w) CHR ''&'' start limit1 = Some m"
    using last_at_None [of "take n w" "CHR ''&''" start limit1 a] amp assms(3,7) l21 by (cases "last_at (take n w) CHR ''&'' start limit1") auto
  note ms = last_at_Some [OF m]
  have am: "a \<le> m" using ms amp assms(7) l21 by (metis not_le less_le_trans)
  show ?thesis
  proof (cases "m = a")
    case True
    then have np: "\<not> ds4_tool_text_partial_escape (take (limit1 - a) (drop a (take n w))) e" and l2: "limit2 = limit1"
      using assms(6,7) m by (auto split: if_splits)
    have "length ?P \<le> limit1 - a"
    proof (rule ccontr)
      assume short: "\<not> ?thesis"
      have "take (limit1 - a) (drop a (take n w)) = take (limit1 - a) ?P"
      proof (rule nth_equalityI)
        show "length (take (limit1 - a) (drop a (take n w))) = length (take (limit1 - a) ?P)" using short assms(4,5) by auto
        show "take (limit1 - a) (drop a (take n w)) ! i = take (limit1 - a) ?P ! i" if "i < length (take (limit1 - a) (drop a (take n w)))" for i
          using that P [of i] short by (auto simp: nth_drop add.commute less_diff_conv)
      qed
      moreover have "0 < limit1 - a" using assms(7) l2 by simp
      ultimately show False using partial_pattern [of "limit1 - a" k e] np short assms(1) by (simp add: close_tag_def)
    qed
    then show ?thesis using l2 assms(7) by simp
  next
    case False
    then have "a + length ?P \<le> m"
    proof (intro leI notI)
      assume lt: "m < a + length ?P"
      then have "w ! m = ?P ! (m - a)" using P [of "m - a"] am by simp
      moreover have "w ! m = CHR ''&''" using ms assms(5) nth_take [of m n w] by (metis less_le_trans)
      moreover have "0 < m - a" "m - a < length ?P" using False am lt by linarith+
      ultimately show False using pattern_chars [OF assms(1), of "m - a" k] by simp
    qed
    then show ?thesis using assms(6) m ms by (auto split: if_splits)
  qed
qed

lemma pattern_last: "ascii_end e \<Longrightarrow> char_code (escape_pattern k e ! (length (escape_pattern k e) - 1)) < 0x80"
proof -
  assume a: "ascii_end e"
  then have "List.last (escape_pattern k e) = List.last e" by (cases e) (auto simp: ascii_end_def escape_pattern_def)
  then show ?thesis using a last_conv_nth [of "escape_pattern k e"] by (simp add: ascii_end_def escape_pattern_def)
qed

lemma streamed_cut:
  assumes "close_tag e" "ascii_end e" "value_at w start v e" "n \<le> length w" "start \<le> n" "n < start + length v + length e"
    and "p = tool_param_value_stream_safe_len (take n w) start n e is_string"
  shows "start \<le> p" "p \<le> n" "p \<le> start + length v" "is_string \<Longrightarrow> safe_cut e v (p - start)"
proof -
  let ?r = "take n w"
  define limit1 where "limit1 = (case last_at ?r CHR ''<'' (if start + length e < n then n - length e else start) n of None \<Rightarrow> n
      | Some m \<Rightarrow> if n - m < length e \<and> prefix (take (n - m) (drop m ?r)) e then m else n)"
  define limit2 where "limit2 = (case last_at ?r CHR ''&'' start limit1 of None \<Rightarrow> limit1
      | Some m \<Rightarrow> if ds4_tool_text_partial_escape (take (limit1 - m) (drop m ?r)) e then m else limit1)"
  note l1 = marker_limit [OF assms(1,3-6) limit1_def]
  have l2: "start \<le> limit2" "limit2 \<le> limit1"
    using l1 by (auto simp: limit2_def split: option.splits dest!: last_at_Some)
  define limit where "limit = (if is_string then limit2 else limit1)"
  have l: "start \<le> limit" "limit \<le> limit1" using l1 l2 by (auto simp: limit_def)
  have p: "p = utf8_stream_safe_len (Some ?r) start limit False"
    unfolding assms(7) tool_param_value_stream_safe_len_def Let_def limit_def limit2_def limit1_def by (cases is_string) simp_all
  note u = utf8_cut_bounds [OF l(1), of ?r, folded p]
  show "start \<le> p" "p \<le> n" "p \<le> start + length v" using u(1,2) l l1 by simp_all
  show "safe_cut e v (p - start)" if "is_string"
    unfolding safe_cut_def
  proof (intro allI impI)
    fix a assume a: "a < p - start" "ds4_tool_text_escaped_close (drop a v) e"
    obtain k where k: "prefix (escape_pattern k e) (drop a v)" using a(2) escaped_close_pattern by blast
    let ?P = "escape_pattern k e"
    have av: "a + length ?P \<le> length v" using prefix_length_le [OF k] a(1) u(2) l(2) l1(3) by auto
    have "prefix ?P (drop (start + a) w)"
    proof -
      have "drop a v = take (length v - a) (drop (start + a) w)"
        using assms(3) unfolding value_at_def by (metis drop_take drop_drop add.commute)
      then show ?thesis using k take_is_prefix prefix_order.trans by metis
    qed
    then have "start + a + length ?P \<le> limit2"
      by (rule escape_limit [OF assms(1) _ _ assms(4) l1(2) limit2_def]) (use a(1) u(2) that in \<open>auto simp: limit_def\<close>)
    moreover have "start + a + length ?P \<le> p"
    proof (rule ccontr)
      assume "\<not> ?thesis"
      then have "p \<le> start + a + (length ?P - 1)" by simp
      moreover have lt: "start + a + (length ?P - 1) < limit"
        using \<open>start + a + length ?P \<le> limit2\<close> that pattern_length [OF refl, of k e] by (auto simp: limit_def)
      ultimately have "0x80 \<le> char_code (?r ! (start + a + (length ?P - 1)))" by (rule u(3))
      moreover have "?r ! (start + a + (length ?P - 1)) = v ! (a + (length ?P - 1))"
      proof -
        have i: "a + (length ?P - 1) < length v" "start + a + (length ?P - 1) < n"
          using av pattern_length [OF refl, of k e] lt l l1 by linarith+
        show ?thesis using value_at_nth [OF assms(3) i(1)] i(2) by (simp only: nth_take add.assoc)
      qed
      moreover have "v ! (a + (length ?P - 1)) = ?P ! (length ?P - 1)"
      proof -
        have i: "length ?P - 1 < length ?P" "a \<le> length v" using av pattern_length [OF refl, of k e] by linarith+
        show ?thesis using prefix_nth [OF k i(1)] nth_drop [OF i(2)] by (simp only:)
      qed
      ultimately show False using pattern_last [OF assms(2), of k] by simp
    qed
    then have "prefix ?P (drop a (take (p - start) v))"
      using k u(1) by (auto simp: prefix_def drop_take) 
    then show "ds4_tool_text_escaped_close (drop a (take (p - start) v)) e" using escaped_close_pattern by blast
  qed
qed

end
