(* ===== verification/ToolMarkers.thy ===== *)
theory ToolMarkers
  imports ToolText
begin

text \<open>
  The markers of tool calls in \<open>src/ds4_server.c\<close> (the rows of \<open>dsml_syntaxes\<close> and the GLM tags), attributes
  and their escape, the tests for a marker that is there or has begun (\<open>raw_full_lit\<close>, \<open>raw_partial_lit\<close>),
  and the writers of tool bodies. Bytes that are not ASCII are written by their codes.
\<close>

section \<open>The markers of tool calls\<close>

text \<open>\<open>DSML_BAR\<close> is the full-width vertical bar in UTF-8.\<close>

definition DSML_BAR :: string where "DSML_BAR = [CHR 0xEF, CHR 0xBD, CHR 0x9C]"
definition DS4_DSML :: string where "DS4_DSML = DSML_BAR @ ''DSML'' @ DSML_BAR"
definition DS4_DSML_SHORT :: string where "DS4_DSML_SHORT = ''DSML'' @ DSML_BAR"

text \<open>The rows of \<open>dsml_syntaxes\<close> in their order, and \<open>glm_tool_syntax\<close>.\<close>

datatype dsml_syntax = Ds41 | Ds4 | Ds4_short | Plain | Glm

definition dsml_syntaxes :: "dsml_syntax list" where "dsml_syntaxes = [Ds41, Ds4, Ds4_short, Plain]"

fun tool_calls_start :: "dsml_syntax \<Rightarrow> string" where
  "tool_calls_start Ds41 = ''<'' @ DS4_DSML @ '' calls>''"
| "tool_calls_start Ds4 = ''<'' @ DS4_DSML @ ''tool_calls>''"
| "tool_calls_start Ds4_short = ''<'' @ DS4_DSML_SHORT @ ''tool_calls>''"
| "tool_calls_start Plain = ''<tool_calls>''"
| "tool_calls_start Glm = ''<tool_call>''"

fun tool_calls_end :: "dsml_syntax \<Rightarrow> string" where
  "tool_calls_end Ds41 = ''</'' @ DS4_DSML @ '' calls>''"
| "tool_calls_end Ds4 = ''</'' @ DS4_DSML @ ''tool_calls>''"
| "tool_calls_end Ds4_short = ''</'' @ DS4_DSML_SHORT @ ''tool_calls>''"
| "tool_calls_end Plain = ''</tool_calls>''"
| "tool_calls_end Glm = ''</tool_call>''"

fun invoke_start :: "dsml_syntax \<Rightarrow> string" where
  "invoke_start Ds41 = ''<'' @ DS4_DSML @ '' invoke''"
| "invoke_start Ds4 = ''<'' @ DS4_DSML @ ''invoke''"
| "invoke_start Ds4_short = ''<'' @ DS4_DSML_SHORT @ ''invoke''"
| "invoke_start Plain = ''<invoke''"
| "invoke_start Glm = ''<arg_key>''"

fun invoke_end :: "dsml_syntax \<Rightarrow> string" where
  "invoke_end Ds41 = ''</'' @ DS4_DSML @ '' invoke>''"
| "invoke_end Ds4 = ''</'' @ DS4_DSML @ ''invoke>''"
| "invoke_end Ds4_short = ''</'' @ DS4_DSML_SHORT @ ''invoke>''"
| "invoke_end Plain = ''</invoke>''"
| "invoke_end Glm = ''</arg_key>''"

fun param_start :: "dsml_syntax \<Rightarrow> string" where
  "param_start Ds41 = ''<'' @ DS4_DSML @ '' parameter''"
| "param_start Ds4 = ''<'' @ DS4_DSML @ ''parameter''"
| "param_start Ds4_short = ''<'' @ DS4_DSML_SHORT @ ''parameter''"
| "param_start Plain = ''<parameter''"
| "param_start Glm = ''<arg_value>''"

fun param_end :: "dsml_syntax \<Rightarrow> string" where
  "param_end Ds41 = ''</'' @ DS4_DSML @ '' parameter>''"
| "param_end Ds4 = ''</'' @ DS4_DSML @ ''parameter>''"
| "param_end Ds4_short = ''</'' @ DS4_DSML_SHORT @ ''parameter>''"
| "param_end Plain = ''</parameter>''"
| "param_end Glm = ''</arg_value>''"

lemmas dsml_text = DSML_BAR_def DS4_DSML_def DS4_DSML_SHORT_def

lemma param_end_tag: "close_tag (param_end syn)" "ascii_end (param_end syn)"
  by (cases syn; simp add: close_tag_def ascii_end_def dsml_text char_code_def)+

lemma markers_nonempty: "tool_calls_start syn \<noteq> []" "tool_calls_end syn \<noteq> []" "invoke_start syn \<noteq> []" "invoke_end syn \<noteq> []"
  "param_start syn \<noteq> []" "param_end syn \<noteq> []"
  by (cases syn; simp)+

section \<open>Attributes\<close>

text \<open>A byte range copied to a C string ends at the first NUL.\<close>

definition c_str :: "string \<Rightarrow> string" where
  "c_str s = takeWhile (\<lambda>c. c \<noteq> CHR 0x00) s"

function dsml_unescape_text :: "string \<Rightarrow> string" where
  "dsml_unescape_text s =
     (if s = [] then []
      else if hd s \<noteq> CHR ''&'' then hd s # dsml_unescape_text (tl s)
      else if prefix ''&amp;'' s then CHR ''&'' # dsml_unescape_text (drop 5 s)
      else if prefix ''&lt;'' s then CHR ''<'' # dsml_unescape_text (drop 4 s)
      else if prefix ''&gt;'' s then CHR ''>'' # dsml_unescape_text (drop 4 s)
      else if prefix ''&quot;'' s then CHR 0x22 # dsml_unescape_text (drop 6 s)
      else if prefix ''&apos;'' s then CHR 0x27 # dsml_unescape_text (drop 6 s)
      else CHR ''&'' # dsml_unescape_text (tl s))"
  by pat_completeness auto
termination by (relation "measure length") auto

declare dsml_unescape_text.simps [simp del]

definition dsml_attr :: "string \<Rightarrow> string \<Rightarrow> string option" where
  "dsml_attr tag name =
     (let pat = name @ ''='' @ [CHR 0x22] in
      case strstr tag pat of None \<Rightarrow> None
      | Some i \<Rightarrow>
          let p = drop (i + length pat) tag in
          case strchr p (CHR 0x22) of None \<Rightarrow> None | Some q \<Rightarrow> Some (dsml_unescape_text (take q p)))"

fun append_dsml_attr_escaped :: "string \<Rightarrow> string" where
  "append_dsml_attr_escaped [] = []"
| "append_dsml_attr_escaped (c # s) =
     (if c = CHR ''&'' then ''&amp;'' else if c = CHR ''<'' then ''&lt;'' else if c = CHR ''>'' then ''&gt;''
      else if c = CHR 0x22 then ''&quot;'' else [c]) @ append_dsml_attr_escaped s"

lemma attr_round: "dsml_unescape_text (append_dsml_attr_escaped s) = s"
  by (induction s) (subst dsml_unescape_text.simps, simp)+

lemma attr_no_quote: "CHR 0x22 \<notin> set (append_dsml_attr_escaped s)"
  by (induction s) auto

section \<open>Markers in the raw text\<close>

text \<open>The C functions take the text with its length; here the text is the list of its \<open>raw_len\<close> bytes.\<close>

definition raw_full_lit :: "string \<Rightarrow> nat \<Rightarrow> string \<Rightarrow> bool" where
  "raw_full_lit raw pos lit \<longleftrightarrow> pos \<le> length raw \<and> length lit \<le> length raw - pos \<and> prefix lit (drop pos raw)"

definition raw_partial_lit :: "string \<Rightarrow> nat \<Rightarrow> string \<Rightarrow> bool" where
  "raw_partial_lit raw pos lit \<longleftrightarrow> (if length raw < pos \<or> length lit \<le> length raw - pos then False else prefix (drop pos raw) lit)"

definition raw_partial_any :: "string \<Rightarrow> nat \<Rightarrow> string \<Rightarrow> string \<Rightarrow> bool" where
  "raw_partial_any raw pos a b \<longleftrightarrow> raw_partial_lit raw pos a \<or> raw_partial_lit raw pos b"

definition find_lit_bounded :: "string \<Rightarrow> string \<Rightarrow> nat option" where
  "find_lit_bounded s lit = (if lit = [] then Some 0 else if length s < length lit then None else strstr s lit)"

abbreviation memchr :: "string \<Rightarrow> char \<Rightarrow> nat option" where "memchr \<equiv> strchr"

lemma full_lit_iff: "raw_full_lit raw pos lit \<longleftrightarrow> pos \<le> length raw \<and> prefix lit (drop pos raw)"
  by (auto simp: raw_full_lit_def dest: prefix_length_le)

lemma full_lit_mono: "raw_full_lit raw pos lit \<Longrightarrow> raw_full_lit (raw @ x) pos lit"
  by (auto simp: full_lit_iff prefix_def)

text \<open>A marker neither there nor begun is not there when more text comes.\<close>

lemma not_lit_mono:
  assumes "pos \<le> length raw" "\<not> raw_full_lit raw pos lit" "\<not> raw_partial_lit raw pos lit"
  shows "\<not> raw_full_lit (raw @ x) pos lit" "\<not> raw_partial_lit (raw @ x) pos lit"
proof -
  let ?D = "drop pos raw"
  have n1: "\<not> prefix lit ?D" using assms(1,2) by (simp add: full_lit_iff)
  have n2: "\<not> prefix ?D lit"
  proof
    assume p: "prefix ?D lit"
    show False
    proof (cases "length lit \<le> length ?D")
      case True
      then have "?D = lit" using p by (auto simp: prefix_def)
      then show False using n1 by simp
    next
      case False
      then show False using p assms(1,3) by (simp add: raw_partial_lit_def)
    qed
  qed
  have "\<not> prefix lit (?D @ x)" using n1 n2 prefix_same_cases [of lit "?D @ x" ?D] by auto
  then show "\<not> raw_full_lit (raw @ x) pos lit" using assms(1) by (simp add: full_lit_iff)
  have "\<not> prefix (?D @ x) lit" using n2 append_prefixD by blast
  then show "\<not> raw_partial_lit (raw @ x) pos lit" using assms(1) by (simp add: raw_partial_lit_def)
qed

lemma find_lit_strstr: "lit \<noteq> [] \<Longrightarrow> find_lit_bounded s lit = strstr s lit"
proof -
  assume "lit \<noteq> []"
  have "strstr s lit = None" if "length s < length lit"
    using that strstr_Some [of s lit] by (cases "strstr s lit") auto
  then show ?thesis using \<open>lit \<noteq> []\<close> by (simp add: find_lit_bounded_def)
qed

lemma strstr_mono: "strstr s lit = Some i \<Longrightarrow> strstr (s @ x) lit = Some i"
proof (induction s arbitrary: i)
  case (Cons c cs)
  then show ?case
  proof (cases "prefix lit (c # cs)")
    case True
    then show ?thesis using Cons.prems prefix_prefix [OF True, of x] by simp
  next
    case False
    with Cons.prems obtain k where k: "strstr cs lit = Some k" "i = Suc k" by auto
    have "length lit \<le> length cs" using strstr_Some [OF k(1)] by simp
    then have "\<not> prefix lit ((c # cs) @ x)" using False
      by (metis prefix_length_prefix le_SucI length_Cons prefixI prefix_order.refl)
    then show ?thesis using Cons.IH [OF k(1)] k(2) by simp
  qed
qed (cases lit; cases x; simp)

lemma strchr_mono: "strchr s c = Some i \<Longrightarrow> strchr (s @ x) c = Some i"
  by (induction s arbitrary: i) (auto split: if_splits)

section \<open>Spaces and tags in a growing text\<close>

definition skip_space :: "string \<Rightarrow> nat \<Rightarrow> nat" where
  "skip_space raw pos = pos + length (takeWhile isspace (drop pos raw))"

lemma skip_space_ge: "pos \<le> skip_space raw pos"
  by (simp add: skip_space_def)

lemma memchr_bound: "memchr (drop p raw) c = Some g \<Longrightarrow> p + g < length raw"
  using strchr_Some [of "drop p raw" c g] by auto

lemma skip_space_more: "skip_space raw pos < length raw \<Longrightarrow> skip_space (raw @ x) pos = skip_space raw pos"
proof -
  assume a: "skip_space raw pos < length raw"
  then have p: "pos \<le> length raw" using skip_space_ge [of pos raw] by simp
  have "\<exists>c\<in>set (drop pos raw). \<not> isspace c"
  proof (rule ccontr)
    assume "\<not> ?thesis"
    then have e: "takeWhile isspace (drop pos raw) = drop pos raw" by (simp add: takeWhile_eq_all_conv)
    show False using a p by (simp add: skip_space_def e)
  qed
  then obtain c where "c \<in> set (drop pos raw)" "\<not> isspace c" by blast
  then have "takeWhile isspace (drop pos raw @ x) = takeWhile isspace (drop pos raw)" by (rule takeWhile_append1)
  then show ?thesis using p by (simp add: skip_space_def)
qed

lemma skip_space_all: "pos \<le> length raw \<Longrightarrow> length raw \<le> skip_space raw pos \<Longrightarrow> skip_space raw pos = length raw \<and> (\<forall>c\<in>set (drop pos raw). isspace c)"
proof -
  assume a: "pos \<le> length raw" "length raw \<le> skip_space raw pos"
  have "length (takeWhile isspace (drop pos raw)) \<le> length (drop pos raw)" by (rule length_takeWhile_le)
  then have l: "length (takeWhile isspace (drop pos raw)) = length (drop pos raw)" using a by (simp add: skip_space_def)
  then have "takeWhile isspace (drop pos raw) = drop pos raw" by (metis takeWhile_eq_take take_all order_refl)
  then show ?thesis using a l by (auto simp: skip_space_def takeWhile_eq_all_conv)
qed

lemma skip_space_again:
  "pos \<le> length raw \<Longrightarrow> skip_space (raw @ x) (skip_space raw pos) = skip_space (raw @ x) pos"
proof (cases "skip_space raw pos < length raw")
  case True
  have "\<not> isspace (raw ! skip_space raw pos)"
  proof -
    let ?n = "length (takeWhile isspace (drop pos raw))"
    have "?n < length (drop pos raw)" using True by (simp add: skip_space_def)
    then have "\<not> isspace (drop pos raw ! ?n)" by (rule nth_length_takeWhile)
    then show ?thesis using True by (simp add: skip_space_def)
  qed
  then have "skip_space (raw @ x) (skip_space raw pos) = skip_space raw pos"
    using True by (subst skip_space_def) (simp add: Cons_nth_drop_Suc [symmetric] nth_append)
  then show ?thesis using skip_space_more [OF True] by simp
next
  case False
  assume p: "pos \<le> length raw"
  then have s: "skip_space raw pos = length raw" "\<forall>c\<in>set (drop pos raw). isspace c" using skip_space_all False by auto
  have "takeWhile isspace (drop pos raw @ x) = drop pos raw @ takeWhile isspace x" using s(2) by (intro takeWhile_append2) auto
  then show ?thesis using p s(1) by (simp add: skip_space_def)
qed

lemma memchr_more: "memchr (drop p raw) c = Some g \<Longrightarrow> memchr (drop p (raw @ x)) c = Some g \<and> take (Suc g) (drop p (raw @ x)) = take (Suc g) (drop p raw)"
  using memchr_bound [of p raw c g] strchr_mono [of "drop p raw" c g] by auto

lemma prefix_before: "prefix e (drop i (r @ x)) \<Longrightarrow> i + length e \<le> length r \<Longrightarrow> prefix e (drop i r)"
  using prefix_length_prefix [of e "drop i r @ x" "drop i r"] by simp

section \<open>The writers of tool bodies\<close>

definition append_dsml_parameter_text :: "string \<Rightarrow> bool \<Rightarrow> string" where
  "append_dsml_parameter_text s v41 = append_glm_tag_body_text s (if v41 then param_end Ds41 else param_end Ds4)"

definition append_glm_arg_key_text :: "string \<Rightarrow> string" where
  "append_glm_arg_key_text s = append_glm_tag_body_text s ''</arg_key>''"

definition append_glm_arg_value_text :: "string \<Rightarrow> string" where
  "append_glm_arg_value_text s = append_glm_tag_body_text s ''</arg_value>''"

definition append_glm_tool_response_text :: "string \<Rightarrow> string" where
  "append_glm_tool_response_text s = append_glm_tag_body_text s ''</tool_response>''"

definition append_tool_result_text :: "string \<Rightarrow> string" where
  "append_tool_result_text s = append_glm_tag_body_text s ''</tool_result>''"

fun append_dsml_json_literal :: "string \<Rightarrow> bool \<Rightarrow> string" where
  "append_dsml_json_literal [] v41 = []"
| "append_dsml_json_literal (c # s) v41 =
     (if prefix (param_end (if v41 then Ds41 else Ds4)) (c # s) then [CHR 0x5C] @ ''u003c'' else [c]) @ append_dsml_json_literal s v41"

definition tool_delimiters :: "string list" where
  "tool_delimiters = [param_end Ds41, param_end Ds4, ''</arg_key>'', ''</arg_value>'', ''</tool_response>'', ''</tool_result>'']"

lemma delimiters_close: "e \<in> set tool_delimiters \<Longrightarrow> close_tag e"
  by (auto simp: tool_delimiters_def close_tag_def dsml_text)

text \<open>
  Whatever a tool body holds, the text written for it does not contain the delimiter that ends the body,
  and reading it back gives the body; so a tool result or argument can neither end early nor be changed on the way.
\<close>

theorem tool_text_round_trip:
  assumes "e \<in> set tool_delimiters"
  shows "ds4_tool_text_unescape (append_glm_tag_body_text s e) e = s \<and> strstr (append_glm_tag_body_text s e) e = None"
proof
  have e: "close_tag e" by (rule delimiters_close [OF assms])
  show "ds4_tool_text_unescape (append_glm_tag_body_text s e) e = s" by (rule unescape_body [OF e])
  show "strstr (append_glm_tag_body_text s e) e = None"
  proof (cases "strstr (append_glm_tag_body_text s e) e")
    case (Some i)
    then show ?thesis using body_no_delimiter [OF e, of i s] strstr_Some [OF Some] by simp
  qed
qed

lemma tool_text_round_trip_witness:
  "append_tool_result_text ''ls </tool_result> &amp;lt;/tool_result>'' = ''ls &lt;/tool_result> &amp;amp;lt;/tool_result>''
    \<and> ds4_tool_text_unescape ''ls &lt;/tool_result> &amp;amp;lt;/tool_result>'' ''</tool_result>'' = ''ls </tool_result> &amp;lt;/tool_result>''"
proof -
  have e: "append_tool_result_text ''ls </tool_result> &amp;lt;/tool_result>'' = ''ls &lt;/tool_result> &amp;amp;lt;/tool_result>''"
    by code_simp
  show ?thesis
    using tool_text_round_trip [of "''</tool_result>''" "''ls </tool_result> &amp;lt;/tool_result>''"] e
    by (simp add: append_tool_result_text_def tool_delimiters_def)
qed

end
