(* ===== verification/ToolStream.thy ===== *)
theory ToolStream
  imports Incremental ToolMarkers
begin

text \<open>
  The stream that turns a tool call into OpenAI deltas while the model is still writing it
  (\<open>openai_tool_stream_update\<close> and the functions it calls, \<open>src/ds4_server.c\<close>). The events are what a
  client receives; a sender says which of them the socket accepts. The update returns: every turn that
  continues moves on in the text or in the call.
\<close>

section \<open>The OpenAI stream of tool calls\<close>

text \<open>
  What the client receives: the start of a call with its identifier and name, fragments of the JSON
  text of its arguments, and text under the name of its field (\<open>LiveOpenai\<close>).
\<close>

datatype tool_event = Call_start nat string string | Call_args nat string | Text_delta string string

datatype dsml_tool_stream_state = BETWEEN_INVOKES | BETWEEN_PARAMS | PARAM_VALUE | TOOL_DONE | TOOL_ERROR

record openai_tool_stream =
  ts_state :: dsml_tool_stream_state
  ts_syn :: dsml_syntax
  ts_pos :: nat
  ts_index :: nat
  ts_active :: bool
  ts_emitted_any :: bool
  ts_args_open :: bool
  ts_first_param :: bool
  ts_param_is_string :: bool

text \<open>
  A socket accepts the events or fails at one of them: \<open>send n\<close> says whether the \<open>n\<close>-th event is accepted.
  A function returns its success, the stream and the events sent.
\<close>

type_synonym sender = "nat \<Rightarrow> bool"

definition send_event :: "sender \<Rightarrow> 'e \<Rightarrow> 'e list \<Rightarrow> bool \<times> 'e list" where
  "send_event send ev out = (if send (length out) then (True, out @ [ev]) else (False, out))"

definition openai_tool_emit_args_fragment :: "sender \<Rightarrow> nat \<Rightarrow> string \<Rightarrow> tool_event list \<Rightarrow> bool \<times> tool_event list" where
  "openai_tool_emit_args_fragment send index txt out =
     (if txt = [] then (True, out) else send_event send (Call_args index txt) out)"

definition openai_tool_emit_string_value :: "sender \<Rightarrow> dsml_syntax \<Rightarrow> nat \<Rightarrow> string \<Rightarrow> tool_event list \<Rightarrow> bool \<times> tool_event list" where
  "openai_tool_emit_string_value send syn index txt out =
     (if txt = [] then (True, out)
      else let raw = ds4_tool_text_unescape (c_str txt) (param_end syn) in
        openai_tool_emit_args_fragment send index (json_escape_fragment_n raw (length raw)) out)"

definition openai_tool_emit_param_prefix ::
    "sender \<Rightarrow> openai_tool_stream \<Rightarrow> string \<Rightarrow> bool \<Rightarrow> tool_event list \<Rightarrow> bool \<times> openai_tool_stream \<times> tool_event list" where
  "openai_tool_emit_param_prefix send ts name is_string out =
     (let frag = (if ts_first_param ts then [] else '','') @ json_escape name @ '':'' @ (if is_string then [CHR 0x22] else []);
          (sent, out) = openai_tool_emit_args_fragment send (ts_index ts) frag out
      in (sent, ts\<lparr>ts_first_param := False\<rparr>, out))"

definition openai_tool_stream_fail :: "openai_tool_stream \<Rightarrow> openai_tool_stream" where
  "openai_tool_stream_fail ts = ts\<lparr>ts_active := False, ts_state := TOOL_ERROR\<rparr>"

definition openai_tool_stream_init :: "string \<Rightarrow> nat \<Rightarrow> bool \<times> openai_tool_stream" where
  "openai_tool_stream_init raw pos =
     (let ts = \<lparr>ts_state = BETWEEN_INVOKES, ts_syn = Ds41, ts_pos = pos, ts_index = 0, ts_active = True, ts_emitted_any = False,
                ts_args_open = False, ts_first_param = False, ts_param_is_string = False\<rparr>
      in case find (\<lambda>syn. raw_full_lit raw pos (tool_calls_start syn)) dsml_syntaxes of
           Some syn \<Rightarrow> (True, ts\<lparr>ts_syn := syn, ts_pos := pos + length (tool_calls_start syn)\<rparr>)
         | None \<Rightarrow> (False, openai_tool_stream_fail ts))"

text \<open>The identifier of a call is drawn once per index; \<open>tool_id\<close> gives it.\<close>

definition openai_tool_start_invoke ::
    "sender \<Rightarrow> (nat \<Rightarrow> string) \<Rightarrow> string \<Rightarrow> openai_tool_stream \<Rightarrow> tool_event list \<Rightarrow> bool \<times> openai_tool_stream \<times> tool_event list" where
  "openai_tool_start_invoke send tool_id raw ts out =
     (case memchr (drop (ts_pos ts) raw) CHR ''>'' of None \<Rightarrow> (True, ts, out)
      | Some g \<Rightarrow>
          (case dsml_attr (c_str (take (g + 1) (drop (ts_pos ts) raw))) ''name'' of
             None \<Rightarrow> (True, openai_tool_stream_fail ts, out)
           | Some name \<Rightarrow>
               (let (sent, out) = send_event send (Call_start (ts_index ts) (tool_id (ts_index ts)) name) out;
                    (sent, out) = (if sent then openai_tool_emit_args_fragment send (ts_index ts) ''{'' out else (False, out))
                in if \<not> sent then (False, ts, out)
                   else (True, ts\<lparr>ts_emitted_any := True, ts_args_open := True, ts_first_param := True,
                                  ts_pos := ts_pos ts + g + 1, ts_state := BETWEEN_PARAMS\<rparr>, out))))"

definition openai_tool_start_param ::
    "sender \<Rightarrow> string \<Rightarrow> openai_tool_stream \<Rightarrow> tool_event list \<Rightarrow> bool \<times> openai_tool_stream \<times> tool_event list" where
  "openai_tool_start_param send raw ts out =
     (case memchr (drop (ts_pos ts) raw) CHR ''>'' of None \<Rightarrow> (True, ts, out)
      | Some g \<Rightarrow>
          (let tag = c_str (take (g + 1) (drop (ts_pos ts) raw)) in
           case (dsml_attr tag ''name'', dsml_attr tag ''string'') of
             (Some name, Some is_string) \<Rightarrow>
               (let string_value = (is_string = ''true'');
                    (sent, ts, out) = openai_tool_emit_param_prefix send ts name string_value out
                in if \<not> sent then (False, ts, out)
                   else (True, ts\<lparr>ts_param_is_string := string_value, ts_pos := ts_pos ts + g + 1, ts_state := PARAM_VALUE\<rparr>, out))
           | _ \<Rightarrow> (True, openai_tool_stream_fail ts, out)))"

definition openai_tool_emit_value :: "sender \<Rightarrow> openai_tool_stream \<Rightarrow> string \<Rightarrow> tool_event list \<Rightarrow> bool \<times> tool_event list" where
  "openai_tool_emit_value send ts txt out =
     (if ts_param_is_string ts then openai_tool_emit_string_value send (ts_syn ts) (ts_index ts) txt out
      else openai_tool_emit_args_fragment send (ts_index ts) txt out)"

definition openai_tool_finish_param ::
    "sender \<Rightarrow> string \<Rightarrow> openai_tool_stream \<Rightarrow> nat \<Rightarrow> tool_event list \<Rightarrow> bool \<times> openai_tool_stream \<times> tool_event list" where
  "openai_tool_finish_param send raw ts value_end out =
     (let (sent, out) = (if ts_pos ts < value_end
            then openai_tool_emit_value send ts (take (value_end - ts_pos ts) (drop (ts_pos ts) raw)) out else (True, out));
          (sent, out) = (if sent \<and> ts_param_is_string ts
            then openai_tool_emit_args_fragment send (ts_index ts) [CHR 0x22] out else (sent, out))
      in if \<not> sent then (False, ts, out)
         else (True, ts\<lparr>ts_pos := value_end + length (param_end (ts_syn ts)), ts_state := BETWEEN_PARAMS\<rparr>, out))"

text \<open>
  One turn of the loop of \<open>openai_tool_stream_update\<close>: \<open>Stop\<close> where it returns, \<open>Go\<close> where it continues.
\<close>

definition go_unless_stuck ::
    "openai_tool_stream \<Rightarrow> bool \<times> openai_tool_stream \<times> tool_event list \<Rightarrow> (bool \<times> openai_tool_stream \<times> tool_event list) outcome" where
  "go_unless_stuck before r =
     (case r of (sent, ts, out) \<Rightarrow>
        if \<not> sent then Stop (False, ts, out)
        else if ts_pos ts = ts_pos before \<and> ts_state ts = ts_state before then Stop (True, ts, out)
        else Go (True, ts, out))"

definition between_invokes_turn ::
    "sender \<Rightarrow> (nat \<Rightarrow> string) \<Rightarrow> string \<Rightarrow> openai_tool_stream \<Rightarrow> tool_event list \<Rightarrow> (bool \<times> openai_tool_stream \<times> tool_event list) outcome" where
  "between_invokes_turn send tool_id raw ts out =
     (let ts = ts\<lparr>ts_pos := skip_space raw (ts_pos ts)\<rparr>; syn = ts_syn ts in
      if length raw \<le> ts_pos ts then Stop (True, ts, out)
      else if raw_full_lit raw (ts_pos ts) (tool_calls_end syn)
      then Stop (True, ts\<lparr>ts_pos := ts_pos ts + length (tool_calls_end syn), ts_active := False, ts_state := TOOL_DONE\<rparr>, out)
      else if raw_partial_any raw (ts_pos ts) (tool_calls_end syn) (invoke_start syn) then Stop (True, ts, out)
      else if raw_full_lit raw (ts_pos ts) (invoke_start syn)
      then go_unless_stuck ts (openai_tool_start_invoke send tool_id raw ts out)
      else Stop (True, openai_tool_stream_fail ts, out))"

definition between_params_turn ::
    "sender \<Rightarrow> string \<Rightarrow> openai_tool_stream \<Rightarrow> tool_event list \<Rightarrow> (bool \<times> openai_tool_stream \<times> tool_event list) outcome" where
  "between_params_turn send raw ts out =
     (let ts = ts\<lparr>ts_pos := skip_space raw (ts_pos ts)\<rparr>; syn = ts_syn ts in
      if length raw \<le> ts_pos ts then Stop (True, ts, out)
      else if raw_full_lit raw (ts_pos ts) (invoke_end syn)
      then (let (sent, out) = (if ts_args_open ts then openai_tool_emit_args_fragment send (ts_index ts) ''}'' out else (True, out)) in
            if \<not> sent then Stop (False, ts, out)
            else Go (True, ts\<lparr>ts_args_open := False, ts_pos := ts_pos ts + length (invoke_end syn), ts_index := ts_index ts + 1,
                              ts_state := BETWEEN_INVOKES\<rparr>, out))
      else if raw_partial_any raw (ts_pos ts) (invoke_end syn) (param_start syn) then Stop (True, ts, out)
      else if raw_full_lit raw (ts_pos ts) (param_start syn)
      then go_unless_stuck ts (openai_tool_start_param send raw ts out)
      else Stop (True, openai_tool_stream_fail ts, out))"

definition param_value_turn ::
    "sender \<Rightarrow> string \<Rightarrow> openai_tool_stream \<Rightarrow> tool_event list \<Rightarrow> (bool \<times> openai_tool_stream \<times> tool_event list) outcome" where
  "param_value_turn send raw ts out =
     (case find_lit_bounded (drop (ts_pos ts) raw) (param_end (ts_syn ts)) of
        Some i \<Rightarrow>
          (case openai_tool_finish_param send raw ts (ts_pos ts + i) out of (sent, ts, out) \<Rightarrow>
             if \<not> sent then Stop (False, ts, out) else Go (True, ts, out))
      | None \<Rightarrow>
          (let limit = tool_param_value_stream_safe_len raw (ts_pos ts) (length raw) (param_end (ts_syn ts)) (ts_param_is_string ts) in
           if ts_pos ts < limit
           then (let (sent, out) = openai_tool_emit_value send ts (take (limit - ts_pos ts) (drop (ts_pos ts) raw)) out in
                 if \<not> sent then Stop (False, ts, out) else Stop (True, ts\<lparr>ts_pos := limit\<rparr>, out))
           else Stop (True, ts, out)))"

definition openai_tool_turn ::
    "sender \<Rightarrow> (nat \<Rightarrow> string) \<Rightarrow> string \<Rightarrow> openai_tool_stream \<Rightarrow> tool_event list \<Rightarrow> (bool \<times> openai_tool_stream \<times> tool_event list) outcome" where
  "openai_tool_turn send tool_id raw ts out =
     (if \<not> (ts_active ts \<and> ts_pos ts < length raw) then Stop (True, ts, out)
      else case ts_state ts of
        BETWEEN_INVOKES \<Rightarrow> between_invokes_turn send tool_id raw ts out
      | BETWEEN_PARAMS \<Rightarrow> between_params_turn send raw ts out
      | PARAM_VALUE \<Rightarrow> param_value_turn send raw ts out
      | _ \<Rightarrow> Stop (True, ts, out))"

text \<open>Every turn that continues moves on in the text, or to an earlier state of the call.\<close>

definition state_rank :: "dsml_tool_stream_state \<Rightarrow> nat" where
  "state_rank st = (case st of BETWEEN_INVOKES \<Rightarrow> 1 | BETWEEN_PARAMS \<Rightarrow> 2 | PARAM_VALUE \<Rightarrow> 3 | _ \<Rightarrow> 0)"

definition turn_work :: "string \<Rightarrow> openai_tool_stream \<Rightarrow> nat" where
  "turn_work raw ts = 4 * (length raw - ts_pos ts) + state_rank (ts_state ts)"

lemma emit_args_pos: "ts_pos (fst (snd (openai_tool_emit_param_prefix send ts name s out))) = ts_pos ts"
  by (simp add: openai_tool_emit_param_prefix_def Let_def split: prod.splits)

lemma start_invoke_cases:
  "openai_tool_start_invoke send tool_id raw ts out = (sent, ts', out') \<Longrightarrow>
    ts' = ts \<or> ts' = openai_tool_stream_fail ts \<or> (ts_pos ts < ts_pos ts' \<and> ts_pos ts' \<le> length raw \<and> ts_state ts' = BETWEEN_PARAMS)"
  using memchr_bound [of "ts_pos ts" raw]
  by (auto simp: openai_tool_start_invoke_def Let_def Suc_le_eq split: option.splits prod.splits if_splits)

lemma start_param_cases:
  "openai_tool_start_param send raw ts out = (sent, ts', out') \<Longrightarrow>
    sent \<longrightarrow> ts' = ts \<or> ts' = openai_tool_stream_fail ts \<or> (ts_pos ts < ts_pos ts' \<and> ts_pos ts' \<le> length raw \<and> ts_state ts' = PARAM_VALUE)"
  using memchr_bound [of "ts_pos ts" raw]
  by (auto simp: openai_tool_start_param_def openai_tool_emit_param_prefix_def Let_def Suc_le_eq split: option.splits prod.splits if_splits)

lemma turn_decreases:
  assumes "openai_tool_turn send tool_id raw ts out = Go (b, ts', out')"
  shows "turn_work raw ts' < turn_work raw ts"
proof -
  let ?u = "ts\<lparr>ts_pos := skip_space raw (ts_pos ts)\<rparr>"
  have act: "ts_active ts" "ts_pos ts < length raw" using assms by (auto simp: openai_tool_turn_def split: if_splits)
  consider "ts_state ts = BETWEEN_INVOKES" | "ts_state ts = BETWEEN_PARAMS" | "ts_state ts = PARAM_VALUE"
    using assms by (cases "ts_state ts") (auto simp: openai_tool_turn_def split: if_splits)
  then show ?thesis
  proof cases
    case 1
    then obtain r where r: "openai_tool_start_invoke send tool_id raw ?u out = r" "go_unless_stuck ?u r = Go (b, ts', out')" "skip_space raw (ts_pos ts) < length raw"
      using assms act by (auto simp: openai_tool_turn_def between_invokes_turn_def Let_def split: if_splits)
    then have s: "openai_tool_start_invoke send tool_id raw ?u out = (b, ts', out')" "\<not> (ts_pos ts' = ts_pos ?u \<and> ts_state ts' = ts_state ?u)"
      by (auto simp: go_unless_stuck_def split: prod.splits if_splits)
    show ?thesis using start_invoke_cases [OF s(1)] s(2) skip_space_ge [of "ts_pos ts" raw] r(3) 1
      by (auto simp: turn_work_def state_rank_def openai_tool_stream_fail_def)
  next
    case 2
    show ?thesis
    proof (cases "raw_full_lit raw (ts_pos ?u) (invoke_end (ts_syn ts))")
      case True
      then show ?thesis using assms act 2 skip_space_ge [of "ts_pos ts" raw]
        by (auto simp: openai_tool_turn_def between_params_turn_def Let_def turn_work_def state_rank_def split: if_splits prod.splits)
    next
      case False
      then obtain r where r: "openai_tool_start_param send raw ?u out = r" "go_unless_stuck ?u r = Go (b, ts', out')" "skip_space raw (ts_pos ts) < length raw"
        using assms act 2 by (auto simp: openai_tool_turn_def between_params_turn_def Let_def split: if_splits)
      then have s: "openai_tool_start_param send raw ?u out = (True, ts', out')" "\<not> (ts_pos ts' = ts_pos ?u \<and> ts_state ts' = ts_state ?u)"
        by (auto simp: go_unless_stuck_def split: prod.splits if_splits)
      show ?thesis using start_param_cases [OF s(1)] s(2) skip_space_ge [of "ts_pos ts" raw] r(3) 2
        by (auto simp: turn_work_def state_rank_def openai_tool_stream_fail_def)
    qed
  next
    case 3
    then have "ts_state ts' = BETWEEN_PARAMS \<and> ts_pos ts \<le> ts_pos ts'"
      using assms act
      by (auto simp: openai_tool_turn_def param_value_turn_def openai_tool_finish_param_def Let_def split: if_splits option.splits prod.splits)
    then show ?thesis using 3 by (simp add: turn_work_def state_rank_def less_Suc_eq_le diff_le_mono2)
  qed
qed

function openai_tool_stream_update ::
    "sender \<Rightarrow> (nat \<Rightarrow> string) \<Rightarrow> string \<Rightarrow> openai_tool_stream \<Rightarrow> tool_event list \<Rightarrow> bool \<times> openai_tool_stream \<times> tool_event list" where
  "openai_tool_stream_update send tool_id raw ts out =
     (case openai_tool_turn send tool_id raw ts out of
        Stop r \<Rightarrow> r
      | Go r \<Rightarrow> openai_tool_stream_update send tool_id raw (fst (snd r)) (snd (snd r)))"
  by pat_completeness auto
termination
  by (relation "measure (\<lambda>(send, tool_id, raw, ts, out). turn_work raw ts)") (auto dest: turn_decreases)

declare openai_tool_stream_update.simps [simp del]

section \<open>What is sent does not depend on how the text arrives\<close>

text \<open>The client sees the characters of the arguments, not how they were cut into events.\<close>

datatype client_event = Client_start nat string string | Client_char nat char | Client_text string char

fun client_events :: "tool_event \<Rightarrow> client_event list" where
  "client_events (Call_start i tid name) = [Client_start i tid name]"
| "client_events (Call_args i txt) = map (Client_char i) txt"
| "client_events (Text_delta field txt) = map (Client_text field) txt"

definition wire :: "tool_event list \<Rightarrow> client_event list" where
  "wire out = concat (map client_events out)"

abbreviation all_sent :: sender where "all_sent \<equiv> \<lambda>_. True"

lemma emit_args_sent [simp]:
  "openai_tool_emit_args_fragment all_sent i txt out = (True, out @ (if txt = [] then [] else [Call_args i txt]))"
  by (simp add: openai_tool_emit_args_fragment_def send_event_def)

lemma send_event_sent [simp]: "send_event all_sent ev out = (True, out @ [ev])"
  by (simp add: send_event_def)

definition value_text :: "openai_tool_stream \<Rightarrow> string \<Rightarrow> string" where
  "value_text ts txt =
     (if ts_param_is_string ts then concat (map escape_char (ds4_tool_text_unescape (c_str txt) (param_end (ts_syn ts)))) else txt)"

lemma escape_fragment: "json_escape_fragment_n s (length s) = concat (map escape_char s)"
  unfolding json_escape_fragment_n_def by (metis map_map map_nth comp_def map_cong)

lemma value_text_Nil: "value_text ts [] = []"
  by (simp add: value_text_def c_str_def ds4_tool_text_unescape.simps)

lemma emit_value_sent:
  "openai_tool_emit_value all_sent ts txt out
    = (True, out @ (if txt = [] \<or> value_text ts txt = [] then [] else [Call_args (ts_index ts) (value_text ts txt)]))"
  by (simp add: openai_tool_emit_value_def openai_tool_emit_string_value_def Let_def value_text_def escape_fragment)

lemma c_str_plain: "CHR 0x00 \<notin> set s \<Longrightarrow> c_str s = s"
  by (auto simp: c_str_def takeWhile_eq_all_conv)

lemma value_text_cut:
  assumes "ts_param_is_string ts \<Longrightarrow> safe_cut (param_end (ts_syn ts)) v p" "p \<le> length v" "CHR 0x00 \<notin> set v"
  shows "value_text ts v = value_text ts (take p v) @ value_text ts (drop p v)"
proof (cases "ts_param_is_string ts")
  case True
  have "CHR 0x00 \<notin> set (take p v)" "CHR 0x00 \<notin> set (drop p v)" using assms(3) by (meson in_set_takeD in_set_dropD)+
  then show ?thesis using unescape_cut [OF assms(1) [OF True] assms(2)] True assms(3) by (simp add: value_text_def c_str_plain)
qed (simp add: value_text_def)

lemma wire_append: "wire (xs @ ys) = wire xs @ wire ys"
  by (simp add: wire_def)

lemma wire_value: "wire (out @ (if txt = [] \<or> value_text ts txt = [] then [] else [Call_args i (value_text ts txt)]))
  = wire out @ map (Client_char i) (value_text ts txt)"
  by (auto simp: wire_def value_text_Nil)

end
