(* ===== verification/ToolChunks.thy ===== *)
theory ToolChunks
  imports ToolStream
begin

text \<open>
  The calls a client receives do not depend on how the text arrives: the stream of \<open>ToolStream\<close> is an
  instance of the interface of \<open>Incremental\<close>, up to the cutting of arguments into fragments.
\<close>

abbreviation turn :: "(nat \<Rightarrow> string) \<Rightarrow> string \<Rightarrow> openai_tool_stream \<Rightarrow> tool_event list \<Rightarrow> (bool \<times> openai_tool_stream \<times> tool_event list) outcome" where
  "turn \<equiv> openai_tool_turn all_sent"

lemma start_invoke_more:
  assumes "memchr (drop (ts_pos ts) raw) CHR ''>'' \<noteq> None"
  shows "openai_tool_start_invoke send tool_id (raw @ x) ts out = openai_tool_start_invoke send tool_id raw ts out"
proof -
  obtain g where "memchr (drop (ts_pos ts) raw) CHR ''>'' = Some g" using assms by blast
  then show ?thesis using memchr_more [of "ts_pos ts" raw _ g x] by (simp add: openai_tool_start_invoke_def del: drop_append)
qed

lemma start_param_more:
  assumes "memchr (drop (ts_pos ts) raw) CHR ''>'' \<noteq> None"
  shows "openai_tool_start_param send (raw @ x) ts out = openai_tool_start_param send raw ts out"
proof -
  obtain g where "memchr (drop (ts_pos ts) raw) CHR ''>'' = Some g" using assms by blast
  then show ?thesis using memchr_more [of "ts_pos ts" raw _ g x] by (simp add: openai_tool_start_param_def del: drop_append)
qed

lemma start_unfinished:
  assumes "memchr (drop (ts_pos ts) raw) CHR ''>'' = None"
  shows "openai_tool_start_invoke send tool_id raw ts out = (True, ts, out)" "openai_tool_start_param send raw ts out = (True, ts, out)"
  using assms by (simp_all add: openai_tool_start_invoke_def openai_tool_start_param_def)

lemma finish_param_more:
  "value_end \<le> length raw \<Longrightarrow> openai_tool_finish_param send (raw @ x) ts value_end out = openai_tool_finish_param send raw ts value_end out"
  by (cases "ts_pos ts \<le> length raw") (auto simp: openai_tool_finish_param_def)

lemma find_lit_more: "lit \<noteq> [] \<Longrightarrow> p \<le> length raw \<Longrightarrow> find_lit_bounded (drop p raw) lit = Some i
  \<Longrightarrow> find_lit_bounded (drop p (raw @ x)) lit = Some i \<and> p + i + length lit \<le> length raw"
  using strstr_mono [of "drop p raw" lit i x] strstr_Some [of "drop p raw" lit i] by (auto simp: find_lit_strstr)

text \<open>The turn between two calls, and between two parameters.\<close>

lemma between_invokes_more:
  assumes "ts_pos ts < length raw" "skip_space raw (ts_pos ts) < length raw"
    and "\<not> (raw_partial_any raw (skip_space raw (ts_pos ts)) (tool_calls_end (ts_syn ts)) (invoke_start (ts_syn ts))
             \<and> \<not> raw_full_lit raw (skip_space raw (ts_pos ts)) (tool_calls_end (ts_syn ts)))"
    and "raw_full_lit raw (skip_space raw (ts_pos ts)) (invoke_start (ts_syn ts)) \<Longrightarrow> memchr (drop (skip_space raw (ts_pos ts)) raw) CHR ''>'' \<noteq> None"
  shows "between_invokes_turn send tool_id (raw @ x) ts out = between_invokes_turn send tool_id raw ts out"
proof -
  let ?p = "skip_space raw (ts_pos ts)"
  have p: "skip_space (raw @ x) (ts_pos ts) = ?p" by (rule skip_space_more [OF assms(2)])
  have le: "?p \<le> length raw" using assms(2) by simp
  show ?thesis
  proof (cases "raw_full_lit raw ?p (tool_calls_end (ts_syn ts))")
    case True
    then show ?thesis using p assms(2) full_lit_mono [OF True, of x] by (simp add: between_invokes_turn_def Let_def)
  next
    case nend: False
    then have np: "\<not> raw_partial_lit raw ?p (tool_calls_end (ts_syn ts))" "\<not> raw_partial_lit raw ?p (invoke_start (ts_syn ts))"
      using assms(3) by (auto simp: raw_partial_any_def)
    have e: "\<not> raw_full_lit (raw @ x) ?p (tool_calls_end (ts_syn ts))" "\<not> raw_partial_lit (raw @ x) ?p (tool_calls_end (ts_syn ts))"
      using not_lit_mono [OF le nend np(1)] by blast+
    show ?thesis
    proof (cases "raw_full_lit raw ?p (invoke_start (ts_syn ts))")
      case True
      have np': "\<not> raw_partial_lit (raw @ x) ?p (invoke_start (ts_syn ts))"
        using full_lit_mono [OF True, of x] by (auto simp: raw_full_lit_def raw_partial_lit_def)
      show ?thesis
        using p assms(2) nend np e np' True full_lit_mono [OF True, of x]
          start_invoke_more [of "ts\<lparr>ts_pos := ?p\<rparr>" raw send tool_id x out] assms(4)
        by (simp add: between_invokes_turn_def Let_def raw_partial_any_def)
    next
      case False
      then show ?thesis using p assms(2) nend np e not_lit_mono [OF le False np(2), of x]
        by (simp add: between_invokes_turn_def Let_def raw_partial_any_def)
    qed
  qed
qed

lemma between_params_more:
  assumes "ts_pos ts < length raw" "skip_space raw (ts_pos ts) < length raw"
    and "\<not> (raw_partial_any raw (skip_space raw (ts_pos ts)) (invoke_end (ts_syn ts)) (param_start (ts_syn ts))
             \<and> \<not> raw_full_lit raw (skip_space raw (ts_pos ts)) (invoke_end (ts_syn ts)))"
    and "raw_full_lit raw (skip_space raw (ts_pos ts)) (param_start (ts_syn ts)) \<Longrightarrow> memchr (drop (skip_space raw (ts_pos ts)) raw) CHR ''>'' \<noteq> None"
  shows "between_params_turn send (raw @ x) ts out = between_params_turn send raw ts out"
proof -
  let ?p = "skip_space raw (ts_pos ts)"
  have p: "skip_space (raw @ x) (ts_pos ts) = ?p" by (rule skip_space_more [OF assms(2)])
  have le: "?p \<le> length raw" using assms(2) by simp
  show ?thesis
  proof (cases "raw_full_lit raw ?p (invoke_end (ts_syn ts))")
    case True
    then show ?thesis using p assms(2) full_lit_mono [OF True, of x] by (simp add: between_params_turn_def Let_def)
  next
    case nend: False
    then have np: "\<not> raw_partial_lit raw ?p (invoke_end (ts_syn ts))" "\<not> raw_partial_lit raw ?p (param_start (ts_syn ts))"
      using assms(3) by (auto simp: raw_partial_any_def)
    have e: "\<not> raw_full_lit (raw @ x) ?p (invoke_end (ts_syn ts))" "\<not> raw_partial_lit (raw @ x) ?p (invoke_end (ts_syn ts))"
      using not_lit_mono [OF le nend np(1)] by blast+
    show ?thesis
    proof (cases "raw_full_lit raw ?p (param_start (ts_syn ts))")
      case True
      have np': "\<not> raw_partial_lit (raw @ x) ?p (param_start (ts_syn ts))"
        using full_lit_mono [OF True, of x] by (auto simp: raw_full_lit_def raw_partial_lit_def)
      show ?thesis
        using p assms(2) nend np e np' True full_lit_mono [OF True, of x]
          start_param_more [of "ts\<lparr>ts_pos := ?p\<rparr>" raw send x out] assms(4)
        by (simp add: between_params_turn_def Let_def raw_partial_any_def)
    next
      case False
      then show ?thesis using p assms(2) nend np e not_lit_mono [OF le False np(2), of x]
        by (simp add: between_params_turn_def Let_def raw_partial_any_def)
    qed
  qed
qed

section \<open>Events are only appended\<close>

fun after_events :: "tool_event list \<Rightarrow> bool \<times> openai_tool_stream \<times> tool_event list \<Rightarrow> bool \<times> openai_tool_stream \<times> tool_event list" where
  "after_events out (b, ts, evs) = (b, ts, out @ evs)"

fun after_turn :: "tool_event list \<Rightarrow> (bool \<times> openai_tool_stream \<times> tool_event list) outcome \<Rightarrow> (bool \<times> openai_tool_stream \<times> tool_event list) outcome" where
  "after_turn out (Go r) = Go (after_events out r)"
| "after_turn out (Stop r) = Stop (after_events out r)"

lemma start_invoke_events: "openai_tool_start_invoke all_sent tool_id raw ts out = after_events out (openai_tool_start_invoke all_sent tool_id raw ts [])"
  by (simp add: openai_tool_start_invoke_def Let_def split: option.splits)

lemma start_param_events: "openai_tool_start_param all_sent raw ts out = after_events out (openai_tool_start_param all_sent raw ts [])"
  by (simp add: openai_tool_start_param_def openai_tool_emit_param_prefix_def Let_def split: option.splits)

lemma finish_param_events: "openai_tool_finish_param all_sent raw ts n out = after_events out (openai_tool_finish_param all_sent raw ts n [])"
  by (simp add: openai_tool_finish_param_def emit_value_sent Let_def)

lemma stuck_events: "go_unless_stuck ts (after_events out r) = after_turn out (go_unless_stuck ts r)"
  by (cases r) (simp add: go_unless_stuck_def)

lemma turn_events: "openai_tool_turn all_sent tool_id raw ts out = after_turn out (openai_tool_turn all_sent tool_id raw ts [])"
proof -
  have a: "between_invokes_turn all_sent tool_id raw ts out = after_turn out (between_invokes_turn all_sent tool_id raw ts [])"
    by (simp add: between_invokes_turn_def Let_def start_invoke_events [of _ _ _ out] stuck_events)
  have b: "between_params_turn all_sent raw ts out = after_turn out (between_params_turn all_sent raw ts [])"
    by (simp add: between_params_turn_def Let_def start_param_events [of _ _ out] stuck_events)
  have c: "param_value_turn all_sent raw ts out = after_turn out (param_value_turn all_sent raw ts [])"
  proof (cases "find_lit_bounded (drop (ts_pos ts) raw) (param_end (ts_syn ts))")
    case (Some i)
    obtain q u evs where f: "openai_tool_finish_param all_sent raw ts (ts_pos ts + i) [] = (q, u, evs)" by (metis prod_cases3)
    show ?thesis using finish_param_events [of raw ts "ts_pos ts + i" out] by (simp add: param_value_turn_def Some f)
  next
    case None
    then show ?thesis by (simp add: param_value_turn_def emit_value_sent Let_def)
  qed
  show ?thesis by (simp add: openai_tool_turn_def a b c split: dsml_tool_stream_state.splits)
qed

lemma update_events: "openai_tool_stream_update all_sent tool_id raw ts out = after_events out (openai_tool_stream_update all_sent tool_id raw ts [])"
proof (induction "turn_work raw ts" arbitrary: ts out rule: less_induct)
  case less
  show ?case
  proof (cases "openai_tool_turn all_sent tool_id raw ts []")
    case (Stop r)
    then show ?thesis using turn_events [of tool_id raw ts out]
      by (simp add: openai_tool_stream_update.simps [of _ _ _ _ out] openai_tool_stream_update.simps [of _ _ _ _ "[]"])
  next
    case (Go r)
    obtain b u evs where r: "r = (b, u, evs)" by (cases r)
    have lt: "turn_work raw u < turn_work raw ts" using turn_decreases Go r by blast
    have "openai_tool_stream_update all_sent tool_id raw ts out = openai_tool_stream_update all_sent tool_id raw u (out @ evs)"
      using turn_events [of tool_id raw ts out] Go r by (simp add: openai_tool_stream_update.simps [of _ _ _ ts out])
    also have "\<dots> = after_events (out @ evs) (openai_tool_stream_update all_sent tool_id raw u [])" by (rule less [OF lt])
    also have "\<dots> = after_events out (after_events evs (openai_tool_stream_update all_sent tool_id raw u []))"
      by (cases "openai_tool_stream_update all_sent tool_id raw u []") simp
    also have "after_events evs (openai_tool_stream_update all_sent tool_id raw u []) = openai_tool_stream_update all_sent tool_id raw u evs"
      by (rule less [OF lt, symmetric])
    also have "\<dots> = openai_tool_stream_update all_sent tool_id raw ts []"
      using Go r by (simp add: openai_tool_stream_update.simps [of _ _ _ ts "[]"])
    finally show ?thesis .
  qed
qed

section \<open>The stream is a parser that can be fed\<close>

type_synonym stream_state = "bool \<times> openai_tool_stream \<times> tool_event list"

definition stream_step :: "(nat \<Rightarrow> string) \<Rightarrow> string \<Rightarrow> stream_state \<Rightarrow> stream_state outcome" where
  "stream_step tool_id raw s = openai_tool_turn all_sent tool_id raw (fst (snd s)) (snd (snd s))"

definition stream_run :: "(nat \<Rightarrow> string) \<Rightarrow> string \<Rightarrow> stream_state \<Rightarrow> stream_state" where
  "stream_run tool_id raw s = openai_tool_stream_update all_sent tool_id raw (fst (snd s)) (snd (snd s))"

definition same_client :: "stream_state \<Rightarrow> stream_state \<Rightarrow> bool" where
  "same_client s t \<longleftrightarrow> fst (snd s) = fst (snd t) \<and> wire (snd (snd s)) = wire (snd (snd t))"

definition no_value_open :: "stream_state \<Rightarrow> bool" where
  "no_value_open s \<longleftrightarrow> ts_state (fst (snd s)) \<noteq> PARAM_VALUE"

definition no_nul :: "string \<Rightarrow> bool" where
  "no_nul s \<longleftrightarrow> CHR 0x00 \<notin> set s"

lemma stream_run_step: "stream_run tool_id r s = (case stream_step tool_id r s of Go t \<Rightarrow> stream_run tool_id r t | Stop t \<Rightarrow> t)"
  by (simp add: stream_run_def stream_step_def openai_tool_stream_update.simps [of _ _ _ "fst (snd s)" "snd (snd s)"] split: outcome.splits)

lemma run_same_ts: "wire (snd (snd s)) = wire (snd (snd t)) \<Longrightarrow> fst (snd s) = fst (snd t) \<Longrightarrow> same_client (stream_run tool_id r s) (stream_run tool_id r t)"
  using update_events [of tool_id r "fst (snd t)" "snd (snd s)"] update_events [of tool_id r "fst (snd t)" "snd (snd t)"]
  by (cases "openai_tool_stream_update all_sent tool_id r (fst (snd t)) []") (simp add: same_client_def stream_run_def wire_append)

lemma inactive_run: "\<not> ts_active ts \<Longrightarrow> stream_run tool_id r (b, ts, out) = (True, ts, out)"
  by (simp add: stream_run_def openai_tool_stream_update.simps openai_tool_turn_def)

lemma go_turn:
  assumes "turn tool_id raw ts out = Go t"
  shows "turn tool_id (raw @ x) ts out = Go t"
proof -
  let ?u = "ts\<lparr>ts_pos := skip_space raw (ts_pos ts)\<rparr>"
  have act: "ts_active ts" "ts_pos ts < length raw" using assms by (auto simp: openai_tool_turn_def split: if_splits)
  then have act': "ts_pos ts < length (raw @ x)" by simp
  consider "ts_state ts = BETWEEN_INVOKES" | "ts_state ts = BETWEEN_PARAMS" | "ts_state ts = PARAM_VALUE"
    using assms by (cases "ts_state ts") (auto simp: openai_tool_turn_def split: if_splits)
  then show ?thesis
  proof cases
    case 1
    then have g: "between_invokes_turn all_sent tool_id raw ts out = Go t" using assms act by (simp add: openai_tool_turn_def)
    have "between_invokes_turn all_sent tool_id (raw @ x) ts out = between_invokes_turn all_sent tool_id raw ts out"
    proof (rule between_invokes_more [OF act(2)])
      show "skip_space raw (ts_pos ts) < length raw" using g by (auto simp: between_invokes_turn_def Let_def split: if_splits)
      show "\<not> (raw_partial_any raw (skip_space raw (ts_pos ts)) (tool_calls_end (ts_syn ts)) (invoke_start (ts_syn ts))
         \<and> \<not> raw_full_lit raw (skip_space raw (ts_pos ts)) (tool_calls_end (ts_syn ts)))"
        using g by (auto simp: between_invokes_turn_def Let_def split: if_splits)
      show "memchr (drop (skip_space raw (ts_pos ts)) raw) CHR ''>'' \<noteq> None"
      proof
        assume "memchr (drop (skip_space raw (ts_pos ts)) raw) CHR ''>'' = None"
        then have "openai_tool_start_invoke all_sent tool_id raw ?u out = (True, ?u, out)" by (intro start_unfinished) simp
        then show False using g by (auto simp: between_invokes_turn_def Let_def go_unless_stuck_def split: if_splits)
      qed
    qed
    then show ?thesis using g 1 act act' by (simp add: openai_tool_turn_def)
  next
    case 2
    then have g: "between_params_turn all_sent raw ts out = Go t" using assms act by (simp add: openai_tool_turn_def)
    have "between_params_turn all_sent (raw @ x) ts out = between_params_turn all_sent raw ts out"
    proof (cases "raw_full_lit raw (skip_space raw (ts_pos ts)) (invoke_end (ts_syn ts))")
      case True
      have s: "skip_space raw (ts_pos ts) < length raw" using g by (auto simp: between_params_turn_def Let_def split: if_splits)
      show ?thesis using skip_space_more [OF s, of x] s full_lit_mono [OF True, of x] True by (simp add: between_params_turn_def Let_def)
    next
      case nend: False
      show ?thesis
      proof (rule between_params_more [OF act(2)])
        show "skip_space raw (ts_pos ts) < length raw" using g by (auto simp: between_params_turn_def Let_def split: if_splits)
        show "\<not> (raw_partial_any raw (skip_space raw (ts_pos ts)) (invoke_end (ts_syn ts)) (param_start (ts_syn ts))
           \<and> \<not> raw_full_lit raw (skip_space raw (ts_pos ts)) (invoke_end (ts_syn ts)))"
          using g by (auto simp: between_params_turn_def Let_def split: if_splits)
        show "memchr (drop (skip_space raw (ts_pos ts)) raw) CHR ''>'' \<noteq> None"
        proof
          assume "memchr (drop (skip_space raw (ts_pos ts)) raw) CHR ''>'' = None"
          then have "openai_tool_start_param all_sent raw ?u out = (True, ?u, out)" by (intro start_unfinished) simp
          then show False using g nend by (auto simp: between_params_turn_def Let_def go_unless_stuck_def split: if_splits)
        qed
      qed
    qed
    then show ?thesis using g 2 act act' by (simp add: openai_tool_turn_def)
  next
    case 3
    then have g: "param_value_turn all_sent raw ts out = Go t" using assms act by (simp add: openai_tool_turn_def)
    then obtain i where i: "find_lit_bounded (drop (ts_pos ts) raw) (param_end (ts_syn ts)) = Some i"
      by (auto simp: param_value_turn_def emit_value_sent Let_def split: option.splits if_splits)
    have m: "find_lit_bounded (drop (ts_pos ts) (raw @ x)) (param_end (ts_syn ts)) = Some i" "ts_pos ts + i \<le> length raw"
      using find_lit_more [OF markers_nonempty(6) _ i, of x] act(2) by simp_all
    have "param_value_turn all_sent (raw @ x) ts out = param_value_turn all_sent raw ts out"
      using finish_param_more [OF m(2), of all_sent x ts out] by (simp add: param_value_turn_def i m(1) del: drop_append)
    then show ?thesis using g 3 act act' by (simp add: openai_tool_turn_def)
  qed
qed

text \<open>A turn that stops without a value open has only skipped spaces, or the stream is over.\<close>

lemma between_invokes_stop:
  assumes "between_invokes_turn all_sent tool_id raw ts out = Stop (b, ts', out')" "ts_pos ts < length raw" "ts_state ts = BETWEEN_INVOKES"
  shows "(ts' = ts\<lparr>ts_pos := skip_space raw (ts_pos ts)\<rparr> \<and> out' = out)
    \<or> (\<not> ts_active ts' \<and> between_invokes_turn all_sent tool_id (raw @ x) ts out = Stop (b, ts', out'))"
proof -
  let ?p = "skip_space raw (ts_pos ts)"
  let ?u = "ts\<lparr>ts_pos := ?p\<rparr>"
  let ?c = "raw_partial_any raw ?p (tool_calls_end (ts_syn ts)) (invoke_start (ts_syn ts)) \<and> \<not> raw_full_lit raw ?p (tool_calls_end (ts_syn ts))"
  show ?thesis
  proof (cases "length raw \<le> ?p \<or> ?c")
    case True
    then show ?thesis using assms(1) by (auto simp: between_invokes_turn_def Let_def split: if_splits)
  next
    case False
    then have np: "?p < length raw" "\<not> ?c" by auto
    show ?thesis
    proof (cases "raw_full_lit raw ?p (invoke_start (ts_syn ts)) \<and> \<not> raw_full_lit raw ?p (tool_calls_end (ts_syn ts))")
      case True
      then have stuck: "go_unless_stuck ?u (openai_tool_start_invoke all_sent tool_id raw ?u out) = Stop (b, ts', out')"
        using assms(1) np by (simp add: between_invokes_turn_def Let_def)
      have "memchr (drop ?p raw) CHR ''>'' = None"
      proof (cases "memchr (drop ?p raw) CHR ''>''")
        case (Some g)
        then show ?thesis using stuck assms(3)
          by (auto simp: openai_tool_start_invoke_def go_unless_stuck_def openai_tool_stream_fail_def Let_def split: option.splits if_splits)
      qed
      then show ?thesis using stuck start_unfinished(1) [of ?u raw all_sent tool_id out] by (auto simp: go_unless_stuck_def)
    next
      case nostart: False
      then have "between_invokes_turn all_sent tool_id (raw @ x) ts out = between_invokes_turn all_sent tool_id raw ts out"
      proof (cases "raw_full_lit raw ?p (tool_calls_end (ts_syn ts))")
        case True
        then show ?thesis using skip_space_more [OF np(1), of x] np(1) full_lit_mono [OF True, of x] by (simp add: between_invokes_turn_def Let_def)
      next
        case False
        then show ?thesis using between_invokes_more [OF assms(2) np] nostart by blast
      qed
      moreover have "\<not> ts_active ts'" using assms(1) np nostart
        by (auto simp: between_invokes_turn_def Let_def openai_tool_stream_fail_def split: if_splits)
      ultimately show ?thesis using assms(1) by simp
    qed
  qed
qed

lemma between_params_stop:
  assumes "between_params_turn all_sent raw ts out = Stop (b, ts', out')" "ts_pos ts < length raw" "ts_state ts = BETWEEN_PARAMS"
  shows "(ts' = ts\<lparr>ts_pos := skip_space raw (ts_pos ts)\<rparr> \<and> out' = out)
    \<or> (\<not> ts_active ts' \<and> between_params_turn all_sent (raw @ x) ts out = Stop (b, ts', out'))"
proof -
  let ?p = "skip_space raw (ts_pos ts)"
  let ?u = "ts\<lparr>ts_pos := ?p\<rparr>"
  let ?c = "raw_partial_any raw ?p (invoke_end (ts_syn ts)) (param_start (ts_syn ts)) \<and> \<not> raw_full_lit raw ?p (invoke_end (ts_syn ts))"
  show ?thesis
  proof (cases "length raw \<le> ?p \<or> ?c")
    case True
    then show ?thesis using assms(1) by (auto simp: between_params_turn_def Let_def split: if_splits)
  next
    case False
    then have np: "?p < length raw" "\<not> ?c" by auto
    have nend: "\<not> raw_full_lit raw ?p (invoke_end (ts_syn ts))"
      using assms(1) np by (auto simp: between_params_turn_def Let_def split: if_splits prod.splits)
    show ?thesis
    proof (cases "raw_full_lit raw ?p (param_start (ts_syn ts))")
      case True
      then have stuck: "go_unless_stuck ?u (openai_tool_start_param all_sent raw ?u out) = Stop (b, ts', out')"
        using assms(1) np nend by (simp add: between_params_turn_def Let_def)
      have "memchr (drop ?p raw) CHR ''>'' = None"
      proof (cases "memchr (drop ?p raw) CHR ''>''")
        case (Some g)
        then show ?thesis using stuck assms(3)
          by (auto simp: openai_tool_start_param_def openai_tool_emit_param_prefix_def go_unless_stuck_def openai_tool_stream_fail_def Let_def
              split: option.splits if_splits)
      qed
      then show ?thesis using stuck start_unfinished(2) [of ?u raw all_sent out] by (auto simp: go_unless_stuck_def)
    next
      case nostart: False
      then have "between_params_turn all_sent (raw @ x) ts out = between_params_turn all_sent raw ts out"
        using between_params_more [OF assms(2) np] by blast
      moreover have "\<not> ts_active ts'" using assms(1) np nend nostart
        by (auto simp: between_params_turn_def Let_def openai_tool_stream_fail_def split: if_splits)
      ultimately show ?thesis using assms(1) by simp
    qed
  qed
qed

lemma strstr_from: "strstr s lit = Some j \<Longrightarrow> k \<le> j \<Longrightarrow> strstr (drop k s) lit = Some (j - k)"
proof (induction k arbitrary: s j)
  case (Suc k)
  then obtain c cs where s: "s = c # cs" by (cases s) (auto split: if_splits)
  then have "strstr cs lit = Some (j - 1)" "k \<le> j - 1" using Suc.prems by (auto split: if_splits)
  then show ?case using Suc.IH s by fastforce
qed simp

lemma found_value:
  assumes "strstr (drop pos w) e = Some j" "pos \<le> length w" "e \<noteq> []"
  shows "value_at w pos (take j (drop pos w)) e"
proof -
  note s = strstr_Some [OF assms(1)]
  have j: "pos + j + length e \<le> length w" "length (take j (drop pos w)) = j" using s assms(2) by auto
  have "prefix e (drop i w) \<longleftrightarrow> i = pos + j" if "pos \<le> i" "i \<le> pos + j" for i
  proof -
    have "drop i w = drop (i - pos) (drop pos w)" using that(1) by simp
    then show ?thesis using s that by (metis add_diff_inverse_nat diff_is_0_eq le_neq_implies_less less_diff_conv2 add.commute not_less add_left_cancel nat_less_le)
  qed
  then show ?thesis using j by (simp add: value_at_def)
qed

lemma retry_run:
  assumes "ts_pos ts < length raw" "ts_active ts" "ts_state ts = BETWEEN_INVOKES \<or> ts_state ts = BETWEEN_PARAMS"
    and "turn tool_id raw ts out = Stop (True, ts\<lparr>ts_pos := skip_space raw (ts_pos ts)\<rparr>, out)"
  shows "stream_run tool_id (raw @ x) (b, ts\<lparr>ts_pos := skip_space raw (ts_pos ts)\<rparr>, out) = stream_run tool_id (raw @ x) (b', ts, out)"
proof -
  let ?u = "ts\<lparr>ts_pos := skip_space raw (ts_pos ts)\<rparr>"
  have sp: "skip_space (raw @ x) (skip_space raw (ts_pos ts)) = skip_space (raw @ x) (ts_pos ts)"
    using skip_space_again [of "ts_pos ts" raw x] assms(1) by simp
  show ?thesis
  proof (cases "skip_space raw (ts_pos ts) < length (raw @ x)")
    case True
    have "turn tool_id (raw @ x) ?u out = turn tool_id (raw @ x) ts out"
      using True assms(1-3) sp by (auto simp: openai_tool_turn_def between_invokes_turn_def between_params_turn_def Let_def)
    then show ?thesis by (simp add: stream_run_def openai_tool_stream_update.simps [of _ _ _ _ out])
  next
    case False
    have "length raw \<le> skip_space raw (ts_pos ts)" using False by simp
    then have x: "x = []" using skip_space_all [of "ts_pos ts" raw] assms(1) False by simp
    have "turn tool_id raw ?u out = Stop (True, ?u, out)" using False x by (simp add: openai_tool_turn_def)
    then show ?thesis using assms(4) x by (simp add: stream_run_def openai_tool_stream_update.simps [of _ _ _ _ out])
  qed
qed

lemma finish_run:
  assumes "ts_active ts" "ts_state ts = PARAM_VALUE" "find_lit_bounded (drop (ts_pos ts) w) (param_end (ts_syn ts)) = Some j" "ts_pos ts < length w"
  shows "stream_run tool_id w (b, ts, out)
    = stream_run tool_id w (True, ts\<lparr>ts_pos := ts_pos ts + j + length (param_end (ts_syn ts)), ts_state := BETWEEN_PARAMS\<rparr>,
        out @ (if value_text ts (take j (drop (ts_pos ts) w)) = [] then [] else [Call_args (ts_index ts) (value_text ts (take j (drop (ts_pos ts) w)))])
            @ (if ts_param_is_string ts then [Call_args (ts_index ts) [CHR 0x22]] else []))"
  using assms
  by (cases "j = 0")
    (auto simp: stream_run_def openai_tool_stream_update.simps [of _ _ _ ts out] openai_tool_turn_def param_value_turn_def openai_tool_finish_param_def
      emit_value_sent Let_def value_text_Nil)

lemma value_stop:
  assumes "ts_active ts" "ts_state ts = PARAM_VALUE" "ts_pos ts < length raw" "turn tool_id raw ts out = Stop (b, ts', out')"
  shows "find_lit_bounded (drop (ts_pos ts) raw) (param_end (ts_syn ts)) = None
    \<and> (let limit = tool_param_value_stream_safe_len raw (ts_pos ts) (length raw) (param_end (ts_syn ts)) (ts_param_is_string ts) in
       if ts_pos ts < limit
       then ts' = ts\<lparr>ts_pos := limit\<rparr> \<and> wire out' = wire out @ map (Client_char (ts_index ts)) (value_text ts (take (limit - ts_pos ts) (drop (ts_pos ts) raw)))
       else ts' = ts \<and> out' = out)"
proof -
  have p: "param_value_turn all_sent raw ts out = Stop (b, ts', out')" using assms by (simp add: openai_tool_turn_def)
  have n: "find_lit_bounded (drop (ts_pos ts) raw) (param_end (ts_syn ts)) = None"
    using p by (cases "find_lit_bounded (drop (ts_pos ts) raw) (param_end (ts_syn ts))")
      (auto simp: param_value_turn_def openai_tool_finish_param_def emit_value_sent Let_def split: if_splits)
  then show ?thesis using p by (auto simp: param_value_turn_def emit_value_sent Let_def wire_def value_text_Nil split: if_splits)
qed

lemma stop_resume_value:
  assumes "ts_active ts" "ts_state ts = PARAM_VALUE" "ts_pos ts < length raw" "turn tool_id raw ts out = Stop (b, ts', out')"
    and "no_nul (raw @ x)" "no_value_open (stream_run tool_id (raw @ x) (b', ts, out))"
  shows "same_client (stream_run tool_id (raw @ x) (b, ts', out')) (stream_run tool_id (raw @ x) (b', ts, out))"
proof -
  let ?w = "raw @ x"
  let ?e = "param_end (ts_syn ts)"
  let ?pos = "ts_pos ts"
  define limit where "limit = tool_param_value_stream_safe_len raw ?pos (length raw) ?e (ts_param_is_string ts)"
  note v = value_stop [OF assms(1-4), folded limit_def]
  have find: "find_lit_bounded (drop ?pos ?w) ?e \<noteq> None"
  proof
    assume n: "find_lit_bounded (drop ?pos ?w) ?e = None"
    have "\<exists>q u o2. param_value_turn all_sent ?w ts out = Stop (q, u, o2) \<and> ts_state u = PARAM_VALUE"
      using assms(2) by (simp add: param_value_turn_def n emit_value_sent Let_def del: drop_append) blast
    then obtain o2 q u where "param_value_turn all_sent ?w ts out = Stop (q, u, o2)" and u: "ts_state u = PARAM_VALUE" by blast
    then have st: "turn tool_id ?w ts out = Stop (q, u, o2)" using assms(1-3) by (simp add: openai_tool_turn_def)
    show False using assms(6) st u by (simp add: stream_run_def openai_tool_stream_update.simps [of _ _ _ ts out] no_value_open_def)
  qed
  then obtain j where j: "find_lit_bounded (drop ?pos ?w) ?e = Some j" by blast
  then have sj: "strstr (drop ?pos ?w) ?e = Some j" using find_lit_strstr [OF markers_nonempty(6)] by simp
  define val where "val = take j (drop ?pos ?w)"
  have va: "value_at ?w ?pos val ?e" unfolding val_def by (rule found_value [OF sj _ markers_nonempty(6)]) (use assms(3) in simp)
  have lv: "length val = j" using strstr_Some [OF sj] by (auto simp: val_def)
  have short: "length raw < ?pos + length val + length ?e"
  proof (rule ccontr)
    assume "\<not> ?thesis"
    then have l: "?pos + j + length ?e \<le> length raw" using lv by simp
    then have le_diff: "j \<le> length raw - ?pos" by linarith
    have "prefix ?e (drop (?pos + j) ?w)" using strstr_Some [OF sj] by (simp add: add.commute del: drop_append)
    then have "prefix ?e (drop j (drop ?pos raw))" using prefix_before [OF _ l, of x] by (simp add: add.commute)
    then show False using v find_lit_strstr [OF markers_nonempty(6)] strstr_None [of "drop ?pos raw" ?e j] le_diff by simp
  qed
  have "limit = tool_param_value_stream_safe_len (take (length raw) ?w) ?pos (length raw) ?e (ts_param_is_string ts)" by (simp add: limit_def)
  note cut = streamed_cut [OF param_end_tag va _ _ short this]
  show ?thesis
  proof (cases "?pos < limit")
    case False
    then have "ts' = ts" "out' = out" using v by auto
    then show ?thesis using run_same_ts by simp
  next
    case True
    have c: "?pos \<le> limit" "limit \<le> length raw" "limit - ?pos \<le> length val" using cut assms(3) by auto
    have t': "ts' = ts\<lparr>ts_pos := limit\<rparr>" and w': "wire out' = wire out @ map (Client_char (ts_index ts)) (value_text ts (take (limit - ?pos) val))"
    proof -
      have "take (limit - ?pos) val = take (limit - ?pos) (drop ?pos ?w)" using c lv by (simp add: val_def min_def del: drop_append)
      then have "take (limit - ?pos) (drop ?pos raw) = take (limit - ?pos) val" using c by simp
      then show "ts' = ts\<lparr>ts_pos := limit\<rparr>" "wire out' = wire out @ map (Client_char (ts_index ts)) (value_text ts (take (limit - ?pos) val))"
        using v True by auto
    qed
    have nul: "CHR 0x00 \<notin> set val" using assms(5) unfolding val_def no_nul_def by (meson in_set_takeD in_set_dropD)
    have split: "value_text ts val = value_text ts (take (limit - ?pos) val) @ value_text ts (drop (limit - ?pos) val)"
      by (rule value_text_cut) (use cut(4) c nul assms(3) in auto)
    have j2: "find_lit_bounded (drop (ts_pos ts') ?w) (param_end (ts_syn ts')) = Some (j - (limit - ?pos))"
    proof -
      have "drop (limit - ?pos) (drop ?pos ?w) = drop limit ?w" using c by simp
      then show ?thesis using strstr_from [OF sj, of "limit - ?pos"] c lv t' find_lit_strstr [OF markers_nonempty(6)] by simp
    qed
    have rest: "take (j - (limit - ?pos)) (drop (ts_pos ts') ?w) = drop (limit - ?pos) val"
      using c lv t' by (simp add: val_def drop_take del: drop_append)
    have pos': "ts_pos ts' < length ?w"
    proof -
      have "?pos + j + length ?e \<le> length ?w" using va lv by (simp add: value_at_def)
      moreover have "0 < length ?e" using markers_nonempty(6) by simp
      moreover have "limit \<le> ?pos + j" using c lv by linarith
      ultimately have "limit < length ?w" by linarith
      then show ?thesis using t' by simp
    qed
    have end_pos: "limit + (j - (limit - ?pos)) = ?pos + j" using c lv by simp
    have vt: "value_text ts' = value_text ts" using t' by (auto simp: value_text_def)
    have 1: "stream_run tool_id ?w (b, ts', out')
      = stream_run tool_id ?w (True, ts\<lparr>ts_pos := ?pos + j + length ?e, ts_state := BETWEEN_PARAMS\<rparr>,
          out' @ (if value_text ts (drop (limit - ?pos) val) = [] then [] else [Call_args (ts_index ts) (value_text ts (drop (limit - ?pos) val))])
            @ (if ts_param_is_string ts then [Call_args (ts_index ts) [CHR 0x22]] else []))"
      using finish_run [OF _ _ j2 pos', of tool_id b out'] rest vt t' assms(1,2) end_pos by (simp add: add.commute)
    have 2: "stream_run tool_id ?w (b', ts, out)
      = stream_run tool_id ?w (True, ts\<lparr>ts_pos := ?pos + j + length ?e, ts_state := BETWEEN_PARAMS\<rparr>,
          out @ (if value_text ts val = [] then [] else [Call_args (ts_index ts) (value_text ts val)])
            @ (if ts_param_is_string ts then [Call_args (ts_index ts) [CHR 0x22]] else []))"
      using finish_run [OF assms(1,2) j, of tool_id b' out] assms(3) by (simp add: val_def)
    show ?thesis unfolding 1 2 by (rule run_same_ts) (auto simp: w' [unfolded wire_def] split wire_def)
  qed
qed

lemma turn_stop_true: "turn tool_id raw ts out = Stop (b, ts', out') \<Longrightarrow> b"
  by (auto simp: openai_tool_turn_def between_invokes_turn_def between_params_turn_def param_value_turn_def go_unless_stuck_def
      openai_tool_start_invoke_def openai_tool_start_param_def openai_tool_emit_param_prefix_def openai_tool_finish_param_def emit_value_sent Let_def
      split: if_splits option.splits dsml_tool_stream_state.splits prod.splits)

lemma stream_resume:
  assumes "no_nul (raw @ x)" "stream_step tool_id raw s = Stop t" "no_value_open (stream_run tool_id (raw @ x) s)"
  shows "same_client (stream_run tool_id (raw @ x) t) (stream_run tool_id (raw @ x) s)"
proof -
  obtain b0 ts out where s: "s = (b0, ts, out)" by (cases s)
  obtain b ts' out' where t: "t = (b, ts', out')" by (cases t)
  have st: "turn tool_id raw ts out = Stop (b, ts', out')" using assms(2) s t by (simp add: stream_step_def)
  have over: "same_client (stream_run tool_id (raw @ x) t) (stream_run tool_id (raw @ x) s)"
    if "\<not> ts_active ts'" "turn tool_id (raw @ x) ts out = Stop (b, ts', out')"
    using that s t inactive_run [OF that(1)] by (simp add: stream_run_def openai_tool_stream_update.simps [of _ _ _ ts out] same_client_def)
  show ?thesis
  proof (cases "ts_active ts \<and> ts_pos ts < length raw")
    case False
    then have "ts' = ts" "out' = out" using st by (auto simp: openai_tool_turn_def)
    then show ?thesis using s t run_same_ts by simp
  next
    case True
    then have act: "ts_active ts" "ts_pos ts < length raw" "ts_pos ts < length (raw @ x)" by auto
    consider "ts_state ts = BETWEEN_INVOKES" | "ts_state ts = BETWEEN_PARAMS" | "ts_state ts = PARAM_VALUE"
      | "ts_state ts = TOOL_DONE \<or> ts_state ts = TOOL_ERROR" by (cases "ts_state ts") auto
    then show ?thesis
    proof cases
      case 1
      then have "between_invokes_turn all_sent tool_id raw ts out = Stop (b, ts', out')" using st act by (simp add: openai_tool_turn_def)
      from between_invokes_stop [OF this act(2) 1, of x] show ?thesis
      proof
        assume a: "ts' = ts\<lparr>ts_pos := skip_space raw (ts_pos ts)\<rparr> \<and> out' = out"
        then show ?thesis using retry_run [OF act(2,1), of tool_id out x b b0] st turn_stop_true [OF st] 1 s t
          by (simp add: same_client_def)
      next
        assume "\<not> ts_active ts' \<and> between_invokes_turn all_sent tool_id (raw @ x) ts out = Stop (b, ts', out')"
        then show ?thesis using over 1 act by (simp add: openai_tool_turn_def)
      qed
    next
      case 2
      then have "between_params_turn all_sent raw ts out = Stop (b, ts', out')" using st act by (simp add: openai_tool_turn_def)
      from between_params_stop [OF this act(2) 2, of x] show ?thesis
      proof
        assume a: "ts' = ts\<lparr>ts_pos := skip_space raw (ts_pos ts)\<rparr> \<and> out' = out"
        then show ?thesis using retry_run [OF act(2,1), of tool_id out x b b0] st turn_stop_true [OF st] 2 s t
          by (simp add: same_client_def)
      next
        assume "\<not> ts_active ts' \<and> between_params_turn all_sent (raw @ x) ts out = Stop (b, ts', out')"
        then show ?thesis using over 2 act by (simp add: openai_tool_turn_def)
      qed
    next
      case 3
      then show ?thesis using stop_resume_value [OF act(1) 3 act(2) st assms(1)] assms(3) s t by simp
    next
      case 4
      then have "ts' = ts" "out' = out" using st act by (auto simp: openai_tool_turn_def)
      then show ?thesis using s t run_same_ts by simp
    qed
  qed
qed

interpretation openai: incremental "stream_step tool_id" "stream_run tool_id" "\<lambda>_ _. True" "\<lambda>raw s. turn_work raw (fst (snd s))"
  same_client no_value_open no_nul for tool_id
proof unfold_locales
  fix r x :: string and s t u :: stream_state
  show "stream_run tool_id r s = (case stream_step tool_id r s of Go t \<Rightarrow> stream_run tool_id r t | Stop t \<Rightarrow> t)" by (rule stream_run_step)
  show "stream_step tool_id r s = Go t \<Longrightarrow> turn_work r (fst (snd t)) < turn_work r (fst (snd s))"
    using turn_decreases [of all_sent tool_id r "fst (snd s)" "snd (snd s)" "fst t" "fst (snd t)" "snd (snd t)"] by (simp add: stream_step_def)
  show "stream_step tool_id r s = Go t \<Longrightarrow> stream_step tool_id (r @ x) s = Go t"
    using go_turn by (simp add: stream_step_def)
  show "no_nul (r @ x) \<Longrightarrow> stream_step tool_id r s = Stop t \<Longrightarrow> no_value_open (stream_run tool_id (r @ x) s)
      \<Longrightarrow> same_client (stream_run tool_id (r @ x) t) (stream_run tool_id (r @ x) s)" by (rule stream_resume)
  show "same_client s s" by (simp add: same_client_def)
  show "same_client s t \<Longrightarrow> same_client t u \<Longrightarrow> same_client s u" by (simp add: same_client_def)
  show "same_client s t \<Longrightarrow> no_value_open t \<Longrightarrow> no_value_open s" by (simp add: same_client_def no_value_open_def)
qed simp_all

text \<open>The calls of the update as pieces of the text arrive.\<close>

fun stream_pieces :: "(nat \<Rightarrow> string) \<Rightarrow> string \<Rightarrow> string list \<Rightarrow> openai_tool_stream \<times> tool_event list \<Rightarrow> openai_tool_stream \<times> tool_event list" where
  "stream_pieces tool_id raw [] s = s"
| "stream_pieces tool_id raw (c # cs) s = stream_pieces tool_id (raw @ c) cs (snd (openai_tool_stream_update all_sent tool_id (raw @ c) (fst s) (snd s)))"

lemma feed_pieces: "snd (openai.feed tool_id raw s cs) = stream_pieces tool_id raw cs (snd s)"
  by (induction cs arbitrary: raw s) (simp_all add: stream_run_def)

text \<open>
  C30: However the text of a tool call arrives, in pieces of any length, the client receives the same calls and the
  same argument text as from the whole text at once (with every send accepted and no NUL byte in the text, and once the
  last value is closed).
\<close>

theorem tool_stream_chunking:
  assumes "CHR 0x00 \<notin> set (raw @ concat cs)" "cs \<noteq> []"
    and "openai_tool_stream_update all_sent tool_id (raw @ concat cs) ts out = (b, ts', out')" "ts_state ts' \<noteq> PARAM_VALUE"
  shows "fst (stream_pieces tool_id raw cs (ts, out)) = ts' \<and> wire (snd (stream_pieces tool_id raw cs (ts, out))) = wire out'"
proof -
  have r: "stream_run tool_id (raw @ concat cs) (True, ts, out) = (b, ts', out')" using assms(3) by (simp add: stream_run_def)
  have "same_client (openai.feed tool_id raw (True, ts, out) cs) (b, ts', out')"
    using openai.feed_run [of raw cs tool_id "(True, ts, out)"] assms(1,2,4) r by (simp add: no_nul_def no_value_open_def)
  then show ?thesis using feed_pieces [of tool_id raw "(True, ts, out)" cs] by (simp add: same_client_def)
qed

definition sample_pieces :: "string list" where
  "sample_pieces =
     [''<invoke na'', ''me=\"f\"> <parameter name=\"x\" string=\"true\">a&l'', ''t;/parameter>b</par'', ''ameter></invoke>'', ''</tool_calls>'']"

lemma tool_stream_chunking_witness:
  "wire (snd (stream_pieces (\<lambda>_. ''id'') ''<tool_calls>'' sample_pieces (snd (openai_tool_stream_init ''<tool_calls>'' 0), [])))
    = Client_start 0 ''id'' ''f'' # map (Client_char 0) ''{\"x\":\"a</parameter>b\"}''"
proof -
  let ?u = "openai_tool_stream_update all_sent (\<lambda>_. ''id'') (''<tool_calls>'' @ concat sample_pieces) (snd (openai_tool_stream_init ''<tool_calls>'' 0)) []"
  obtain b ts' out' where u: "?u = (b, ts', out')" by (metis prod_cases3)
  have s: "ts_state (fst (snd ?u)) = TOOL_DONE" by code_simp
  have w: "wire (snd (snd ?u)) = Client_start 0 ''id'' ''f'' # map (Client_char 0) ''{\"x\":\"a</parameter>b\"}''" by code_simp
  have n: "CHR 0x00 \<notin> set (''<tool_calls>'' @ concat sample_pieces)" by code_simp
  have ne: "sample_pieces \<noteq> []" by (simp add: sample_pieces_def)
  have "ts_state ts' \<noteq> PARAM_VALUE" using s u by simp
  from tool_stream_chunking [OF n ne u this] show ?thesis using w u by simp
qed

end
