(* ===== verification/ToolTracker.thy ===== *)
theory ToolTracker
  imports Incremental ToolMarkers
begin

text \<open>
  The tracker that decides, after every generated token, whether the next one belongs to the syntax of a
  tool call or to its payload (\<open>dsml_decode_tracker_update\<close> in \<open>src/ds4_server.c\<close>, for the four DSML
  syntaxes and GLM). It returns on every text, and calling it after every token leaves it in the state that
  one call on the whole text would.
\<close>

section \<open>Searching for the start of a tool call\<close>

fun best_start :: "string \<Rightarrow> (nat \<times> dsml_syntax) option \<Rightarrow> dsml_syntax list \<Rightarrow> (nat \<times> dsml_syntax) option" where
  "best_start raw best [] = best"
| "best_start raw best (syn # syns) =
     best_start raw
       (case find_lit_bounded raw (tool_calls_start syn) of None \<Rightarrow> best
        | Some p \<Rightarrow> (case best of None \<Rightarrow> Some (p, syn) | Some (q, _) \<Rightarrow> if p < q then Some (p, syn) else best)) syns"

definition dsml_find_tool_start :: "string \<Rightarrow> (nat \<times> dsml_syntax) option" where
  "dsml_find_tool_start raw =
     (case best_start raw None dsml_syntaxes of None \<Rightarrow> None
      | Some (p, syn) \<Rightarrow> Some (p + length (tool_calls_start syn), syn))"

definition dsml_find_tool_start_from :: "string \<Rightarrow> nat \<Rightarrow> (nat \<times> dsml_syntax) option" where
  "dsml_find_tool_start_from raw start =
     (if length raw < start then None
      else case dsml_find_tool_start (drop start raw) of None \<Rightarrow> None | Some (rel, syn) \<Rightarrow> Some (start + rel, syn))"

definition dsml_max_tool_start_len :: nat where
  "dsml_max_tool_start_len = foldl (\<lambda>m syn. if m < length (tool_calls_start syn) then length (tool_calls_start syn) else m) 0 dsml_syntaxes"

definition dsml_attr_is_string_true :: "string \<Rightarrow> nat \<Rightarrow> nat \<Rightarrow> bool" where
  "dsml_attr_is_string_true raw tag_start tag_end =
     (if tag_end \<le> tag_start \<or> length raw < tag_end then False
      else dsml_attr (c_str (take (tag_end - tag_start) (drop tag_start raw))) ''string'' = Some ''true'')"

section \<open>The tracker\<close>

datatype dsml_decode_state = DECODE_OUTSIDE | DECODE_STRUCTURAL | DECODE_STRING_BODY | DECODE_JSON_STRUCTURAL | DECODE_JSON_STRING
datatype dsml_track_mode = TRACK_SEARCH | TRACK_STRUCTURAL | TRACK_STRING_BODY | TRACK_JSON_PARAM | TRACK_DONE

record dsml_decode_tracker =
  dt_mode :: dsml_track_mode
  dt_decode :: dsml_decode_state
  dt_syn :: "dsml_syntax option"
  dt_pos :: nat
  dt_json_in_string :: bool
  dt_json_escaped :: bool
  dt_glm :: bool

definition dsml_decode_tracker_init :: dsml_decode_tracker where
  "dsml_decode_tracker_init =
     \<lparr>dt_mode = TRACK_SEARCH, dt_decode = DECODE_OUTSIDE, dt_syn = None, dt_pos = 0, dt_json_in_string = False, dt_json_escaped = False,
      dt_glm = False\<rparr>"

definition dsml_decode_state_is_tool :: "dsml_decode_state \<Rightarrow> bool" where
  "dsml_decode_state_is_tool st \<longleftrightarrow> st \<noteq> DECODE_OUTSIDE"

definition dsml_decode_state_uses_payload_sampling :: "dsml_decode_state \<Rightarrow> bool" where
  "dsml_decode_state_uses_payload_sampling st \<longleftrightarrow> st = DECODE_STRING_BODY \<or> st = DECODE_JSON_STRING"

text \<open>The turns of \<open>dsml_decode_tracker_update\<close>, one iteration of its loops each; the syntax is set once a start was found.\<close>

definition search_turn :: "string \<Rightarrow> dsml_decode_tracker \<Rightarrow> dsml_decode_tracker outcome" where
  "search_turn raw dt =
     (let found = (if dt_glm dt
            then (case find_lit_bounded (drop (dt_pos dt) raw) (tool_calls_start Glm) of None \<Rightarrow> None
                  | Some i \<Rightarrow> Some (dt_pos dt + i + length (tool_calls_start Glm), Glm))
            else dsml_find_tool_start_from raw (dt_pos dt)) in
      case found of
        None \<Rightarrow>
          let hold = dsml_max_tool_start_len in
          Stop (dt\<lparr>dt_pos := if hold < length raw then length raw - hold else 0, dt_decode := DECODE_OUTSIDE\<rparr>)
      | Some (pos, syn) \<Rightarrow>
          Go (dt\<lparr>dt_syn := Some syn, dt_pos := pos, dt_mode := TRACK_STRUCTURAL, dt_decode := DECODE_STRUCTURAL\<rparr>))"

definition string_body_turn :: "string \<Rightarrow> dsml_decode_tracker \<Rightarrow> dsml_decode_tracker outcome" where
  "string_body_turn raw dt =
     (let pe = param_end (the (dt_syn dt)) in
      if dt_pos dt < length raw then
        if raw_full_lit raw (dt_pos dt) pe
        then Go (dt\<lparr>dt_pos := dt_pos dt + length pe, dt_mode := TRACK_STRUCTURAL, dt_decode := DECODE_STRUCTURAL\<rparr>)
        else if raw_partial_lit raw (dt_pos dt) pe
        then Stop (dt\<lparr>dt_decode := if 2 \<le> length raw - dt_pos dt then DECODE_STRUCTURAL else DECODE_STRING_BODY\<rparr>)
        else Go (dt\<lparr>dt_pos := dt_pos dt + 1\<rparr>)
      else Stop (dt\<lparr>dt_decode := DECODE_STRING_BODY\<rparr>))"

definition json_char :: "char \<Rightarrow> dsml_decode_tracker \<Rightarrow> dsml_decode_tracker" where
  "json_char c dt =
     (if dt_json_in_string dt then
        if dt_json_escaped dt then dt\<lparr>dt_json_escaped := False\<rparr>
        else if c = CHR 0x5C then dt\<lparr>dt_json_escaped := True\<rparr>
        else if c = CHR 0x22 then dt\<lparr>dt_json_in_string := False\<rparr>
        else dt
      else if c = CHR 0x22 then dt\<lparr>dt_json_in_string := True\<rparr> else dt)"

definition json_param_turn :: "string \<Rightarrow> dsml_decode_tracker \<Rightarrow> dsml_decode_tracker outcome" where
  "json_param_turn raw dt =
     (let pe = param_end (the (dt_syn dt)) in
      if dt_pos dt < length raw then
        if \<not> dt_json_in_string dt \<and> raw_full_lit raw (dt_pos dt) pe
        then Go (dt\<lparr>dt_pos := dt_pos dt + length pe, dt_mode := TRACK_STRUCTURAL, dt_decode := DECODE_STRUCTURAL\<rparr>)
        else if \<not> dt_json_in_string dt \<and> raw_partial_lit raw (dt_pos dt) pe
        then Stop (dt\<lparr>dt_decode := if 2 \<le> length raw - dt_pos dt then DECODE_STRUCTURAL else DECODE_JSON_STRUCTURAL\<rparr>)
        else Go (json_char (raw ! dt_pos dt) (dt\<lparr>dt_pos := dt_pos dt + 1\<rparr>))
      else Stop (dt\<lparr>dt_decode := if dt_json_in_string dt then DECODE_JSON_STRING else DECODE_JSON_STRUCTURAL\<rparr>))"

definition tag_end_at :: "string \<Rightarrow> nat \<Rightarrow> nat option" where
  "tag_end_at raw pos = map_option (\<lambda>g. pos + g + 1) (memchr (drop pos raw) CHR ''>'')"

definition structural_turn :: "string \<Rightarrow> dsml_decode_tracker \<Rightarrow> dsml_decode_tracker outcome" where
  "structural_turn raw dt =
     (let dt = dt\<lparr>dt_pos := skip_space raw (dt_pos dt)\<rparr>; pos = dt_pos dt; syn = the (dt_syn dt) in
      if length raw \<le> pos then Stop (dt\<lparr>dt_decode := DECODE_STRUCTURAL\<rparr>)
      else if raw_full_lit raw pos (tool_calls_end syn)
      then Stop (dt\<lparr>dt_mode := TRACK_DONE, dt_pos := pos + length (tool_calls_end syn), dt_decode := DECODE_OUTSIDE\<rparr>)
      else if raw_full_lit raw pos (invoke_end syn) then Go (dt\<lparr>dt_pos := pos + length (invoke_end syn)\<rparr>)
      else if raw_full_lit raw pos (invoke_start syn)
      then (case tag_end_at raw pos of None \<Rightarrow> Stop (dt\<lparr>dt_decode := DECODE_STRUCTURAL\<rparr>) | Some e \<Rightarrow> Go (dt\<lparr>dt_pos := e\<rparr>))
      else if raw_full_lit raw pos (param_start syn)
      then (case tag_end_at raw pos of None \<Rightarrow> Stop (dt\<lparr>dt_decode := DECODE_STRUCTURAL\<rparr>)
            | Some e \<Rightarrow>
                if dt_glm dt \<or> dsml_attr_is_string_true raw pos e
                then Go (dt\<lparr>dt_pos := e, dt_mode := TRACK_STRING_BODY, dt_decode := DECODE_STRING_BODY\<rparr>)
                else Go (dt\<lparr>dt_pos := e, dt_mode := TRACK_JSON_PARAM, dt_json_in_string := False, dt_json_escaped := False,
                            dt_decode := DECODE_JSON_STRUCTURAL\<rparr>))
      else if raw_partial_lit raw pos (tool_calls_end syn) \<or> raw_partial_lit raw pos (invoke_start syn) \<or> raw_partial_lit raw pos (invoke_end syn)
        \<or> raw_partial_lit raw pos (param_start syn) \<or> raw_partial_lit raw pos (param_end syn)
      then Stop (dt\<lparr>dt_decode := DECODE_STRUCTURAL\<rparr>)
      else if dt_glm dt then Go (dt\<lparr>dt_pos := pos + 1\<rparr>)
      else Stop (dt\<lparr>dt_decode := DECODE_STRUCTURAL\<rparr>))"

definition tracker_turn :: "string \<Rightarrow> dsml_decode_tracker \<Rightarrow> dsml_decode_tracker outcome" where
  "tracker_turn raw dt =
     (case dt_mode dt of
        TRACK_DONE \<Rightarrow> Stop (dt\<lparr>dt_decode := DECODE_OUTSIDE\<rparr>)
      | TRACK_SEARCH \<Rightarrow> search_turn raw dt
      | TRACK_STRING_BODY \<Rightarrow> string_body_turn raw dt
      | TRACK_JSON_PARAM \<Rightarrow> json_param_turn raw dt
      | TRACK_STRUCTURAL \<Rightarrow> structural_turn raw dt)"

section \<open>The tracker returns\<close>

lemma json_char_fields [simp]:
  "dt_pos (json_char c dt) = dt_pos dt" "dt_mode (json_char c dt) = dt_mode dt" "dt_syn (json_char c dt) = dt_syn dt" "dt_glm (json_char c dt) = dt_glm dt"
  by (simp_all add: json_char_def)

lemma full_lit_end: "raw_full_lit raw pos lit \<Longrightarrow> pos + length lit \<le> length raw"
  by (auto simp: raw_full_lit_def)

lemma tag_end_bounds: "tag_end_at raw pos = Some e \<Longrightarrow> pos < e \<and> e \<le> length raw"
  using strchr_Some [of "drop pos raw" "CHR ''>''"] by (auto simp: tag_end_at_def)

lemma best_start_Some:
  "best_start raw best syns = Some (q, syn) \<Longrightarrow>
    (best = Some (q, syn) \<or> syn \<in> set syns \<and> strstr raw (tool_calls_start syn) = Some q)
    \<and> (\<forall>b. best = Some b \<longrightarrow> q \<le> fst b) \<and> (\<forall>s\<in>set syns. \<forall>p. strstr raw (tool_calls_start s) = Some p \<longrightarrow> q \<le> p)"
proof (induction syns arbitrary: best)
  case (Cons s syns)
  have f: "find_lit_bounded raw (tool_calls_start s) = strstr raw (tool_calls_start s)" by (rule find_lit_strstr [OF markers_nonempty(1)])
  show ?case
  proof (cases "strstr raw (tool_calls_start s)")
    case None
    then show ?thesis using Cons f by auto
  next
    case (Some p)
    show ?thesis
    proof (cases best)
      case None
      then have "best_start raw (Some (p, s)) syns = Some (q, syn)" using Cons.prems f Some by simp
      then show ?thesis using Cons.IH [of "Some (p, s)"] Some None by auto
    next
      case (Some b)
      obtain r s2 where b: "b = (r, s2)" by (cases b)
      show ?thesis
      proof (cases "p < r")
        case True
        then have "best_start raw (Some (p, s)) syns = Some (q, syn)" using Cons.prems f Some \<open>strstr raw (tool_calls_start s) = Some p\<close> b by simp
        then show ?thesis using Cons.IH [of "Some (p, s)"] Some b True \<open>strstr raw (tool_calls_start s) = Some p\<close> by auto
      next
        case False
        then have "best_start raw best syns = Some (q, syn)" using Cons.prems f Some \<open>strstr raw (tool_calls_start s) = Some p\<close> b by simp
        then show ?thesis using Cons.IH [of best] Some b False \<open>strstr raw (tool_calls_start s) = Some p\<close> by auto
      qed
    qed
  qed
qed simp

lemma best_start_None: "best_start raw best syns = None \<longleftrightarrow> best = None \<and> (\<forall>s\<in>set syns. strstr raw (tool_calls_start s) = None)"
proof (induction syns arbitrary: best)
  case (Cons s syns)
  have f: "find_lit_bounded raw (tool_calls_start s) = strstr raw (tool_calls_start s)" by (rule find_lit_strstr [OF markers_nonempty(1)])
  show ?case using Cons by (auto simp: f split: option.splits)
qed simp

definition tracker_work :: "string \<Rightarrow> dsml_decode_tracker \<Rightarrow> nat" where
  "tracker_work raw dt = 2 * (length raw - dt_pos dt) + (if dt_mode dt = TRACK_SEARCH then 1 else 0)"

lemma further: "p < n \<Longrightarrow> p < q \<Longrightarrow> 2 * (n - q) < 2 * (n - p :: nat)"
  by simp

lemma lit_progress: "raw_full_lit raw p lit \<Longrightarrow> lit \<noteq> [] \<Longrightarrow> p < length raw \<and> p < p + length lit"
  using full_lit_end [of raw p lit] by (cases lit) auto

lemma search_go: "search_turn raw dt = Go t \<Longrightarrow> dt_pos dt \<le> dt_pos t \<and> dt_mode t = TRACK_STRUCTURAL"
  by (auto simp: search_turn_def dsml_find_tool_start_from_def Let_def split: option.splits if_splits prod.splits)

lemma structural_go:
  assumes "structural_turn raw dt = Go t" "dt_mode dt = TRACK_STRUCTURAL"
  shows "dt_pos dt < dt_pos t \<and> dt_pos dt < length raw \<and> dt_mode t \<noteq> TRACK_SEARCH"
  using assms markers_nonempty [of "the (dt_syn dt)"] skip_space_ge [of "dt_pos dt" raw]
  by (auto simp: structural_turn_def Let_def split: if_splits option.splits dest!: lit_progress tag_end_bounds)
    (rule le_less_trans, assumption, simp)

lemma tracker_decreases:
  assumes "tracker_turn raw dt = Go t"
  shows "tracker_work raw t < tracker_work raw dt"
proof (cases "dt_mode dt")
  case TRACK_SEARCH
  then have "search_turn raw dt = Go t" using assms by (simp add: tracker_turn_def)
  from search_go [OF this] TRACK_SEARCH show ?thesis by (simp add: tracker_work_def less_Suc_eq_le diff_le_mono2)
next
  case TRACK_STRUCTURAL
  then have "structural_turn raw dt = Go t" using assms by (simp add: tracker_turn_def)
  from structural_go [OF this TRACK_STRUCTURAL] TRACK_STRUCTURAL show ?thesis by (simp add: tracker_work_def diff_less_mono2)
next
  case TRACK_STRING_BODY
  then have t: "string_body_turn raw dt = Go t" using assms by (simp add: tracker_turn_def)
  then have "dt_pos dt < dt_pos t" "dt_mode t \<noteq> TRACK_SEARCH" "dt_pos dt < length raw"
    using markers_nonempty(6) [of "the (dt_syn dt)"] TRACK_STRING_BODY by (auto simp: string_body_turn_def Let_def split: if_splits)
  then show ?thesis using TRACK_STRING_BODY by (simp add: tracker_work_def)
next
  case TRACK_JSON_PARAM
  then have t: "json_param_turn raw dt = Go t" using assms by (simp add: tracker_turn_def)
  then have "dt_pos dt < dt_pos t" "dt_mode t \<noteq> TRACK_SEARCH" "dt_pos dt < length raw"
    using markers_nonempty(6) [of "the (dt_syn dt)"] TRACK_JSON_PARAM by (auto simp: json_param_turn_def Let_def split: if_splits)
  then show ?thesis using TRACK_JSON_PARAM by (simp add: tracker_work_def)
next
  case TRACK_DONE
  then show ?thesis using assms by (simp add: tracker_turn_def)
qed

function dsml_decode_tracker_update :: "string \<Rightarrow> dsml_decode_tracker \<Rightarrow> dsml_decode_tracker" where
  "dsml_decode_tracker_update raw dt = (case tracker_turn raw dt of Stop t \<Rightarrow> t | Go t \<Rightarrow> dsml_decode_tracker_update raw t)"
  by pat_completeness auto
termination by (relation "measure (\<lambda>(raw, dt). tracker_work raw dt)") (auto dest: tracker_decreases)

declare dsml_decode_tracker_update.simps [simp del]

section \<open>The decode state is recomputed by every update\<close>

definition forget :: "dsml_decode_tracker \<Rightarrow> dsml_decode_tracker" where
  "forget dt = dt\<lparr>dt_decode := DECODE_OUTSIDE\<rparr>"

lemma forget_turn:
  assumes "forget dt = forget du"
  shows "(\<exists>t. tracker_turn raw dt = Stop t \<and> tracker_turn raw du = Stop t)
    \<or> (\<exists>t u. tracker_turn raw dt = Go t \<and> tracker_turn raw du = Go u \<and> forget t = forget u)"
proof -
  obtain d where du: "du = dt\<lparr>dt_decode := d\<rparr>"
    using assms by (cases dt; cases du) (auto simp: forget_def)
  have "dt_mode du = dt_mode dt" by (simp add: du)
  moreover have "(\<exists>t. search_turn raw dt = Stop t \<and> search_turn raw du = Stop t)
    \<or> (\<exists>t u. search_turn raw dt = Go t \<and> search_turn raw du = Go u \<and> forget t = forget u)"
    by (auto simp: du search_turn_def forget_def Let_def split: option.splits)
  moreover have "(\<exists>t. string_body_turn raw dt = Stop t \<and> string_body_turn raw du = Stop t)
    \<or> (\<exists>t u. string_body_turn raw dt = Go t \<and> string_body_turn raw du = Go u \<and> forget t = forget u)"
    by (auto simp: du string_body_turn_def forget_def Let_def)
  moreover have "(\<exists>t. json_param_turn raw dt = Stop t \<and> json_param_turn raw du = Stop t)
    \<or> (\<exists>t u. json_param_turn raw dt = Go t \<and> json_param_turn raw du = Go u \<and> forget t = forget u)"
    by (auto simp: du json_param_turn_def json_char_def forget_def Let_def)
  moreover have "(\<exists>t. structural_turn raw dt = Stop t \<and> structural_turn raw du = Stop t)
    \<or> (\<exists>t u. structural_turn raw dt = Go t \<and> structural_turn raw du = Go u \<and> forget t = forget u)"
    by (auto simp: du structural_turn_def forget_def Let_def split: option.splits)
  moreover have "dt\<lparr>dt_decode := DECODE_OUTSIDE\<rparr> = du\<lparr>dt_decode := DECODE_OUTSIDE\<rparr>" by (simp add: du)
  ultimately show ?thesis by (cases "dt_mode dt") (simp_all add: tracker_turn_def)
qed

lemma forget_update: "forget dt = forget du \<Longrightarrow> dsml_decode_tracker_update raw dt = dsml_decode_tracker_update raw du"
proof (induction "tracker_work raw dt" arbitrary: dt du rule: less_induct)
  case less
  from forget_turn [OF less.prems, of raw] show ?case
  proof (elim disjE exE conjE)
    fix t assume "tracker_turn raw dt = Stop t" "tracker_turn raw du = Stop t"
    then show ?thesis by (simp add: dsml_decode_tracker_update.simps [of _ dt] dsml_decode_tracker_update.simps [of _ du])
  next
    fix t u assume g: "tracker_turn raw dt = Go t" "tracker_turn raw du = Go u" "forget t = forget u"
    then show ?thesis using less.hyps [OF tracker_decreases [OF g(1)] g(3)]
      by (simp add: dsml_decode_tracker_update.simps [of _ dt] dsml_decode_tracker_update.simps [of _ du])
  qed
qed

section \<open>The first marker\<close>

definition marker_at :: "dsml_syntax list \<Rightarrow> string \<Rightarrow> nat \<Rightarrow> dsml_syntax \<Rightarrow> bool" where
  "marker_at syns w q syn \<longleftrightarrow> syn \<in> set syns \<and> prefix (tool_calls_start syn) (drop q w)"

definition first_marker :: "dsml_syntax list \<Rightarrow> string \<Rightarrow> nat \<Rightarrow> nat \<Rightarrow> dsml_syntax \<Rightarrow> bool" where
  "first_marker syns w p q syn \<longleftrightarrow> p \<le> q \<and> marker_at syns w q syn \<and> (\<forall>r s. p \<le> r \<and> r < q \<longrightarrow> \<not> marker_at syns w r s)"

definition sound_starts :: "dsml_syntax list \<Rightarrow> bool" where
  "sound_starts syns \<longleftrightarrow> (\<forall>s\<in>set syns. hd (tool_calls_start s) = CHR ''<'' \<and> CHR ''<'' \<notin> set (tl (tool_calls_start s))
      \<and> length (tool_calls_start s) \<le> dsml_max_tool_start_len
      \<and> (\<forall>t\<in>set syns. prefix (tool_calls_start s) (tool_calls_start t) \<longrightarrow> s = t))"

lemma starts_sound: "sound_starts dsml_syntaxes" "sound_starts [Glm]"
  by (simp_all add: sound_starts_def dsml_syntaxes_def dsml_max_tool_start_len_def dsml_text)

lemma best_first:
  assumes "p \<le> length w" "best_start (drop p w) None syns = Some (q, syn)"
  shows "first_marker syns w p (p + q) syn"
proof -
  note b = best_start_Some [OF assms(2)]
  have m: "syn \<in> set syns" "strstr (drop p w) (tool_calls_start syn) = Some q" using b by auto
  have "\<not> marker_at syns w r s" if "p \<le> r" "r < p + q" for r s
  proof
    assume a: "marker_at syns w r s"
    then have s: "s \<in> set syns" "prefix (tool_calls_start s) (drop (r - p) (drop p w))" using that by (simp_all add: marker_at_def)
    have "q \<le> length (drop p w)" using strstr_Some [OF m(2)] by simp
    then have len: "r - p \<le> length (drop p w)" using that by linarith
    show False
    proof (cases "strstr (drop p w) (tool_calls_start s)")
      case None
      then show False using strstr_None [OF None len] s by simp
    next
      case (Some k)
      then have "q \<le> k" using b s(1) by auto
      then have "r - p < k" using that by arith
      then show False using strstr_Some [OF Some] s(2) by blast
    qed
  qed
  then show ?thesis using m strstr_Some [OF m(2)] by (simp add: first_marker_def marker_at_def add.commute)
qed

lemma best_none:
  assumes "p \<le> length w" "best_start (drop p w) None syns = None" "p \<le> q"
  shows "\<not> marker_at syns w q s"
proof
  assume m: "marker_at syns w q s"
  then have "tool_calls_start s \<noteq> []" "prefix (tool_calls_start s) (drop q w)" using markers_nonempty by (auto simp: marker_at_def)
  then have "q < length w" by (cases "q < length w") auto
  then have "q - p \<le> length (drop p w)" by simp
  then show False using m assms strstr_None [of "drop p w" "tool_calls_start s" "q - p"] best_start_None [of "drop p w" None syns]
    by (auto simp: marker_at_def)
qed

lemma first_marker_unique:
  assumes "sound_starts syns" "first_marker syns w p q s" "first_marker syns w p r t"
  shows "q = r \<and> s = t"
proof -
  have "q = r" using assms(2,3) by (metis first_marker_def linorder_neqE_nat)
  moreover have "prefix (tool_calls_start s) (tool_calls_start t) \<or> prefix (tool_calls_start t) (tool_calls_start s)"
    using assms(2,3) \<open>q = r\<close> prefix_same_cases by (auto simp: first_marker_def marker_at_def)
  ultimately show ?thesis using assms by (auto simp: sound_starts_def first_marker_def marker_at_def)
qed

lemma marker_more: "marker_at syns w q s \<Longrightarrow> marker_at syns (w @ x) q s"
  by (auto simp: marker_at_def prefix_def)

lemma first_marker_more:
  assumes "sound_starts syns" "first_marker syns w p q s"
  shows "first_marker syns (w @ x) p q s"
proof -
  have s: "marker_at syns w q s" "p \<le> q" using assms(2) by (simp_all add: first_marker_def)
  have pre: "prefix (tool_calls_start s) (drop q w)" using s(1) by (simp add: marker_at_def)
  have ql: "q + length (tool_calls_start s) \<le> length w" using prefix_length_le [OF pre] markers_nonempty(1) [of s] by (cases "q \<le> length w") auto
  have "\<not> marker_at syns (w @ x) r t" if r: "p \<le> r" "r < q" for r t
  proof
    assume t: "marker_at syns (w @ x) r t"
    have pt: "prefix (tool_calls_start t) (drop r (w @ x))" "t \<in> set syns" using t by (simp_all add: marker_at_def)
    have "\<not> marker_at syns w r t" using assms(2) r by (simp add: first_marker_def)
    then have "\<not> r + length (tool_calls_start t) \<le> length w"
      using pt prefix_before [OF pt(1)] by (auto simp: marker_at_def)
    then have in_tail: "q - r < length (tool_calls_start t)" using ql r by arith
    have "(w @ x) ! q = tool_calls_start t ! (q - r)"
    proof -
      have "drop r (w @ x) ! (q - r) = tool_calls_start t ! (q - r)" by (rule prefix_nth [OF pt(1) in_tail])
      then show ?thesis using r ql by (simp del: drop_append)
    qed
    moreover have "(w @ x) ! q = CHR ''<''"
    proof -
      have "0 < length (tool_calls_start s)" using markers_nonempty(1) by simp
      then have "drop q w ! 0 = tool_calls_start s ! 0" by (rule prefix_nth [OF pre])
      moreover have "hd (tool_calls_start s) = CHR ''<''" using assms(1) s(1) by (simp add: sound_starts_def marker_at_def)
      then have "tool_calls_start s ! 0 = CHR ''<''" using hd_conv_nth [OF markers_nonempty(1)] by simp
      moreover have "q < length w" using ql \<open>0 < length (tool_calls_start s)\<close> by linarith
      ultimately show ?thesis by (simp add: nth_append)
    qed
    moreover have "tool_calls_start t ! (q - r) \<in> set (tl (tool_calls_start t))"
    proof -
      obtain k where k: "q - r = Suc k" using r by (metis Suc_diff_Suc)
      then show ?thesis using in_tail by (simp add: nth_tl [symmetric] in_set_conv_nth) (metis Suc_less_eq Suc_pred length_greater_0_conv length_tl nth_tl list.size(3) not_less_zero)
    qed
    ultimately show False using assms(1) pt(2) by (auto simp: sound_starts_def)
  qed
  then show ?thesis using s marker_more [OF s(1)] by (simp add: first_marker_def)
qed

section \<open>One turn, with more text\<close>

abbreviation starts_of :: "dsml_decode_tracker \<Rightarrow> dsml_syntax list" where
  "starts_of dt \<equiv> if dt_glm dt then [Glm] else dsml_syntaxes"

definition found_start :: "string \<Rightarrow> dsml_decode_tracker \<Rightarrow> (nat \<times> dsml_syntax) option" where
  "found_start raw dt =
     (case best_start (drop (dt_pos dt) raw) None (starts_of dt) of None \<Rightarrow> None
      | Some (q, syn) \<Rightarrow> Some (dt_pos dt + q + length (tool_calls_start syn), syn))"

lemma search_found:
  "dt_pos dt \<le> length raw \<Longrightarrow> search_turn raw dt =
     (case found_start raw dt of
        None \<Rightarrow> Stop (dt\<lparr>dt_pos := length raw - dsml_max_tool_start_len, dt_decode := DECODE_OUTSIDE\<rparr>)
      | Some (pos, syn) \<Rightarrow> Go (dt\<lparr>dt_syn := Some syn, dt_pos := pos, dt_mode := TRACK_STRUCTURAL, dt_decode := DECODE_STRUCTURAL\<rparr>))"
  by (auto simp: search_turn_def found_start_def dsml_find_tool_start_from_def dsml_find_tool_start_def Let_def split: option.splits)

lemma starts_of_sound: "sound_starts (starts_of dt)"
  using starts_sound by simp

lemma found_first:
  assumes "dt_pos dt \<le> length raw"
  shows "found_start raw dt = Some (e, syn) \<longleftrightarrow> (\<exists>q. first_marker (starts_of dt) raw (dt_pos dt) q syn \<and> e = q + length (tool_calls_start syn))"
    and "found_start raw dt = None \<longleftrightarrow> (\<forall>q\<ge>dt_pos dt. \<forall>s. \<not> marker_at (starts_of dt) raw q s)"
proof -
  let ?b = "best_start (drop (dt_pos dt) raw) None (starts_of dt)"
  have none: "\<not> marker_at (starts_of dt) raw q s" if "?b = None" "dt_pos dt \<le> q" for q s by (rule best_none [OF assms that])
  have some: "first_marker (starts_of dt) raw (dt_pos dt) (dt_pos dt + q) s" if "?b = Some (q, s)" for q s by (rule best_first [OF assms that])
  show "found_start raw dt = Some (e, syn) \<longleftrightarrow> (\<exists>q. first_marker (starts_of dt) raw (dt_pos dt) q syn \<and> e = q + length (tool_calls_start syn))"
  proof (cases ?b)
    case None
    then show ?thesis using none by (auto simp: found_start_def first_marker_def)
  next
    case (Some b)
    obtain q s where b: "b = (q, s)" by (cases b)
    then have f: "found_start raw dt = Some (dt_pos dt + q + length (tool_calls_start s), s)" using Some by (simp add: found_start_def)
    have f1: "first_marker (starts_of dt) raw (dt_pos dt) (dt_pos dt + q) s" by (rule some) (use Some b in simp)
    show ?thesis
    proof
      assume "found_start raw dt = Some (e, syn)"
      then show "\<exists>q. first_marker (starts_of dt) raw (dt_pos dt) q syn \<and> e = q + length (tool_calls_start syn)"
        using f f1 by (intro exI [of _ "dt_pos dt + q"]) auto
    next
      assume "\<exists>q. first_marker (starts_of dt) raw (dt_pos dt) q syn \<and> e = q + length (tool_calls_start syn)"
      then obtain r where r: "first_marker (starts_of dt) raw (dt_pos dt) r syn" "e = r + length (tool_calls_start syn)" by blast
      show "found_start raw dt = Some (e, syn)" using first_marker_unique [OF starts_of_sound f1 r(1)] f r(2) by simp
    qed
  qed
  show "found_start raw dt = None \<longleftrightarrow> (\<forall>q\<ge>dt_pos dt. \<forall>s. \<not> marker_at (starts_of dt) raw q s)"
  proof (cases ?b)
    case None
    then show ?thesis using none by (simp add: found_start_def)
  next
    case (Some b)
    obtain q s where b: "b = (q, s)" by (cases b)
    then show ?thesis using some [OF Some [unfolded b]] Some by (auto simp: found_start_def first_marker_def)
  qed
qed

lemma marker_end: "marker_at syns w q s \<Longrightarrow> q + length (tool_calls_start s) \<le> length w"
  using prefix_length_le [of "tool_calls_start s" "drop q w"] markers_nonempty(1) [of s] by (cases "q \<le> length w") (auto simp: marker_at_def)

definition tracker_steady :: "string \<Rightarrow> dsml_decode_tracker \<Rightarrow> bool" where
  "tracker_steady raw dt \<longleftrightarrow> dt_pos dt \<le> length raw \<and> (dt_mode dt = TRACK_SEARCH \<longrightarrow> dt_pos dt \<le> length raw - dsml_max_tool_start_len)"

lemma search_more:
  assumes "tracker_steady raw dt" "dt_mode dt = TRACK_SEARCH"
  shows "search_turn raw dt = Go t \<Longrightarrow> search_turn (raw @ x) dt = Go t"
    and "search_turn raw dt = Stop t \<Longrightarrow> dt_mode t = TRACK_SEARCH \<and> tracker_steady raw t \<and> forget t = forget dt\<lparr>dt_pos := dt_pos t\<rparr>
      \<and> found_start (raw @ x) t = found_start (raw @ x) dt"
proof -
  have le: "dt_pos dt \<le> length raw" "dt_pos dt \<le> length (raw @ x)" using assms(1) by (simp_all add: tracker_steady_def)
  show "search_turn (raw @ x) dt = Go t" if go: "search_turn raw dt = Go t"
  proof -
    obtain e syn where f: "found_start raw dt = Some (e, syn)" using go search_found [OF le(1)] by (auto split: option.splits)
    then obtain q where "first_marker (starts_of dt) raw (dt_pos dt) q syn" "e = q + length (tool_calls_start syn)" using found_first(1) [OF le(1)] by blast
    then have "found_start (raw @ x) dt = Some (e, syn)"
      using found_first(1) [OF le(2)] first_marker_more [OF starts_of_sound] by blast
    then show ?thesis using go f search_found [OF le(1)] search_found [OF le(2)] by simp
  qed
  show "dt_mode t = TRACK_SEARCH \<and> tracker_steady raw t \<and> forget t = forget dt\<lparr>dt_pos := dt_pos t\<rparr> \<and> found_start (raw @ x) t = found_start (raw @ x) dt"
    if "search_turn raw dt = Stop t"
  proof -
    have f: "found_start raw dt = None" and t: "t = dt\<lparr>dt_pos := length raw - dsml_max_tool_start_len, dt_decode := DECODE_OUTSIDE\<rparr>"
      using that search_found [OF le(1)] by (auto split: option.splits)
    have none: "\<not> marker_at (starts_of dt) raw q s" if "dt_pos dt \<le> q" for q s using found_first(2) [OF le(1)] f that by blast
    have later: "length raw - dsml_max_tool_start_len \<le> q" if m: "marker_at (starts_of dt) (raw @ x) q s" and "dt_pos dt \<le> q" for q s
    proof (rule ccontr)
      assume "\<not> ?thesis"
      moreover have "length (tool_calls_start s) \<le> dsml_max_tool_start_len" using starts_of_sound [of dt] m unfolding sound_starts_def marker_at_def by blast
      ultimately have "q + length (tool_calls_start s) \<le> length raw" by linarith
      then show False using m none [OF that(2), of s] prefix_before unfolding marker_at_def by blast
    qed
    have pos: "dt_pos dt \<le> dt_pos t" using assms t by (simp add: tracker_steady_def)
    have le_t: "dt_pos t \<le> length (raw @ x)" using t by simp
    have st: "starts_of t = starts_of dt" using t by simp
    have later': "dt_pos t \<le> q" if "marker_at (starts_of dt) (raw @ x) q s" "dt_pos dt \<le> q" for q s using later [OF that] t by simp
    have same: "first_marker (starts_of dt) (raw @ x) (dt_pos t) q s \<longleftrightarrow> first_marker (starts_of dt) (raw @ x) (dt_pos dt) q s" for q s
    proof
      assume a: "first_marker (starts_of dt) (raw @ x) (dt_pos t) q s"
      have "\<not> marker_at (starts_of dt) (raw @ x) r u" if "dt_pos dt \<le> r \<and> r < q" for r u
        using a later' [of r u] that unfolding first_marker_def by blast
      then show "first_marker (starts_of dt) (raw @ x) (dt_pos dt) q s"
        using a pos unfolding first_marker_def by (meson order_trans)
    next
      assume a: "first_marker (starts_of dt) (raw @ x) (dt_pos dt) q s"
      have "\<not> marker_at (starts_of dt) (raw @ x) r u" if "dt_pos t \<le> r \<and> r < q" for r u
        using a pos that unfolding first_marker_def by (meson order_trans)
      then show "first_marker (starts_of dt) (raw @ x) (dt_pos t) q s"
        using a later' [of q s] unfolding first_marker_def by blast
    qed
    have "found_start (raw @ x) t = found_start (raw @ x) dt"
    proof (cases "found_start (raw @ x) dt")
      case None
      then have nd: "\<not> marker_at (starts_of dt) (raw @ x) q s" if "dt_pos dt \<le> q" for q s using found_first(2) [OF le(2)] that by blast
      have "\<not> marker_at (starts_of t) (raw @ x) q s" if "dt_pos t \<le> q" for q s
        unfolding st by (rule nd) (use pos that in simp)
      then have "found_start (raw @ x) t = None" using found_first(2) [OF le_t] by blast
      then show ?thesis using None by simp
    next
      case (Some b)
      then show ?thesis using found_first(1) [OF le(2), of "fst b" "snd b"] found_first(1) [OF le_t, of "fst b" "snd b"] same
        unfolding st by simp
    qed
    then show ?thesis using t assms(2) by (simp add: tracker_steady_def forget_def)
  qed
qed

definition apart :: "string \<Rightarrow> string \<Rightarrow> bool" where
  "apart a b \<longleftrightarrow> \<not> prefix a b \<and> \<not> prefix b a"

lemma markers_apart:
  "apart (tool_calls_end syn) (invoke_end syn)" "apart (tool_calls_end syn) (invoke_start syn)" "apart (tool_calls_end syn) (param_start syn)"
  "apart (invoke_end syn) (invoke_start syn)" "apart (invoke_end syn) (param_start syn)" "apart (invoke_start syn) (param_start syn)"
  by (cases syn; simp add: apart_def dsml_text)+

lemma apart_lit: "raw_full_lit raw p a \<Longrightarrow> apart a b \<or> apart b a \<Longrightarrow> \<not> raw_full_lit (raw @ x) p b"
  using full_lit_mono [of raw p a x] prefix_same_cases [of a "drop p (raw @ x)" b] by (auto simp: full_lit_iff apart_def)

lemma tag_end_more: "tag_end_at raw p = Some e \<Longrightarrow> tag_end_at (raw @ x) p = Some e"
  using memchr_more [of p raw] by (auto simp: tag_end_at_def)

lemma string_true_more: "e \<le> length raw \<Longrightarrow> dsml_attr_is_string_true (raw @ x) p e = dsml_attr_is_string_true raw p e"
  by (cases "p \<le> length raw") (auto simp: dsml_attr_is_string_true_def)

lemma structural_more:
  assumes "structural_turn raw dt = Go t \<or> (structural_turn raw dt = Stop t \<and> dt_mode t = TRACK_DONE)" "dt_mode dt = TRACK_STRUCTURAL"
  shows "structural_turn (raw @ x) dt = structural_turn raw dt"
proof -
  let ?p = "skip_space raw (dt_pos dt)"
  let ?syn = "the (dt_syn dt)"
  note defs = structural_turn_def Let_def
  have lt: "?p < length raw" using assms by (auto simp: defs split: if_splits)
  have p: "skip_space (raw @ x) (dt_pos dt) = ?p" by (rule skip_space_more [OF lt])
  have le: "?p \<le> length raw" using lt by simp
  note apart = markers_apart [of ?syn]
  have lit: "raw_full_lit raw ?p l \<Longrightarrow> raw_full_lit (raw @ x) ?p l" for l by (rule full_lit_mono)
  have ex: "raw_full_lit raw ?p a \<Longrightarrow> apart a b \<or> apart b a \<Longrightarrow> \<not> raw_full_lit (raw @ x) ?p b" for a b by (rule apart_lit)
  consider (tce) "raw_full_lit raw ?p (tool_calls_end ?syn)"
    | (ie) "raw_full_lit raw ?p (invoke_end ?syn)" "\<not> raw_full_lit raw ?p (tool_calls_end ?syn)"
    | (ist) e where "raw_full_lit raw ?p (invoke_start ?syn)" "\<not> raw_full_lit raw ?p (tool_calls_end ?syn)" "\<not> raw_full_lit raw ?p (invoke_end ?syn)"
        "tag_end_at raw ?p = Some e"
    | (ps) e where "raw_full_lit raw ?p (param_start ?syn)" "\<not> raw_full_lit raw ?p (tool_calls_end ?syn)" "\<not> raw_full_lit raw ?p (invoke_end ?syn)"
        "\<not> raw_full_lit raw ?p (invoke_start ?syn)" "tag_end_at raw ?p = Some e"
    | (other) "dt_glm dt" "\<not> raw_full_lit raw ?p (tool_calls_end ?syn)" "\<not> raw_full_lit raw ?p (invoke_end ?syn)"
        "\<not> raw_full_lit raw ?p (invoke_start ?syn)" "\<not> raw_full_lit raw ?p (param_start ?syn)"
        "\<not> raw_partial_lit raw ?p (tool_calls_end ?syn)" "\<not> raw_partial_lit raw ?p (invoke_start ?syn)" "\<not> raw_partial_lit raw ?p (invoke_end ?syn)"
        "\<not> raw_partial_lit raw ?p (param_start ?syn)" "\<not> raw_partial_lit raw ?p (param_end ?syn)"
    using assms lt by (auto simp: defs split: if_splits option.splits)
  then show ?thesis
  proof cases
    case tce
    then show ?thesis using lit [OF tce] p lt by (simp add: defs)
  next
    case ie
    then show ?thesis using lit [OF ie(1)] ex [OF ie(1)] apart p lt by (simp add: defs)
  next
    case (ist e)
    then show ?thesis using lit [OF ist(1)] ex [OF ist(1)] apart p lt tag_end_more [OF ist(4), of x] by (simp add: defs)
  next
    case (ps e)
    then show ?thesis
      using lit [OF ps(1)] ex [OF ps(1)] apart p lt tag_end_more [OF ps(5), of x] tag_end_bounds [OF ps(5)] string_true_more [of e raw x ?p]
      by (simp add: defs)
  next
    case other
    have "\<not> raw_full_lit raw ?p (param_end ?syn) \<or> raw_full_lit raw ?p (param_end ?syn)" by blast
    have pe: "\<not> raw_partial_lit (raw @ x) ?p (param_end ?syn)"
    proof (cases "raw_full_lit raw ?p (param_end ?syn)")
      case True
      then show ?thesis by (auto simp: raw_full_lit_def raw_partial_lit_def)
    next
      case False
      then show ?thesis using not_lit_mono(2) [OF le False] other by blast
    qed
    show ?thesis
      using other not_lit_mono [OF le other(2,6), of x] not_lit_mono [OF le other(3,8), of x] not_lit_mono [OF le other(4,7), of x]
        not_lit_mono [OF le other(5,9), of x] pe p lt
      by (simp add: defs)
  qed
qed

lemma structural_stop:
  "structural_turn raw dt = Stop t \<Longrightarrow>
    (dt_mode t = TRACK_DONE) \<or> t = dt\<lparr>dt_pos := skip_space raw (dt_pos dt), dt_decode := DECODE_STRUCTURAL\<rparr>"
  by (auto simp: structural_turn_def Let_def split: if_splits option.splits)

lemma string_body_more: "string_body_turn raw dt = Go t \<Longrightarrow> string_body_turn (raw @ x) dt = Go t"
proof -
  assume g: "string_body_turn raw dt = Go t"
  then have lt: "dt_pos dt < length raw" "dt_pos dt \<le> length raw" by (auto simp: string_body_turn_def Let_def split: if_splits)
  show ?thesis
  proof (cases "raw_full_lit raw (dt_pos dt) (param_end (the (dt_syn dt)))")
    case True
    then show ?thesis using g lt full_lit_mono [OF True, of x] by (simp add: string_body_turn_def Let_def)
  next
    case False
    then have "\<not> raw_partial_lit raw (dt_pos dt) (param_end (the (dt_syn dt)))" using g by (auto simp: string_body_turn_def Let_def split: if_splits)
    then show ?thesis using g lt False not_lit_mono [OF lt(2) False, of x] by (simp add: string_body_turn_def Let_def)
  qed
qed

lemma json_param_more: "json_param_turn raw dt = Go t \<Longrightarrow> json_param_turn (raw @ x) dt = Go t"
proof -
  assume g: "json_param_turn raw dt = Go t"
  then have lt: "dt_pos dt < length raw" "dt_pos dt \<le> length raw" by (auto simp: json_param_turn_def Let_def split: if_splits)
  show ?thesis
  proof (cases "dt_json_in_string dt")
    case True
    then show ?thesis using g lt by (simp add: json_param_turn_def Let_def nth_append)
  next
    case ns: False
    show ?thesis
    proof (cases "raw_full_lit raw (dt_pos dt) (param_end (the (dt_syn dt)))")
      case True
      then show ?thesis using g lt ns full_lit_mono [OF True, of x] by (simp add: json_param_turn_def Let_def)
    next
      case False
      then have "\<not> raw_partial_lit raw (dt_pos dt) (param_end (the (dt_syn dt)))" using g ns by (auto simp: json_param_turn_def Let_def split: if_splits)
      then show ?thesis using g lt ns False not_lit_mono [OF lt(2) False, of x] by (simp add: json_param_turn_def Let_def nth_append)
    qed
  qed
qed

lemma go_tracker: "tracker_steady raw dt \<Longrightarrow> tracker_turn raw dt = Go t \<Longrightarrow> tracker_turn (raw @ x) dt = Go t"
  using search_more(1) [of raw dt t x] structural_more [of raw dt t x] string_body_more [of raw dt t x] json_param_more [of raw dt t x]
  by (cases "dt_mode dt") (simp_all add: tracker_turn_def)

lemma turn_steady: "tracker_steady raw dt \<Longrightarrow> tracker_turn raw dt = Go t \<or> tracker_turn raw dt = Stop t \<Longrightarrow> tracker_steady raw t"
proof -
  assume st: "tracker_steady raw dt" and o: "tracker_turn raw dt = Go t \<or> tracker_turn raw dt = Stop t"
  have le: "dt_pos dt \<le> length raw" using st by (simp add: tracker_steady_def)
  have sp: "skip_space raw (dt_pos dt) \<le> length raw" using skip_space_all [OF le] by (cases "length raw \<le> skip_space raw (dt_pos dt)") auto
  show ?thesis
  proof (cases "dt_mode dt")
    case TRACK_SEARCH
    then have s: "search_turn raw dt = Go t \<or> search_turn raw dt = Stop t" using o by (simp add: tracker_turn_def)
    show ?thesis
    proof (cases "found_start raw dt")
      case None
      then show ?thesis using s search_found [OF le] by (auto simp: tracker_steady_def)
    next
      case (Some b)
      then obtain q where "first_marker (starts_of dt) raw (dt_pos dt) q (snd b)" "fst b = q + length (tool_calls_start (snd b))"
        using found_first(1) [OF le, of "fst b" "snd b"] by auto
      then have "fst b \<le> length raw" using marker_end by (auto simp: first_marker_def)
      then show ?thesis using s Some search_found [OF le] by (cases b) (auto simp: tracker_steady_def)
    qed
  next
    case TRACK_STRUCTURAL
    then show ?thesis using o le sp
      by (auto simp: tracker_turn_def structural_turn_def tracker_steady_def Let_def split: if_splits option.splits dest!: full_lit_end tag_end_bounds)
  next
    case TRACK_STRING_BODY
    then show ?thesis using o le
      by (auto simp: tracker_turn_def string_body_turn_def tracker_steady_def Let_def split: if_splits dest!: full_lit_end)
  next
    case TRACK_JSON_PARAM
    then show ?thesis using o le
      by (auto simp: tracker_turn_def json_param_turn_def tracker_steady_def Let_def split: if_splits dest!: full_lit_end)
  next
    case TRACK_DONE
    then show ?thesis using o le by (auto simp: tracker_turn_def tracker_steady_def)
  qed
qed

section \<open>The tracker is a parser that can be fed\<close>

lemma update_turn: "tracker_turn raw dt = tracker_turn raw du \<Longrightarrow> dsml_decode_tracker_update raw dt = dsml_decode_tracker_update raw du"
  by (simp add: dsml_decode_tracker_update.simps [of _ dt] dsml_decode_tracker_update.simps [of _ du])

lemma tracker_resume:
  assumes "tracker_steady raw s" "tracker_turn raw s = Stop t"
  shows "dsml_decode_tracker_update (raw @ x) t = dsml_decode_tracker_update (raw @ x) s"
proof (cases "dt_mode s")
  case TRACK_SEARCH
  then have "search_turn raw s = Stop t" using assms(2) by (simp add: tracker_turn_def)
  note m = search_more(2) [OF assms(1) TRACK_SEARCH this, of x]
  then obtain d p where t: "t = s\<lparr>dt_pos := p, dt_decode := d\<rparr>" by (cases s; cases t) (auto simp: forget_def)
  have le: "dt_pos s \<le> length (raw @ x)" "dt_pos t \<le> length (raw @ x)" using assms(1) m by (auto simp: tracker_steady_def)
  have "search_turn (raw @ x) t = search_turn (raw @ x) s"
    unfolding search_found [OF le(1)] search_found [OF le(2)] using m t by (simp split: option.splits)
  then show ?thesis using m TRACK_SEARCH by (intro update_turn) (simp add: tracker_turn_def)
next
  case TRACK_STRUCTURAL
  then have st: "structural_turn raw s = Stop t" using assms(2) by (simp add: tracker_turn_def)
  have le: "dt_pos s \<le> length raw" using assms(1) by (simp add: tracker_steady_def)
  from structural_stop [OF st] show ?thesis
  proof
    assume d: "dt_mode t = TRACK_DONE"
    then have "dt_decode t = DECODE_OUTSIDE" using st TRACK_STRUCTURAL by (auto simp: structural_turn_def Let_def split: if_splits option.splits)
    then have "tracker_turn (raw @ x) t = Stop t" using d by (simp add: tracker_turn_def)
    moreover have "tracker_turn (raw @ x) s = Stop t" using structural_more [of raw s t x] st d TRACK_STRUCTURAL by (simp add: tracker_turn_def)
    ultimately show ?thesis by (simp add: update_turn)
  next
    assume t: "t = s\<lparr>dt_pos := skip_space raw (dt_pos s), dt_decode := DECODE_STRUCTURAL\<rparr>"
    let ?u = "s\<lparr>dt_pos := skip_space raw (dt_pos s)\<rparr>"
    have "structural_turn (raw @ x) ?u = structural_turn (raw @ x) s" using skip_space_again [OF le, of x] by (simp add: structural_turn_def)
    then have "dsml_decode_tracker_update (raw @ x) ?u = dsml_decode_tracker_update (raw @ x) s"
      using TRACK_STRUCTURAL by (intro update_turn) (simp add: tracker_turn_def)
    moreover have "forget t = forget ?u" using t by (simp add: forget_def)
    ultimately show ?thesis using forget_update by metis
  qed
next
  case TRACK_STRING_BODY
  then have "forget t = forget s" using assms(2) by (auto simp: tracker_turn_def string_body_turn_def forget_def Let_def split: if_splits)
  then show ?thesis by (rule forget_update)
next
  case TRACK_JSON_PARAM
  then have "forget t = forget s" using assms(2) by (auto simp: tracker_turn_def json_param_turn_def forget_def Let_def split: if_splits)
  then show ?thesis by (rule forget_update)
next
  case TRACK_DONE
  then have "forget t = forget s" using assms(2) by (auto simp: tracker_turn_def forget_def)
  then show ?thesis by (rule forget_update)
qed

lemma more_tracker: "tracker_steady r s \<Longrightarrow> tracker_steady (r @ x) s"
  by (auto simp: tracker_steady_def)

interpretation tracker: incremental tracker_turn dsml_decode_tracker_update tracker_steady tracker_work "(=)" "\<lambda>_. True" "\<lambda>_. True"
proof unfold_locales
  fix r x :: string and s t u :: dsml_decode_tracker
  show "dsml_decode_tracker_update r s = (case tracker_turn r s of Go t \<Rightarrow> dsml_decode_tracker_update r t | Stop t \<Rightarrow> t)"
    by (simp add: dsml_decode_tracker_update.simps [of _ s] split: outcome.splits)
  show "tracker_turn r s = Go t \<Longrightarrow> tracker_work r t < tracker_work r s" by (rule tracker_decreases)
  show "tracker_steady r s \<Longrightarrow> tracker_turn r s = Go t \<Longrightarrow> tracker_steady r t" using turn_steady by blast
  show "tracker_steady r s \<Longrightarrow> tracker_turn r s = Go t \<Longrightarrow> tracker_turn (r @ x) s = Go t" by (rule go_tracker)
  show "tracker_steady r s \<Longrightarrow> tracker_turn r s = Stop t \<Longrightarrow> tracker_steady r t" using turn_steady by blast
  show "tracker_steady r s \<Longrightarrow> tracker_steady (r @ x) s" by (rule more_tracker)
  show "tracker_steady r s \<Longrightarrow> tracker_turn r s = Stop t \<Longrightarrow> dsml_decode_tracker_update (r @ x) t = dsml_decode_tracker_update (r @ x) s"
    by (rule tracker_resume)
qed simp_all

text \<open>The calls of the update after every generated piece of text.\<close>

fun track_pieces :: "string \<Rightarrow> string list \<Rightarrow> dsml_decode_tracker \<Rightarrow> dsml_decode_tracker" where
  "track_pieces raw [] dt = dt"
| "track_pieces raw (c # cs) dt = track_pieces (raw @ c) cs (dsml_decode_tracker_update (raw @ c) dt)"

lemma feed_track: "tracker.feed raw dt cs = track_pieces raw cs dt"
  by (induction cs arbitrary: raw dt) simp_all

text \<open>
  C31: The tracker is called after every token with the text so far; however the text was cut, its state (whether
  the next token is syntax or payload included) is the one it computes from the whole text at once.
\<close>

theorem tracker_incremental:
  assumes "cs \<noteq> []"
  shows "track_pieces [] cs (dsml_decode_tracker_init\<lparr>dt_glm := glm\<rparr>)
    = dsml_decode_tracker_update (concat cs) (dsml_decode_tracker_init\<lparr>dt_glm := glm\<rparr>)"
  using tracker.feed_run [of "[]" "dsml_decode_tracker_init\<lparr>dt_glm := glm\<rparr>" cs] assms feed_track
  by (simp add: tracker_steady_def dsml_decode_tracker_init_def)

lemma tracker_incremental_witness:
  "dt_decode (track_pieces [] [''hi <tool_ca'', ''lls><invoke name=\"f\"><para'', ''meter name=\"x\" string=\"true\">a <'']
      (dsml_decode_tracker_init\<lparr>dt_glm := False\<rparr>)) = DECODE_STRING_BODY"
proof -
  have "dt_decode (dsml_decode_tracker_update (concat [''hi <tool_ca'', ''lls><invoke name=\"f\"><para'', ''meter name=\"x\" string=\"true\">a <''])
      (dsml_decode_tracker_init\<lparr>dt_glm := False\<rparr>)) = DECODE_STRING_BODY" by code_simp
  then show ?thesis using tracker_incremental [of "[''hi <tool_ca'', ''lls><invoke name=\"f\"><para'', ''meter name=\"x\" string=\"true\">a <'']" False]
    by simp
qed

end
