(* ===== verification/ToolCalls.thy ===== *)
theory ToolCalls
  imports ToolStream "HOL-Library.Multiset" "HOL-Library.Sublist"
begin

text \<open>
  Tool calls as the server renders them into a prompt (\<open>src/ds4_server.c\<close>, from \<open>json_args_parse\<close> to
  \<open>append_tool_calls_text_for_syntax\<close>): the arguments of a call are split into members, put into the order of the tool's
  schema and written in the syntax of the model. Every member is written exactly once.
\<close>

section \<open>The arguments of a call\<close>

record json_arg =
  ja_key :: string
  ja_value :: string
  ja_is_string :: bool
  ja_used :: bool

text \<open>Keys and strings are C strings: they end at a NUL that the JSON text escaped. \<open>json_arg_item\<close> is one turn of the loop.\<close>

definition json_arg_item :: "string \<Rightarrow> (json_arg \<times> string) option" where
  "json_arg_item p =
     (case json_string p of None \<Rightarrow> None
      | Some (key, p) \<Rightarrow>
          let p = json_ws p in
          if p = [] \<or> hd p \<noteq> CHR '':'' then None
          else
            let p = json_ws (tl p) in
            if p \<noteq> [] \<and> hd p = CHR 0x22 then
              (case json_string p of None \<Rightarrow> None
               | Some (v, p) \<Rightarrow> Some (\<lparr>ja_key = c_str key, ja_value = c_str v, ja_is_string = True, ja_used = False\<rparr>, p))
            else
              (case json_raw_value p of None \<Rightarrow> None
               | Some (raw, p) \<Rightarrow>
                   Some (\<lparr>ja_key = c_str key, ja_value = json_minify_raw_value (Some raw), ja_is_string = False, ja_used = False\<rparr>, p)))"

lemma json_raw_shorter: "json_raw_value p = Some (raw, r) \<Longrightarrow> length r < length p"
  using json_ws_shorter [of p] by (auto simp: json_raw_value_def json_skip_value_def Let_def split: option.splits dest: skip_shorter(1))

lemma json_arg_shorter:
  assumes "json_arg_item p = Some (a, r)"
  shows "length r < length p"
proof -
  obtain key q where q: "json_string p = Some (key, q)" using assms by (auto simp: json_arg_item_def split: option.splits)
  have l: "length (json_ws (tl (json_ws q))) \<le> length q"
    using json_ws_shorter [of "tl (json_ws q)"] json_ws_shorter [of q] by simp
  have "length r < length (json_ws (tl (json_ws q)))"
    using assms q by (auto simp: json_arg_item_def Let_def split: option.splits if_splits dest: json_string_shorter json_raw_shorter)
  then show ?thesis using l json_string_shorter [OF q] by simp
qed

function json_args_loop :: "string \<Rightarrow> json_arg list \<Rightarrow> (json_arg list \<times> string) option" where
  "json_args_loop p args =
     (if p = [] \<or> hd p = CHR ''}'' then Some (args, p)
      else case json_arg_item p of None \<Rightarrow> None | Some (a, r) \<Rightarrow> json_args_loop (skip_comma r) (args @ [a]))"
  by pat_completeness auto
termination
proof (relation "measure (\<lambda>(p, args). length p)")
  fix p args x a r
  assume "json_arg_item p = Some x" "(a, r) = x"
  then show "((skip_comma r, args @ [a]), p, args) \<in> measure (\<lambda>(p, args). length p)"
    using json_arg_shorter [of p a r] skip_comma_shorter [of r] by simp
qed simp

declare json_args_loop.simps [simp del]

definition json_args_parse :: "string \<Rightarrow> json_arg list option" where
  "json_args_parse json =
     (let p = json_ws json in
      if p = [] \<or> hd p \<noteq> CHR ''{'' then None
      else case json_args_loop (json_ws (tl p)) [] of None \<Rightarrow> None
        | Some (args, r) \<Rightarrow> if r = [] \<or> hd r \<noteq> CHR ''}'' then None else Some args)"

fun json_args_find_unused :: "json_arg list \<Rightarrow> string \<Rightarrow> nat option" where
  "json_args_find_unused [] key = None"
| "json_args_find_unused (a # args) key =
     (if \<not> ja_used a \<and> ja_key a = key then Some 0 else map_option Suc (json_args_find_unused args key))"

definition append_json_arg_pair :: "json_arg \<Rightarrow> string" where
  "append_json_arg_pair a = json_escape (ja_key a) @ '':'' @ (if ja_is_string a then json_escape (ja_value a) else ja_value a)"

fun comma_pairs :: "string \<Rightarrow> (json_arg \<Rightarrow> string) \<Rightarrow> bool \<Rightarrow> json_arg list \<Rightarrow> string" where
  "comma_pairs comma pair wrote [] = []"
| "comma_pairs comma pair wrote (a # args) = (if wrote then comma else []) @ pair a @ comma_pairs comma pair True args"

definition append_json_object_or_empty :: "string \<Rightarrow> string" where
  "append_json_object_or_empty json =
     (case json_args_parse json of None \<Rightarrow> ''{}'' | Some args \<Rightarrow> ''{'' @ comma_pairs '','' append_json_arg_pair False args @ ''}'')"

section \<open>The call as the model writes it\<close>

definition append_dsml_arg :: "json_arg \<Rightarrow> bool \<Rightarrow> string" where
  "append_dsml_arg a v41 =
     (let syn = (if v41 then Ds41 else Ds4) in
      param_start syn @ '' name='' @ [CHR 0x22] @ append_dsml_attr_escaped (ja_key a) @ [CHR 0x22] @ '' string='' @ [CHR 0x22]
      @ (if ja_is_string a then ''true'' else ''false'') @ [CHR 0x22] @ ''>''
      @ (if ja_is_string a then append_dsml_parameter_text (ja_value a) v41 else append_dsml_json_literal (ja_value a) v41)
      @ param_end syn @ [CHR 0x0A])"

definition append_glm_arg :: "json_arg \<Rightarrow> string" where
  "append_glm_arg a =
     ''<arg_key>'' @ append_glm_arg_key_text (ja_key a) @ ''</arg_key><arg_value>'' @ append_glm_arg_value_text (ja_value a) @ ''</arg_value>''"

text \<open>The arguments in the order of the schema, each once, then the others.\<close>

fun schema_order :: "string list \<Rightarrow> json_arg list \<Rightarrow> json_arg list \<times> json_arg list" where
  "schema_order [] args = ([], args)"
| "schema_order (key # keys) args =
     (case json_args_find_unused args key of None \<Rightarrow> schema_order keys args
      | Some i \<Rightarrow> (case schema_order keys (args[i := (args ! i)\<lparr>ja_used := True\<rparr>]) of (out, rest) \<Rightarrow> (args ! i # out, rest)))"

definition ordered_args :: "string list option \<Rightarrow> json_arg list \<Rightarrow> json_arg list" where
  "ordered_args order args =
     (let (out, rest) = (case order of None \<Rightarrow> ([], args) | Some keys \<Rightarrow> schema_order keys args)
      in out @ [a \<leftarrow> rest. \<not> ja_used a])"

definition append_dsml_arguments_from_json :: "string \<Rightarrow> string list option \<Rightarrow> bool \<Rightarrow> string option" where
  "append_dsml_arguments_from_json json order v41 =
     map_option (\<lambda>args. concat (map (\<lambda>a. append_dsml_arg a v41) (ordered_args order args))) (json_args_parse json)"

definition append_glm_arguments_from_json :: "string \<Rightarrow> string list option \<Rightarrow> string option" where
  "append_glm_arguments_from_json json order =
     map_option (\<lambda>args. concat (map append_glm_arg (ordered_args order args))) (json_args_parse json)"

record tool_call =
  tc_id :: "string option"
  tc_name :: string
  tc_arguments :: string

record tool_calls =
  tcs_v :: "tool_call list"
  tcs_raw_tool_text :: string

definition dsml_call_text :: "bool \<Rightarrow> tool_call \<Rightarrow> string" where
  "dsml_call_text v41 tc =
     (let syn = (if v41 then Ds41 else Ds4) in
      invoke_start syn @ '' name='' @ [CHR 0x22] @ append_dsml_attr_escaped (tc_name tc) @ [CHR 0x22] @ ''>'' @ [CHR 0x0A]
      @ (case append_dsml_arguments_from_json (tc_arguments tc) None v41 of Some body \<Rightarrow> body
         | None \<Rightarrow> param_start syn @ '' name='' @ [CHR 0x22] @ ''arguments'' @ [CHR 0x22] @ '' string='' @ [CHR 0x22] @ ''true'' @ [CHR 0x22] @ ''>''
             @ append_dsml_parameter_text (tc_arguments tc) v41 @ param_end syn @ [CHR 0x0A])
      @ invoke_end syn @ [CHR 0x0A])"

definition append_dsml_tool_calls_text :: "tool_calls option \<Rightarrow> bool \<Rightarrow> string" where
  "append_dsml_tool_calls_text calls v41 =
     (case calls of None \<Rightarrow> []
      | Some tcs \<Rightarrow>
          if tcs_v tcs = [] then []
          else if tcs_raw_tool_text tcs \<noteq> [] then tcs_raw_tool_text tcs
          else let syn = (if v41 then Ds41 else Ds4) in
            [CHR 0x0A, CHR 0x0A] @ tool_calls_start syn @ [CHR 0x0A] @ concat (map (dsml_call_text v41) (tcs_v tcs)) @ tool_calls_end syn)"

record tool_schema_order =
  so_name :: "string option"
  so_prop :: "string list"

fun tool_schema_orders_find_index :: "tool_schema_order list \<Rightarrow> string \<Rightarrow> nat option" where
  "tool_schema_orders_find_index [] name = None"
| "tool_schema_orders_find_index (o' # orders) name = (if so_name o' = Some name then Some 0 else map_option Suc (tool_schema_orders_find_index orders name))"

definition tool_schema_orders_push :: "tool_schema_order list \<Rightarrow> tool_schema_order \<Rightarrow> tool_schema_order list" where
  "tool_schema_orders_push orders o' =
     (case so_name o' of None \<Rightarrow> orders @ [o']
      | Some name \<Rightarrow> (case tool_schema_orders_find_index orders name of Some i \<Rightarrow> orders[i := o'] | None \<Rightarrow> orders @ [o']))"

definition tool_schema_orders_find :: "tool_schema_order list \<Rightarrow> string \<Rightarrow> tool_schema_order option" where
  "tool_schema_orders_find orders name = map_option (\<lambda>i. orders ! i) (tool_schema_orders_find_index orders name)"

definition glm_call_text :: "tool_schema_order list \<Rightarrow> tool_call \<Rightarrow> string" where
  "glm_call_text orders tc =
     ''<tool_call>'' @ tc_name tc
     @ (case append_glm_arguments_from_json (tc_arguments tc) (map_option so_prop (tool_schema_orders_find orders (tc_name tc))) of Some body \<Rightarrow> body
        | None \<Rightarrow> ''<arg_key>arguments</arg_key><arg_value>'' @ append_glm_arg_value_text (tc_arguments tc) @ ''</arg_value>'')
     @ ''</tool_call>''"

definition append_glm_tool_calls_text :: "tool_calls option \<Rightarrow> tool_schema_order list \<Rightarrow> string" where
  "append_glm_tool_calls_text calls orders =
     (case calls of None \<Rightarrow> []
      | Some tcs \<Rightarrow>
          if tcs_v tcs = [] then []
          else if tcs_raw_tool_text tcs \<noteq> [] then tcs_raw_tool_text tcs
          else [CHR 0x0A] @ concat (map (glm_call_text orders) (tcs_v tcs)) @ [CHR 0x0A])"

datatype server_model_syntax = SYNTAX_DEEPSEEK | SYNTAX_GLM | SYNTAX_DEEPSEEK41

definition append_tool_calls_text_for_syntax :: "server_model_syntax \<Rightarrow> tool_calls option \<Rightarrow> tool_schema_order list \<Rightarrow> string" where
  "append_tool_calls_text_for_syntax syn calls orders =
     (if syn = SYNTAX_GLM then append_glm_tool_calls_text calls orders else append_dsml_tool_calls_text calls (syn = SYNTAX_DEEPSEEK41))"

section \<open>The schema shown to a GLM model\<close>

text \<open>\<open>None\<close> where the schema is no JSON object; otherwise the text, and whether anything was written.\<close>

definition append_glm_tool_schema_json :: "string \<Rightarrow> (string \<times> bool) option" where
  "append_glm_tool_schema_json json =
     (case json_args_parse json of None \<Rightarrow> None
      | Some args \<Rightarrow>
          if \<exists>a\<in>set args. ja_key a = ''defer_loading'' \<and> \<not> ja_is_string a \<and> ja_value a = ''true'' then Some ([], False)
          else
            let pair = (\<lambda>a. json_escape (ja_key a) @ '': '' @ (if ja_is_string a then json_escape (ja_value a) else ja_value a)) in
            Some (''{'' @ comma_pairs '', '' pair False [a \<leftarrow> args. ja_key a \<noteq> ''defer_loading'' \<and> ja_key a \<noteq> ''strict''] @ ''}'', True))"

section \<open>Every argument is written once\<close>

lemma find_unused_Some: "json_args_find_unused args key = Some i \<Longrightarrow> i < length args \<and> \<not> ja_used (args ! i) \<and> ja_key (args ! i) = key"
  by (induction args key arbitrary: i rule: json_args_find_unused.induct) (auto split: if_splits)

lemma schema_order_args:
  "schema_order keys args = (out, rest) \<Longrightarrow>
    mset out + mset [a \<leftarrow> rest. \<not> ja_used a] = mset [a \<leftarrow> args. \<not> ja_used a] \<and> (\<forall>a\<in>set out. \<not> ja_used a)"
proof (induction keys args arbitrary: out rest rule: schema_order.induct)
  case (2 key keys args)
  show ?case
  proof (cases "json_args_find_unused args key")
    case None
    then show ?thesis using 2 by simp
  next
    case (Some i)
    then have i: "i < length args" "\<not> ja_used (args ! i)" using find_unused_Some by blast+
    obtain o2 r2 where o2: "schema_order keys (args[i := (args ! i)\<lparr>ja_used := True\<rparr>]) = (o2, r2)" by fastforce
    have s: "out = args ! i # o2" "rest = r2" using 2(3) Some o2 by simp_all
    have a: "args = take i args @ args ! i # drop (Suc i) args" using i(1) by (simp add: id_take_nth_drop)
    have "mset [a \<leftarrow> args. \<not> ja_used a] = add_mset (args ! i) (mset [a \<leftarrow> take i args @ drop (Suc i) args. \<not> ja_used a])"
      using i(2) by (subst a) simp
    also have "[a \<leftarrow> take i args @ drop (Suc i) args. \<not> ja_used a] = [a \<leftarrow> args[i := (args ! i)\<lparr>ja_used := True\<rparr>]. \<not> ja_used a]"
      using i(1) by (simp add: upd_conv_take_nth_drop)
    finally have "mset [a \<leftarrow> args. \<not> ja_used a] = add_mset (args ! i) (mset [a \<leftarrow> args[i := (args ! i)\<lparr>ja_used := True\<rparr>]. \<not> ja_used a])" .
    then show ?thesis using 2(2) [OF Some o2] s i(2) by simp
  qed
qed auto

text \<open>A parsed list has no used argument; the order of the schema only permutes it.\<close>

lemma loop_all:
  "json_args_loop p args = Some (out, r) \<Longrightarrow> (\<And>q a t. json_arg_item q = Some (a, t) \<Longrightarrow> P a) \<Longrightarrow> \<forall>a\<in>set args. P a \<Longrightarrow> \<forall>a\<in>set out. P a"
proof (induction p args rule: json_args_loop.induct)
  case (1 p args)
  show ?case
  proof (cases "p = [] \<or> hd p = CHR ''}''")
    case True
    then show ?thesis using 1(2,4) json_args_loop.simps [of p args] by simp
  next
    case False
    then obtain a r' where a: "json_arg_item p = Some (a, r')" using 1(2) json_args_loop.simps [of p args] by (auto split: option.splits)
    then show ?thesis using 1(1) [OF False a refl] 1(2,4) 1(3) [OF a] 1(3) False json_args_loop.simps [of p args] by simp
  qed
qed

lemma parsed_args_all:
  assumes "json_args_parse json = Some args" "\<And>q a t. json_arg_item q = Some (a, t) \<Longrightarrow> P a"
  shows "\<forall>a\<in>set args. P a"
  using assms loop_all [of "json_ws (tl (json_ws json))" "[]" args _ P] by (auto simp: json_args_parse_def Let_def split: if_splits option.splits)

lemma c_str_no_nul: "CHR 0x00 \<notin> set (c_str s)"
  using set_takeWhileD [of "CHR 0x00" "\<lambda>c. c \<noteq> CHR 0x00" s] by (auto simp: c_str_def)

lemma arg_item_fields:
  assumes "json_arg_item p = Some (a, r)"
  shows "\<not> ja_used a" "CHR 0x00 \<notin> set (ja_key a)" "ja_is_string a \<Longrightarrow> CHR 0x00 \<notin> set (ja_value a)"
  using assms by (auto simp: json_arg_item_def Let_def c_str_no_nul split: option.splits if_splits)

lemma parsed_args_unused: "json_args_parse json = Some args \<Longrightarrow> [a \<leftarrow> args. \<not> ja_used a] = args"
  using parsed_args_all [of json args "\<lambda>a. \<not> ja_used a"] arg_item_fields(1) by simp

text \<open>What the loop over the schema takes: keys in its order, and every key that an argument has.\<close>

lemma schema_order_keys:
  "schema_order keys args = (out, rest) \<Longrightarrow>
    subseq (map ja_key out) keys \<and> subseq [a \<leftarrow> rest. \<not> ja_used a] [a \<leftarrow> args. \<not> ja_used a] \<and>
    (\<forall>a\<in>set args. \<not> ja_used a \<and> ja_key a \<in> set keys \<longrightarrow> ja_key a \<in> ja_key ` set out)"
proof (induction keys args arbitrary: out rest rule: schema_order.induct)
  case (2 key keys args)
  show ?case
  proof (cases "json_args_find_unused args key")
    case None
    have "\<not> (\<not> ja_used a \<and> ja_key a = key)" if "a \<in> set args" for a
      using None that by (induction args key rule: json_args_find_unused.induct) (auto split: if_splits)
    then show ?thesis using 2(1) [OF None] 2(3) None by (auto split: prod.splits)
  next
    case (Some i)
    then have i: "i < length args" "\<not> ja_used (args ! i)" "ja_key (args ! i) = key" using find_unused_Some by blast+
    let ?args = "args[i := (args ! i)\<lparr>ja_used := True\<rparr>]"
    obtain o2 r2 where o2: "schema_order keys ?args = (o2, r2)" by fastforce
    have s: "out = args ! i # o2" "rest = r2" using 2(3) Some o2 by simp_all
    note IH = 2(2) [OF Some o2]
    have "subseq [a \<leftarrow> ?args. \<not> ja_used a] [a \<leftarrow> args. \<not> ja_used a]"
      using arg_cong [OF id_take_nth_drop [OF i(1)], of "filter (\<lambda>a. \<not> ja_used a)"] i(1,2) by (simp add: upd_conv_take_nth_drop) (metis list_emb_append2 list_emb_append_mono subseq_Cons' subseq_order.order_refl)
    then have "subseq [a \<leftarrow> rest. \<not> ja_used a] [a \<leftarrow> args. \<not> ja_used a]" using IH s(2) subseq_order.trans by blast
    moreover have "ja_key a \<in> ja_key ` set out" if a: "a \<in> set args" "\<not> ja_used a" "ja_key a \<in> set (key # keys)" for a
    proof (cases "ja_key a = key")
      case False
      then have "a \<noteq> args ! i" using i(3) by auto
      then have "a \<in> set ?args" using a(1) i(1) by (metis in_set_conv_nth length_list_update nth_list_update_neq)
      then show ?thesis using IH a False s(1) by auto
    qed (use i(3) s(1) in auto)
    ultimately show ?thesis using IH s(1) i(3) by auto
  qed
qed auto

text \<open>
  C37: The schema of a tool decides only where an argument is written: each argument of the call is written exactly
  once, duplicates of a key included. First come the keys of the schema that the call has, in the order of the
  schema, then the other arguments in the order of the call.
\<close>

theorem arguments_written_once:
  assumes "json_args_parse json = Some args"
  shows "\<exists>out rest. ordered_args (Some keys) args = out @ rest \<and> mset (out @ rest) = mset args \<and>
    subseq (map ja_key out) keys \<and> set keys \<inter> ja_key ` set args \<subseteq> ja_key ` set out \<and> subseq rest args"
proof -
  note f = parsed_args_unused [OF assms]
  then have u: "\<forall>a\<in>set args. \<not> ja_used a" by (metis filter_id_conv)
  obtain out rest where s: "schema_order keys args = (out, rest)" by fastforce
  show ?thesis
    using schema_order_args [OF s] schema_order_keys [OF s] s u unfolding f
    by (intro exI [of _ out] exI [of _ "[a \<leftarrow> rest. \<not> ja_used a]"]) (auto simp: ordered_args_def)
qed

definition sample_arguments :: string where
  "sample_arguments = ''{'' @ json_escape ''b'' @ '':1,'' @ json_escape ''a'' @ '':2,'' @ json_escape ''b'' @ '':3}''"

definition sample_args :: "json_arg list" where
  "sample_args = [\<lparr>ja_key = ''b'', ja_value = ''1'', ja_is_string = False, ja_used = False\<rparr>,
     \<lparr>ja_key = ''a'', ja_value = ''2'', ja_is_string = False, ja_used = False\<rparr>, \<lparr>ja_key = ''b'', ja_value = ''3'', ja_is_string = False, ja_used = False\<rparr>]"

lemma arguments_written_once_witness:
  "\<exists>out rest. ordered_args (Some [''a'', ''b'']) sample_args = out @ rest \<and> mset (out @ rest) = mset sample_args \<and>
    subseq (map ja_key out) [''a'', ''b''] \<and> set [''a'', ''b''] \<inter> ja_key ` set sample_args \<subseteq> ja_key ` set out \<and> subseq rest sample_args"
  by (rule arguments_written_once [of sample_arguments]) code_simp

end
