(* ===== verification/ToolHistory.thy ===== *)
theory ToolHistory
  imports ToolCalls
begin

text \<open>
  The calls that the server writes into a prompt, read by the stream that turns the calls of a model into deltas
  (\<open>append_dsml_tool_calls_text\<close> and \<open>openai_tool_stream_update\<close>, \<open>src/ds4_server.c\<close>): a model that repeats a call as it
  was shown to it makes the client receive the same call, argument by argument.
\<close>

section \<open>Attributes of a tag\<close>

lemma prefix_quote: "q \<notin> set t \<Longrightarrow> q \<notin> set u \<Longrightarrow> prefix (t @ [q]) (u @ q # v) \<longleftrightarrow> t = u"
proof (induction t arbitrary: u)
  case Nil
  then show ?case by (cases u) auto
next
  case (Cons a t)
  then show ?case by (cases u) auto
qed

text \<open>A search for text that ends in a quote can only end at a quote.\<close>

lemma strstr_quote:
  "q \<notin> set t \<Longrightarrow> q \<notin> set u \<Longrightarrow>
    strstr (u @ q # v) (t @ [q]) = (if suffix t u then Some (length u - length t) else map_option (\<lambda>i. Suc (length u + i)) (strstr v (t @ [q])))"
proof (induction u)
  case Nil
  then show ?case by (cases t) auto
next
  case (Cons c u)
  have "prefix (t @ [q]) ((c # u) @ q # v) \<longleftrightarrow> t = c # u" using Cons.prems by (intro prefix_quote) auto
  then show ?case using Cons suffix_length_le [of "c # u" u] by (auto simp: suffix_Cons option.map_comp comp_def Suc_diff_le suffix_length_le)
qed

lemma attr_here:
  assumes "CHR 0x22 \<notin> set name" "CHR 0x22 \<notin> set u" "CHR 0x22 \<notin> set v" "suffix (name @ ''='') u"
  shows "dsml_attr (u @ CHR 0x22 # v @ CHR 0x22 # w) name = Some (dsml_unescape_text v)"
proof -
  have f: "strchr (v @ CHR 0x22 # w) (CHR 0x22) = Some (length v)" using assms(3) by (induction v) auto
  have l: "length u - length (name @ ''='') + length (name @ ''='') = length u" using suffix_length_le [OF assms(4)] by simp
  have "strstr (u @ CHR 0x22 # v @ CHR 0x22 # w) ((name @ ''='') @ [CHR 0x22]) = Some (length u - length (name @ ''=''))"
    using strstr_quote [of "CHR 0x22" "name @ ''=''" u "v @ CHR 0x22 # w"] assms by simp
  moreover have "drop (length u - length (name @ ''='') + length ((name @ ''='') @ [CHR 0x22])) (u @ CHR 0x22 # v @ CHR 0x22 # w) = v @ CHR 0x22 # w"
    using l by (simp only: length_append [of "name @ ''=''"] add.assoc [symmetric]) simp
  ultimately show ?thesis unfolding dsml_attr_def Let_def by (simp add: f)
qed

lemma attr_later:
  assumes "CHR 0x22 \<notin> set name" "CHR 0x22 \<notin> set u" "\<not> suffix (name @ ''='') u"
  shows "dsml_attr (u @ CHR 0x22 # v) name = dsml_attr v name"
proof -
  have "strstr (u @ CHR 0x22 # v) ((name @ ''='') @ [CHR 0x22]) = map_option (\<lambda>i. Suc (length u + i)) (strstr v ((name @ ''='') @ [CHR 0x22]))"
    using strstr_quote [of "CHR 0x22" "name @ ''=''" u v] assms by simp
  then show ?thesis by (cases "strstr v ((name @ ''='') @ [CHR 0x22])") (simp_all add: dsml_attr_def Let_def add.assoc numeral_3_eq_3)
qed

text \<open>Escaping adds a semicolon with every change, so a plain ending is one of the name itself.\<close>

lemma attr_plain: "CHR '';'' \<notin> set (append_dsml_attr_escaped s) \<Longrightarrow> append_dsml_attr_escaped s = s"
  by (induction s) (auto split: if_splits)

lemma attr_suffix: "CHR '';'' \<notin> set t \<Longrightarrow> suffix t (append_dsml_attr_escaped s) \<Longrightarrow> suffix t s"
proof (induction s)
  case (Cons c s)
  let ?a = "append_dsml_attr_escaped"
  obtain e where e: "?a (c # s) = e @ ?a s" "e = [c] \<or> last e = CHR '';''" by (cases "c \<in> set ''&<>'' \<union> {CHR 0x22}") auto
  show ?case
  proof (cases "suffix t (?a s)")
    case True
    then show ?thesis using Cons by (simp add: suffix_ConsI)
  next
    case False
    then obtain u where u: "t = u @ ?a s" "suffix u e" using Cons.prems(2) unfolding e(1) suffix_append by blast
    have n: "u \<noteq> []" using False u(1) by force
    have p: "?a s = s" using Cons.prems(1) u(1) by (intro attr_plain) simp
    have "last u = last e" "last u \<in> set t" using u(1,2) n by (auto simp: suffix_def)
    then have "e = [c]" using e(2) Cons.prems(1) by metis
    then have "u = [c]" using u(2) n by (simp add: suffix_Cons)
    then show ?thesis using u(1) p by simp
  qed
qed simp

lemma attr_chars: "CHR ''>'' \<notin> set (append_dsml_attr_escaped s)" "CHR 0x00 \<notin> set s \<Longrightarrow> CHR 0x00 \<notin> set (append_dsml_attr_escaped s)"
  by (induction s) auto

section \<open>The end of a value\<close>

lemma first_close:
  assumes "close_tag e" "\<And>i. i \<le> length b \<Longrightarrow> \<not> prefix e (drop i b)"
  shows "find_lit_bounded (b @ e @ r) e = Some (length b)"
proof -
  have n: "e \<noteq> []" using assms(1) by (simp add: close_tag_def)
  have inside: "\<not> prefix e (drop i (b @ e @ r))" if i: "i < length b" for i
  proof
    assume p: "prefix e (drop i (b @ e @ r))"
    show False
    proof (cases "length e \<le> length b - i")
      case True
      then have "prefix e (drop i b)" using p i prefix_before [of e i b "e @ r"] by simp
      then show False using assms(2) [of i] i by simp
    next
      case False
      have h: "e ! 0 = CHR ''<''" using assms(1) n by (simp add: close_tag_def hd_conv_nth)
      have "e ! (length b - i) = drop i (b @ e @ r) ! (length b - i)" using p False by (metis not_le prefix_nth)
      also have "\<dots> = CHR ''<''" using i h n by (simp add: nth_append)
      finally have "tl e ! (length b - i - 1) = CHR ''<''" using i False by (simp add: nth_tl Suc_diff_Suc)
      moreover have "length b - i - 1 < length (tl e)" using i False by simp
      ultimately show False using assms(1) nth_mem unfolding close_tag_def by metis
    qed
  qed
  have "strstr (b @ e @ r) e = Some (length b)"
  proof (cases "strstr (b @ e @ r) e")
    case None
    then show ?thesis using strstr_None [OF None, of "length b"] by simp
  next
    case (Some k)
    then have "prefix e (drop k (b @ e @ r))" "\<forall>j<k. \<not> prefix e (drop j (b @ e @ r))" using strstr_Some by blast+
    then have "\<not> k < length b" "\<not> length b < k" using inside by auto
    then show ?thesis using Some by simp
  qed
  then show ?thesis using find_lit_strstr [OF n] by simp
qed

lemma prefix_literal: "CHR ''<'' \<notin> set f \<Longrightarrow> CHR 0x5C \<notin> set f \<Longrightarrow> prefix f (append_dsml_json_literal s v41) \<Longrightarrow> prefix f s"
proof (induction s arbitrary: f)
  case (Cons c s)
  then show ?case by (cases f) (auto split: if_splits)
qed simp

lemma literal_no_delimiter:
  "e = param_end (if v41 then Ds41 else Ds4) \<Longrightarrow> i \<le> length (append_dsml_json_literal s v41) \<Longrightarrow> \<not> prefix e (drop i (append_dsml_json_literal s v41))"
proof (induction s arbitrary: i)
  case Nil
  then show ?case by (auto simp: dsml_text)
next
  case (Cons c t)
  let ?b = "append_dsml_json_literal t v41"
  obtain f where e: "e = CHR ''<'' # f" "CHR ''<'' \<notin> set f" "CHR 0x5C \<notin> set f"
    by (rule that [of "tl e"]) (use Cons.prems(1) in \<open>auto simp: dsml_text split: if_splits\<close>)
  show ?case
  proof (cases "prefix e (c # t)")
    case False
    then have "\<not> prefix e (c # ?b)" using prefix_literal [OF e(2,3), of t v41] e(1) by auto
    then show ?thesis using False Cons by (cases i) simp_all
  next
    case True
    then have "append_dsml_json_literal (c # t) v41 = ([CHR 0x5C] @ ''u003c'') @ ?b" using Cons.prems(1) by simp
    moreover have "CHR ''<'' \<notin> set ([CHR 0x5C] @ ''u003c'')" by simp
    ultimately obtain w where w: "append_dsml_json_literal (c # t) v41 = w @ ?b" "CHR ''<'' \<notin> set w" by blast
    show ?thesis
    proof (cases "i < length w")
      case True
      then have "drop i (w @ ?b) = w ! i # drop (Suc i) (w @ ?b)" by (subst Cons_nth_drop_Suc [symmetric]) (auto simp: nth_append)
      moreover have "w ! i \<noteq> CHR ''<''" using w(2) nth_mem [OF True] by metis
      ultimately show ?thesis unfolding w(1) e(1) by simp
    next
      case False
      then show ?thesis using Cons.IH [OF Cons.prems(1), of "i - length w"] Cons.prems(2) unfolding w(1) by simp
    qed
  qed
qed

lemma body_chars: "CHR 0x00 \<notin> set s \<Longrightarrow> CHR 0x00 \<notin> set (append_glm_tag_body_text s e)"
  by (induction s) auto

section \<open>The stream reads what was written\<close>

text \<open>Text \<open>u\<close> at a position, with \<open>r\<close> after it.\<close>

lemma at_text:
  assumes "drop p raw = u @ r" "u \<noteq> []"
  shows "p < length raw" "drop (p + length u) raw = r" "p + length u = length raw - length r"
proof -
  have l: "length raw - p = length u + length r" using arg_cong [OF assms(1), of length] by simp
  then show "p < length raw" using assms(2) by (cases u) auto
  then show "p + length u = length raw - length r" using l by simp
  show "drop (p + length u) raw = r" using assms(1) by (metis add.commute append_eq_conv_conj drop_drop)
qed

lemma at_line:
  assumes "drop p raw = CHR 0x0A # CHR ''<'' # r"
  shows "skip_space raw p = Suc p" "Suc p < length raw" "drop (Suc p) raw = CHR ''<'' # r"
  using assms at_text [of p raw "[CHR 0x0A]" "CHR ''<'' # r"] at_text(1) [of "Suc p" raw "[CHR ''<'']" r]
  by (simp_all add: skip_space_def isspace_def char_code_def)

text \<open>Two markers that differ in their second character are told apart, also where the text ends early.\<close>

lemma other_marker:
  assumes "drop p raw = m @ r" "2 \<le> length m" "2 \<le> length lit" "m ! 1 \<noteq> lit ! 1"
  shows "\<not> raw_full_lit raw p lit" "\<not> raw_partial_lit raw p lit"
proof -
  have "(m @ r) ! 1 \<noteq> lit ! 1" using assms by (simp add: nth_append)
  then have "\<not> prefix lit (m @ r)" "\<not> prefix (m @ r) lit"
    using assms(2,3) prefix_nth [of lit "m @ r" 1] prefix_nth [of "m @ r" lit 1] by auto
  then show "\<not> raw_full_lit raw p lit" "\<not> raw_partial_lit raw p lit" using assms(1) by (simp_all add: raw_full_lit_def raw_partial_lit_def)
qed

lemma this_marker:
  assumes "drop p raw = m @ r" "m \<noteq> []"
  shows "raw_full_lit raw p m" "\<not> raw_partial_lit raw p m"
  using at_text [OF assms] arg_cong [OF assms(1), of length] assms(1) by (simp_all add: raw_full_lit_def raw_partial_lit_def)

lemma tag_end:
  assumes "drop p raw = u @ CHR ''>'' # r" "CHR ''>'' \<notin> set u"
  shows "memchr (drop p raw) CHR ''>'' = Some (length u)" "take (length u + 1) (drop p raw) = u @ ''>''"
    "p + length u + 1 = length raw - length r"
proof -
  have "strchr (u @ x # v) x = Some (length u)" if "x \<notin> set u" for u and x :: char and v using that by (induction u) auto
  then show "memchr (drop p raw) CHR ''>'' = Some (length u)" using assms by simp
  show "take (length u + 1) (drop p raw) = u @ ''>''" using assms(1) by simp
  show "p + length u + 1 = length raw - length r" using at_text(3) [of p raw "u @ ''>''" r] assms(1) by simp
qed

lemma written_syntax:
  assumes "syn = Ds41 \<or> syn = Ds4"
  shows "invoke_start syn ! 1 \<noteq> CHR ''/''" "param_start syn ! 1 \<noteq> CHR ''/''" "tool_calls_end syn ! 1 = CHR ''/''" "invoke_end syn ! 1 = CHR ''/''"
    "2 \<le> length (invoke_start syn)" "2 \<le> length (param_start syn)" "2 \<le> length (tool_calls_end syn)" "2 \<le> length (invoke_end syn)"
    "CHR ''>'' \<notin> set (invoke_start syn)" "CHR ''>'' \<notin> set (param_start syn)" "CHR 0x22 \<notin> set (invoke_start syn)" "CHR 0x22 \<notin> set (param_start syn)"
    "CHR 0x00 \<notin> set (invoke_start syn)" "CHR 0x00 \<notin> set (param_start syn)"
    "\<exists>m. invoke_start syn = CHR ''<'' # m" "\<exists>m. param_start syn = CHR ''<'' # m" "\<exists>m. tool_calls_end syn = CHR ''<'' # m" "\<exists>m. invoke_end syn = CHR ''<'' # m"
  using assms by (auto simp: dsml_text)

definition quoted :: "string \<Rightarrow> string" where
  "quoted s = [CHR 0x22] @ append_dsml_attr_escaped s @ [CHR 0x22]"

text \<open>The tags that are written before a call and before an argument, and the attributes read from them.\<close>

definition invoke_tag :: "dsml_syntax \<Rightarrow> string \<Rightarrow> string" where
  "invoke_tag syn name = invoke_start syn @ '' name='' @ quoted name"

definition param_tag :: "dsml_syntax \<Rightarrow> string \<Rightarrow> bool \<Rightarrow> string" where
  "param_tag syn key is_string = param_start syn @ '' name='' @ quoted key @ '' string='' @ quoted (if is_string then ''true'' else ''false'')"

lemma invoke_tag_attr:
  assumes "syn = Ds41 \<or> syn = Ds4"
  shows "CHR ''>'' \<notin> set (invoke_tag syn name)" "CHR 0x00 \<notin> set name \<Longrightarrow> CHR 0x00 \<notin> set (invoke_tag syn name)"
    "dsml_attr (invoke_tag syn name @ ''>'') ''name'' = Some name"
proof -
  note w = written_syntax [OF assms]
  show "CHR ''>'' \<notin> set (invoke_tag syn name)" "CHR 0x00 \<notin> set name \<Longrightarrow> CHR 0x00 \<notin> set (invoke_tag syn name)"
    using w(9,13) attr_chars by (simp_all add: invoke_tag_def quoted_def)
  have "dsml_attr ((invoke_start syn @ '' name='') @ CHR 0x22 # append_dsml_attr_escaped name @ CHR 0x22 # ''>'') ''name'' = Some name"
    using attr_here [of "''name''" "invoke_start syn @ '' name=''" "append_dsml_attr_escaped name" "''>''"] w(11) attr_no_quote attr_round
    by (simp add: suffix_def)
  then show "dsml_attr (invoke_tag syn name @ ''>'') ''name'' = Some name" by (simp add: invoke_tag_def quoted_def)
qed

lemma param_tag_attr:
  assumes "syn = Ds41 \<or> syn = Ds4"
  shows "CHR ''>'' \<notin> set (param_tag syn key is_string)" "CHR 0x00 \<notin> set key \<Longrightarrow> CHR 0x00 \<notin> set (param_tag syn key is_string)"
    "dsml_attr (param_tag syn key is_string @ ''>'') ''name'' = Some key"
    "\<not> suffix ''string='' key \<Longrightarrow> dsml_attr (param_tag syn key is_string @ ''>'') ''string'' = Some (if is_string then ''true'' else ''false'')"
proof -
  let ?n = "param_start syn @ '' name=''" and ?k = "append_dsml_attr_escaped key"
  let ?v = "append_dsml_attr_escaped (if is_string then ''true'' else ''false'')"
  note w = written_syntax [OF assms]
  have t: "param_tag syn key is_string @ ''>'' = ?n @ CHR 0x22 # ?k @ CHR 0x22 # '' string='' @ CHR 0x22 # ?v @ CHR 0x22 # ''>''"
    by (simp add: param_tag_def quoted_def)
  show "CHR ''>'' \<notin> set (param_tag syn key is_string)" "CHR 0x00 \<notin> set key \<Longrightarrow> CHR 0x00 \<notin> set (param_tag syn key is_string)"
    using w(10,14) attr_chars attr_chars(2) [of "if is_string then ''true'' else ''false''"] by (simp_all add: param_tag_def quoted_def)
  have nq: "CHR 0x22 \<notin> set ?n" using w(12) by simp
  show "dsml_attr (param_tag syn key is_string @ ''>'') ''name'' = Some key"
    unfolding t using attr_here [of "''name''" ?n ?k "'' string='' @ CHR 0x22 # ?v @ CHR 0x22 # ''>''"] nq attr_no_quote attr_round by (simp add: suffix_def)
  assume k: "\<not> suffix ''string='' key"
  have "\<not> suffix ''string='' ?n" using assms by (auto simp: dsml_text suffix_def append_eq_Cons_conv Cons_eq_append_conv)
  moreover have "\<not> suffix ''string='' ?k" using attr_suffix [of "''string=''" key] k by auto
  moreover have "dsml_attr ('' string='' @ CHR 0x22 # ?v @ CHR 0x22 # ''>'') ''string'' = Some (if is_string then ''true'' else ''false'')"
    using attr_here [of "''string''" "'' string=''" ?v "''>''"] attr_no_quote attr_round by (simp add: suffix_def)
  ultimately show "dsml_attr (param_tag syn key is_string @ ''>'') ''string'' = Some (if is_string then ''true'' else ''false'')"
    unfolding t using attr_later [of "''string''" ?n] attr_later [of "''string''" ?k] nq attr_no_quote by simp
qed

lemma start_invoke_written:
  assumes "ts_syn ts = syn" "syn = Ds41 \<or> syn = Ds4" "CHR 0x00 \<notin> set name"
    "drop (ts_pos ts) raw = invoke_start syn @ '' name='' @ quoted name @ ''>'' @ r"
  shows "openai_tool_start_invoke all_sent tool_id raw ts out =
    (True, ts\<lparr>ts_emitted_any := True, ts_args_open := True, ts_first_param := True, ts_pos := length raw - length r, ts_state := BETWEEN_PARAMS\<rparr>,
     out @ [Call_start (ts_index ts) (tool_id (ts_index ts)) name, Call_args (ts_index ts) ''{''])"
proof -
  note a = invoke_tag_attr [OF assms(2), of name]
  have d: "drop (ts_pos ts) raw = invoke_tag syn name @ CHR ''>'' # r" using assms(4) by (simp add: invoke_tag_def)
  note t = tag_end [OF d a(1)]
  have "c_str (invoke_tag syn name @ ''>'') = invoke_tag syn name @ ''>''" using a(2) [OF assms(3)] by (intro c_str_plain) simp
  then show ?thesis unfolding openai_tool_start_invoke_def t(1) using t(2,3) a(3) by simp
qed

lemma start_param_written:
  assumes "ts_syn ts = syn" "syn = Ds41 \<or> syn = Ds4" "CHR 0x00 \<notin> set key" "\<not> suffix ''string='' key"
    "drop (ts_pos ts) raw = param_start syn @ '' name='' @ quoted key @ '' string='' @ quoted (if is_string then ''true'' else ''false'') @ ''>'' @ r"
  shows "openai_tool_start_param all_sent raw ts out =
    (True, ts\<lparr>ts_first_param := False, ts_param_is_string := is_string, ts_pos := length raw - length r, ts_state := PARAM_VALUE\<rparr>,
     out @ [Call_args (ts_index ts) ((if ts_first_param ts then [] else '','') @ json_escape key @ '':'' @ (if is_string then [CHR 0x22] else []))])"
proof -
  note a = param_tag_attr [OF assms(2), of key is_string]
  have d: "drop (ts_pos ts) raw = param_tag syn key is_string @ CHR ''>'' # r" using assms(5) by (simp add: param_tag_def)
  note t = tag_end [OF d a(1)]
  have "c_str (param_tag syn key is_string @ ''>'') = param_tag syn key is_string @ ''>''" using a(2) [OF assms(3)] by (intro c_str_plain) simp
  then show ?thesis unfolding openai_tool_start_param_def t(1)
    using t(2,3) a(3) a(4) [OF assms(4)] by (cases is_string) (simp_all add: openai_tool_emit_param_prefix_def Let_def json_escape_def)
qed

text \<open>The steps of the stream: a call starts, an argument with its value, a call ends, the calls end.\<close>

lemma update_go:
  "openai_tool_turn send tool_id raw ts out = Go r \<Longrightarrow>
    openai_tool_stream_update send tool_id raw ts out = openai_tool_stream_update send tool_id raw (fst (snd r)) (snd (snd r))"
  by (subst openai_tool_stream_update.simps) simp

lemma read_invoke:
  assumes "ts_active ts" "ts_state ts = BETWEEN_INVOKES" "ts_syn ts = syn" "syn = Ds41 \<or> syn = Ds4" "CHR 0x00 \<notin> set name"
    "drop (ts_pos ts) raw = CHR 0x0A # invoke_start syn @ '' name='' @ quoted name @ ''>'' @ r"
  shows "openai_tool_stream_update all_sent tool_id raw ts out =
    openai_tool_stream_update all_sent tool_id raw
      (ts\<lparr>ts_emitted_any := True, ts_args_open := True, ts_first_param := True, ts_pos := length raw - length r, ts_state := BETWEEN_PARAMS\<rparr>)
      (out @ [Call_start (ts_index ts) (tool_id (ts_index ts)) name, Call_args (ts_index ts) ''{''])"
proof -
  note w = written_syntax [OF assms(4)]
  obtain m where m: "invoke_start syn = CHR ''<'' # m" using w(15) by blast
  have l: "skip_space raw (ts_pos ts) = Suc (ts_pos ts)" "Suc (ts_pos ts) < length raw"
    "drop (Suc (ts_pos ts)) raw = invoke_start syn @ '' name='' @ quoted name @ ''>'' @ r"
    using at_line [of "ts_pos ts" raw] assms(6) m by simp_all
  note i = this_marker [OF l(3)] other_marker [OF l(3) w(5) w(7)]
  define ts1 where "ts1 = ts\<lparr>ts_pos := Suc (ts_pos ts)\<rparr>"
  have t: "openai_tool_start_invoke all_sent tool_id raw ts1 out =
      (True, ts1\<lparr>ts_emitted_any := True, ts_args_open := True, ts_first_param := True, ts_pos := length raw - length r, ts_state := BETWEEN_PARAMS\<rparr>,
       out @ [Call_start (ts_index ts1) (tool_id (ts_index ts1)) name, Call_args (ts_index ts1) ''{''])"
    by (rule start_invoke_written [OF _ assms(4,5)]) (use l(3) assms(3) in \<open>simp_all add: ts1_def\<close>)
  have "openai_tool_turn all_sent tool_id raw ts out = go_unless_stuck ts1 (openai_tool_start_invoke all_sent tool_id raw ts1 out)"
    using assms(1,2,3) l i w(1,3) m by (simp add: openai_tool_turn_def between_invokes_turn_def Let_def raw_partial_any_def ts1_def)
  then have "openai_tool_turn all_sent tool_id raw ts out =
      Go (True, ts\<lparr>ts_emitted_any := True, ts_args_open := True, ts_first_param := True, ts_pos := length raw - length r, ts_state := BETWEEN_PARAMS\<rparr>,
        out @ [Call_start (ts_index ts) (tool_id (ts_index ts)) name, Call_args (ts_index ts) ''{''])"
    unfolding t using assms(2) by (simp add: go_unless_stuck_def ts1_def)
  then show ?thesis by (simp add: update_go)
qed

lemma read_invoke_end:
  assumes "ts_active ts" "ts_state ts = BETWEEN_PARAMS" "ts_args_open ts" "ts_syn ts = syn" "syn = Ds41 \<or> syn = Ds4"
    "drop (ts_pos ts) raw = CHR 0x0A # invoke_end syn @ r"
  shows "openai_tool_stream_update all_sent tool_id raw ts out =
    openai_tool_stream_update all_sent tool_id raw
      (ts\<lparr>ts_args_open := False, ts_pos := length raw - length r, ts_index := ts_index ts + 1, ts_state := BETWEEN_INVOKES\<rparr>)
      (out @ [Call_args (ts_index ts) ''}''])"
proof -
  note w = written_syntax [OF assms(5)]
  obtain m where m: "invoke_end syn = CHR ''<'' # m" using w(18) by blast
  have l: "skip_space raw (ts_pos ts) = Suc (ts_pos ts)" "Suc (ts_pos ts) < length raw" "drop (Suc (ts_pos ts)) raw = invoke_end syn @ r"
    using at_line [of "ts_pos ts" raw] assms(6) m by simp_all
  have "Suc (ts_pos ts) + length (invoke_end syn) = length raw - length r" using at_text(3) [OF l(3)] m by simp
  then have "openai_tool_turn all_sent tool_id raw ts out =
      Go (True, ts\<lparr>ts_args_open := False, ts_pos := length raw - length r, ts_index := ts_index ts + 1, ts_state := BETWEEN_INVOKES\<rparr>, out @ [Call_args (ts_index ts) ''}''])"
    using assms(1,2,3,4) l this_marker(1) [OF l(3)] m at_text(1) [of "ts_pos ts" raw "[CHR 0x0A]"] assms(6)
    by (simp add: openai_tool_turn_def between_params_turn_def Let_def)
  then show ?thesis by (simp add: update_go)
qed

lemma read_calls_end:
  assumes "ts_active ts" "ts_state ts = BETWEEN_INVOKES" "ts_syn ts = syn" "syn = Ds41 \<or> syn = Ds4"
    "drop (ts_pos ts) raw = CHR 0x0A # tool_calls_end syn @ r"
  shows "openai_tool_stream_update all_sent tool_id raw ts out =
    (True, ts\<lparr>ts_pos := length raw - length r, ts_active := False, ts_state := TOOL_DONE\<rparr>, out)"
proof -
  note w = written_syntax [OF assms(4)]
  obtain m where m: "tool_calls_end syn = CHR ''<'' # m" using w(17) by blast
  have l: "skip_space raw (ts_pos ts) = Suc (ts_pos ts)" "Suc (ts_pos ts) < length raw" "drop (Suc (ts_pos ts)) raw = tool_calls_end syn @ r"
    using at_line [of "ts_pos ts" raw] assms(5) m by simp_all
  have "Suc (ts_pos ts) + length (tool_calls_end syn) = length raw - length r" using at_text(3) [OF l(3)] m by simp
  then show ?thesis
    using assms(1,2,3) l this_marker(1) [OF l(3)] m by (subst openai_tool_stream_update.simps) (simp add: openai_tool_turn_def between_invokes_turn_def Let_def)
qed

text \<open>The text of a value inside a parameter, and the member of the JSON object it becomes.\<close>

definition literal_pair :: "bool \<Rightarrow> json_arg \<Rightarrow> string" where
  "literal_pair v41 a = json_escape (ja_key a) @ '':'' @ (if ja_is_string a then json_escape (ja_value a) else append_dsml_json_literal (ja_value a) v41)"

definition value_body :: "bool \<Rightarrow> json_arg \<Rightarrow> string" where
  "value_body v41 a = (if ja_is_string a then append_dsml_parameter_text (ja_value a) v41 else append_dsml_json_literal (ja_value a) v41)"

definition arg_text :: "bool \<Rightarrow> json_arg \<Rightarrow> string" where
  "arg_text v41 a =
     (let syn = (if v41 then Ds41 else Ds4) in
      param_start syn @ '' name='' @ quoted (ja_key a) @ '' string='' @ quoted (if ja_is_string a then ''true'' else ''false'') @ ''>''
      @ value_body v41 a @ param_end syn)"

lemma arg_text: "append_dsml_arg a v41 = arg_text v41 a @ [CHR 0x0A]"
  by (simp add: append_dsml_arg_def arg_text_def quoted_def value_body_def Let_def)

definition readable :: "json_arg \<Rightarrow> bool" where
  "readable a \<longleftrightarrow> CHR 0x00 \<notin> set (ja_key a) \<and> \<not> suffix ''string='' (ja_key a) \<and> (ja_is_string a \<longrightarrow> CHR 0x00 \<notin> set (ja_value a))"

lemma value_body_no_delimiter:
  "e = param_end (if v41 then Ds41 else Ds4) \<Longrightarrow> i \<le> length (value_body v41 a) \<Longrightarrow> \<not> prefix e (drop i (value_body v41 a))"
  using body_no_delimiter [of e i "ja_value a"] literal_no_delimiter [of e v41 i "ja_value a"] param_end_tag(1)
  by (auto simp: value_body_def append_dsml_parameter_text_def split: if_splits)

lemma value_body_text:
  assumes "readable a" "ts_syn ts = (if v41 then Ds41 else Ds4)" "ts_param_is_string ts = ja_is_string a"
  shows "value_text ts (value_body v41 a) = (if ja_is_string a then concat (map escape_char (ja_value a)) else append_dsml_json_literal (ja_value a) v41)"
proof (cases "ja_is_string a")
  case True
  have b: "value_body v41 a = append_glm_tag_body_text (ja_value a) (param_end (ts_syn ts))"
    using True assms(2) by (simp add: value_body_def append_dsml_parameter_text_def)
  have "c_str (value_body v41 a) = value_body v41 a"
    unfolding b using assms(1) True by (intro c_str_plain body_chars) (simp add: readable_def)
  then show ?thesis using True assms(3) unfolding value_text_def b by (simp add: unescape_body [OF param_end_tag(1)])
qed (use assms in \<open>simp add: value_text_def value_body_def\<close>)

lemma read_value:
  assumes "ts_active ts" "ts_state ts = PARAM_VALUE" "ts_syn ts = (if v41 then Ds41 else Ds4)" "ts_param_is_string ts = ja_is_string a" "readable a"
    "drop (ts_pos ts) raw = value_body v41 a @ param_end (ts_syn ts) @ r"
  obtains out' where "openai_tool_stream_update all_sent tool_id raw ts out =
      openai_tool_stream_update all_sent tool_id raw (ts\<lparr>ts_pos := length raw - length r, ts_state := BETWEEN_PARAMS\<rparr>) out'"
    "wire out' = wire out @ map (Client_char (ts_index ts))
      ((if ja_is_string a then concat (map escape_char (ja_value a)) @ [CHR 0x22] else append_dsml_json_literal (ja_value a) v41))"
proof -
  let ?b = "value_body v41 a" and ?e = "param_end (ts_syn ts)"
  have n: "?e \<noteq> []" using param_end_tag(1) [of "ts_syn ts"] by (simp add: close_tag_def)
  note p = at_text [of "ts_pos ts" raw "?b @ ?e" r]
  have f: "find_lit_bounded (drop (ts_pos ts) raw) ?e = Some (length ?b)"
    unfolding assms(6) by (rule first_close [OF param_end_tag(1)]) (use value_body_no_delimiter [of ?e v41] assms(3) in auto)
  define out1 where "out1 = out @ (if ?b = [] \<or> value_text ts ?b = [] then [] else [Call_args (ts_index ts) (value_text ts ?b)])"
  define out2 where "out2 = out1 @ (if ja_is_string a then [Call_args (ts_index ts) [CHR 0x22]] else [])"
  have e: "ts_pos ts + length ?b + length ?e = length raw - length r" using p(3) assms(6) n by simp
  have "take (length ?b) (drop (ts_pos ts) raw) = ?b" using assms(6) by simp
  then have "openai_tool_finish_param all_sent raw ts (ts_pos ts + length ?b) out = (True, ts\<lparr>ts_pos := length raw - length r, ts_state := BETWEEN_PARAMS\<rparr>, out2)"
    using assms(4) e by (cases "?b = []") (simp_all add: openai_tool_finish_param_def Let_def emit_value_sent out1_def out2_def value_text_Nil)
  then have "openai_tool_turn all_sent tool_id raw ts out = Go (True, ts\<lparr>ts_pos := length raw - length r, ts_state := BETWEEN_PARAMS\<rparr>, out2)"
    using assms(1,2) p(1) assms(6) n f by (simp add: openai_tool_turn_def param_value_turn_def)
  then have "openai_tool_stream_update all_sent tool_id raw ts out =
      openai_tool_stream_update all_sent tool_id raw (ts\<lparr>ts_pos := length raw - length r, ts_state := BETWEEN_PARAMS\<rparr>) out2"
    by (simp add: update_go)
  moreover have "wire out1 = wire out @ map (Client_char (ts_index ts)) (value_text ts ?b)" unfolding out1_def by (rule wire_value)
  then have "wire out2 = wire out @ map (Client_char (ts_index ts))
      (if ja_is_string a then concat (map escape_char (ja_value a)) @ [CHR 0x22] else append_dsml_json_literal (ja_value a) v41)"
    unfolding value_body_text [OF assms(5,3,4)] by (simp add: out2_def wire_append) (simp add: wire_def)
  ultimately show thesis by (rule that)
qed

lemma read_argument:
  assumes "ts_active ts" "ts_state ts = BETWEEN_PARAMS" "ts_syn ts = (if v41 then Ds41 else Ds4)" "readable a"
    "drop (ts_pos ts) raw = CHR 0x0A # arg_text v41 a @ r"
  obtains out' where "openai_tool_stream_update all_sent tool_id raw ts out =
      openai_tool_stream_update all_sent tool_id raw
        (ts\<lparr>ts_first_param := False, ts_param_is_string := ja_is_string a, ts_pos := length raw - length r, ts_state := BETWEEN_PARAMS\<rparr>) out'"
    "wire out' = wire out @ map (Client_char (ts_index ts)) ((if ts_first_param ts then [] else '','') @ literal_pair v41 a)"
proof -
  define syn where "syn = (if v41 then Ds41 else Ds4)"
  have syn: "syn = Ds41 \<or> syn = Ds4" by (simp add: syn_def)
  note w = written_syntax [OF syn]
  obtain m where m: "param_start syn = CHR ''<'' # m" using w(16) by blast
  let ?v = "value_body v41 a @ param_end syn @ r"
  let ?t = "'' name='' @ quoted (ja_key a) @ '' string='' @ quoted (if ja_is_string a then ''true'' else ''false'') @ ''>'' @ ?v"
  have x: "arg_text v41 a @ r = param_start syn @ ?t" by (simp add: arg_text_def Let_def syn_def)
  have l: "skip_space raw (ts_pos ts) = Suc (ts_pos ts)" "Suc (ts_pos ts) < length raw" "drop (Suc (ts_pos ts)) raw = param_start syn @ ?t"
    using at_line [of "ts_pos ts" raw "m @ ?t"] assms(5) m unfolding x by simp_all
  note i = this_marker [OF l(3)] other_marker [OF l(3) w(6) w(8)]
  define ts1 where "ts1 = ts\<lparr>ts_pos := Suc (ts_pos ts)\<rparr>"
  define ts2 where "ts2 = ts\<lparr>ts_first_param := False, ts_param_is_string := ja_is_string a, ts_pos := length raw - length ?v, ts_state := PARAM_VALUE\<rparr>"
  define out1 where "out1 = out @ [Call_args (ts_index ts)
    ((if ts_first_param ts then [] else '','') @ json_escape (ja_key a) @ '':'' @ (if ja_is_string a then [CHR 0x22] else []))]"
  have t: "openai_tool_start_param all_sent raw ts1 out = (True, ts2, out1)"
    using start_param_written [of ts1 syn "ja_key a" raw "ja_is_string a" ?v out] syn assms(3,4) l(3)
    by (simp add: ts1_def ts2_def out1_def readable_def syn_def [symmetric] del: append_assoc)
  have "openai_tool_turn all_sent tool_id raw ts out = go_unless_stuck ts1 (openai_tool_start_param all_sent raw ts1 out)"
    using assms(1,2,3) l i w(2,4) m by (simp add: openai_tool_turn_def between_params_turn_def Let_def raw_partial_any_def ts1_def syn_def [symmetric])
  then have g: "openai_tool_stream_update all_sent tool_id raw ts out = openai_tool_stream_update all_sent tool_id raw ts2 out1"
    unfolding t using assms(2) by (simp add: go_unless_stuck_def ts1_def ts2_def update_go)
  have d: "drop (ts_pos ts2) raw = value_body v41 a @ param_end (ts_syn ts2) @ r"
    using at_text(2,3) [of "Suc (ts_pos ts)" raw "param_start syn @ '' name='' @ quoted (ja_key a) @ '' string='' @ quoted (if ja_is_string a then ''true'' else ''false'') @ ''>''" ?v]
      l(3) assms(3) by (simp add: ts2_def syn_def [symmetric] del: append_assoc)
  obtain out2 where o: "openai_tool_stream_update all_sent tool_id raw ts2 out1 =
      openai_tool_stream_update all_sent tool_id raw (ts2\<lparr>ts_pos := length raw - length r, ts_state := BETWEEN_PARAMS\<rparr>) out2"
    "wire out2 = wire out1 @ map (Client_char (ts_index ts2))
      (if ja_is_string a then concat (map escape_char (ja_value a)) @ [CHR 0x22] else append_dsml_json_literal (ja_value a) v41)"
    by (rule read_value [where ?v41.0 = v41, OF _ _ _ _ assms(4) d]) (use assms(1,3) in \<open>simp_all add: ts2_def\<close>)
  have "wire out1 = wire out @ map (Client_char (ts_index ts))
      ((if ts_first_param ts then [] else '','') @ json_escape (ja_key a) @ '':'' @ (if ja_is_string a then [CHR 0x22] else []))"
    by (simp add: out1_def wire_append) (simp add: wire_def)
  then have "wire out2 = wire out @ map (Client_char (ts_index ts)) ((if ts_first_param ts then [] else '','') @ literal_pair v41 a)"
    unfolding o(2) by (simp add: ts2_def literal_pair_def json_escape_def)
  then show thesis using trans [OF g o(1)] by (intro that [of out2]) (simp_all add: ts2_def)
qed

lemma read_arguments:
  assumes "ts_active ts" "ts_state ts = BETWEEN_PARAMS" "ts_syn ts = (if v41 then Ds41 else Ds4)" "\<forall>a\<in>set args. readable a"
    "drop (ts_pos ts) raw = CHR 0x0A # concat (map (\<lambda>a. append_dsml_arg a v41) args) @ r"
  shows "\<exists>ts' out'. openai_tool_stream_update all_sent tool_id raw ts out = openai_tool_stream_update all_sent tool_id raw ts' out' \<and>
    ts_active ts' \<and> ts_state ts' = BETWEEN_PARAMS \<and> ts_syn ts' = ts_syn ts \<and> ts_args_open ts' = ts_args_open ts \<and> ts_index ts' = ts_index ts \<and>
    drop (ts_pos ts') raw = CHR 0x0A # r \<and>
    wire out' = wire out @ map (Client_char (ts_index ts)) (comma_pairs '','' (literal_pair v41) (\<not> ts_first_param ts) args)"
  using assms
proof (induction args arbitrary: ts out)
  case Nil
  then show ?case by (intro exI [of _ ts] exI [of _ out]) simp
next
  case (Cons a args)
  let ?r = "CHR 0x0A # concat (map (\<lambda>a. append_dsml_arg a v41) args) @ r"
  have d: "drop (ts_pos ts) raw = CHR 0x0A # arg_text v41 a @ ?r" using Cons.prems(5) by (simp add: arg_text)
  have ra: "readable a" using Cons.prems(4) by simp
  define ts1 where "ts1 = ts\<lparr>ts_first_param := False, ts_param_is_string := ja_is_string a, ts_pos := length raw - length ?r, ts_state := BETWEEN_PARAMS\<rparr>"
  obtain out1 where o: "openai_tool_stream_update all_sent tool_id raw ts out = openai_tool_stream_update all_sent tool_id raw ts1 out1"
    "wire out1 = wire out @ map (Client_char (ts_index ts)) ((if ts_first_param ts then [] else '','') @ literal_pair v41 a)"
    unfolding ts1_def by (rule read_argument [OF Cons.prems(1,2,3) ra d])
  have p: "drop (ts_pos ts1) raw = ?r"
    using at_text(2,3) [of "ts_pos ts" raw "CHR 0x0A # arg_text v41 a" ?r] d by (simp add: ts1_def)
  have s: "ts_active ts1" "ts_state ts1 = BETWEEN_PARAMS" "ts_syn ts1 = (if v41 then Ds41 else Ds4)" "\<forall>a\<in>set args. readable a"
    using Cons.prems by (simp_all add: ts1_def)
  obtain ts' out' where "openai_tool_stream_update all_sent tool_id raw ts1 out1 = openai_tool_stream_update all_sent tool_id raw ts' out'"
    "ts_active ts' \<and> ts_state ts' = BETWEEN_PARAMS \<and> ts_syn ts' = ts_syn ts1 \<and> ts_args_open ts' = ts_args_open ts1 \<and> ts_index ts' = ts_index ts1 \<and>
      drop (ts_pos ts') raw = CHR 0x0A # r"
    "wire out' = wire out1 @ map (Client_char (ts_index ts1)) (comma_pairs '','' (literal_pair v41) (\<not> ts_first_param ts1) args)"
    using Cons.IH [OF s p] by blast
  then show ?case using o by (intro exI [of _ ts'] exI [of _ out']) (simp add: ts1_def)
qed

section \<open>A written call comes back as its JSON object\<close>

definition call_args :: "tool_call \<Rightarrow> json_arg list" where
  "call_args tc = (case json_args_parse (tc_arguments tc) of Some args \<Rightarrow> args
     | None \<Rightarrow> [\<lparr>ja_key = ''arguments'', ja_value = tc_arguments tc, ja_is_string = True, ja_used = False\<rparr>])"

definition call_json :: "bool \<Rightarrow> tool_call \<Rightarrow> string" where
  "call_json v41 tc = ''{'' @ comma_pairs '','' (literal_pair v41) False (call_args tc) @ ''}''"

lemma ordered_args_plain: "json_args_parse json = Some args \<Longrightarrow> ordered_args None args = args"
  using parsed_args_unused by (simp add: ordered_args_def)

lemma call_text:
  "dsml_call_text v41 tc = invoke_start (if v41 then Ds41 else Ds4) @ '' name='' @ quoted (tc_name tc) @ ''>''
     @ CHR 0x0A # concat (map (\<lambda>a. append_dsml_arg a v41) (call_args tc)) @ invoke_end (if v41 then Ds41 else Ds4) @ [CHR 0x0A]"
proof (cases "json_args_parse (tc_arguments tc)")
  case (Some args)
  then show ?thesis
    by (simp add: dsml_call_text_def Let_def quoted_def append_dsml_arguments_from_json_def call_args_def ordered_args_plain [OF Some])
qed (simp add: dsml_call_text_def Let_def quoted_def append_dsml_arguments_from_json_def call_args_def append_dsml_arg_def)

definition plain_call :: "tool_call \<Rightarrow> bool" where
  "plain_call tc \<longleftrightarrow> CHR 0x00 \<notin> set (tc_name tc) \<and> CHR 0x00 \<notin> set (tc_arguments tc) \<and> list_all (\<lambda>a. \<not> suffix ''string='' (ja_key a)) (call_args tc)"

lemma plain_call_readable: "plain_call tc \<Longrightarrow> \<forall>a\<in>set (call_args tc). readable a"
  using parsed_args_all [of "tc_arguments tc" _ "\<lambda>a. CHR 0x00 \<notin> set (ja_key a) \<and> (ja_is_string a \<longrightarrow> CHR 0x00 \<notin> set (ja_value a))"] arg_item_fields(2,3)
  by (auto simp: plain_call_def readable_def call_args_def list_all_iff split: option.splits)

fun call_events :: "(nat \<Rightarrow> string) \<Rightarrow> bool \<Rightarrow> nat \<Rightarrow> tool_call list \<Rightarrow> client_event list" where
  "call_events tool_id v41 i [] = []"
| "call_events tool_id v41 i (tc # calls) =
     Client_start i (tool_id i) (tc_name tc) # map (Client_char i) (call_json v41 tc) @ call_events tool_id v41 (i + 1) calls"

lemma read_call:
  assumes "ts_active ts" "ts_state ts = BETWEEN_INVOKES" "ts_syn ts = (if v41 then Ds41 else Ds4)" "plain_call tc"
    "drop (ts_pos ts) raw = CHR 0x0A # dsml_call_text v41 tc @ r"
  shows "\<exists>ts' out'. openai_tool_stream_update all_sent tool_id raw ts out = openai_tool_stream_update all_sent tool_id raw ts' out' \<and>
    ts_active ts' \<and> ts_state ts' = BETWEEN_INVOKES \<and> ts_syn ts' = ts_syn ts \<and> ts_index ts' = ts_index ts + 1 \<and> drop (ts_pos ts') raw = CHR 0x0A # r \<and>
    wire out' = wire out @ Client_start (ts_index ts) (tool_id (ts_index ts)) (tc_name tc) # map (Client_char (ts_index ts)) (call_json v41 tc)"
proof -
  define syn where "syn = (if v41 then Ds41 else Ds4)"
  have syn: "syn = Ds41 \<or> syn = Ds4" by (simp add: syn_def)
  let ?b = "CHR 0x0A # concat (map (\<lambda>a. append_dsml_arg a v41) (call_args tc)) @ invoke_end syn @ CHR 0x0A # r"
  have n: "CHR 0x00 \<notin> set (tc_name tc)" using assms(4) by (simp add: plain_call_def)
  have d: "drop (ts_pos ts) raw = CHR 0x0A # invoke_start syn @ '' name='' @ quoted (tc_name tc) @ ''>'' @ ?b"
    using assms(5) by (simp add: call_text syn_def)
  define ts1 where "ts1 = ts\<lparr>ts_emitted_any := True, ts_args_open := True, ts_first_param := True, ts_pos := length raw - length ?b, ts_state := BETWEEN_PARAMS\<rparr>"
  define out1 where "out1 = out @ [Call_start (ts_index ts) (tool_id (ts_index ts)) (tc_name tc), Call_args (ts_index ts) ''{'']"
  have g1: "openai_tool_stream_update all_sent tool_id raw ts out = openai_tool_stream_update all_sent tool_id raw ts1 out1"
    unfolding ts1_def out1_def by (rule read_invoke [OF assms(1,2) _ syn n d]) (use assms(3) in \<open>simp add: syn_def\<close>)
  have p1: "drop (ts_pos ts1) raw = ?b"
    using at_text(2,3) [of "ts_pos ts" raw "CHR 0x0A # invoke_start syn @ '' name='' @ quoted (tc_name tc) @ ''>''" ?b] d by (simp add: ts1_def)
  obtain ts2 out2 where g2: "openai_tool_stream_update all_sent tool_id raw ts1 out1 = openai_tool_stream_update all_sent tool_id raw ts2 out2"
    and s2: "ts_active ts2" "ts_state ts2 = BETWEEN_PARAMS" "ts_syn ts2 = syn" "ts_args_open ts2" "ts_index ts2 = ts_index ts"
      "drop (ts_pos ts2) raw = CHR 0x0A # invoke_end syn @ CHR 0x0A # r"
      "wire out2 = wire out1 @ map (Client_char (ts_index ts)) (comma_pairs '','' (literal_pair v41) False (call_args tc))"
    using read_arguments [of ts1 v41 "call_args tc" raw "invoke_end syn @ CHR 0x0A # r" tool_id out1] assms(1,3) plain_call_readable [OF assms(4)] p1
    by (auto simp: ts1_def syn_def)
  let ?ts3 = "ts2\<lparr>ts_args_open := False, ts_pos := length raw - length (CHR 0x0A # r), ts_index := ts_index ts2 + 1, ts_state := BETWEEN_INVOKES\<rparr>"
  have g3: "openai_tool_stream_update all_sent tool_id raw ts2 out2 = openai_tool_stream_update all_sent tool_id raw ?ts3 (out2 @ [Call_args (ts_index ts2) ''}''])"
    by (rule read_invoke_end [OF s2(1,2,4,3) syn s2(6)])
  have p3: "drop (ts_pos ?ts3) raw = CHR 0x0A # r" using at_text(2,3) [of "ts_pos ts2" raw "CHR 0x0A # invoke_end syn" "CHR 0x0A # r"] s2(6) by simp
  have "wire (out2 @ [Call_args (ts_index ts2) ''}''])
      = wire out @ Client_start (ts_index ts) (tool_id (ts_index ts)) (tc_name tc) # map (Client_char (ts_index ts)) (call_json v41 tc)"
    unfolding wire_append s2(5,7) by (simp add: out1_def call_json_def wire_append) (simp add: wire_def)
  then show ?thesis using g1 g2 g3 s2(1,3) p3 assms(3)
    by (intro exI [of _ ?ts3] exI [of _ "out2 @ [Call_args (ts_index ts2) ''}'']"]) (simp add: s2(5) syn_def)
qed

lemma read_calls:
  assumes "ts_active ts" "ts_state ts = BETWEEN_INVOKES" "ts_syn ts = (if v41 then Ds41 else Ds4)" "list_all plain_call calls"
    "drop (ts_pos ts) raw = CHR 0x0A # concat (map (dsml_call_text v41) calls) @ tool_calls_end (if v41 then Ds41 else Ds4) @ r"
  shows "\<exists>ts' out'. openai_tool_stream_update all_sent tool_id raw ts out = (True, ts', out') \<and> ts_state ts' = TOOL_DONE \<and>
    drop (ts_pos ts') raw = r \<and> wire out' = wire out @ call_events tool_id v41 (ts_index ts) calls"
  using assms
proof (induction calls arbitrary: ts out)
  case Nil
  have d: "drop (ts_pos ts) raw = CHR 0x0A # tool_calls_end (if v41 then Ds41 else Ds4) @ r" using Nil.prems(5) by simp
  then show ?case using read_calls_end [OF Nil.prems(1,2,3) _ d] at_text(2,3) [of "ts_pos ts" raw "CHR 0x0A # tool_calls_end (if v41 then Ds41 else Ds4)" r]
    by simp
next
  case (Cons tc calls)
  let ?r = "concat (map (dsml_call_text v41) calls) @ tool_calls_end (if v41 then Ds41 else Ds4) @ r"
  have c: "plain_call tc" "list_all plain_call calls" "drop (ts_pos ts) raw = CHR 0x0A # dsml_call_text v41 tc @ ?r" using Cons.prems(4,5) by simp_all
  obtain ts1 out1 where g: "openai_tool_stream_update all_sent tool_id raw ts out = openai_tool_stream_update all_sent tool_id raw ts1 out1"
    and s: "ts_active ts1" "ts_state ts1 = BETWEEN_INVOKES" "ts_syn ts1 = (if v41 then Ds41 else Ds4)" "ts_index ts1 = ts_index ts + 1" "drop (ts_pos ts1) raw = CHR 0x0A # ?r"
      "wire out1 = wire out @ Client_start (ts_index ts) (tool_id (ts_index ts)) (tc_name tc) # map (Client_char (ts_index ts)) (call_json v41 tc)"
    using read_call [OF Cons.prems(1,2,3) c(1,3)] Cons.prems(3) by metis
  show ?case using Cons.IH [OF s(1,2,3) c(2) s(5), of out1] g s(4,6) by simp
qed

lemma init_written:
  assumes "raw = [CHR 0x0A, CHR 0x0A] @ tool_calls_start (if v41 then Ds41 else Ds4) @ r"
  shows "\<exists>ts. openai_tool_stream_init raw 2 = (True, ts) \<and> ts_active ts \<and> ts_state ts = BETWEEN_INVOKES \<and> ts_syn ts = (if v41 then Ds41 else Ds4) \<and>
    ts_index ts = 0 \<and> drop (ts_pos ts) raw = r"
  by (cases v41) (simp_all add: assms openai_tool_stream_init_def dsml_syntaxes_def raw_full_lit_def dsml_text)

text \<open>
  C36: Calls rendered into a prompt and then repeated by the model reach the client as they were: each call starts with its index and name, its arguments arrive as the JSON object of its members, strings unescaped from the tool syntax and escaped for JSON, and the stream ends right after the closing marker.
\<close>

theorem written_calls_stream_back:
  assumes "calls \<noteq> []" "list_all plain_call calls"
    "raw = append_dsml_tool_calls_text (Some \<lparr>tcs_v = calls, tcs_raw_tool_text = []\<rparr>) v41 @ r"
  shows "\<exists>ts ts' out. openai_tool_stream_init raw 2 = (True, ts) \<and> openai_tool_stream_update all_sent tool_id raw ts [] = (True, ts', out) \<and>
    ts_state ts' = TOOL_DONE \<and> drop (ts_pos ts') raw = r \<and> wire out = call_events tool_id v41 0 calls"
proof -
  let ?r = "CHR 0x0A # concat (map (dsml_call_text v41) calls) @ tool_calls_end (if v41 then Ds41 else Ds4) @ r"
  have raw: "raw = [CHR 0x0A, CHR 0x0A] @ tool_calls_start (if v41 then Ds41 else Ds4) @ ?r"
    using assms(1,3) by (simp add: append_dsml_tool_calls_text_def Let_def)
  obtain ts where ts: "openai_tool_stream_init raw 2 = (True, ts)" "ts_active ts" "ts_state ts = BETWEEN_INVOKES" "ts_syn ts = (if v41 then Ds41 else Ds4)"
    "ts_index ts = 0" "drop (ts_pos ts) raw = ?r" using init_written [OF raw] by blast
  show ?thesis using read_calls [OF ts(2-4) assms(2) ts(6), of tool_id "[]"] ts(1,5) by (fastforce simp: wire_def)
qed


definition sample_history :: "tool_call list" where
  "sample_history = [\<lparr>tc_id = None, tc_name = ''ls'', tc_arguments = ''{'' @ [CHR 0x22] @ ''n'' @ [CHR 0x22] @ '': 3}''\<rparr>, \<lparr>tc_id = None, tc_name = ''pwd'', tc_arguments = ''none''\<rparr>]"

lemma sample_history_plain: "sample_history \<noteq> []" "list_all plain_call sample_history"
  by (simp add: sample_history_def) code_simp

lemma written_calls_stream_back_witness:
  "\<exists>ts ts' out. openai_tool_stream_init (append_dsml_tool_calls_text (Some \<lparr>tcs_v = sample_history, tcs_raw_tool_text = []\<rparr>) True @ ''.'') 2 = (True, ts)
    \<and> openai_tool_stream_update all_sent (\<lambda>i. show_nat i) (append_dsml_tool_calls_text (Some \<lparr>tcs_v = sample_history, tcs_raw_tool_text = []\<rparr>) True @ ''.'') ts [] = (True, ts', out)
    \<and> ts_state ts' = TOOL_DONE \<and> drop (ts_pos ts') (append_dsml_tool_calls_text (Some \<lparr>tcs_v = sample_history, tcs_raw_tool_text = []\<rparr>) True @ ''.'') = ''.''
    \<and> wire out = call_events (\<lambda>i. show_nat i) True 0 sample_history"
  by (rule written_calls_stream_back [OF sample_history_plain refl])

end
