(* ===== verification/LiveText.thy ===== *)
theory LiveText
  imports ToolStream
begin

text \<open>
  How much of a reply may be shown while it is being written (\<open>text_stream_safe_limit\<close> of
  \<open>src/ds4_server.c\<close> and what it calls): where a tool call begins, which trailing spaces belong to it, which
  tail may become a marker. The lemmas say that what is before the limit is shown whatever follows.
\<close>

section \<open>Where a tool call begins\<close>

fun first_match :: "string \<Rightarrow> string list \<Rightarrow> nat option \<Rightarrow> nat option" where
  "first_match s [] best = best"
| "first_match s (lit # lits) best =
     first_match s lits (case strstr s lit of None \<Rightarrow> best
                         | Some i \<Rightarrow> (case best of None \<Rightarrow> Some i | Some b \<Rightarrow> if i < b then Some i else Some b))"

definition tool_syntaxes :: "dsml_syntax list" where "tool_syntaxes = [Ds41, Ds4, Ds4_short, Plain, Glm]"

definition find_any_tool_start :: "string \<Rightarrow> nat option" where
  "find_any_tool_start s = first_match (c_str s) (map tool_calls_start tool_syntaxes) None"

definition find_any_tool_end :: "string \<Rightarrow> nat option" where
  "find_any_tool_end s = first_match (c_str s) (map tool_calls_end tool_syntaxes) None"

fun trim_tool_separator_ws :: "string \<Rightarrow> nat \<Rightarrow> nat \<Rightarrow> nat" where
  "trim_tool_separator_ws raw start 0 = 0"
| "trim_tool_separator_ws raw start (Suc n) = (if start < Suc n \<and> isspace (raw ! n) then trim_tool_separator_ws raw start n else Suc n)"

text \<open>
  How much of a text may be shown: all of it before a tool call; while more may come, neither trailing spaces nor a
  tail that a tool marker may start in.
\<close>

definition text_stream_safe_limit :: "string \<Rightarrow> nat \<Rightarrow> bool \<Rightarrow> bool \<Rightarrow> nat" where
  "text_stream_safe_limit raw start has_tools final =
     (if length raw \<le> start then length raw
      else if has_tools then
        (case find_any_tool_start (drop start raw) of
           Some t \<Rightarrow> utf8_stream_safe_len (Some raw) start (trim_tool_separator_ws raw start (start + t)) True
         | None \<Rightarrow>
             if final then utf8_stream_safe_len (Some raw) start (length raw) final
             else
               let limit = trim_tool_separator_ws raw start (length raw);
                   scan = (if 80 < length raw - start then length raw - 80 else start);
                   limit = (case last_at raw CHR ''<'' scan (length raw) of None \<Rightarrow> limit | Some marker \<Rightarrow> if marker < limit then marker else limit);
                   limit = trim_tool_separator_ws raw start limit
               in utf8_stream_safe_len (Some raw) start limit final)
      else utf8_stream_safe_len (Some raw) start (length raw) final)"

section \<open>What is shown before a tool call\<close>

lemma first_match_Some:
  "first_match s lits best = Some i \<Longrightarrow> best = Some i \<or> (\<exists>lit\<in>set lits. prefix lit (drop i s) \<and> i + length lit \<le> length s)"
  by (induction s lits best rule: first_match.induct) (fastforce dest: strstr_Some split: option.splits if_splits)+

lemma first_match_le: "first_match s lits (Some b) = Some i \<Longrightarrow> i \<le> b"
  by (induction s lits "Some b" arbitrary: b rule: first_match.induct) (fastforce split: option.splits if_splits)+

lemma first_match_found: "first_match s lits (Some b) \<noteq> None"
  by (induction s lits "Some b" arbitrary: b rule: first_match.induct) (auto split: option.splits if_splits)

lemma first_match_least:
  "first_match s lits best = Some i \<Longrightarrow> lit \<in> set lits \<Longrightarrow> lit \<noteq> [] \<Longrightarrow> prefix lit (drop j s) \<Longrightarrow> i \<le> j"
proof (induction s lits best rule: first_match.induct)
  case (2 s l lits best)
  show ?case
  proof (cases "lit = l")
    case True
    have "j < length s" using 2(4,5) by (cases "j < length s") auto
    then obtain k where k: "strstr s l = Some k" using strstr_None [of s l j] 2(5) True by (cases "strstr s l") auto
    then have "k \<le> j" using strstr_Some [OF k] 2(5) True by (meson not_le_imp_less)
    moreover have "i \<le> k" using 2(2) k first_match_le [of s lits _ i] by (force split: option.splits if_splits)
    ultimately show ?thesis by simp
  next
    case False
    then show ?thesis using 2 by simp
  qed
qed simp

lemma first_match_None: "first_match s lits best = None \<Longrightarrow> lit \<in> set lits \<Longrightarrow> lit \<noteq> [] \<Longrightarrow> \<not> prefix lit (drop j s)"
proof (induction s lits best rule: first_match.induct)
  case (2 s l lits best)
  have n: "strstr s l = None"
    using 2(2) by (cases "strstr s l"; cases best) (auto simp: first_match_found split: if_splits)
  have "j < length s" if "prefix lit (drop j s)" using that 2(4) by (cases "j < length s") auto
  then show ?case using 2 n strstr_None [OF n, of j] by (cases "lit = l") (auto simp: not_le)
qed simp

definition call_at :: "string \<Rightarrow> nat \<Rightarrow> bool" where
  "call_at s i \<longleftrightarrow> (\<exists>syn. prefix (tool_calls_start syn) (drop i s))"

lemma call_at_list: "call_at s i \<longleftrightarrow> (\<exists>lit\<in>set (map tool_calls_start tool_syntaxes). prefix lit (drop i s))"
proof -
  have "set tool_syntaxes = UNIV" using dsml_syntax.exhaust by (auto simp: tool_syntaxes_def)
  then show ?thesis by (simp add: call_at_def)
qed

lemma call_at_bound: "call_at s i \<Longrightarrow> i < length s"
  using markers_nonempty(1) by (cases "i < length s") (auto simp: call_at_def)

lemma find_start_Some:
  "CHR 0x00 \<notin> set s \<Longrightarrow> find_any_tool_start s = Some i \<longleftrightarrow> call_at s i \<and> (\<forall>j<i. \<not> call_at s j)"
proof -
  assume n: "CHR 0x00 \<notin> set s"
  have lits: "lit \<in> set (map tool_calls_start tool_syntaxes) \<Longrightarrow> lit \<noteq> []" for lit using markers_nonempty(1) by auto
  have some: "call_at s k \<and> (\<forall>j<k. \<not> call_at s j)" if "find_any_tool_start s = Some k" for k
    using that first_match_Some [of s _ None k] first_match_least [of s _ None k] lits n
    unfolding find_any_tool_start_def call_at_list by (metis c_str_plain not_less option.discI)
  have none: "\<not> call_at s j" if "find_any_tool_start s = None" for j
    using that first_match_None [of s _ None _ j] lits n unfolding find_any_tool_start_def call_at_list by (metis c_str_plain)
  show ?thesis using some none by (cases "find_any_tool_start s") (metis linorder_neqE_nat option.inject)+
qed

lemma find_start_None: "CHR 0x00 \<notin> set s \<Longrightarrow> find_any_tool_start s = None \<longleftrightarrow> (\<forall>j. \<not> call_at s j)"
  using find_start_Some [of s] by (metis exists_least_iff not_None_eq option.discI)

text \<open>A marker has one \<open>CHR ''<''\<close>, its first character.\<close>

lemma marker_shape: "tool_calls_start syn ! 0 = CHR ''<''" "0 < k \<Longrightarrow> k < length (tool_calls_start syn) \<Longrightarrow> tool_calls_start syn ! k \<noteq> CHR ''<''"
  "length (tool_calls_start syn) \<le> 80"
proof -
  show "tool_calls_start syn ! 0 = CHR ''<''" "length (tool_calls_start syn) \<le> 80" by (cases syn; simp add: dsml_text)+
  have "CHR ''<'' \<notin> set (tl (tool_calls_start syn))" by (cases syn; simp add: dsml_text)
  then show "tool_calls_start syn ! k \<noteq> CHR ''<''" if "0 < k" "k < length (tool_calls_start syn)"
    using that by (metis Suc_pred' nth_tl length_tl less_diff_conv add.commute nth_mem plus_1_eq_Suc)
qed

lemma call_at_head: "call_at s i \<Longrightarrow> s ! i = CHR ''<''"
  using marker_shape(1) markers_nonempty(1) call_at_bound [of s i] prefix_nth [of _ "drop i s" 0] by (auto simp: call_at_def)

lemma call_at_more: "call_at s i \<Longrightarrow> call_at (s @ x) i"
  using call_at_bound [of s i] by (auto simp: call_at_def intro: prefix_prefix)

text \<open>A call that is completed by more text was open at the end, and the last \<open>CHR ''<''\<close> is its own.\<close>

lemma call_at_open:
  assumes "call_at (s @ x) i" "\<not> call_at s i" "i < length s"
  shows "s ! i = CHR ''<''" "i < j \<Longrightarrow> j < length s \<Longrightarrow> s ! j \<noteq> CHR ''<''" "length s - i < 80"
proof -
  show "s ! i = CHR ''<''" using call_at_head [OF assms(1)] assms(3) by (simp add: nth_append)
  obtain syn where syn: "prefix (tool_calls_start syn) (drop i (s @ x))" using assms(1) by (auto simp: call_at_def)
  then have l: "length s < i + length (tool_calls_start syn)" using assms(2) prefix_before [OF syn] by (force simp: call_at_def)
  then show "length s - i < 80" using marker_shape(3) [of syn] assms(3) by linarith
  show "s ! j \<noteq> CHR ''<''" if "i < j" "j < length s"
  proof -
    have k: "0 < j - i" "j - i < length (tool_calls_start syn)" using that l by arith+
    have "drop i (s @ x) ! (j - i) = s ! j" using that diff_less_mono [of j "length s" i] by (simp add: nth_append)
    then show ?thesis using marker_shape(2) [OF k] prefix_nth [OF syn k(2)] by simp
  qed
qed

lemma find_start_more:
  assumes "CHR 0x00 \<notin> set (s @ x)" "find_any_tool_start s = Some i"
  shows "find_any_tool_start (s @ x) = Some i"
proof -
  have n: "CHR 0x00 \<notin> set s" using assms(1) by simp
  have i: "call_at s i" "\<And>j. j < i \<Longrightarrow> \<not> call_at s j" using assms(2) find_start_Some [OF n] by auto
  have "\<not> call_at (s @ x) j" if "j < i" for j
    using call_at_open(2) [of s x j i] i that call_at_head [OF i(1)] call_at_bound [OF i(1)] by (meson less_trans)
  then show ?thesis using find_start_Some [OF assms(1)] call_at_more [OF i(1)] by blast
qed

abbreviation trim :: "string \<Rightarrow> nat \<Rightarrow> nat \<Rightarrow> nat" where "trim \<equiv> trim_tool_separator_ws"

lemma trim_bounds: "start \<le> n \<Longrightarrow> start \<le> trim raw start n \<and> trim raw start n \<le> n"
  by (induction n) auto

lemma trim_spaces: "trim raw start n \<le> j \<Longrightarrow> j < n \<Longrightarrow> isspace (raw ! j)"
  by (induction n) (auto split: if_splits simp: less_Suc_eq)

lemma trim_last: "start < trim raw start n \<Longrightarrow> \<not> isspace (raw ! (trim raw start n - 1))"
  by (induction n) (auto split: if_splits)

lemma trim_cong: "(\<And>j. start \<le> j \<Longrightarrow> j < n \<Longrightarrow> raw ! j = raw' ! j) \<Longrightarrow> trim raw start n = trim raw' start n"
  by (induction n) auto

lemma trim_more: "n \<le> length raw \<Longrightarrow> trim (raw @ x) start n = trim raw start n"
  by (rule trim_cong) (simp add: nth_append)

lemma trim_ge: "j < n \<Longrightarrow> start \<le> n \<Longrightarrow> \<not> isspace (raw ! j) \<Longrightarrow> j < trim raw start n"
  using trim_spaces [of raw start n j] by fastforce

lemma trim_from: "d \<le> e \<Longrightarrow> e \<le> n \<Longrightarrow> e \<le> trim raw d n \<Longrightarrow> trim raw e n = trim raw d n"
proof (induction n)
  case (Suc n)
  show ?case
  proof (cases "e = Suc n")
    case True
    then show ?thesis using Suc.prems trim_bounds [of d "Suc n" raw] trim_bounds [of e e raw] by simp
  qed (use Suc in \<open>auto split: if_splits\<close>)
qed simp

lemma trim_all: "trim raw d d = d"
  by (cases d) simp_all

lemma trim_shift: "d + n \<le> length raw \<Longrightarrow> trim raw d (d + n) = d + trim (drop d raw) 0 n"
  by (induction n) (simp_all add: trim_all)

text \<open>
  \<open>held d raw e\<close>: of the text that begins at \<open>d\<close>, what is before \<open>e\<close> is shown in any case, whatever comes after \<open>raw\<close>.
\<close>

definition held :: "nat \<Rightarrow> string \<Rightarrow> nat \<Rightarrow> bool" where
  "held d raw e \<longleftrightarrow> d \<le> e \<and> e \<le> length raw
    \<and> (\<forall>x p. CHR 0x00 \<notin> set (raw @ x) \<longrightarrow> find_any_tool_start (drop d (raw @ x)) = Some p \<longrightarrow> e \<le> trim (raw @ x) d (d + p))"

lemma held_start: "d \<le> length raw \<Longrightarrow> held d raw d"
  using trim_bounds [of d "d + _"] by (simp add: held_def)

lemma held_more: "held d raw e \<Longrightarrow> held d (raw @ y) e"
  by (simp add: held_def)

lemma call_at_drop: "call_at (drop d s) i \<longleftrightarrow> call_at s (d + i)"
  by (simp add: call_at_def add.commute)

lemma held_call:
  assumes "held d raw e" "CHR 0x00 \<notin> set (raw @ x)" "find_any_tool_start (drop d (raw @ x)) = Some p"
  shows "e \<le> d + p" "find_any_tool_start (drop e (raw @ x)) = Some (d + p - e)" "d + p < length (raw @ x)"
proof -
  let ?T = "raw @ x"
  have n: "CHR 0x00 \<notin> set (drop d ?T)" "CHR 0x00 \<notin> set (drop e ?T)" using assms(2) by (meson in_set_dropD)+
  have p: "call_at ?T (d + p)" "\<And>j. j < p \<Longrightarrow> \<not> call_at ?T (d + j)" using assms(3) find_start_Some [OF n(1)] by (simp_all only: call_at_drop, blast+)
  have "e \<le> trim ?T d (d + p)" "d \<le> e" using assms by (simp_all add: held_def)
  then show e: "e \<le> d + p" using trim_bounds [of d "d + p" ?T] by simp
  have "\<not> call_at ?T (e + j)" if "j < d + p - e" for j using p(2) [of "e + j - d"] that \<open>d \<le> e\<close> by simp
  then show "find_any_tool_start (drop e ?T) = Some (d + p - e)"
    using find_start_Some [OF n(2)] p(1) e by (simp add: call_at_drop del: drop_append)
  show "d + p < length ?T" using call_at_bound [OF p(1)] .
qed

lemma no_call_from:
  assumes "held d raw e" "CHR 0x00 \<notin> set raw"
  shows "find_any_tool_start (drop e raw) = None \<longleftrightarrow> find_any_tool_start (drop d raw) = None"
proof -
  have n: "CHR 0x00 \<notin> set (drop d raw)" "CHR 0x00 \<notin> set (drop e raw)" using assms(2) by (meson in_set_dropD)+
  have "find_any_tool_start (drop d raw) = None \<Longrightarrow> find_any_tool_start (drop e raw) = None"
    using assms(1) find_start_None [OF n(1)] find_start_None [OF n(2)] call_at_drop [of d raw] call_at_drop [of e raw]
    unfolding held_def by (metis le_Suc_ex add.assoc)
  moreover have "find_any_tool_start (drop d raw) = Some p \<Longrightarrow> find_any_tool_start (drop e raw) \<noteq> None" for p
    using held_call(2) [of d raw e "[]" p] assms by simp
  ultimately show ?thesis by (cases "find_any_tool_start (drop d raw)") auto
qed

text \<open>The limit before a call, and the limit while more may come.\<close>

lemma limit_at_call:
  assumes "held d raw e" "CHR 0x00 \<notin> set raw" "find_any_tool_start (drop e raw) = Some t"
  shows "text_stream_safe_limit raw e True final = trim raw d (e + t)" "find_any_tool_start (drop d raw) = Some (e + t - d)" "e \<le> trim raw d (e + t)"
proof -
  obtain p where p: "find_any_tool_start (drop d raw) = Some p" using no_call_from [OF assms(1,2)] assms(3) by (cases "find_any_tool_start (drop d raw)") auto
  have h: "e \<le> d + p" "t = d + p - e" "d + p < length raw" using held_call [of d raw e "[]" p] assms p by auto
  have le: "d \<le> e" "e \<le> trim raw d (d + p)" using assms(1,2) p unfolding held_def by (force, metis append_Nil2)
  show "find_any_tool_start (drop d raw) = Some (e + t - d)" using p h le by simp
  show "e \<le> trim raw d (e + t)" using le h by simp
  show "text_stream_safe_limit raw e True final = trim raw d (e + t)"
    using assms(3) h le trim_from [of d e "d + p" raw] by (simp add: text_stream_safe_limit_def utf8_stream_safe_len_def)
qed

lemma limit_held:
  assumes "held d raw e" "CHR 0x00 \<notin> set raw" "find_any_tool_start (drop e raw) = None"
  shows "held d raw (text_stream_safe_limit raw e True False)" "e \<le> text_stream_safe_limit raw e True False"
proof -
  let ?U = "text_stream_safe_limit raw e True False"
  have de: "d \<le> e" "e \<le> length raw" using assms(1) by (simp_all add: held_def)
  have "held d raw ?U \<and> e \<le> ?U"
  proof (cases "length raw = e")
    case True
    then show ?thesis using assms(1) by (simp add: text_stream_safe_limit_def)
  next
    case False
    define scan where "scan = (if 80 < length raw - e then length raw - 80 else e)"
    define l1 where "l1 = trim raw e (length raw)"
    define l2 where "l2 = (case last_at raw CHR ''<'' scan (length raw) of None \<Rightarrow> l1 | Some m \<Rightarrow> if m < l1 then m else l1)"
    define L where "L = trim raw e l2"
    have U: "?U = utf8_stream_safe_len (Some raw) e L False"
      using False de assms(3) unfolding text_stream_safe_limit_def L_def l2_def l1_def scan_def Let_def by simp
    have scan: "e \<le> scan" using de by (auto simp: scan_def)
    have l1: "e \<le> l1" "l1 \<le> length raw" using trim_bounds [of e "length raw" raw] de by (auto simp: l1_def)
    have l2: "e \<le> l2" "l2 \<le> length raw" using l1 scan last_at_Some [of raw _ scan "length raw"] by (fastforce simp: l2_def split: option.splits)+
    have L: "e \<le> L" "L \<le> l2" using trim_bounds [OF l2(1)] by (auto simp: L_def)
    have u: "e \<le> ?U" "?U \<le> L" using utf8_cut_bounds(1,2) [OF L(1), of raw] U by simp_all
    have "?U \<le> trim (raw @ x) d (d + p)" if x: "CHR 0x00 \<notin> set (raw @ x)" "find_any_tool_start (drop d (raw @ x)) = Some p" for x p
    proof (cases "?U = e")
      case True
      then show ?thesis using assms(1) x by (simp add: held_def)
    next
      case lt: False
      note h = held_call [OF assms(1) x]
      have L2: "l2 \<le> d + p"
      proof (cases "d + p < length raw")
        case True
        have n: "CHR 0x00 \<notin> set (drop d (raw @ x))" "CHR 0x00 \<notin> set (drop e raw)" using x(1) assms(2) by (meson in_set_dropD)+
        have c: "call_at (raw @ x) (d + p)" using x(2) find_start_Some [OF n(1)] by (simp only: call_at_drop)
        have "\<not> call_at raw (d + p)" using assms(3) find_start_None [OF n(2)] call_at_drop [of e raw "d + p - e"] h(1) by simp
        note o' = call_at_open [OF c this True]
        have "scan \<le> d + p" using o'(3) h(1) by (auto simp: scan_def)
        then have "last_at raw CHR ''<'' scan (length raw) = Some (d + p)"
          using last_at_None [of raw "CHR ''<''" scan "length raw" "d + p"] last_at_Some [of raw "CHR ''<''" scan "length raw"] o' True
          by (cases "last_at raw CHR ''<'' scan (length raw)") (metis linorder_neqE_nat)+
        then show ?thesis by (simp add: l2_def)
      qed (use l2(2) in simp)
      have "e < L" using u lt by linarith
      then have "L - 1 < length raw" using L l2 by linarith
      then have "\<not> isspace ((raw @ x) ! (L - 1))" using \<open>e < L\<close> trim_last [of e raw l2] L l2 by (simp add: L_def [symmetric] nth_append)
      then have "L - 1 < trim (raw @ x) d (d + p)" using trim_ge [of "L - 1" "d + p" d "raw @ x"] L L2 \<open>e < L\<close> by simp
      then show ?thesis using u(2) by linarith
    qed
    then show ?thesis using u L l2 de by (auto simp: held_def)
  qed
  then show "held d raw ?U" "e \<le> ?U" by auto
qed

end
