(* ===== verification/LiveOpenai.thy ===== *)
theory LiveOpenai
  imports LiveText
begin

text \<open>
  The stream of one reply as OpenAI deltas (\<open>openai_sse_stream_update\<close>, \<open>src/ds4_server.c\<close>): reasoning
  up to the end of thinking, then text up to a tool call, then the call. The reply a client reads does not depend on
  the pieces in which the model's text arrives.
\<close>

section \<open>The OpenAI stream of a reply\<close>

datatype openai_stream_mode = STREAM_THINKING | STREAM_TEXT | STREAM_TOOL | STREAM_SUPPRESS

record openai_stream =
  os_mode :: openai_stream_mode
  os_emit_pos :: nat
  os_active :: bool
  os_checked_think_prefix :: bool
  os_guard_second_reasoning :: bool
  os_sent_reasoning :: bool
  os_sent_content :: bool
  os_tool :: openai_tool_stream

definition openai_stream_start :: "bool \<Rightarrow> bool \<Rightarrow> openai_stream" where
  "openai_stream_start think has_tools =
     \<lparr>os_mode = if think then STREAM_THINKING else STREAM_TEXT, os_emit_pos = 0, os_active = True, os_checked_think_prefix = False,
      os_guard_second_reasoning = think \<and> has_tools, os_sent_reasoning = False, os_sent_content = False,
      os_tool = \<lparr>ts_state = BETWEEN_INVOKES, ts_syn = Ds41, ts_pos = 0, ts_index = 0, ts_active = False, ts_emitted_any = False,
                 ts_args_open = False, ts_first_param = False, ts_param_is_string = False\<rparr>\<rparr>"

definition sse_chat_delta_n :: "sender \<Rightarrow> string \<Rightarrow> string \<Rightarrow> tool_event list \<Rightarrow> bool \<times> tool_event list" where
  "sse_chat_delta_n send field txt out = (if txt = [] then (True, out) else send_event send (Text_delta field txt) out)"

text \<open>
  What the thinking part sees from the position it has reached: the end of thinking, a tool call before it, and how
  far the text may be shown.
\<close>

definition think_close :: "string \<Rightarrow> nat \<Rightarrow> nat option" where
  "think_close raw pos = strstr (c_str (drop pos raw)) ''</think>''"

definition tool_ahead :: "bool \<Rightarrow> string \<Rightarrow> nat \<Rightarrow> nat option" where
  "tool_ahead has_tools raw pos = (if has_tools then find_any_tool_start (drop pos raw) else None)"

definition tool_before_close :: "bool \<Rightarrow> string \<Rightarrow> nat \<Rightarrow> nat option" where
  "tool_before_close has_tools raw pos =
     (case tool_ahead has_tools raw pos of None \<Rightarrow> None
      | Some t \<Rightarrow> (case think_close raw pos of None \<Rightarrow> Some t | Some c \<Rightarrow> if t < c then Some t else None))"

definition thinking_limit :: "bool \<Rightarrow> string \<Rightarrow> nat \<Rightarrow> bool \<Rightarrow> nat" where
  "thinking_limit has_tools raw pos final =
     (case tool_before_close has_tools raw pos of
        Some t \<Rightarrow> trim_tool_separator_ws raw pos (pos + t)
      | None \<Rightarrow>
          (case think_close raw pos of
             Some c \<Rightarrow> pos + c
           | None \<Rightarrow>
               if final then length raw
               else let hold = 7; limit = (if hold < length raw then length raw - hold else pos) in
                 utf8_stream_safe_len (Some raw) pos limit False))"

definition slice :: "string \<Rightarrow> nat \<Rightarrow> nat \<Rightarrow> string" where
  "slice raw pos limit = take (limit - pos) (drop pos raw)"

definition openai_thinking_part ::
    "sender \<Rightarrow> bool \<Rightarrow> string \<Rightarrow> bool \<Rightarrow> openai_stream \<Rightarrow> tool_event list \<Rightarrow> (bool \<times> openai_stream \<times> tool_event list) outcome" where
  "openai_thinking_part send has_tools raw final st out =
     (if \<not> os_checked_think_prefix st \<and> length raw < 7 \<and> take (length raw) ''<think>'' = raw \<and> \<not> final then Stop (True, st, out)
      else
        let st = (if os_checked_think_prefix st then st
                  else st\<lparr>os_emit_pos := if prefix ''<think>'' raw then 7 else os_emit_pos st, os_checked_think_prefix := True\<rparr>);
            pos = os_emit_pos st;
            tool = tool_before_close has_tools raw pos;
            limit = thinking_limit has_tools raw pos final;
            (sent, out) = (if pos < limit then sse_chat_delta_n send ''reasoning_content'' (slice raw pos limit) out else (True, out))
        in if \<not> sent then Stop (False, st, out)
           else
             let st = (if pos < limit then st\<lparr>os_sent_reasoning := True, os_emit_pos := limit\<rparr> else st) in
             case tool of
               Some t \<Rightarrow> Stop (True, if find_any_tool_end (drop (pos + t) raw) \<noteq> None
                                  then st\<lparr>os_emit_pos := pos + t, os_mode := STREAM_SUPPRESS\<rparr> else st, out)
             | None \<Rightarrow>
                 (case think_close raw pos of
                    Some c \<Rightarrow> Go (True, st\<lparr>os_emit_pos := pos + c + 8, os_mode := STREAM_TEXT\<rparr>, out)
                  | None \<Rightarrow> Stop (True, if final then st\<lparr>os_mode := STREAM_SUPPRESS\<rparr> else st, out)))"

text \<open>A reply with tools that thinks may think a second time: its text is held until that is decided.\<close>

definition openai_guard_part ::
    "sender \<Rightarrow> bool \<Rightarrow> string \<Rightarrow> bool \<Rightarrow> openai_stream \<Rightarrow> tool_event list \<Rightarrow> (bool \<times> openai_stream \<times> tool_event list) outcome" where
  "openai_guard_part send has_tools raw final st out =
     (if \<not> os_guard_second_reasoning st then Go (True, st, out)
      else
        let pos = os_emit_pos st; tool = tool_ahead has_tools raw pos in
        case (case think_close raw pos of None \<Rightarrow> None
              | Some c \<Rightarrow> if (case tool of None \<Rightarrow> True | Some t \<Rightarrow> c < t) then Some c else None) of
          Some c \<Rightarrow>
            (let limit = pos + c;
                 (sent, out) = (if pos < limit then sse_chat_delta_n send ''reasoning_content'' (slice raw pos limit) out else (True, out))
             in if \<not> sent then Stop (False, st, out)
                else Go (True, st\<lparr>os_sent_reasoning := os_sent_reasoning st \<or> pos < limit, os_emit_pos := limit + 8,
                                  os_guard_second_reasoning := False\<rparr>, out))
        | None \<Rightarrow>
            if tool = None \<and> \<not> final then Stop (True, st, out)
            else Go (True, st\<lparr>os_guard_second_reasoning := False\<rparr>, out))"

definition openai_text_part ::
    "sender \<Rightarrow> bool \<Rightarrow> string \<Rightarrow> bool \<Rightarrow> openai_stream \<Rightarrow> tool_event list \<Rightarrow> (bool \<times> openai_stream \<times> tool_event list) outcome" where
  "openai_text_part send has_tools raw final st out =
     (let pos = os_emit_pos st;
          tool = tool_ahead has_tools raw pos;
          limit = text_stream_safe_limit raw pos has_tools final;
          (sent, out) = (if pos < limit then sse_chat_delta_n send ''content'' (slice raw pos limit) out else (True, out))
      in if \<not> sent then Stop (False, st, out)
         else
           let st = (if pos < limit then st\<lparr>os_sent_content := True, os_emit_pos := limit\<rparr> else st) in
           case tool of
             Some t \<Rightarrow>
               (let (started, ts) = openai_tool_stream_init raw (pos + t) in
                Go (True, st\<lparr>os_emit_pos := pos + t, os_tool := ts, os_mode := if started then STREAM_TOOL else STREAM_SUPPRESS\<rparr>, out))
           | None \<Rightarrow> Go (True, if final then st\<lparr>os_mode := STREAM_SUPPRESS\<rparr> else st, out))"

definition openai_tool_part ::
    "sender \<Rightarrow> (nat \<Rightarrow> string) \<Rightarrow> string \<Rightarrow> openai_stream \<Rightarrow> tool_event list \<Rightarrow> bool \<times> openai_stream \<times> tool_event list" where
  "openai_tool_part send tool_id raw st out =
     (let (sent, ts, out) = openai_tool_stream_update send tool_id raw (os_tool st) out; st = st\<lparr>os_tool := ts\<rparr> in
      if \<not> sent then (False, st, out)
      else (True, if ts_active ts then st else st\<lparr>os_mode := STREAM_SUPPRESS\<rparr>, out))"

text \<open>The parts in their order: each one runs if the mode is its own when it is reached.\<close>

definition then_part :: "('a \<times> 's \<times> 'e) outcome \<Rightarrow> ('s \<Rightarrow> 'e \<Rightarrow> ('a \<times> 's \<times> 'e) outcome) \<Rightarrow> ('a \<times> 's \<times> 'e) outcome" where
  "then_part r f = (case r of Stop q \<Rightarrow> Stop q | Go q \<Rightarrow> f (fst (snd q)) (snd (snd q)))"

fun openai_sse_stream_update ::
    "sender \<Rightarrow> (nat \<Rightarrow> string) \<Rightarrow> bool \<Rightarrow> string option \<Rightarrow> bool \<Rightarrow> openai_stream \<Rightarrow> tool_event list \<Rightarrow> bool \<times> openai_stream \<times> tool_event list" where
  "openai_sse_stream_update send tool_id has_tools None final st out = (True, st, out)"
| "openai_sse_stream_update send tool_id has_tools (Some raw) final st out =
     (if \<not> os_active st then (True, st, out)
      else
        case then_part (if os_mode st = STREAM_THINKING then openai_thinking_part send has_tools raw final st out else Go (True, st, out))
          (\<lambda>st out. if os_mode st = STREAM_TEXT
             then then_part (openai_guard_part send has_tools raw final st out) (openai_text_part send has_tools raw final)
             else Go (True, st, out)) of
          Stop r \<Rightarrow> r
        | Go (_, st, out) \<Rightarrow> if os_mode st = STREAM_TOOL then openai_tool_part send tool_id raw st out else (True, st, out))"

section \<open>What the client reads\<close>

fun text_in :: "string \<Rightarrow> tool_event \<Rightarrow> string" where
  "text_in field (Text_delta f txt) = (if f = field then txt else [])"
| "text_in field _ = []"

definition text_of :: "string \<Rightarrow> tool_event list \<Rightarrow> string" where
  "text_of field out = concat (map (text_in field) out)"

lemma text_of_append [simp]: "text_of field [] = []" "text_of field (out @ out') = text_of field out @ text_of field out'"
  "text_of field (ev # out) = text_in field ev @ text_of field out"
  by (simp_all add: text_of_def)

abbreviation "reasoning \<equiv> text_of ''reasoning_content''"
abbreviation "content \<equiv> text_of ''content''"

lemma delta_sent: "sse_chat_delta_n all_sent field txt out = (True, out @ (if txt = [] then [] else [Text_delta field txt]))"
  by (simp add: sse_chat_delta_n_def)

text \<open>A tool call adds no text.\<close>

lemma start_invoke_text: "openai_tool_start_invoke all_sent tool_id raw ts out = (b, ts', out') \<Longrightarrow> text_of f out' = text_of f out"
  by (auto simp: openai_tool_start_invoke_def Let_def split: option.splits if_splits)

lemma start_param_text: "openai_tool_start_param all_sent raw ts out = (b, ts', out') \<Longrightarrow> text_of f out' = text_of f out"
  by (auto simp: openai_tool_start_param_def openai_tool_emit_param_prefix_def Let_def split: option.splits if_splits)

lemma finish_param_text: "openai_tool_finish_param all_sent raw ts e out = (b, ts', out') \<Longrightarrow> text_of f out' = text_of f out"
  by (auto simp: openai_tool_finish_param_def emit_value_sent Let_def split: option.splits if_splits)

lemma turn_text:
  "(case openai_tool_turn all_sent tool_id raw ts out of Go r \<Rightarrow> r | Stop r \<Rightarrow> r) = (b, ts', out') \<Longrightarrow> text_of f out' = text_of f out"
  by (auto simp: openai_tool_turn_def between_invokes_turn_def between_params_turn_def param_value_turn_def go_unless_stuck_def emit_value_sent Let_def
      split: dsml_tool_stream_state.splits if_splits option.splits prod.splits dest: start_invoke_text start_param_text finish_param_text)

lemma update_text: "openai_tool_stream_update all_sent tool_id raw ts out = (b, ts', out') \<Longrightarrow> text_of f out' = text_of f out"
proof (induction "all_sent" tool_id raw ts out rule: openai_tool_stream_update.induct)
  case (1 tool_id raw ts out)
  show ?case
  proof (cases "openai_tool_turn all_sent tool_id raw ts out")
    case (Go r)
    then show ?thesis using 1(1) [OF Go] 1(2) turn_text [of tool_id raw ts out "fst r" "fst (snd r)" "snd (snd r)" f]
      by (simp add: openai_tool_stream_update.simps [of _ _ _ ts])
  next
    case (Stop r)
    then show ?thesis using 1(2) turn_text [of tool_id raw ts out b ts' out' f] by (simp add: openai_tool_stream_update.simps [of _ _ _ ts])
  qed
qed

lemma tool_part_text:
  "openai_tool_part all_sent tool_id raw st out = (b, st', out') \<Longrightarrow> os_mode st = STREAM_TOOL \<Longrightarrow>
    text_of f out' = text_of f out \<and> os_mode st' \<in> {STREAM_TOOL, STREAM_SUPPRESS} \<and> os_active st' = os_active st"
  by (auto simp: openai_tool_part_def Let_def dest: update_text split: prod.splits if_splits)

section \<open>The text part\<close>

text \<open>
  The whole text a reply shows: with tools, what stands before the first call, without its trailing spaces.
\<close>

definition before_call :: "bool \<Rightarrow> string \<Rightarrow> string" where
  "before_call has_tools txt =
     (case (if has_tools then find_any_tool_start txt else None) of None \<Rightarrow> txt
      | Some t \<Rightarrow> rev (dropWhile isspace (rev (take t txt))))"

lemma trim_text: "n \<le> length s \<Longrightarrow> take (trim s 0 n) s = rev (dropWhile isspace (rev (take n s)))"
proof (induction n)
  case (Suc n)
  then show ?case by (cases "isspace (s ! n)") (simp_all add: take_Suc_conv_app_nth)
qed simp

lemma cut_append: "d \<le> e \<Longrightarrow> e \<le> g \<Longrightarrow> slice raw d e @ slice raw e g = slice raw d g"
  using take_add [of "e - d" "g - e" "drop d raw"] by (simp add: slice_def)

lemma slice_more: "e \<le> length raw \<Longrightarrow> slice (raw @ x) d e = slice raw d e"
  by (simp add: slice_def)

lemma slice_Nil: "e \<le> length raw \<Longrightarrow> slice raw d e = [] \<longleftrightarrow> e \<le> d"
  by (auto simp: slice_def)

definition text_open :: "bool \<Rightarrow> nat \<Rightarrow> string \<Rightarrow> openai_stream \<Rightarrow> tool_event list \<Rightarrow> bool" where
  "text_open has_tools d raw st out \<longleftrightarrow>
     os_active st \<and> os_mode st = STREAM_TEXT \<and> \<not> os_guard_second_reasoning st \<and> d \<le> os_emit_pos st \<and> os_emit_pos st \<le> length raw
     \<and> content out = slice raw d (os_emit_pos st) \<and> (has_tools \<longrightarrow> held d raw (os_emit_pos st))"

definition text_over :: "bool \<Rightarrow> nat \<Rightarrow> string \<Rightarrow> openai_stream \<Rightarrow> tool_event list \<Rightarrow> bool" where
  "text_over has_tools d raw st out \<longleftrightarrow>
     os_active st \<and> os_mode st \<in> {STREAM_TOOL, STREAM_SUPPRESS} \<and> has_tools
     \<and> (\<exists>p. find_any_tool_start (drop d raw) = Some p \<and> content out = slice raw d (trim raw d (d + p)))"

lemma text_open_more: "text_open has_tools d raw st out \<Longrightarrow> text_open has_tools d (raw @ x) st out"
  by (auto simp: text_open_def slice_more held_more)

lemma text_over_more:
  assumes "text_over has_tools d raw st out" "CHR 0x00 \<notin> set (raw @ x)" "d \<le> length raw"
  shows "text_over has_tools d (raw @ x) st out"
proof -
  obtain p where p: "find_any_tool_start (drop d raw) = Some p" "content out = slice raw d (trim raw d (d + p))"
    using assms(1) by (auto simp: text_over_def)
  have n: "CHR 0x00 \<notin> set (drop d raw @ x)" "CHR 0x00 \<notin> set (drop d raw)" using assms(2) by (auto dest: in_set_dropD)
  have "p < length (drop d raw)" using p(1) find_start_Some [OF n(2)] call_at_bound by blast
  then have "d + p \<le> length raw" by simp
  moreover have "trim raw d (d + p) \<le> d + p" using trim_bounds [of d "d + p" raw] by simp
  moreover have "find_any_tool_start (drop d (raw @ x)) = Some p" using find_start_more [OF n(1) p(1)] assms(3) by simp
  ultimately show ?thesis using assms(1) p(2) by (auto simp: text_over_def trim_more slice_more)
qed

lemma text_over_shown:
  assumes "text_over has_tools d raw st out" "CHR 0x00 \<notin> set raw"
  shows "content out = before_call has_tools (drop d raw)"
proof -
  obtain p where p: "find_any_tool_start (drop d raw) = Some p" "content out = slice raw d (trim raw d (d + p))" "has_tools"
    using assms(1) by (auto simp: text_over_def)
  have n: "CHR 0x00 \<notin> set (drop d raw)" using assms(2) by (auto dest: in_set_dropD)
  have l: "p < length (drop d raw)" using p(1) find_start_Some [OF n] call_at_bound by blast
  then show ?thesis using p trim_shift [of d p raw] trim_text [of p "drop d raw"] by (simp add: before_call_def slice_def)
qed

lemma text_part_live:
  assumes "text_open has_tools d raw st out" "CHR 0x00 \<notin> set raw" "openai_text_part all_sent has_tools raw False st out = r"
  shows "\<exists>st' out'. r = Go (True, st', out') \<and> reasoning out' = reasoning out
    \<and> (text_open has_tools d raw st' out' \<or> text_over has_tools d raw st' out')"
proof -
  define e L where e_def: "e = os_emit_pos st" and L_def: "L = text_stream_safe_limit raw e has_tools False"
  have o: "d \<le> e" "e \<le> length raw" "content out = slice raw d e" "has_tools \<Longrightarrow> held d raw e"
    using assms(1) by (simp_all add: text_open_def e_def)
  define st1 where "st1 = (if e < L then st\<lparr>os_sent_content := True, os_emit_pos := L\<rparr> else st)"
  define out1 where "out1 = (if e < L then out @ (if slice raw e L = [] then [] else [Text_delta ''content'' (slice raw e L)]) else out)"
  have out1: "reasoning out1 = reasoning out" "content out1 = content out @ (if e < L then slice raw e L else [])" by (auto simp: out1_def)
  show ?thesis
  proof (cases "tool_ahead has_tools raw e")
    case None
    have Lb: "e \<le> L \<and> L \<le> length raw \<and> (has_tools \<longrightarrow> held d raw L)"
    proof (cases has_tools)
      case True
      then have h: "held d raw e" "find_any_tool_start (drop e raw) = None" using o(4) None by (simp_all add: tool_ahead_def)
      have hl: "held d raw L" "e \<le> L" using limit_held [OF h(1) assms(2) h(2)] True by (simp_all add: L_def)
      have "L \<le> length raw" using hl(1) unfolding held_def by blast
      then show ?thesis using hl by blast
    next
      case False
      then have "L = (if length raw \<le> e then length raw else utf8_stream_safe_len (Some raw) e (length raw) False)"
        by (simp only: L_def text_stream_safe_limit_def if_False)
      then show ?thesis using utf8_cut_bounds(1,2) [OF o(2), of raw] o(2) False
        by (cases "length raw \<le> e") simp_all
    qed
    have "os_emit_pos st1 = L" using Lb by (cases "e < L") (simp_all add: st1_def e_def [symmetric])
    moreover have "content out1 = slice raw d L" using out1(2) o Lb cut_append [of d e L raw] slice_Nil [of L raw e] by (auto simp: not_less)
    ultimately have "text_open has_tools d raw st1 out1" using assms(1) Lb o by (simp add: text_open_def st1_def)
    moreover have "r = Go (True, st1, out1)" unfolding assms(3) [symmetric] openai_text_part_def e_def [symmetric] st1_def out1_def
      by (simp add: Let_def delta_sent L_def [symmetric] None)
    ultimately show ?thesis using out1 by blast
  next
    case (Some t)
    then have h: "has_tools" "held d raw e" "find_any_tool_start (drop e raw) = Some t" using o(4) by (auto simp: tool_ahead_def split: if_splits)
    note l = limit_at_call [OF h(2) assms(2) h(3)]
    have Lb: "L = trim raw d (e + t)" "e \<le> L" using l h(1) by (simp_all add: L_def)
    have "content out1 = slice raw d L" using out1(2) o Lb cut_append [of d e L raw] by (cases "e < L") (auto simp: not_less)
    moreover have "d + (e + t - d) = e + t" using o(1) by simp
    ultimately have c: "\<exists>p. find_any_tool_start (drop d raw) = Some p \<and> content out1 = slice raw d (trim raw d (d + p))" using l(2) Lb(1) by metis
    obtain b ts where i: "openai_tool_stream_init raw (e + t) = (b, ts)" by fastforce
    define st2 where "st2 = st1\<lparr>os_emit_pos := e + t, os_tool := ts, os_mode := if b then STREAM_TOOL else STREAM_SUPPRESS\<rparr>"
    have "r = Go (True, st2, out1)" unfolding assms(3) [symmetric] openai_text_part_def e_def [symmetric] st2_def st1_def out1_def
      by (simp add: Let_def delta_sent L_def [symmetric] Some i)
    moreover have "text_over has_tools d raw st2 out1" using c h(1) assms(1) by (simp add: text_over_def st2_def st1_def text_open_def)
    ultimately show ?thesis using out1 by blast
  qed
qed

lemma text_part_final:
  assumes "text_open has_tools d raw st out" "CHR 0x00 \<notin> set raw" "openai_text_part all_sent has_tools raw True st out = r"
  shows "\<exists>st' out'. r = Go (True, st', out') \<and> reasoning out' = reasoning out \<and> content out' = before_call has_tools (drop d raw)"
proof -
  define e L where e_def: "e = os_emit_pos st" and L_def: "L = text_stream_safe_limit raw e has_tools True"
  have o: "d \<le> e" "e \<le> length raw" "content out = slice raw d e" "has_tools \<Longrightarrow> held d raw e"
    using assms(1) by (simp_all add: text_open_def e_def)
  define out1 where "out1 = (if e < L then out @ (if slice raw e L = [] then [] else [Text_delta ''content'' (slice raw e L)]) else out)"
  have out1: "reasoning out1 = reasoning out" "content out1 = content out @ (if e < L then slice raw e L else [])" by (auto simp: out1_def)
  have r: "\<exists>st'. r = Go (True, st', out1)"
    unfolding assms(3) [symmetric] openai_text_part_def e_def [symmetric] out1_def
    by (simp add: Let_def delta_sent L_def [symmetric] split: option.split prod.split)
  have "content out1 = before_call has_tools (drop d raw)"
  proof (cases "tool_ahead has_tools raw e")
    case None
    have Lb: "L = length raw" using None o(2) by (simp add: L_def text_stream_safe_limit_def tool_ahead_def utf8_stream_safe_len_def split: if_splits)
    have "content out1 = slice raw d (length raw)" using out1(2) o Lb cut_append [of d e L raw] slice_Nil [of L raw e] by (auto simp: not_less)
    moreover have "before_call has_tools (drop d raw) = drop d raw"
      using None o(4) assms(2) no_call_from [of d raw e] by (simp add: before_call_def tool_ahead_def split: if_splits)
    ultimately show ?thesis by (simp add: slice_def)
  next
    case (Some t)
    then have h: "has_tools" "held d raw e" "find_any_tool_start (drop e raw) = Some t" using o(4) by (auto simp: tool_ahead_def split: if_splits)
    note l = limit_at_call [OF h(2) assms(2) h(3)]
    have Lb: "L = trim raw d (e + t)" "e \<le> L" using l h(1) by (simp_all add: L_def)
    have "content out1 = slice raw d L" using out1(2) o Lb cut_append [of d e L raw] by (cases "e < L") (auto simp: not_less)
    moreover have "d + (e + t - d) = e + t" using o(1) by simp
    ultimately have "text_over has_tools d raw (st\<lparr>os_mode := STREAM_TOOL\<rparr>) out1" using l(2) Lb(1) h(1) assms(1)
      by (simp add: text_over_def text_open_def)
    then show ?thesis by (rule text_over_shown) (rule assms(2))
  qed
  then show ?thesis using r out1 by blast
qed

section \<open>The thinking part\<close>

text \<open>Where the reasoning begins, and what a reply that thinks shows.\<close>

definition think_start :: "string \<Rightarrow> nat" where
  "think_start raw = (if prefix ''<think>'' raw then 7 else 0)"

definition shown :: "bool \<Rightarrow> bool \<Rightarrow> string \<Rightarrow> string \<times> string" where
  "shown think has_tools raw =
     (if think then
        let txt = drop (think_start raw) raw in
        (case strstr txt ''</think>'' of None \<Rightarrow> (txt, []) | Some c \<Rightarrow> (take c txt, before_call has_tools (drop (c + 8) txt)))
      else ([], before_call has_tools raw))"

definition think_open :: "string \<Rightarrow> openai_stream \<Rightarrow> tool_event list \<Rightarrow> bool" where
  "think_open raw st out \<longleftrightarrow>
     os_active st \<and> os_mode st = STREAM_THINKING \<and> \<not> os_guard_second_reasoning st \<and> content out = []
     \<and> (if os_checked_think_prefix st
        then (7 \<le> length raw \<or> \<not> prefix raw ''<think>'') \<and> think_start raw \<le> os_emit_pos st \<and> os_emit_pos st \<le> length raw
          \<and> reasoning out = slice raw (think_start raw) (os_emit_pos st) \<and> strstr (drop (think_start raw) raw) ''</think>'' = None
          \<and> (os_emit_pos st = think_start raw \<or> os_emit_pos st + 7 \<le> length raw)
        else prefix raw ''<think>'' \<and> length raw < 7 \<and> os_emit_pos st = 0 \<and> reasoning out = [])"

lemma think_start_more:
  assumes "7 \<le> length raw \<or> \<not> prefix raw ''<think>''"
  shows "think_start (raw @ x) = think_start raw"
proof -
  have "prefix ''<think>'' raw" if p: "prefix ''<think>'' (raw @ x)"
  proof (cases "7 \<le> length raw")
    case True
    then show ?thesis using prefix_length_prefix [OF p, of raw] by simp
  next
    case False
    then have "prefix raw ''<think>''" using prefix_length_prefix [OF _ p, of raw] by simp
    then show ?thesis using assms False by simp
  qed
  then show ?thesis by (auto simp: think_start_def)
qed

text \<open>The end of thinking is found from the position that was reached as from the start.\<close>

lemma strstr_iff: "needle \<noteq> [] \<Longrightarrow> strstr s needle = Some i \<longleftrightarrow> prefix needle (drop i s) \<and> (\<forall>j<i. \<not> prefix needle (drop j s))"
proof (cases "strstr s needle")
  case None
  assume "needle \<noteq> []"
  then show ?thesis using None strstr_None [OF None, of i] by (cases "i \<le> length s") auto
next
  case (Some k)
  then show ?thesis using strstr_Some [OF Some] by (metis linorder_neqE_nat option.inject)
qed

lemma close_from:
  assumes "b \<le> e" "e \<le> length raw" "e = b \<or> e + 7 \<le> length raw" "strstr (drop b raw) ''</think>'' = None"
  shows "strstr (drop b (raw @ x)) ''</think>'' = map_option (\<lambda>c. e - b + c) (strstr (drop e (raw @ x)) ''</think>'')"
proof -
  let ?n = "''</think>''"
  have early: "\<not> prefix ?n (drop (b + j) (raw @ x))" if "b + j < e" for j
  proof
    assume p: "prefix ?n (drop (b + j) (raw @ x))"
    have "b + j + 8 \<le> length raw" using that assms(3) by auto
    then have "prefix ?n (drop (b + j) raw)" using prefix_before [OF p] by simp
    moreover have "j \<le> length raw - b" using that assms(2) by arith
    ultimately show False using strstr_None [OF assms(4), of j] by (simp add: add.commute)
  qed
  show ?thesis
  proof (cases "strstr (drop e (raw @ x)) ?n")
    case (Some c)
    then have c: "prefix ?n (drop (e + c) (raw @ x))" "\<And>j. j < c \<Longrightarrow> \<not> prefix ?n (drop (e + j) (raw @ x))"
      using strstr_iff [of ?n "drop e (raw @ x)" c] by (simp_all only: drop_drop add.commute [of _ e], blast+)
    have "\<not> prefix ?n (drop (b + j) (raw @ x))" if "j < e - b + c" for j
      using early [of j] c(2) [of "b + j - e"] that assms(1) by (cases "b + j < e") simp_all
    then have "strstr (drop b (raw @ x)) ?n = Some (e - b + c)"
      using strstr_iff [of ?n "drop b (raw @ x)" "e - b + c"] c(1) assms(1)
      by (simp only: drop_drop add.commute [of _ b]) simp
    then show ?thesis using Some by simp
  next
    case None
    have "\<not> prefix ?n (drop (b + j) (raw @ x))" for j
    proof (cases "b + j < e")
      case False
      have "\<not> prefix ?n (drop k (raw @ x))" if "e \<le> k" for k
      proof (cases "k \<le> length (raw @ x)")
        case True
        then show ?thesis using strstr_None [OF None, of "k - e"] that by (simp only: drop_drop length_drop) simp
      qed simp
      then show ?thesis using False by simp
    qed (rule early)
    then have "strstr (drop b (raw @ x)) ?n \<noteq> Some i" for i using strstr_iff [of ?n "drop b (raw @ x)" i]
      by (metis add.commute drop_drop list.distinct(1))
    then show ?thesis using None by (cases "strstr (drop b (raw @ x)) ?n") simp_all
  qed
qed

text \<open>Thinking has ended: the text begins after the tag.\<close>

definition think_over :: "string \<Rightarrow> openai_stream \<Rightarrow> tool_event list \<Rightarrow> bool" where
  "think_over raw st out \<longleftrightarrow>
     (\<exists>c. strstr (drop (think_start raw) raw) ''</think>'' = Some c \<and> (7 \<le> length raw \<or> \<not> prefix raw ''<think>'')
        \<and> reasoning out = take c (drop (think_start raw) raw)
        \<and> text_open False (think_start raw + c + 8) raw st out)"

lemma think_over_more: "think_over raw st out \<Longrightarrow> think_over (raw @ x) st out"
proof -
  assume "think_over raw st out"
  then obtain c where c: "strstr (drop (think_start raw) raw) ''</think>'' = Some c" "7 \<le> length raw \<or> \<not> prefix raw ''<think>''"
    "reasoning out = take c (drop (think_start raw) raw)" "text_open False (think_start raw + c + 8) raw st out" by (auto simp: think_over_def)
  have l: "c + 8 \<le> length (drop (think_start raw) raw)" using strstr_Some [OF c(1)] by simp
  have "7 \<le> length (raw @ x) \<or> \<not> prefix (raw @ x) ''<think>''" using c(2) append_prefixD by fastforce
  then show ?thesis using c think_start_more [OF c(2), of x] strstr_mono [OF c(1), of x] text_open_more [OF c(4), of x] l
    by (auto simp: think_over_def)
qed

text \<open>After the prefix has been looked at, the position is within the text of the reasoning.\<close>

definition think_ready :: "string \<Rightarrow> openai_stream \<Rightarrow> tool_event list \<Rightarrow> bool" where
  "think_ready raw st out \<longleftrightarrow>
     os_active st \<and> os_mode st = STREAM_THINKING \<and> \<not> os_guard_second_reasoning st \<and> os_checked_think_prefix st \<and> content out = []
     \<and> (7 \<le> length raw \<or> \<not> prefix raw ''<think>'') \<and> think_start raw \<le> os_emit_pos st \<and> os_emit_pos st \<le> length raw
     \<and> reasoning out = slice raw (think_start raw) (os_emit_pos st) \<and> (os_emit_pos st = think_start raw \<or> os_emit_pos st + 7 \<le> length raw)
     \<and> strstr (drop (think_start raw) raw) ''</think>'' = map_option (\<lambda>c. os_emit_pos st - think_start raw + c) (think_close raw (os_emit_pos st))"

definition look_at_prefix :: "string \<Rightarrow> openai_stream \<Rightarrow> openai_stream" where
  "look_at_prefix raw st =
     (if os_checked_think_prefix st then st
      else st\<lparr>os_emit_pos := if prefix ''<think>'' raw then 7 else os_emit_pos st, os_checked_think_prefix := True\<rparr>)"

lemma close_plain: "CHR 0x00 \<notin> set raw \<Longrightarrow> think_close raw pos = strstr (drop pos raw) ''</think>''"
  unfolding think_close_def by (metis c_str_plain in_set_dropD)

lemma think_ready_step:
  assumes "think_open raw0 st out" "raw = raw0 @ x" "CHR 0x00 \<notin> set raw" "os_checked_think_prefix st \<or> \<not> (length raw < 7 \<and> prefix raw ''<think>'')"
  shows "think_ready raw (look_at_prefix raw st) out"
proof (cases "os_checked_think_prefix st")
  case True
  have o: "7 \<le> length raw0 \<or> \<not> prefix raw0 ''<think>''" "think_start raw0 \<le> os_emit_pos st" "os_emit_pos st \<le> length raw0"
    "strstr (drop (think_start raw0) raw0) ''</think>'' = None" "os_emit_pos st = think_start raw0 \<or> os_emit_pos st + 7 \<le> length raw0"
    using assms(1) True by (simp_all add: think_open_def)
  have s: "think_start raw = think_start raw0" using think_start_more [OF o(1), of x] assms(2) by simp
  have "7 \<le> length raw \<or> \<not> prefix raw ''<think>''" using o(1) assms(2) append_prefixD by fastforce
  moreover have "strstr (drop (think_start raw0) raw) ''</think>'' = map_option (\<lambda>c. os_emit_pos st - think_start raw + c) (think_close raw (os_emit_pos st))"
    using close_from [OF o(2,3,5,4), of x] assms(2,3) s by (simp add: close_plain del: drop_append)
  ultimately show ?thesis using assms(1,2) True o s
    by (auto simp: think_ready_def think_open_def look_at_prefix_def slice_more)
next
  case False
  have z: "os_emit_pos st = 0" using assms(1) False by (simp add: think_open_def)
  have "think_start raw \<le> length raw" using prefix_length_le [of "''<think>''" raw] by (auto simp: think_start_def)
  then show ?thesis using assms False z
    by (auto simp: think_ready_def think_open_def look_at_prefix_def think_start_def slice_def close_plain option.map_id0 option.map_ident)
qed

lemma think_part_step:
  assumes "think_ready raw st out" "CHR 0x00 \<notin> set raw"
  shows "\<exists>st' out'. (openai_thinking_part all_sent False raw False st out = Stop (True, st', out') \<and> think_open raw st' out')
    \<or> (openai_thinking_part all_sent False raw False st out = Go (True, st', out') \<and> think_over raw st' out')"
proof -
  define b e L where b_def: "b = think_start raw" and e_def: "e = os_emit_pos st" and L_def: "L = thinking_limit False raw e False"
  have r: "b \<le> e" "e \<le> length raw" "reasoning out = slice raw b e" "content out = []" "e = b \<or> e + 7 \<le> length raw"
    "strstr (drop b raw) ''</think>'' = map_option (\<lambda>c. e - b + c) (think_close raw e)" "os_checked_think_prefix st"
    using assms(1) by (simp_all add: think_ready_def b_def e_def)
  have t: "tool_before_close False raw e = None" by (simp add: tool_before_close_def tool_ahead_def)
  define st1 where "st1 = (if e < L then st\<lparr>os_sent_reasoning := True, os_emit_pos := L\<rparr> else st)"
  define out1 where "out1 = (if e < L then out @ (if slice raw e L = [] then [] else [Text_delta ''reasoning_content'' (slice raw e L)]) else out)"
  have out1: "reasoning out1 = reasoning out @ (if e < L then slice raw e L else [])" "content out1 = []" using r(4) by (auto simp: out1_def)
  show ?thesis
  proof (cases "think_close raw e")
    case None
    define l where "l = (if 7 < length raw then length raw - 7 else e)"
    have L: "L = utf8_stream_safe_len (Some raw) e l False" by (simp add: L_def thinking_limit_def t None l_def)
    have part: "openai_thinking_part all_sent False raw False st out = Stop (True, st1, out1)"
      unfolding openai_thinking_part_def e_def [symmetric] st1_def out1_def by (simp add: Let_def delta_sent L_def [symmetric] e_def [symmetric] t None r(7))
    have "e < L \<Longrightarrow> L \<le> length raw \<and> L + 7 \<le> length raw"
    proof -
      assume lt: "e < L"
      have "e < l" using lt L utf8_cut_bounds(2) [of e l raw] by (cases "e \<le> l") (auto simp: utf8_stream_safe_len_def)
      then have "L \<le> l" using L utf8_cut_bounds(2) [of e l raw] by simp
      then show ?thesis using \<open>e < l\<close> by (auto simp: l_def split: if_splits)
    qed
    then have "think_open raw st1 out1"
      using assms(1) r out1 None cut_append [of b e L raw]
      by (auto simp: think_open_def think_ready_def st1_def b_def [symmetric] e_def [symmetric])
    then show ?thesis using part by blast
  next
    case (Some c)
    have c: "strstr (drop b raw) ''</think>'' = Some (e - b + c)" using r(6) Some by simp
    have L: "L = e + c" by (simp add: L_def thinking_limit_def t Some)
    have cl: "c + 8 \<le> length (drop e raw)" using Some assms(2) strstr_Some [of "drop e raw" "''</think>''" c] by (simp add: close_plain)
    let ?st = "st1\<lparr>os_emit_pos := e + c + 8, os_mode := STREAM_TEXT\<rparr>"
    have part: "openai_thinking_part all_sent False raw False st out = Go (True, ?st, out1)"
      unfolding openai_thinking_part_def e_def [symmetric] st1_def out1_def by (simp add: Let_def delta_sent L_def [symmetric] e_def [symmetric] t Some r(7))
    have "reasoning out1 = slice raw b (e + c)" using out1(1) r(1,3) L cut_append [of b e L raw] by auto
    then have "reasoning out1 = take (e - b + c) (drop b raw)" using r(1) by (simp add: slice_def)
    moreover have "text_open False (b + (e - b + c) + 8) raw ?st out1"
      using assms(1) out1(2) r(1,2) cl by (simp add: text_open_def think_ready_def st1_def slice_def)
    moreover have "7 \<le> length raw \<or> \<not> prefix raw ''<think>''" using assms(1) by (simp add: think_ready_def)
    ultimately have "think_over raw ?st out1" unfolding think_over_def b_def [symmetric] using c by blast
    then show ?thesis using part by blast
  qed
qed

section \<open>The reply in pieces\<close>

text \<open>The reply so far, after an update that was not the last.\<close>

definition reply_open :: "bool \<Rightarrow> bool \<Rightarrow> string \<Rightarrow> openai_stream \<Rightarrow> tool_event list \<Rightarrow> bool" where
  "reply_open think has_tools raw st out \<longleftrightarrow>
     (if think then think_open raw st out \<or> think_over raw st out
      else reasoning out = [] \<and> (text_open has_tools 0 raw st out \<or> text_over has_tools 0 raw st out))"

lemma text_update:
  assumes "text_open has_tools d raw st out" "CHR 0x00 \<notin> set raw"
    "openai_sse_stream_update all_sent tool_id has_tools (Some raw) False st out = (b, st', out')"
  shows "reasoning out' = reasoning out \<and> (text_open has_tools d raw st' out' \<or> text_over has_tools d raw st' out')"
proof -
  have o: "os_active st" "os_mode st = STREAM_TEXT" "\<not> os_guard_second_reasoning st" using assms(1) by (simp_all add: text_open_def)
  obtain st1 out1 where p: "openai_text_part all_sent has_tools raw False st out = Go (True, st1, out1)" "reasoning out1 = reasoning out"
    "text_open has_tools d raw st1 out1 \<or> text_over has_tools d raw st1 out1"
    using text_part_live [OF assms(1,2) refl] by blast
  have u: "(b, st', out') = (if os_mode st1 = STREAM_TOOL then openai_tool_part all_sent tool_id raw st1 out1 else (True, st1, out1))"
    using assms(3) o p(1) by (simp add: then_part_def openai_guard_part_def)
  show ?thesis
  proof (cases "os_mode st1 = STREAM_TOOL")
    case True
    then have "text_over has_tools d raw st1 out1" using p(3) by (simp add: text_open_def)
    moreover have "openai_tool_part all_sent tool_id raw st1 out1 = (b, st', out')" using u True by simp
    note t = tool_part_text [OF this True]
    ultimately show ?thesis using t p(2) by (auto simp: text_over_def)
  next
    case False
    then show ?thesis using u p by simp
  qed
qed

lemma over_update:
  assumes "text_over has_tools d raw st out" "openai_sse_stream_update all_sent tool_id has_tools (Some raw) final st out = (b, st', out')"
  shows "reasoning out' = reasoning out \<and> content out' = content out \<and> text_over has_tools d raw st' out'"
proof (cases "os_mode st = STREAM_TOOL")
  case True
  moreover have "os_active st" using assms(1) by (simp add: text_over_def)
  ultimately have "openai_tool_part all_sent tool_id raw st out = (b, st', out')" using assms(2) by (simp add: then_part_def)
  note t = tool_part_text [OF this True]
  show ?thesis using t [of "''content''"] t [of "''reasoning_content''"] assms(1) by (simp add: text_over_def)
next
  case False
  then have "os_mode st = STREAM_SUPPRESS" "os_active st" using assms(1) by (simp_all add: text_over_def)
  then have "(b, st', out') = (True, st, out)" using assms(2) by (simp add: then_part_def)
  then show ?thesis using assms(1) by simp
qed

lemma think_update:
  assumes "think_open raw0 st out" "raw = raw0 @ x" "CHR 0x00 \<notin> set raw"
    "openai_sse_stream_update all_sent tool_id False (Some raw) False st out = (b, st', out')"
  shows "think_open raw st' out' \<or> think_over raw st' out'"
proof -
  have o: "os_active st" "os_mode st = STREAM_THINKING" using assms(1) by (simp_all add: think_open_def)
  show ?thesis
  proof (cases "\<not> os_checked_think_prefix st \<and> length raw < 7 \<and> prefix raw ''<think>''")
    case True
    then have "take (length raw) ''<think>'' = raw" by (auto elim: prefixE simp: )
    then have "openai_thinking_part all_sent False raw False st out = Stop (True, st, out)" using True by (simp add: openai_thinking_part_def)
    then have "(b, st', out') = (True, st, out)" using assms(4) o by (simp add: then_part_def)
    then show ?thesis using assms(1) True by (simp add: think_open_def)
  next
    case False
    then have r: "think_ready raw (look_at_prefix raw st) out" using think_ready_step [OF assms(1-3)] by blast
    have n: "\<not> (\<not> os_checked_think_prefix st \<and> length raw < 7 \<and> take (length raw) ''<think>'' = raw \<and> \<not> False)" using False by (metis take_is_prefix)
    have same: "openai_thinking_part all_sent False raw False st out = openai_thinking_part all_sent False raw False (look_at_prefix raw st) out"
      unfolding openai_thinking_part_def if_not_P [OF n] by (simp add: look_at_prefix_def)
    from think_part_step [OF r assms(3)] show ?thesis
    proof (elim exE disjE conjE)
      fix st1 out1 assume p: "openai_thinking_part all_sent False raw False (look_at_prefix raw st) out = Stop (True, st1, out1)" "think_open raw st1 out1"
      then show ?thesis using assms(4) o same by (simp add: then_part_def)
    next
      fix st1 out1 assume p: "openai_thinking_part all_sent False raw False (look_at_prefix raw st) out = Go (True, st1, out1)" "think_over raw st1 out1"
      then obtain c where c: "strstr (drop (think_start raw) raw) ''</think>'' = Some c" "7 \<le> length raw \<or> \<not> prefix raw ''<think>''"
        "reasoning out1 = take c (drop (think_start raw) raw)" "text_open False (think_start raw + c + 8) raw st1 out1" by (auto simp: think_over_def)
      have a: "os_active st1" "os_mode st1 = STREAM_TEXT" using c(4) by (simp_all add: text_open_def)
      have "openai_sse_stream_update all_sent tool_id False (Some raw) False st1 out1 = (b, st', out')" using assms(4) o p(1) same a by (simp add: then_part_def)
      from text_update [OF c(4) assms(3) this] have "reasoning out' = reasoning out1" "text_open False (think_start raw + c + 8) raw st' out'"
        by (auto simp: text_over_def)
      then show ?thesis using c unfolding think_over_def by metis
    qed
  qed
qed

lemma reply_step:
  assumes "reply_open think has_tools raw0 st out" "raw = raw0 @ x" "CHR 0x00 \<notin> set raw" "\<not> (think \<and> has_tools)"
    "openai_sse_stream_update all_sent tool_id has_tools (Some raw) False st out = (b, st', out')"
  shows "reply_open think has_tools raw st' out'"
proof (cases think)
  case True
  then have ht: "has_tools = False" using assms(4) by simp
  show ?thesis
  proof (cases "think_open raw0 st out")
    case True
    then show ?thesis using think_update [OF True assms(2,3)] assms(5) ht \<open>think\<close> by (simp add: reply_open_def)
  next
    case False
    then have "think_over raw st out" using assms(1,2) \<open>think\<close> think_over_more by (simp add: reply_open_def)
    then obtain c where c: "strstr (drop (think_start raw) raw) ''</think>'' = Some c" "7 \<le> length raw \<or> \<not> prefix raw ''<think>''"
      "reasoning out = take c (drop (think_start raw) raw)" "text_open False (think_start raw + c + 8) raw st out" by (auto simp: think_over_def)
    from text_update [OF c(4) assms(3)] assms(5) ht have "reasoning out' = reasoning out" "text_open False (think_start raw + c + 8) raw st' out'"
      by (auto simp: text_over_def)
    then have "think_over raw st' out'" using c unfolding think_over_def by metis
    then show ?thesis using \<open>think\<close> by (simp add: reply_open_def)
  qed
next
  case False
  then have r: "reasoning out = []" "text_open has_tools 0 raw0 st out \<or> text_over has_tools 0 raw0 st out" using assms(1) by (simp_all add: reply_open_def)
  from r(2) show ?thesis
  proof
    assume "text_open has_tools 0 raw0 st out"
    then have "text_open has_tools 0 raw st out" using assms(2) text_open_more by simp
    from text_update [OF this assms(3,5)] show ?thesis using r(1) False by (simp add: reply_open_def)
  next
    assume "text_over has_tools 0 raw0 st out"
    then have "text_over has_tools 0 raw st out" using assms(2,3) text_over_more by simp
    from over_update [OF this assms(5)] show ?thesis using r(1) False by (simp add: reply_open_def)
  qed
qed

text \<open>
  The whole reply: an update for every piece that arrives, then the final one (\<open>openai_sse_finish_live\<close> begins with it).
\<close>

fun live_pieces ::
    "(nat \<Rightarrow> string) \<Rightarrow> bool \<Rightarrow> string \<Rightarrow> string list \<Rightarrow> openai_stream \<Rightarrow> tool_event list \<Rightarrow> bool \<times> openai_stream \<times> tool_event list" where
  "live_pieces tool_id has_tools raw [] st out = openai_sse_stream_update all_sent tool_id has_tools (Some raw) True st out"
| "live_pieces tool_id has_tools raw (c # cs) st out =
     (case openai_sse_stream_update all_sent tool_id has_tools (Some (raw @ c)) False st out of
        (_, st, out) \<Rightarrow> live_pieces tool_id has_tools (raw @ c) cs st out)"

lemma text_final:
  assumes "text_open has_tools d raw st out" "CHR 0x00 \<notin> set raw"
    "openai_sse_stream_update all_sent tool_id has_tools (Some raw) True st out = (b, st', out')"
  shows "reasoning out' = reasoning out \<and> content out' = before_call has_tools (drop d raw)"
proof -
  have o: "os_active st" "os_mode st = STREAM_TEXT" "\<not> os_guard_second_reasoning st" using assms(1) by (simp_all add: text_open_def)
  obtain st1 out1 where p: "openai_text_part all_sent has_tools raw True st out = Go (True, st1, out1)" "reasoning out1 = reasoning out"
    "content out1 = before_call has_tools (drop d raw)"
    using text_part_final [OF assms(1,2) refl] by blast
  have u: "(b, st', out') = (if os_mode st1 = STREAM_TOOL then openai_tool_part all_sent tool_id raw st1 out1 else (True, st1, out1))"
    using assms(3) o p(1) by (simp add: then_part_def openai_guard_part_def)
  show ?thesis
  proof (cases "os_mode st1 = STREAM_TOOL")
    case True
    then have "openai_tool_part all_sent tool_id raw st1 out1 = (b, st', out')" using u by simp
    note t = tool_part_text [OF this True]
    show ?thesis using t [of "''content''"] t [of "''reasoning_content''"] p(2,3) by simp
  next
    case False
    then show ?thesis using u p by simp
  qed
qed

lemma think_final:
  assumes "think_open raw st out" "CHR 0x00 \<notin> set raw"
    "openai_sse_stream_update all_sent tool_id False (Some raw) True st out = (b, st', out')"
  shows "strstr (drop (think_start raw) raw) ''</think>'' = None \<and> reasoning out' = drop (think_start raw) raw \<and> content out' = []"
proof -
  define e where "e = os_emit_pos (look_at_prefix raw st)"
  have f: "os_active st" "os_mode st = STREAM_THINKING" "content out = []" using assms(1) by (simp_all add: think_open_def)
  have e: "think_start raw \<le> e \<and> e \<le> length raw \<and> reasoning out = slice raw (think_start raw) e \<and> think_close raw e = None
    \<and> strstr (drop (think_start raw) raw) ''</think>'' = None"
  proof (cases "os_checked_think_prefix st")
    case True
    then have "think_ready raw (look_at_prefix raw st) out" using think_ready_step [OF assms(1) _ assms(2), of "[]"] by simp
    then show ?thesis using assms(1) True by (auto simp: think_ready_def think_open_def e_def look_at_prefix_def)
  next
    case False
    then have s: "length raw < 7" "os_emit_pos st = 0" "reasoning out = []" using assms(1) by (simp_all add: think_open_def)
    have "strstr raw ''</think>'' = None" using strstr_Some [of raw "''</think>''"] s(1) by (cases "strstr raw ''</think>''") auto
    moreover have "\<not> prefix ''<think>'' raw" using prefix_length_le [of "''<think>''" raw] s(1) by auto
    ultimately show ?thesis using s False assms(2) by (simp add: e_def look_at_prefix_def think_start_def slice_def close_plain)
  qed
  have t: "tool_before_close False raw e = None" by (simp add: tool_before_close_def tool_ahead_def)
  have L: "thinking_limit False raw e True = length raw" using e t by (simp add: thinking_limit_def)
  have "\<exists>st1. openai_thinking_part all_sent False raw True st out
      = Stop (True, st1, if e < length raw then out @ [Text_delta ''reasoning_content'' (slice raw e (length raw))] else out)"
    unfolding openai_thinking_part_def look_at_prefix_def [symmetric] e_def [symmetric]
    using e t L slice_Nil [of "length raw" raw e] by (simp add: Let_def delta_sent e_def [symmetric])
  then have "out' = (if e < length raw then out @ [Text_delta ''reasoning_content'' (slice raw e (length raw))] else out)"
    using assms(3) f by (auto simp: then_part_def)
  moreover have "slice raw (think_start raw) (length raw) = drop (think_start raw) raw" by (simp add: slice_def)
  ultimately show ?thesis using e f cut_append [of "think_start raw" e "length raw" raw] by (auto simp: not_less)
qed

lemma reply_final:
  assumes "reply_open think has_tools raw st out" "CHR 0x00 \<notin> set raw" "\<not> (think \<and> has_tools)"
    "openai_sse_stream_update all_sent tool_id has_tools (Some raw) True st out = (b, st', out')"
  shows "(reasoning out', content out') = shown think has_tools raw"
proof (cases think)
  case True
  then have ht: "has_tools = False" using assms(3) by simp
  show ?thesis
  proof (cases "think_open raw st out")
    case True
    then show ?thesis using think_final [OF True assms(2)] assms(4) ht \<open>think\<close> by (simp add: shown_def)
  next
    case False
    then have "think_over raw st out" using assms(1) \<open>think\<close> by (simp add: reply_open_def)
    then obtain c where c: "strstr (drop (think_start raw) raw) ''</think>'' = Some c" "reasoning out = take c (drop (think_start raw) raw)"
      "text_open False (think_start raw + c + 8) raw st out" by (auto simp: think_over_def)
    then show ?thesis using text_final [OF c(3) assms(2)] assms(4) ht \<open>think\<close> by (simp add: shown_def Let_def add.commute add.left_commute add.assoc)
  qed
next
  case False
  then have r: "reasoning out = []" "text_open has_tools 0 raw st out \<or> text_over has_tools 0 raw st out" using assms(1) by (simp_all add: reply_open_def)
  from r(2) show ?thesis
  proof
    assume "text_open has_tools 0 raw st out"
    from text_final [OF this assms(2,4)] show ?thesis using r(1) False by (simp add: shown_def)
  next
    assume o: "text_over has_tools 0 raw st out"
    from over_update [OF o assms(4)] text_over_shown [OF o assms(2)] show ?thesis using r(1) False by (simp add: shown_def)
  qed
qed

lemma reply_pieces:
  "reply_open think has_tools raw st out \<Longrightarrow> CHR 0x00 \<notin> set (raw @ concat cs) \<Longrightarrow> \<not> (think \<and> has_tools) \<Longrightarrow>
    live_pieces tool_id has_tools raw cs st out = (b, st', out') \<Longrightarrow> (reasoning out', content out') = shown think has_tools (raw @ concat cs)"
proof (induction cs arbitrary: raw st out)
  case Nil
  then show ?case using reply_final [of think has_tools raw st out tool_id b st' out'] by simp
next
  case (Cons c cs)
  obtain b1 st1 out1 where u: "openai_sse_stream_update all_sent tool_id has_tools (Some (raw @ c)) False st out = (b1, st1, out1)" by (metis prod_cases3)
  have "reply_open think has_tools (raw @ c) st1 out1" by (rule reply_step [OF Cons.prems(1) refl _ Cons.prems(3) u]) (use Cons.prems(2) in simp)
  then show ?case using Cons.IH [of "raw @ c" st1 out1] Cons.prems(2-4) u by simp
qed

lemma reply_start: "\<not> (think \<and> has_tools) \<Longrightarrow> reply_open think has_tools [] (openai_stream_start think has_tools) []"
  by (auto simp: reply_open_def openai_stream_start_def think_open_def text_open_def slice_def intro: held_start)


definition sample_reply :: "string list" where
  "sample_reply = [''Let me lo'', ''ok.  '', ''<tool_'', ''calls><invoke name=\"f\">'']"


text \<open>
  With thinking and tools together the pieces do matter: the thinking part keeps back what may be the end of thinking,
  not what may be a tool marker. The same reply shows \<open>Hm\<close> when it comes at once, and a part of the marker
  when it comes in two pieces.
\<close>

lemma thinking_marker_leaks:
  "reasoning (snd (snd (live_pieces (\<lambda>_. ''id'') True [] [''Hm<tool_calls></tool_calls>''] (openai_stream_start True True) []))) = ''Hm''"
  "reasoning (snd (snd (live_pieces (\<lambda>_. ''id'') True [] [''Hm<tool_calls'', ''></tool_calls>''] (openai_stream_start True True) [])))
    = ''Hm<tool_calls></tool_calls>''"
  by code_simp+

end
