(* ===== verification/ToolParse.thy ===== *)
theory ToolParse
  imports ToolHistory LiveOpenai
begin

text \<open>
  The parsers of a finished message (\<open>src/ds4_server.c\<close>, from \<open>find_tool_structural_text\<close> to
  \<open>parse_generated_message_for_response_for_syntax\<close>): where reasoning ends and the calls begin, the calls of both
  syntaxes, and the repair of a block that lost its end. Texts are C strings, so a list without NUL; a position in the
  text is an offset or the suffix that starts there, and \<open>None\<close> stands for the result false.
\<close>

section \<open>Searching a generated message\<close>

definition skip_ascii_ws :: "string \<Rightarrow> string" where
  "skip_ascii_ws p = dropWhile isspace p"

text \<open>The wrappers of literal data: protocol-looking text inside of them is skipped. Positions are offsets from the start.\<close>

definition tool_wrappers :: "(string \<times> string) list" where
  "tool_wrappers = [(param_start Ds41, param_end Ds41), (param_start Ds4, param_end Ds4), (param_start Ds4_short, param_end Ds4_short),
     (''<parameter'', ''</parameter>''), (''<arg_key>'', ''</arg_key>''), (''<arg_value>'', ''</arg_value>'')]"

definition wrapper_end :: "string \<Rightarrow> string \<Rightarrow> nat option" where
  "wrapper_end s close =
     (case strchr s CHR ''>'' of None \<Rightarrow> None
      | Some g \<Rightarrow> map_option (\<lambda>e. g + 1 + e + length close) (strstr (drop (g + 1) s) close))"

function structural_from :: "string \<Rightarrow> bool \<Rightarrow> nat \<Rightarrow> nat option \<Rightarrow> string \<Rightarrow> nat option" where
  "structural_from needle want_last pos found [] = found"
| "structural_from needle want_last pos found (c # cs) =
     (let here = prefix needle (c # cs); found = (if here then Some pos else found) in
      if here \<and> \<not> want_last then found
      else case find (\<lambda>w. prefix (fst w) (c # cs)) tool_wrappers of
        None \<Rightarrow> structural_from needle want_last (pos + 1) found cs
      | Some w \<Rightarrow>
          (case wrapper_end (c # cs) (snd w) of None \<Rightarrow> found
           | Some n \<Rightarrow> structural_from needle want_last (pos + n) found (drop n (c # cs))))"
  by pat_completeness auto
termination
  by (relation "measure (\<lambda>(needle, want_last, pos, found, s). length s)")
    (auto simp: wrapper_end_def split: option.splits)

declare structural_from.simps [simp del]

definition find_tool_structural_text :: "string \<Rightarrow> string \<Rightarrow> bool \<Rightarrow> nat option" where
  "find_tool_structural_text s needle want_last = structural_from needle want_last 0 None s"

section \<open>Reasoning and content\<close>

definition split_reasoning_content :: "string \<Rightarrow> nat \<Rightarrow> string \<times> string option" where
  "split_reasoning_content txt n =
     (let s = take n txt; body = (if prefix ''<think>'' s then drop 7 s else s) in
      case strstr body ''</think>'' of
        Some e \<Rightarrow> (drop (e + 8) body, Some (take e body))
      | None \<Rightarrow> (s, None))"

definition ds4_local_unterminated_reasoning :: "string \<Rightarrow> string \<times> string option" where
  "ds4_local_unterminated_reasoning txt = ([], Some (if prefix ''<think>'' txt then drop 7 txt else txt))"

definition ds4_unterminated_reasoning_before_tool :: "string \<Rightarrow> nat \<Rightarrow> string \<times> string option" where
  "ds4_unterminated_reasoning_before_tool txt prefix_len =
     (let n = min prefix_len (length txt) in
      if 7 \<le> n \<and> prefix ''<think>'' txt then ([], Some (take (n - 7) (drop 7 txt))) else ([], Some (take n txt)))"

section \<open>The calls of a DSML message\<close>

definition tool_call_json_args_add :: "string \<Rightarrow> string \<Rightarrow> string \<Rightarrow> string \<Rightarrow> string" where
  "tool_call_json_args_add args name value is_string =
     args @ (if args = [] then [] else '', '') @ json_escape name @ '': '' @
     (if is_string = ''true'' then json_escape value
      else let m = json_minify_raw_value (Some value) in if m = [] then ''null'' else m)"

definition typed_value :: "string option \<Rightarrow> string \<Rightarrow> string \<Rightarrow> string \<times> string" where
  "typed_value is_string raw close =
     (let ty = (case is_string of None \<Rightarrow> ''true'' | Some t \<Rightarrow> t)
      in (if ty = ''true'' then ds4_tool_text_unescape raw close else raw, ty))"

definition dsml_parse_leaf_param_json :: "string \<Rightarrow> string \<Rightarrow> string \<Rightarrow> string \<Rightarrow> (string \<times> string) option" where
  "dsml_parse_leaf_param_json start close p out =
     (if \<not> prefix start p then None
      else case strchr p CHR ''>'' of None \<Rightarrow> None
      | Some g \<Rightarrow>
          (case dsml_attr (take (g + 1) p) ''name'' of None \<Rightarrow> None
           | Some name \<Rightarrow>
               (case strstr (drop (g + 1) p) close of None \<Rightarrow> None
                | Some e \<Rightarrow>
                    let (value, ty) = typed_value (dsml_attr (take (g + 1) p) ''string'') (take e (drop (g + 1) p)) close in
                    Some (drop (g + 1 + e + length close) p, tool_call_json_args_add out name value ty))))"

lemma leaf_shorter: "dsml_parse_leaf_param_json start close p out = Some (q, out') \<Longrightarrow> length q < length p"
  by (auto simp: dsml_parse_leaf_param_json_def Let_def split: if_splits option.splits prod.splits dest!: strchr_Some)

lemma ws_shorter: "length (skip_ascii_ws p) \<le> length p"
  by (simp add: skip_ascii_ws_def length_dropWhile_le)

function nested_members :: "string \<Rightarrow> string \<Rightarrow> string \<Rightarrow> string \<Rightarrow> bool \<Rightarrow> (string \<times> string \<times> bool) option" where
  "nested_members start close p members some_yet =
     (let p = skip_ascii_ws p in
      if \<not> prefix start p then Some (p, members, some_yet)
      else case dsml_parse_leaf_param_json start close p members of
        None \<Rightarrow> None
      | Some (q, members) \<Rightarrow> nested_members start close q members True)"
  by pat_completeness auto
termination
  by (relation "measure (\<lambda>(start, close, p, members, some_yet). length p)")
    (auto dest!: leaf_shorter intro: less_le_trans ws_shorter)

declare nested_members.simps [simp del]

definition dsml_parse_nested_params_object :: "string \<Rightarrow> string \<Rightarrow> string \<Rightarrow> (string \<times> string) option" where
  "dsml_parse_nested_params_object start close p =
     (case nested_members start close p [] False of
        Some (q, members, True) \<Rightarrow> Some (q, ''{'' @ members @ ''}'')
      | _ \<Rightarrow> None)"

text \<open>One parameter: a typed value, or an untyped one that holds parameters of its own.\<close>

definition dsml_parse_param :: "dsml_syntax \<Rightarrow> string \<Rightarrow> string \<Rightarrow> (string \<times> string) option" where
  "dsml_parse_param syn p args =
     (case strchr p CHR ''>'' of None \<Rightarrow> None
      | Some g \<Rightarrow>
          let tag = take (g + 1) p; v = drop (g + 1) p; close = param_end syn in
          (case dsml_attr tag ''name'' of None \<Rightarrow> None
           | Some name \<Rightarrow>
               let is_string = dsml_attr tag ''string'' in
               if is_string = None \<and> prefix (param_start syn) (skip_ascii_ws v)
               then (case dsml_parse_nested_params_object (param_start syn) close v of None \<Rightarrow> None
                     | Some (q, obj) \<Rightarrow>
                         let q = skip_ascii_ws q in
                         Some (if prefix close q then drop (length close) q else q, tool_call_json_args_add args name obj ''false''))
               else (case strstr v close of None \<Rightarrow> None
                     | Some e \<Rightarrow>
                         let (value, ty) = typed_value is_string (take e v) close in
                         Some (drop (e + length close) v, tool_call_json_args_add args name value ty))))"

lemma nested_members_shorter: "nested_members start close p members b = Some (q, members', b') \<Longrightarrow> length q \<le> length p"
proof (induction start close p members b rule: nested_members.induct)
  case (1 start close p members b)
  show ?case
  proof (cases "prefix start (skip_ascii_ws p)")
    case False
    then show ?thesis using 1(2) nested_members.simps [of start close p members b] ws_shorter [of p] by simp
  next
    case True
    then obtain r m where l: "dsml_parse_leaf_param_json start close (skip_ascii_ws p) members = Some (r, m)"
      using 1(2) nested_members.simps [of start close p members b] by (auto split: option.splits)
    have "length q \<le> length r" using 1(1) [OF refl _ l refl] 1(2) True l nested_members.simps [of start close p members b] by simp
    then show ?thesis using leaf_shorter [OF l] ws_shorter [of p] by simp
  qed
qed

lemma nested_object_shorter: "dsml_parse_nested_params_object start close p = Some (q, obj) \<Longrightarrow> length q \<le> length p"
  by (auto simp: dsml_parse_nested_params_object_def split: option.splits prod.splits bool.splits dest: nested_members_shorter)

lemma param_shorter: "dsml_parse_param syn p args = Some (q, args') \<Longrightarrow> length q < length p"
proof -
  assume a: "dsml_parse_param syn p args = Some (q, args')"
  obtain g where g: "strchr p CHR ''>'' = Some g" using a by (auto simp: dsml_parse_param_def split: option.splits)
  have l: "length (drop (g + 1) p) < length p" using strchr_Some [OF g] by (simp, linarith)
  have "length q \<le> length (drop (g + 1) p)"
    using a g by (auto simp: dsml_parse_param_def Let_def split: if_splits option.splits prod.splits
        dest!: nested_object_shorter intro: le_trans [OF diff_le_self] le_trans [OF ws_shorter] le_trans [OF diff_le_self le_trans [OF ws_shorter]])
  then show ?thesis using l by linarith
qed

function dsml_parse_params :: "dsml_syntax \<Rightarrow> string \<Rightarrow> string \<Rightarrow> (string \<times> string) option" where
  "dsml_parse_params syn p args =
     (let p = skip_ascii_ws p in
      if prefix (invoke_end syn) p then Some (args, drop (length (invoke_end syn)) p)
      else if \<not> prefix (param_start syn) p then None
      else case dsml_parse_param syn p args of None \<Rightarrow> None | Some (q, args) \<Rightarrow> dsml_parse_params syn q args)"
  by pat_completeness auto
termination
  by (relation "measure (\<lambda>(syn, p, args). length p)") (auto dest!: param_shorter intro: less_le_trans ws_shorter)

declare dsml_parse_params.simps [simp del]

definition dsml_parse_invoke :: "dsml_syntax \<Rightarrow> string \<Rightarrow> (tool_call \<times> string) option" where
  "dsml_parse_invoke syn p =
     (case strchr p CHR ''>'' of None \<Rightarrow> None
      | Some g \<Rightarrow>
          (case dsml_attr (take (g + 1) p) ''name'' of None \<Rightarrow> None
           | Some name \<Rightarrow>
               (case dsml_parse_params syn (drop (g + 1) p) [] of None \<Rightarrow> None
                | Some (args, q) \<Rightarrow> Some (\<lparr>tc_id = None, tc_name = name, tc_arguments = ''{'' @ args @ ''}''\<rparr>, q))))"

lemma params_shorter: "dsml_parse_params syn p args = Some (args', q) \<Longrightarrow> length q \<le> length p"
proof (induction syn p args rule: dsml_parse_params.induct)
  case (1 syn p args)
  let ?p = "skip_ascii_ws p"
  show ?case
  proof (cases "prefix (invoke_end syn) ?p")
    case True
    then show ?thesis using 1(2) dsml_parse_params.simps [of syn p args] ws_shorter [of p] by auto
  next
    case False
    then obtain r a where l: "prefix (param_start syn) ?p" "dsml_parse_param syn ?p args = Some (r, a)"
      using 1(2) dsml_parse_params.simps [of syn p args] by (auto simp: Let_def split: option.splits if_splits)
    have "length q \<le> length r" using 1(1) [OF refl False _ l(2) refl] 1(2) False l dsml_parse_params.simps [of syn p args] by simp
    then show ?thesis using param_shorter [OF l(2)] ws_shorter [of p] by simp
  qed
qed

lemma invoke_shorter: "dsml_parse_invoke syn p = Some (tc, q) \<Longrightarrow> length q < length p"
  by (auto simp: dsml_parse_invoke_def split: option.splits prod.splits dest!: params_shorter strchr_Some)

function dsml_parse_calls :: "dsml_syntax \<Rightarrow> string \<Rightarrow> tool_call list \<Rightarrow> (tool_call list \<times> string) option" where
  "dsml_parse_calls syn p calls =
     (let p = skip_ascii_ws p in
      if prefix (tool_calls_end syn) p then Some (calls, drop (length (tool_calls_end syn)) p)
      else if \<not> prefix (invoke_start syn) p then None
      else case dsml_parse_invoke syn p of None \<Rightarrow> None | Some (tc, q) \<Rightarrow> dsml_parse_calls syn q (calls @ [tc]))"
  by pat_completeness auto
termination
  by (relation "measure (\<lambda>(syn, p, calls). length p)") (auto dest!: invoke_shorter intro: less_le_trans ws_shorter)

declare dsml_parse_calls.simps [simp del]

section \<open>A generated message\<close>

fun first_found :: "string \<Rightarrow> (string \<times> 'a) list \<Rightarrow> (nat \<times> 'a) option" where
  "first_found s [] = None"
| "first_found s ((needle, x) # cands) = (case strstr s needle of Some i \<Rightarrow> Some (i, x) | None \<Rightarrow> first_found s cands)"

definition with_break :: "string \<Rightarrow> string" where "with_break m = [CHR 0x0A, CHR 0x0A] @ m"

definition dsml_block_start :: "string \<Rightarrow> (nat \<times> dsml_syntax) option" where
  "dsml_block_start s =
     (let start = first_found s (concat (map (\<lambda>syn. [(with_break (tool_calls_start syn), syn), (tool_calls_start syn, syn)]) [Ds4, Ds4_short, Plain]));
          v41 = first_found s [(with_break (tool_calls_start Ds41), Ds41), (tool_calls_start Ds41, Ds41)]
      in case v41 of None \<Rightarrow> start
         | Some v \<Rightarrow> (case start of None \<Rightarrow> Some v | Some t \<Rightarrow> if fst v < fst t then Some v else Some t))"

definition dsml_tool_search :: "string \<Rightarrow> bool \<Rightarrow> (nat \<times> bool) option" where
  "dsml_tool_search txt require_thinking_closed =
     (if \<not> require_thinking_closed then Some (0, False)
      else case find_tool_structural_text txt ''</think>'' True of
        Some e \<Rightarrow> Some (e + 8, False)
      | None \<Rightarrow>
          (case find_any_tool_start txt of None \<Rightarrow> None
           | Some i \<Rightarrow> if find_any_tool_end (drop i txt) = None then None else Some (i, True)))"

definition no_tool_calls :: tool_calls where
  "no_tool_calls = \<lparr>tcs_v = [], tcs_raw_tool_text = []\<rparr>"

text \<open>\<open>None\<close> where the C function returns false; otherwise content, reasoning and calls.\<close>

definition parse_deepseek_generated_message_ex :: "string \<Rightarrow> bool \<Rightarrow> ((string \<times> string option) \<times> tool_calls) option" where
  "parse_deepseek_generated_message_ex txt require_thinking_closed =
     (case dsml_tool_search txt require_thinking_closed of
        None \<Rightarrow> Some (ds4_local_unterminated_reasoning txt, no_tool_calls)
      | Some (d, recovered) \<Rightarrow>
          (case dsml_block_start (drop d txt) of
             None \<Rightarrow> Some (split_reasoning_content txt (length txt), no_tool_calls)
           | Some (i, syn) \<Rightarrow>
               let start = d + i; content_len = trim_tool_separator_ws txt 0 start in
               (case strstr (drop start txt) (tool_calls_start syn) of None \<Rightarrow> None
                | Some k \<Rightarrow>
                    (case dsml_parse_calls syn (drop (start + k + length (tool_calls_start syn)) txt) [] of None \<Rightarrow> None
                     | Some (calls, q) \<Rightarrow>
                         Some (if recovered then ds4_unterminated_reasoning_before_tool txt content_len else split_reasoning_content txt content_len,
                               \<lparr>tcs_v = calls, tcs_raw_tool_text = take (length txt - length q - start) (drop start txt)\<rparr>)))))"

section \<open>The calls of a GLM message\<close>

text \<open>Both ends of a span without the space around it; pointers into the text are compared by the length of what follows
  them. The numbers are the lengths of the markers.\<close>

definition trim_const_span :: "string \<Rightarrow> nat \<times> nat" where
  "trim_const_span s =
     (let a = length (takeWhile isspace s); b = length s - length (takeWhile isspace (rev s)) in (a, max a b))"

definition trimmed_span :: "string \<Rightarrow> string" where
  "trimmed_span s = (let (a, b) = trim_const_span s in take (b - a) (drop a s))"

definition glm_parse_arg :: "nat \<Rightarrow> string \<Rightarrow> string \<Rightarrow> (string \<times> string) option" where
  "glm_parse_arg close_left p args =
     (let p = drop 9 p in
      case strstr p ''</arg_key>'' of None \<Rightarrow> None
      | Some k \<Rightarrow>
          if length (drop k p) < close_left then None
          else
            let key = ds4_tool_text_unescape (trimmed_span (take k p)) ''</arg_key>'';
                p = skip_ascii_ws (drop (k + 10) p)
            in if \<not> prefix ''<arg_value>'' p then None
               else
                 let p = drop 11 p in
                 case strstr p ''</arg_value>'' of None \<Rightarrow> None
                 | Some e \<Rightarrow>
                     if length (drop e p) < close_left then None
                     else Some (drop (e + 12) p,
                                tool_call_json_args_add args key (ds4_tool_text_unescape (take e p) ''</arg_value>'') ''true''))"

lemma glm_arg_shorter: "glm_parse_arg n p args = Some (q, args') \<Longrightarrow> prefix ''<arg_key>'' p \<Longrightarrow> length q < length p"
proof -
  assume a: "glm_parse_arg n p args = Some (q, args')" "prefix ''<arg_key>'' p"
  obtain k where k: "strstr (drop 9 p) ''</arg_key>'' = Some k" using a(1) by (auto simp: glm_parse_arg_def Let_def split: option.splits)
  let ?p = "skip_ascii_ws (drop (k + 10) (drop 9 p))"
  have "length q \<le> length ?p" using a(1) k by (auto simp: glm_parse_arg_def Let_def split: option.splits if_splits)
  moreover have "length ?p \<le> length (drop (k + 10) (drop 9 p))" by (rule ws_shorter)
  moreover have "length (drop (k + 10) (drop 9 p)) < length p" using prefix_length_le [OF a(2)] by auto
  ultimately show ?thesis by linarith
qed

function glm_parse_args :: "nat \<Rightarrow> string \<Rightarrow> string \<Rightarrow> (string \<times> string) option" where
  "glm_parse_args close_left p args =
     (let p = skip_ascii_ws p in
      if prefix ''</tool_call>'' p then Some (args, drop 12 p)
      else if \<not> prefix ''<arg_key>'' p then None
      else case glm_parse_arg close_left p args of None \<Rightarrow> None | Some (q, args) \<Rightarrow> glm_parse_args close_left q args)"
  by pat_completeness auto
termination
  by (relation "measure (\<lambda>(n, p, args). length p)") (auto dest!: glm_arg_shorter intro: less_le_trans ws_shorter)

declare glm_parse_args.simps [simp del]

definition glm_parse_call :: "string \<Rightarrow> (tool_call \<times> string) option" where
  "glm_parse_call p =
     (case find_tool_structural_text p ''</tool_call>'' False of None \<Rightarrow> None
      | Some close \<Rightarrow>
          let name_len = (case strstr p ''<arg_key>'' of None \<Rightarrow> close | Some a \<Rightarrow> if close < a then close else a);
              (a, b) = trim_const_span (take name_len p)
          in if b \<le> a then None
             else case glm_parse_args (length p - close) (drop b p) [] of None \<Rightarrow> None
             | Some (args, q) \<Rightarrow> Some (\<lparr>tc_id = None, tc_name = take (b - a) (drop a p), tc_arguments = ''{'' @ args @ ''}''\<rparr>, q))"

lemma glm_args_shorter: "glm_parse_args n p args = Some (args', q) \<Longrightarrow> length q < length p"
proof (induction n p args rule: glm_parse_args.induct)
  case (1 n p args)
  let ?p = "skip_ascii_ws p"
  show ?case
  proof (cases "prefix ''</tool_call>'' ?p")
    case True
    then have "q = drop 12 ?p" "12 \<le> length ?p" using 1(2) glm_parse_args.simps [of n p args] prefix_length_le [OF True] by simp_all
    then show ?thesis using ws_shorter [of p] by simp
  next
    case False
    then obtain r a where l: "prefix ''<arg_key>'' ?p" "glm_parse_arg n ?p args = Some (r, a)"
      using 1(2) glm_parse_args.simps [of n p args] by (auto simp: Let_def split: option.splits if_splits)
    have "length q < length r" using 1(1) [OF refl False _ l(2) refl] 1(2) False l glm_parse_args.simps [of n p args] by (simp add: Let_def)
    then show ?thesis using glm_arg_shorter [OF l(2,1)] ws_shorter [of p] by simp
  qed
qed

lemma glm_call_shorter: "glm_parse_call p = Some (tc, q) \<Longrightarrow> length q \<le> length p"
  by (auto simp: glm_parse_call_def Let_def split: option.splits prod.splits if_splits dest!: glm_args_shorter)

function glm_parse_calls :: "string \<Rightarrow> tool_call list \<Rightarrow> (tool_call list \<times> string) option" where
  "glm_parse_calls p calls =
     (let p = skip_ascii_ws p in
      if \<not> prefix ''<tool_call>'' p then Some (calls, p)
      else case glm_parse_call (drop 11 p) of None \<Rightarrow> None
      | Some (tc, q) \<Rightarrow> glm_parse_calls q (calls @ [tc]))"
  by pat_completeness auto
termination
proof (relation "measure (\<lambda>(p, calls). length p)")
  fix p and calls :: "tool_call list" and x y tc q
  assume a: "x = skip_ascii_ws p" "\<not> \<not> prefix ''<tool_call>'' x" "glm_parse_call (drop 11 x) = Some y" "(tc, q) = y"
  then have "length q \<le> length x - 11" "11 \<le> length x" using glm_call_shorter [of "drop 11 x" tc q] prefix_length_le [of "''<tool_call>''" x] by simp_all
  then show "((q, calls @ [tc]), p, calls) \<in> measure (\<lambda>(p, calls). length p)" using ws_shorter [of p] a(1) by simp
qed simp

declare glm_parse_calls.simps [simp del]

definition glm_tool_search :: "string \<Rightarrow> bool \<Rightarrow> (nat \<times> bool) option" where
  "glm_tool_search txt require_thinking_closed =
     (if \<not> require_thinking_closed then Some (0, False)
      else case find_tool_structural_text txt ''</think>'' True of
        Some e \<Rightarrow> Some (e + 8, False)
      | None \<Rightarrow>
          (case strstr txt ''<tool_call>'' of None \<Rightarrow> None
           | Some i \<Rightarrow> if strstr (drop i txt) ''</tool_call>'' = None then None else Some (i, True)))"

definition parse_glm_generated_message_ex :: "string \<Rightarrow> bool \<Rightarrow> ((string \<times> string option) \<times> tool_calls) option" where
  "parse_glm_generated_message_ex txt require_thinking_closed =
     (case glm_tool_search txt require_thinking_closed of
        None \<Rightarrow> Some (ds4_local_unterminated_reasoning txt, no_tool_calls)
      | Some (d, recovered) \<Rightarrow>
          (case strstr (drop d txt) ''<tool_call>'' of
             None \<Rightarrow> Some (split_reasoning_content txt (length txt), no_tool_calls)
           | Some i \<Rightarrow>
               let start = d + i;
                   block = (if 2 \<le> start \<and> take 2 (drop (start - 2) txt) = [CHR 0x0A, CHR 0x0A] then start - 2 else start);
                   content_len = trim_tool_separator_ws txt 0 block
               in case glm_parse_calls (drop start txt) [] of None \<Rightarrow> None
                  | Some (calls, q) \<Rightarrow>
                      if calls = [] then None
                      else Some (if recovered then ds4_unterminated_reasoning_before_tool txt content_len else split_reasoning_content txt content_len,
                                 \<lparr>tcs_v = calls, tcs_raw_tool_text = take (length txt - length q - block) (drop block txt)\<rparr>)))"

definition parse_generated_message_ex_for_syntax ::
    "server_model_syntax \<Rightarrow> string \<Rightarrow> bool \<Rightarrow> ((string \<times> string option) \<times> tool_calls) option" where
  "parse_generated_message_ex_for_syntax syn txt require_thinking_closed =
     (if syn = SYNTAX_GLM then parse_glm_generated_message_ex txt require_thinking_closed
      else parse_deepseek_generated_message_ex txt require_thinking_closed)"

text \<open>A message that does not parse is returned as text; with a tool call begun, the reason to finish becomes a stop.\<close>

definition tool_parse_failure_recovery_finish :: "string \<Rightarrow> string" where
  "tool_parse_failure_recovery_finish finish = (if finish = ''length'' then ''length'' else ''stop'')"

record parsed_reply =
  pr_ok :: bool
  pr_content :: string
  pr_reasoning :: "string option"
  pr_calls :: tool_calls
  pr_finish :: string
  pr_recovered :: bool

definition parse_generated_message_for_response_for_syntax ::
    "server_model_syntax \<Rightarrow> string \<Rightarrow> bool \<Rightarrow> bool \<Rightarrow> bool \<Rightarrow> string \<Rightarrow> parsed_reply" where
  "parse_generated_message_for_response_for_syntax syn txt has_tools saw_tool_start require_thinking_closed finish =
     (case parse_generated_message_ex_for_syntax syn txt require_thinking_closed of
        Some ((visible, thought), calls) \<Rightarrow>
          \<lparr>pr_ok = True, pr_content = visible, pr_reasoning = thought, pr_calls = calls, pr_finish = finish, pr_recovered = False\<rparr>
      | None \<Rightarrow>
          let recovered = (has_tools \<and> saw_tool_start \<and> finish \<noteq> ''error'') in
          \<lparr>pr_ok = False, pr_content = txt, pr_reasoning = None, pr_calls = no_tool_calls,
           pr_finish = (if recovered then tool_parse_failure_recovery_finish finish else finish), pr_recovered = recovered\<rparr>)"

section \<open>The repair of a block that lost its end\<close>

record tag_counts =
  n_calls_start :: nat
  n_calls_end :: nat
  n_invoke_start :: nat
  n_invoke_end :: nat
  n_param_start :: nat
  n_param_end :: nat

function count_tags :: "dsml_syntax \<Rightarrow> string \<Rightarrow> tag_counts \<Rightarrow> tag_counts" where
  "count_tags syn p n =
     (if p = [] then n
      else if prefix (tool_calls_start syn) p then count_tags syn (drop (length (tool_calls_start syn)) p) (n\<lparr>n_calls_start := n_calls_start n + 1\<rparr>)
      else if prefix (tool_calls_end syn) p then count_tags syn (drop (length (tool_calls_end syn)) p) (n\<lparr>n_calls_end := n_calls_end n + 1\<rparr>)
      else if prefix (invoke_start syn) p then count_tags syn (drop (length (invoke_start syn)) p) (n\<lparr>n_invoke_start := n_invoke_start n + 1\<rparr>)
      else if prefix (invoke_end syn) p then count_tags syn (drop (length (invoke_end syn)) p) (n\<lparr>n_invoke_end := n_invoke_end n + 1\<rparr>)
      else if prefix (param_start syn) p then count_tags syn (drop (length (param_start syn)) p) (n\<lparr>n_param_start := n_param_start n + 1\<rparr>)
      else if prefix (param_end syn) p then count_tags syn (drop (length (param_end syn)) p) (n\<lparr>n_param_end := n_param_end n + 1\<rparr>)
      else count_tags syn (tl p) n)"
  by pat_completeness auto
termination
  by (relation "measure (\<lambda>(syn, p, n). length p)") (auto simp: markers_nonempty dsml_text elim!: prefixE)

declare count_tags.simps [simp del]

definition try_repair_dsml :: "string \<Rightarrow> string option" where
  "try_repair_dsml s =
     (if s = [] then None
      else
        let scan = (case find_tool_structural_text s ''</think>'' True of Some e \<Rightarrow> drop (e + 8) s | None \<Rightarrow> s) in
        case find_any_tool_start scan of None \<Rightarrow> None
        | Some i \<Rightarrow>
            (case find (\<lambda>syn. prefix (tool_calls_start syn) (drop i scan)) dsml_syntaxes of None \<Rightarrow> None
             | Some syn \<Rightarrow>
                 let n = count_tags syn scan \<lparr>n_calls_start = 0, n_calls_end = 0, n_invoke_start = 0, n_invoke_end = 0, n_param_start = 0, n_param_end = 0\<rparr> in
                 if n_invoke_start n \<noteq> n_invoke_end n \<or> n_param_start n \<noteq> n_param_end n then None
                 else if n_calls_start n = n_calls_end n then None
                 else if n_calls_start n < n_calls_end n \<or> n_invoke_start n < n_invoke_end n \<or> n_param_start n < n_param_end n then None
                 else Some (s @ concat (replicate (n_calls_start n - n_calls_end n) (tool_calls_end syn)))))"

section \<open>Shared facts\<close>

lemma trim_prefix: "n \<le> length a \<Longrightarrow> trim_tool_separator_ws (a @ b) start n = trim_tool_separator_ws a start n"
  by (induction n) (simp_all add: nth_append)

lemma trim_le: "trim_tool_separator_ws raw start n \<le> n"
  by (induction n) (simp_all add: le_SucI)

lemma split_prefix: "n \<le> length a \<Longrightarrow> split_reasoning_content (a @ b) n = split_reasoning_content a n"
  by (simp add: split_reasoning_content_def)

text \<open>The search outside of wrappers passes over text without tags, and over whole wrappers.\<close>

lemma structural_plain:
  "hd needle = CHR ''<'' \<Longrightarrow> needle \<noteq> [] \<Longrightarrow> CHR ''<'' \<notin> set u \<Longrightarrow>
    structural_from needle want_last pos found (u @ s) = structural_from needle want_last (pos + length u) found s"
proof (induction u arbitrary: pos)
  case (Cons c u)
  have "\<not> prefix needle (c # u @ s)" using Cons.prems by (cases needle) auto
  moreover have "find (\<lambda>w. prefix (fst w) (c # u @ s)) tool_wrappers = None"
    using Cons.prems by (simp add: tool_wrappers_def dsml_text)
  ultimately show ?case using Cons by (simp add: structural_from.simps)
qed simp

lemma structural_wrapper:
  assumes "\<not> prefix needle s" "find (\<lambda>w. prefix (fst w) s) tool_wrappers = Some (open_tag, close)"
    "wrapper_end s close = Some n" "s \<noteq> []"
  shows "structural_from needle want_last pos found s = structural_from needle want_last (pos + n) found (drop n s)"
  using assms by (cases s) (simp_all add: structural_from.simps)

end
