(* ===== verification/ToolParseDsml.thy ===== *)
theory ToolParseDsml
  imports ToolParse
begin

text \<open>
  What the parser of DSML messages makes of the calls that the server writes: the same calls, the same bytes, also
  when the block lost its closing marker and was repaired, and whatever the arguments hold.
\<close>

section \<open>The parser reads what was written\<close>

lemma strchr_at: "x \<notin> set u \<Longrightarrow> strchr (u @ x # v) x = Some (length u)"
  by (induction u) auto

definition add_arg :: "bool \<Rightarrow> string \<Rightarrow> json_arg \<Rightarrow> string" where
  "add_arg v41 args a = tool_call_json_args_add args (ja_key a)
     (if ja_is_string a then ja_value a else append_dsml_json_literal (ja_value a) v41) (if ja_is_string a then ''true'' else ''false'')"

lemma value_end_written: "strstr (value_body v41 a @ param_end (if v41 then Ds41 else Ds4) @ r) (param_end (if v41 then Ds41 else Ds4)) = Some (length (value_body v41 a))"
proof -
  let ?e = "param_end (if v41 then Ds41 else Ds4)"
  have n: "?e \<noteq> []" using param_end_tag(1) [of "if v41 then Ds41 else Ds4"] by (simp add: close_tag_def)
  have "find_lit_bounded (value_body v41 a @ ?e @ r) ?e = Some (length (value_body v41 a))"
    by (rule first_close [OF param_end_tag(1)]) (use value_body_no_delimiter [OF refl] in blast)
  then show ?thesis using find_lit_strstr [OF n] by simp
qed

lemma parse_param_written:
  assumes "syn = (if v41 then Ds41 else Ds4)" "readable a"
  shows "dsml_parse_param syn (arg_text v41 a @ r) args = Some (r, add_arg v41 args a)"
proof -
  have syn: "syn = Ds41 \<or> syn = Ds4" using assms(1) by simp
  let ?t = "param_tag syn (ja_key a) (ja_is_string a)" and ?v = "value_body v41 a @ param_end syn @ r"
  note a = param_tag_attr [OF syn, of "ja_key a" "ja_is_string a"]
  have x: "arg_text v41 a @ r = ?t @ CHR ''>'' # ?v" by (simp add: arg_text_def param_tag_def Let_def assms(1) del: append_assoc)
  have g: "strchr (?t @ CHR ''>'' # ?v) CHR ''>'' = Some (length ?t)" by (rule strchr_at [OF a(1)])
  have s: "dsml_attr (?t @ ''>'') ''string'' = Some (if ja_is_string a then ''true'' else ''false'')"
    using a(4) assms(2) by (simp add: readable_def)
  have e: "strstr ?v (param_end syn) = Some (length (value_body v41 a))" unfolding assms(1) by (rule value_end_written)
  have t: "typed_value (Some (if ja_is_string a then ''true'' else ''false'')) (value_body v41 a) (param_end syn)
      = (if ja_is_string a then ja_value a else append_dsml_json_literal (ja_value a) v41, if ja_is_string a then ''true'' else ''false'')"
    using unescape_body [OF param_end_tag(1) [of syn], of "ja_value a"]
    by (auto simp: typed_value_def value_body_def append_dsml_parameter_text_def assms(1) Let_def)
  have k: "take (Suc (length ?t)) (?t @ CHR ''>'' # ?v) = ?t @ ''>''" "drop (Suc (length ?t)) (?t @ CHR ''>'' # ?v) = ?v" by simp_all
  show ?thesis unfolding x dsml_parse_param_def g
    using a(3) s e t k by (simp add: Let_def add_arg_def)
qed

lemma ws_line: "skip_ascii_ws (CHR 0x0A # CHR ''<'' # s) = CHR ''<'' # s"
  by (simp add: skip_ascii_ws_def isspace_def char_code_def)

lemma parse_params_written:
  assumes "syn = (if v41 then Ds41 else Ds4)" "\<forall>a\<in>set as. readable a"
  shows "dsml_parse_params syn (CHR 0x0A # concat (map (\<lambda>a. append_dsml_arg a v41) as) @ invoke_end syn @ r) args
    = Some (foldl (add_arg v41) args as, r)"
  using assms(2)
proof (induction as arbitrary: args)
  have syn: "syn = Ds41 \<or> syn = Ds4" using assms(1) by simp
  note w = written_syntax [OF syn]
  case Nil
  obtain m where m: "invoke_end syn = CHR ''<'' # m" using w(18) by blast
  show ?case using m by (simp add: dsml_parse_params.simps [of syn] ws_line)
next
  have syn: "syn = Ds41 \<or> syn = Ds4" using assms(1) by simp
  note w = written_syntax [OF syn]
  case (Cons a as)
  let ?r = "CHR 0x0A # concat (map (\<lambda>a. append_dsml_arg a v41) as) @ invoke_end syn @ r"
  obtain m where m: "param_start syn = CHR ''<'' # m" using w(16) by blast
  obtain y where y: "arg_text v41 a @ ?r = param_start syn @ y" by (simp add: arg_text_def Let_def assms(1))
  have l: "skip_ascii_ws (CHR 0x0A # arg_text v41 a @ ?r) = arg_text v41 a @ ?r" unfolding y m by (simp add: ws_line)
  have "\<not> prefix (invoke_end syn) (arg_text v41 a @ ?r)"
    using other_marker(1) [of 0 "arg_text v41 a @ ?r" "param_start syn" y "invoke_end syn"] y w(2,4,6,8) by (simp add: full_lit_iff)
  moreover have "prefix (param_start syn) (arg_text v41 a @ ?r)" unfolding y by simp
  moreover have "dsml_parse_param syn (arg_text v41 a @ ?r) args = Some (?r, add_arg v41 args a)"
    using parse_param_written [OF assms(1)] Cons.prems by simp
  ultimately have "dsml_parse_params syn (CHR 0x0A # arg_text v41 a @ ?r) args = dsml_parse_params syn ?r (add_arg v41 args a)"
    using l by (subst dsml_parse_params.simps) (simp only: Let_def if_True if_False option.case prod.case not_True_eq_False)
  then show ?case using Cons by (simp add: arg_text)
qed

definition parsed_call :: "bool \<Rightarrow> tool_call \<Rightarrow> tool_call" where
  "parsed_call v41 tc = \<lparr>tc_id = None, tc_name = tc_name tc, tc_arguments = ''{'' @ foldl (add_arg v41) [] (call_args tc) @ ''}''\<rparr>"

lemma parse_invoke_written:
  assumes "syn = (if v41 then Ds41 else Ds4)" "\<forall>a\<in>set (call_args tc). readable a"
  shows "dsml_parse_invoke syn (dsml_call_text v41 tc @ r) = Some (parsed_call v41 tc, CHR 0x0A # r)"
proof -
  have syn: "syn = Ds41 \<or> syn = Ds4" using assms(1) by simp
  let ?t = "invoke_tag syn (tc_name tc)" and ?v = "CHR 0x0A # concat (map (\<lambda>a. append_dsml_arg a v41) (call_args tc)) @ invoke_end syn @ CHR 0x0A # r"
  note a = invoke_tag_attr [OF syn, of "tc_name tc"]
  have x: "dsml_call_text v41 tc @ r = ?t @ CHR ''>'' # ?v" by (simp add: call_text invoke_tag_def assms(1))
  have g: "strchr (?t @ CHR ''>'' # ?v) CHR ''>'' = Some (length ?t)" by (rule strchr_at [OF a(1)])
  have k: "take (Suc (length ?t)) (?t @ CHR ''>'' # ?v) = ?t @ ''>''" "drop (Suc (length ?t)) (?t @ CHR ''>'' # ?v) = ?v" by simp_all
  show ?thesis unfolding x dsml_parse_invoke_def g
    using a(3) k parse_params_written [OF assms] by (simp add: parsed_call_def)
qed

lemma parse_calls_written:
  assumes "syn = (if v41 then Ds41 else Ds4)" "list_all plain_call calls"
  shows "dsml_parse_calls syn (CHR 0x0A # concat (map (dsml_call_text v41) calls) @ tool_calls_end syn @ r) done_calls
    = Some (done_calls @ map (parsed_call v41) calls, r)"
  using assms(2)
proof (induction calls arbitrary: done_calls)
  have syn: "syn = Ds41 \<or> syn = Ds4" using assms(1) by simp
  note w = written_syntax [OF syn]
  case Nil
  obtain m where m: "tool_calls_end syn = CHR ''<'' # m" using w(17) by blast
  show ?case using m by (simp add: dsml_parse_calls.simps [of syn] ws_line)
next
  have syn: "syn = Ds41 \<or> syn = Ds4" using assms(1) by simp
  note w = written_syntax [OF syn]
  case (Cons tc calls)
  let ?r = "concat (map (dsml_call_text v41) calls) @ tool_calls_end syn @ r"
  obtain m where m: "invoke_start syn = CHR ''<'' # m" using w(15) by blast
  obtain y where y: "dsml_call_text v41 tc @ ?r = invoke_start syn @ y" by (simp add: call_text assms(1))
  have l: "skip_ascii_ws (CHR 0x0A # dsml_call_text v41 tc @ ?r) = dsml_call_text v41 tc @ ?r" unfolding y m by (simp add: ws_line)
  have "\<not> prefix (tool_calls_end syn) (dsml_call_text v41 tc @ ?r)"
    using other_marker(1) [of 0 "dsml_call_text v41 tc @ ?r" "invoke_start syn" y "tool_calls_end syn"] y w(1,3,5,7) by (simp add: full_lit_iff)
  moreover have "prefix (invoke_start syn) (dsml_call_text v41 tc @ ?r)" unfolding y by simp
  moreover have "dsml_parse_invoke syn (dsml_call_text v41 tc @ ?r) = Some (parsed_call v41 tc, CHR 0x0A # ?r)"
    using parse_invoke_written [OF assms(1) plain_call_readable] Cons.prems by simp
  ultimately have "dsml_parse_calls syn (CHR 0x0A # dsml_call_text v41 tc @ ?r) done_calls = dsml_parse_calls syn (CHR 0x0A # ?r) (done_calls @ [parsed_call v41 tc])"
    using l by (subst dsml_parse_calls.simps) (simp only: Let_def if_True if_False option.case prod.case not_True_eq_False)
  then show ?case using Cons by simp
qed

text \<open>Where the block of a message starts: no marker can begin before it, nor run into the line break in front of it.\<close>

lemma call_marker_no_newline: "CHR 0x0A \<notin> set (tool_calls_start syn)"
  by (cases syn) (simp_all add: dsml_text)

lemma call_markers_apart: "prefix (tool_calls_start s) (tool_calls_start t @ x) \<Longrightarrow> s \<noteq> Glm \<Longrightarrow> t \<noteq> Glm \<Longrightarrow> s = t"
  by (cases s; cases t) (simp_all add: dsml_text)

lemma marker_position:
  assumes "prefix (tool_calls_start s) (drop j (body @ with_break (tool_calls_start t) @ x))" "j \<le> length body + 2" "\<forall>j. \<not> call_at body j" "s \<noteq> Glm" "t \<noteq> Glm"
  shows "j = length body + 2 \<and> s = t"
proof -
  let ?w = "with_break (tool_calls_start t) @ x" and ?m = "tool_calls_start s"
  have h: "?m ! 0 = CHR ''<''" "?m \<noteq> []" using marker_shape(1) markers_nonempty(1) by auto
  have nl: "?m ! k \<noteq> CHR 0x0A" if "k < length ?m" for k using call_marker_no_newline [of s] nth_mem [OF that] by metis
  have "\<not> j < length body"
  proof
    assume j: "j < length body"
    show False
    proof (cases "length ?m \<le> length body - j")
      case True
      then have "prefix ?m (drop j body)" using assms(1) prefix_before [of ?m j body ?w] j by simp
      then show False using assms(3) by (auto simp: call_at_def)
    next
      case False
      then have k: "length body - j < length ?m" by simp
      have "?m ! (length body - j) = drop j (body @ ?w) ! (length body - j)" using prefix_nth [OF assms(1) k] by simp
      also have "\<dots> = CHR 0x0A" using j by (simp add: nth_append with_break_def)
      finally show False using nl [OF k] by simp
    qed
  qed
  moreover have "j \<noteq> length body" "j \<noteq> length body + 1"
    using assms(1) nl [of 0] h by (cases ?m; auto simp: with_break_def)+
  ultimately have j: "j = length body + 2" using assms(2) by linarith
  then have "prefix ?m (tool_calls_start t @ x)" using assms(1) by (simp add: with_break_def)
  then show ?thesis using j call_markers_apart assms(4,5) by blast
qed

lemma break_marker: "prefix (with_break m) (drop j s) \<Longrightarrow> prefix m (drop (j + 2) s)"
proof -
  assume "prefix (with_break m) (drop j s)"
  then obtain z where "drop j s = with_break m @ z" by (auto elim: prefixE)
  then have "drop (j + 2) s = m @ z" by (metis add.commute append_Cons append_Nil drop_0 drop_Suc_Cons drop_drop numeral_2_eq_2 with_break_def)
  then show ?thesis by simp
qed

lemma block_found:
  assumes "\<forall>j. \<not> call_at body j" "t \<noteq> Glm"
  shows "strstr (body @ with_break (tool_calls_start t) @ x) (with_break (tool_calls_start t)) = Some (length body)"
proof -
  let ?s = "body @ with_break (tool_calls_start t) @ x"
  have "\<not> prefix (with_break (tool_calls_start t)) (drop j ?s)" if "j < length body" for j
  proof
    assume "prefix (with_break (tool_calls_start t)) (drop j ?s)"
    then have "prefix (tool_calls_start t) (drop (j + 2) ?s)" by (rule break_marker)
    then show False using marker_position [OF _ _ assms(1,2,2), of "j + 2" x] that by simp
  qed
  then show ?thesis using strstr_iff [of "with_break (tool_calls_start t)" ?s "length body"] by (simp add: with_break_def)
qed

lemma marker_after:
  assumes "strstr (body @ with_break (tool_calls_start t) @ x) needle = Some i" "needle = tool_calls_start s \<or> needle = with_break (tool_calls_start s)"
    "\<forall>j. \<not> call_at body j" "s \<noteq> Glm" "t \<noteq> Glm" "s \<noteq> t"
  shows "length body < i"
proof -
  let ?s = "body @ with_break (tool_calls_start t) @ x"
  have p: "prefix needle (drop i ?s)" using strstr_Some [OF assms(1)] by blast
  show ?thesis
  proof (cases "needle = tool_calls_start s")
    case True
    then show ?thesis using marker_position [of s i body t x] p assms by fastforce
  next
    case False
    then have "prefix (tool_calls_start s) (drop (i + 2) ?s)" using assms(2) p by (blast intro: break_marker)
    then show ?thesis using marker_position [of s "i + 2" body t x] assms by fastforce
  qed
qed

lemma first_found_after:
  "first_found s cands = Some (i, y) \<Longrightarrow> (\<And>needle x i. (needle, x) \<in> set cands \<Longrightarrow> strstr s needle = Some i \<Longrightarrow> n < i) \<Longrightarrow> n < i"
  by (induction s cands rule: first_found.induct) (auto split: option.splits)

lemma block_start_written:
  assumes "\<forall>j. \<not> call_at body j"
  shows "dsml_block_start (body @ with_break (tool_calls_start (if v41 then Ds41 else Ds4)) @ x) = Some (length body, if v41 then Ds41 else Ds4)"
proof (cases v41)
  case True
  let ?s = "body @ with_break (tool_calls_start Ds41) @ x"
  let ?c = "concat (map (\<lambda>syn. [(with_break (tool_calls_start syn), syn), (tool_calls_start syn, syn)]) [Ds4, Ds4_short, Plain])"
  have a: "length body < i" if "first_found ?s ?c = Some (i, y)" for i y
  proof (rule first_found_after [OF that])
    fix needle s i assume "(needle, s) \<in> set ?c" "strstr ?s needle = Some i"
    then show "length body < i" using marker_after [of body Ds41 x needle i s] assms by auto
  qed
  show ?thesis using True block_found [OF assms, of Ds41 x] a by (auto simp: dsml_block_start_def Let_def split: option.split)
next
  case False
  let ?s = "body @ with_break (tool_calls_start Ds4) @ x"
  have a: "length body < i" if "first_found ?s [(with_break (tool_calls_start Ds41), Ds41), (tool_calls_start Ds41, Ds41)] = Some (i, y)" for i y
  proof (rule first_found_after [OF that])
    fix needle s i assume "(needle, s) \<in> set [(with_break (tool_calls_start Ds41), Ds41), (tool_calls_start Ds41, Ds41)]" "strstr ?s needle = Some i"
    then show "length body < i" using marker_after [of body Ds4 x needle i Ds41] assms by auto
  qed
  show ?thesis using False block_found [OF assms, of Ds4 x] a by (auto simp: dsml_block_start_def Let_def split: option.split dest: less_asym)
qed

definition written_block :: "bool \<Rightarrow> tool_call list \<Rightarrow> string" where
  "written_block v41 calls = append_dsml_tool_calls_text (Some \<lparr>tcs_v = calls, tcs_raw_tool_text = []\<rparr>) v41"

lemma message_parses_back:
  assumes "calls \<noteq> []" "list_all plain_call calls" "txt = body @ written_block v41 calls @ rest"
    "dsml_tool_search txt require_thinking_closed = Some (d, False)" "d \<le> length body" "\<forall>j. \<not> call_at (drop d body) j"
  shows "parse_deepseek_generated_message_ex txt require_thinking_closed =
      Some (split_reasoning_content body (trim_tool_separator_ws body 0 (length body)),
            \<lparr>tcs_v = map (parsed_call v41) calls, tcs_raw_tool_text = written_block v41 calls\<rparr>)"
proof -
  define syn where "syn = (if v41 then Ds41 else Ds4)"
  let ?m = "tool_calls_start syn"
  let ?c = "CHR 0x0A # concat (map (dsml_call_text v41) calls) @ tool_calls_end syn"
  have b: "written_block v41 calls = with_break ?m @ ?c"
    using assms(1) by (simp add: written_block_def append_dsml_tool_calls_text_def with_break_def Let_def syn_def)
  have x: "drop d txt = drop d body @ with_break ?m @ ?c @ rest" using assms(3,5) b by simp
  have s: "dsml_block_start (drop d txt) = Some (length body - d, syn)"
    using block_start_written [OF assms(6), of v41 "?c @ rest"] assms(5) unfolding x syn_def by simp
  have d: "d + (length body - d) = length body" using assms(5) by simp
  have t: "drop (length body) txt = with_break ?m @ ?c @ rest" using assms(3) b by simp
  have k: "strstr (with_break ?m @ ?c @ rest) ?m = Some 2"
  proof -
    have n: "\<forall>j. \<not> call_at [] j" using call_at_bound by fastforce
    have g: "syn \<noteq> Glm" by (simp add: syn_def)
    have "\<not> prefix ?m (drop j (with_break ?m @ ?c @ rest))" if "j < 2" for j
      using marker_position [OF _ _ n g g, of j "?c @ rest"] that by auto
    then show ?thesis using strstr_iff [of ?m "with_break ?m @ ?c @ rest" 2] markers_nonempty(1) by (simp add: with_break_def)
  qed
  have e: "drop (length body + 2 + length ?m) txt = ?c @ rest" using assms(3) b by (simp add: with_break_def)
  have p: "dsml_parse_calls syn (?c @ rest) [] = Some (map (parsed_call v41) calls, rest)"
    using parse_calls_written [OF syn_def assms(2), of rest "[]"] by simp
  have r: "take (length txt - length rest - length body) (drop (length body) txt) = written_block v41 calls" using assms(3) by simp
  have c: "trim_tool_separator_ws txt 0 (length body) = trim_tool_separator_ws body 0 (length body)"
    unfolding assms(3) by (rule trim_prefix) simp
  have g: "split_reasoning_content txt (trim_tool_separator_ws body 0 (length body)) = split_reasoning_content body (trim_tool_separator_ws body 0 (length body))"
    unfolding assms(3) by (rule split_prefix [OF trim_le])
  show ?thesis
    unfolding parse_deepseek_generated_message_ex_def assms(4) option.case prod.case s d Let_def t k e p r [unfolded t] c g by simp
qed


text \<open>A sample with reasoning, and with an argument that looks like its end.\<close>

definition sample_message_calls :: "tool_call list" where
  "sample_message_calls = [\<lparr>tc_id = None, tc_name = ''say'', tc_arguments = ''{'' @ json_escape ''text'' @ '':'' @ json_escape ''</think>'' @ '',n:1}''\<rparr>,
     \<lparr>tc_id = None, tc_name = ''say'', tc_arguments = ''{'' @ json_escape ''text'' @ '':'' @ json_escape ''</think>'' @ ''}''\<rparr>]"


section \<open>A block that lost its end is completed\<close>

lemma count_plain: "CHR ''<'' \<notin> set u \<Longrightarrow> count_tags syn (u @ s) n = count_tags syn s n"
proof (induction u)
  case (Cons c u)
  have "\<not> prefix (m syn) (c # u @ s)" if "m \<in> {tool_calls_start, tool_calls_end, invoke_start, invoke_end, param_start, param_end}" for m
    using that Cons.prems by (cases syn) (auto simp: dsml_text)
  then show ?case using Cons by (subst count_tags.simps) simp
qed simp

lemma count_markers:
  assumes "syn = Ds41 \<or> syn = Ds4"
  shows "count_tags syn (tool_calls_start syn @ s) n = count_tags syn s (n\<lparr>n_calls_start := n_calls_start n + 1\<rparr>)"
    "count_tags syn (invoke_start syn @ s) n = count_tags syn s (n\<lparr>n_invoke_start := n_invoke_start n + 1\<rparr>)"
    "count_tags syn (invoke_end syn @ s) n = count_tags syn s (n\<lparr>n_invoke_end := n_invoke_end n + 1\<rparr>)"
    "count_tags syn (param_start syn @ s) n = count_tags syn s (n\<lparr>n_param_start := n_param_start n + 1\<rparr>)"
    "count_tags syn (param_end syn @ s) n = count_tags syn s (n\<lparr>n_param_end := n_param_end n + 1\<rparr>)"
  using assms by (auto simp: count_tags.simps [of Ds41 "_ # _"] count_tags.simps [of Ds4 "_ # _"] dsml_text)

definition no_tag_arg :: "json_arg \<Rightarrow> bool" where
  "no_tag_arg a \<longleftrightarrow> CHR ''<'' \<notin> set (ja_value a)"

lemma attr_no_tag: "CHR ''<'' \<notin> set (append_dsml_attr_escaped s)"
  by (induction s) auto

lemma literal_no_tag: "CHR ''<'' \<notin> set s \<Longrightarrow> CHR ''<'' \<notin> set (append_dsml_json_literal s v41)"
  by (induction s) auto

lemma body_no_tag: "CHR ''<'' \<notin> set s \<Longrightarrow> CHR ''<'' \<notin> set (append_glm_tag_body_text s e)"
  by (induction s) auto

lemma count_arg:
  assumes "syn = (if v41 then Ds41 else Ds4)" "no_tag_arg a"
  shows "count_tags syn (append_dsml_arg a v41 @ s) n = count_tags syn s (n\<lparr>n_param_start := n_param_start n + 1, n_param_end := n_param_end n + 1\<rparr>)"
proof -
  have syn: "syn = Ds41 \<or> syn = Ds4" using assms(1) by simp
  let ?u = "'' name='' @ quoted (ja_key a) @ '' string='' @ quoted (if ja_is_string a then ''true'' else ''false'') @ ''>'' @ value_body v41 a"
  have p: "append_dsml_arg a v41 @ s = param_start syn @ ?u @ param_end syn @ [CHR 0x0A] @ s"
    by (simp add: arg_text arg_text_def Let_def assms(1))
  have u: "CHR ''<'' \<notin> set ?u" "CHR ''<'' \<notin> set [CHR 0x0A]"
    using attr_no_tag literal_no_tag body_no_tag assms(2)
    by (auto simp: quoted_def value_body_def no_tag_arg_def append_dsml_parameter_text_def)
  show ?thesis unfolding p count_markers(4) [OF syn] count_plain [OF u(1)] count_markers(5) [OF syn] count_plain [OF u(2)] by simp
qed

definition balanced_from :: "tag_counts \<Rightarrow> tag_counts \<Rightarrow> bool" where
  "balanced_from n m \<longleftrightarrow> n_calls_start m = n_calls_start n \<and> n_calls_end m = n_calls_end n \<and>
     n_invoke_start m + n_invoke_end n = n_invoke_end m + n_invoke_start n \<and> n_param_start m + n_param_end n = n_param_end m + n_param_start n"

lemma count_args:
  assumes "syn = (if v41 then Ds41 else Ds4)" "\<forall>a\<in>set as. no_tag_arg a"
  shows "\<exists>m. count_tags syn (concat (map (\<lambda>a. append_dsml_arg a v41) as) @ s) n = count_tags syn s m \<and> balanced_from n m \<and> n_invoke_start m = n_invoke_start n"
  using assms(2)
proof (induction as arbitrary: n)
  case Nil
  then show ?case by (intro exI [of _ n]) (simp add: balanced_from_def)
next
  case (Cons a as)
  let ?n = "n\<lparr>n_param_start := n_param_start n + 1, n_param_end := n_param_end n + 1\<rparr>"
  obtain m where m: "count_tags syn (concat (map (\<lambda>a. append_dsml_arg a v41) as) @ s) ?n = count_tags syn s m" "balanced_from ?n m" "n_invoke_start m = n_invoke_start n"
    using Cons.IH [of ?n] Cons.prems by auto
  have "no_tag_arg a" using Cons.prems by simp
  then show ?case using m count_arg [OF assms(1), of a "concat (map (\<lambda>a. append_dsml_arg a v41) as) @ s" n]
    by (intro exI [of _ m]) (simp add: balanced_from_def)
qed

lemma count_calls:
  assumes "syn = (if v41 then Ds41 else Ds4)" "\<forall>tc\<in>set calls. \<forall>a\<in>set (call_args tc). no_tag_arg a"
  shows "\<exists>m. count_tags syn (concat (map (dsml_call_text v41) calls) @ s) n = count_tags syn s m \<and> balanced_from n m"
  using assms(2)
proof (induction calls arbitrary: n)
  case Nil
  then show ?case by (intro exI [of _ n]) (simp add: balanced_from_def)
next
  case (Cons tc calls)
  have syn: "syn = Ds41 \<or> syn = Ds4" using assms(1) by simp
  let ?t = "concat (map (dsml_call_text v41) calls) @ s"
  let ?u = "'' name='' @ quoted (tc_name tc) @ ''>'' @ [CHR 0x0A]"
  let ?as = "concat (map (\<lambda>a. append_dsml_arg a v41) (call_args tc))"
  have p: "concat (map (dsml_call_text v41) (tc # calls)) @ s = invoke_start syn @ ?u @ ?as @ invoke_end syn @ [CHR 0x0A] @ ?t"
    by (simp add: call_text assms(1))
  have u: "CHR ''<'' \<notin> set ?u" "CHR ''<'' \<notin> set [CHR 0x0A]" using attr_no_tag by (auto simp: quoted_def)
  let ?n = "n\<lparr>n_invoke_start := n_invoke_start n + 1\<rparr>"
  obtain m1 where m1: "count_tags syn (?as @ invoke_end syn @ [CHR 0x0A] @ ?t) ?n = count_tags syn (invoke_end syn @ [CHR 0x0A] @ ?t) m1" "balanced_from ?n m1"
    using count_args [OF assms(1), of "call_args tc"] Cons.prems by force
  obtain m where m: "count_tags syn ?t (m1\<lparr>n_invoke_end := n_invoke_end m1 + 1\<rparr>) = count_tags syn s m" "balanced_from (m1\<lparr>n_invoke_end := n_invoke_end m1 + 1\<rparr>) m"
    using Cons.IH [of "m1\<lparr>n_invoke_end := n_invoke_end m1 + 1\<rparr>"] Cons.prems by auto
  have "count_tags syn (concat (map (dsml_call_text v41) (tc # calls)) @ s) n = count_tags syn s m"
    unfolding p count_markers(2) [OF syn] count_plain [OF u(1)] m1(1) count_markers(3) [OF syn] count_plain [OF u(2)] by (rule m(1))
  moreover have "balanced_from n m" using m1(2) m(2) by (simp add: balanced_from_def)
  ultimately show ?case by blast
qed

text \<open>The search for the end of reasoning does not see what is written inside of arguments.\<close>

abbreviation think_from :: "nat \<Rightarrow> nat option \<Rightarrow> string \<Rightarrow> nat option" where
  "think_from \<equiv> structural_from ''</think>'' True"

lemma think_plain: "CHR ''<'' \<notin> set u \<Longrightarrow> think_from pos found (u @ s) = think_from (pos + length u) found s"
  by (rule structural_plain) simp_all

lemma think_marker:
  assumes "syn = Ds41 \<or> syn = Ds4" "m \<in> {tool_calls_start syn, tool_calls_end syn, invoke_start syn, invoke_end syn}"
  shows "think_from pos found (m @ s) = think_from (pos + length m) found s"
proof -
  obtain f where f: "m = CHR ''<'' # f" "CHR ''<'' \<notin> set f" using assms by (auto simp: dsml_text)
  have "\<not> prefix ''</think>'' (m @ s)" "find (\<lambda>w. prefix (fst w) (m @ s)) tool_wrappers = None"
    using assms by (auto simp: tool_wrappers_def dsml_text)
  then have "think_from pos found (m @ s) = think_from (pos + 1) found (f @ s)" unfolding f by (simp add: structural_from.simps)
  then show ?thesis using think_plain [OF f(2), of "pos + 1" found s] f(1) by simp
qed

lemma think_arg:
  assumes "syn = (if v41 then Ds41 else Ds4)"
  shows "think_from pos found (append_dsml_arg a v41 @ s) = think_from (pos + length (append_dsml_arg a v41)) found s"
proof -
  have syn: "syn = Ds41 \<or> syn = Ds4" using assms by simp
  let ?t = "param_tag syn (ja_key a) (ja_is_string a)" and ?v = "value_body v41 a @ param_end syn @ [CHR 0x0A] @ s"
  let ?p = "?t @ CHR ''>'' # ?v"
  have p: "append_dsml_arg a v41 @ s = ?p" by (simp add: arg_text arg_text_def param_tag_def Let_def assms del: append_assoc)
  have e: "strstr ?v (param_end syn) = Some (length (value_body v41 a))" unfolding assms by (rule value_end_written)
  have w: "wrapper_end ?p (param_end syn) = Some (length ?t + 1 + length (value_body v41 a) + length (param_end syn))"
    using strchr_at [OF param_tag_attr(1) [OF syn]] e by (simp add: wrapper_end_def)
  obtain y where y: "?p = param_start syn @ y" by (simp add: param_tag_def)
  have f: "\<not> prefix ''</think>'' ?p" "find (\<lambda>w. prefix (fst w) ?p) tool_wrappers = Some (param_start syn, param_end syn)" "?p \<noteq> []"
    unfolding y using syn by (auto simp: tool_wrappers_def dsml_text)
  have d: "drop (length ?t + 1 + length (value_body v41 a) + length (param_end syn)) ?p = [CHR 0x0A] @ s" by simp
  have "think_from pos found ?p = think_from (pos + (length ?t + 1 + length (value_body v41 a) + length (param_end syn))) found ([CHR 0x0A] @ s)"
    unfolding structural_wrapper [OF f(1,2) w f(3)] d ..
  also have "\<dots> = think_from (pos + (length ?t + 1 + length (value_body v41 a) + length (param_end syn)) + 1) found s"
    using think_plain [of "[CHR 0x0A]"] by simp
  finally show ?thesis
    unfolding p by (simp add: arg_text arg_text_def param_tag_def Let_def assms add.assoc)
qed

lemma think_args: "think_from pos found (concat (map (\<lambda>a. append_dsml_arg a v41) as) @ s)
    = think_from (pos + length (concat (map (\<lambda>a. append_dsml_arg a v41) as))) found s"
proof (induction as arbitrary: pos)
  case (Cons a as)
  then show ?case using think_arg [OF refl, of pos found a v41] by (simp add: add.assoc)
qed simp

lemma think_calls: "think_from pos found (concat (map (dsml_call_text v41) calls) @ s) = think_from (pos + length (concat (map (dsml_call_text v41) calls))) found s"
proof (induction calls arbitrary: pos)
  case (Cons tc calls)
  define syn where "syn = (if v41 then Ds41 else Ds4)"
  have syn: "syn = Ds41 \<or> syn = Ds4" by (simp add: syn_def)
  let ?t = "concat (map (dsml_call_text v41) calls) @ s"
  let ?u = "'' name='' @ quoted (tc_name tc) @ ''>'' @ [CHR 0x0A]"
  let ?as = "concat (map (\<lambda>a. append_dsml_arg a v41) (call_args tc))"
  have c: "dsml_call_text v41 tc = invoke_start syn @ ?u @ ?as @ invoke_end syn @ [CHR 0x0A]" by (simp add: call_text syn_def)
  have p: "concat (map (dsml_call_text v41) (tc # calls)) @ s = invoke_start syn @ ?u @ ?as @ invoke_end syn @ [CHR 0x0A] @ ?t" by (simp add: c)
  have u: "CHR ''<'' \<notin> set ?u" "CHR ''<'' \<notin> set [CHR 0x0A]" using attr_no_tag by (auto simp: quoted_def)
  have m: "think_from q found (invoke_start syn @ r) = think_from (q + length (invoke_start syn)) found r"
    "think_from q found (invoke_end syn @ r) = think_from (q + length (invoke_end syn)) found r" for q r
    by (rule think_marker [OF syn], simp)+
  show ?case
    unfolding p m think_plain [OF u(1)] think_args think_plain [OF u(2)] Cons.IH by (simp add: c add.assoc)
qed simp

lemma think_block:
  assumes "calls \<noteq> []"
  shows "think_from pos found (written_block v41 calls @ s) = think_from (pos + length (written_block v41 calls)) found s"
proof -
  define syn where "syn = (if v41 then Ds41 else Ds4)"
  have syn: "syn = Ds41 \<or> syn = Ds4" by (simp add: syn_def)
  have b: "written_block v41 calls = [CHR 0x0A, CHR 0x0A] @ tool_calls_start syn @ [CHR 0x0A] @ concat (map (dsml_call_text v41) calls) @ tool_calls_end syn"
    using assms by (simp add: written_block_def append_dsml_tool_calls_text_def Let_def syn_def)
  have n: "CHR ''<'' \<notin> set [CHR 0x0A, CHR 0x0A]" "CHR ''<'' \<notin> set [CHR 0x0A]" by simp_all
  have m: "think_from q found (tool_calls_start syn @ r) = think_from (q + length (tool_calls_start syn)) found r"
    "think_from q found (tool_calls_end syn @ r) = think_from (q + length (tool_calls_end syn)) found r" for q r
    by (rule think_marker [OF syn], simp)+
  show ?thesis unfolding b append_assoc think_plain [OF n(1)] m think_plain [OF n(2)] think_calls by (simp add: add.assoc)
qed

text \<open>So the reasoning of a reply ends where it was closed, even when an argument of a call holds the same text.\<close>

lemma think_search:
  assumes "CHR ''<'' \<notin> set r" "CHR ''<'' \<notin> set c" "CHR ''<'' \<notin> set s" "calls \<noteq> []"
  shows "dsml_tool_search ((r @ ''</think>'' @ c) @ written_block v41 calls @ s) True = Some (length r + 8, False)"
proof -
  have e: "think_from pos (Some k) c' = Some k" if "CHR ''<'' \<notin> set c'" for pos k c'
    using think_plain [OF that, of pos "Some k" "[]"] by (simp add: structural_from.simps)
  have x: "think_from (length r) None (''</think>'' @ c @ w) = think_from (length r + 8) (Some (length r)) (c @ w)" for w
  proof -
    have n: "find (\<lambda>w. prefix (fst w) (''</think>'' @ c @ w')) tool_wrappers = None" for w' by (simp add: tool_wrappers_def dsml_text)
    have "think_from (length r) None (''</think>'' @ c @ w) = think_from (length r + 1) (Some (length r)) (''/think>'' @ c @ w)"
      using n [of w] by (simp add: structural_from.simps)
    also have "\<dots> = think_from (length r + 1 + length ''/think>'') (Some (length r)) (c @ w)" by (rule think_plain) simp
    finally show ?thesis by (simp add: numeral_eq_Suc)
  qed
  show ?thesis
    unfolding dsml_tool_search_def find_tool_structural_text_def
    using think_plain [OF assms(1), of 0 None "''</think>'' @ c @ written_block v41 calls @ s"]
    by (simp only: append_assoc add_0 x think_plain [OF assms(2)] think_block [OF assms(4)] e [OF assms(3)] if_False not_True_eq_False option.case)
qed


definition cut_message :: string where
  "cut_message = ''ok'' @ with_break (tool_calls_start Ds41) @ CHR 0x0A # concat (map (dsml_call_text True) sample_history)"


text \<open>
  A value that is not a string and is empty: the parser reads it as null, but the stream sends the member without a value,
  which is no JSON.
\<close>

definition empty_value :: string where
  "empty_value = ''<tool_calls><invoke name=\"f\"><parameter name=\"k\" string=\"false\"></parameter></invoke></tool_calls>''"

lemma empty_value_read_as_null:
  "map_option (\<lambda>r. map tc_arguments (tcs_v (snd r))) (parse_deepseek_generated_message_ex empty_value False) = Some [''{'' @ json_escape ''k'' @ '': null}'']"
  by code_simp

lemma empty_value_streamed:
  "wire (snd (snd (openai_tool_stream_update all_sent show_nat empty_value (snd (openai_tool_stream_init empty_value 0)) [])))
    = Client_start 0 ''0'' ''f'' # map (Client_char 0) (''{'' @ json_escape ''k'' @ '':}'')"
  by code_simp

end
