(* ===== verification/ToolParseGlm.thy ===== *)
theory ToolParseGlm
  imports ToolParse
begin

text \<open>
  What the parser of GLM messages makes of the calls that the server writes: the same names and keys in the order of
  the schema, every value as a string.
\<close>

section \<open>The parser reads what was written for GLM\<close>

lemma close_found: "close_tag e \<Longrightarrow> strstr (append_glm_tag_body_text s e @ e @ r) e = Some (length (append_glm_tag_body_text s e))"
proof -
  assume e: "close_tag e"
  have "find_lit_bounded (append_glm_tag_body_text s e @ e @ r) e = Some (length (append_glm_tag_body_text s e))"
    by (rule first_close [OF e]) (rule body_no_delimiter [OF e])
  then show ?thesis using e find_lit_strstr [of e] by (simp add: close_tag_def)
qed

lemma glm_tags: "close_tag ''</arg_key>''" "close_tag ''</arg_value>''"
  by (simp_all add: close_tag_def)

definition no_outer_space :: "string \<Rightarrow> bool" where
  "no_outer_space s \<longleftrightarrow> s = [] \<or> \<not> isspace (hd s) \<and> \<not> isspace (last s)"

lemma trim_plain:
  assumes "no_outer_space s"
  shows "trim_const_span s = (0, length s)" "trimmed_span s = s"
proof -
  have "takeWhile isspace s = []" using assms by (cases s) (auto simp: no_outer_space_def)
  moreover have "takeWhile isspace (rev s) = []" using assms by (cases s rule: rev_cases) (auto simp: no_outer_space_def)
  ultimately show "trim_const_span s = (0, length s)" by (simp add: trim_const_span_def)
  then show "trimmed_span s = s" by (simp add: trimmed_span_def)
qed

lemma body_last: "s \<noteq> [] \<Longrightarrow> append_glm_tag_body_text s e \<noteq> [] \<and>
    (last (append_glm_tag_body_text s e) = last s \<or> last (append_glm_tag_body_text s e) = CHR '';'')"
proof (induction s)
  case (Cons c s)
  show ?case
  proof (cases "s = []")
    case False
    then show ?thesis using Cons by simp
  qed simp
qed simp

lemma body_first: "s \<noteq> [] \<Longrightarrow> hd (append_glm_tag_body_text s e) = hd s \<or> hd (append_glm_tag_body_text s e) = CHR ''&''"
  by (cases s) auto

lemma body_no_outer_space: "no_outer_space s \<Longrightarrow> no_outer_space (append_glm_tag_body_text s e)"
  using body_first [of s e] body_last [of s e] by (cases "s = []") (auto simp: no_outer_space_def isspace_def char_code_def)

lemma ws_tag: "skip_ascii_ws (CHR ''<'' # s) = CHR ''<'' # s"
  by (simp add: skip_ascii_ws_def isspace_def char_code_def)

definition glm_add_arg :: "string \<Rightarrow> json_arg \<Rightarrow> string" where
  "glm_add_arg args a = tool_call_json_args_add args (ja_key a) (ja_value a) ''true''"

lemma glm_arg_written:
  assumes "no_outer_space (ja_key a)" "n \<le> length r"
  shows "glm_parse_arg n (append_glm_arg a @ r) args = Some (r, glm_add_arg args a)"
proof -
  let ?k = "append_glm_tag_body_text (ja_key a) ''</arg_key>''" and ?v = "append_glm_tag_body_text (ja_value a) ''</arg_value>''"
  let ?p2 = "''<arg_value>'' @ ?v @ ''</arg_value>'' @ r"
  let ?p1 = "?k @ ''</arg_key>'' @ ?p2"
  have p: "append_glm_arg a @ r = ''<arg_key>'' @ ?p1"
    by (simp add: append_glm_arg_def append_glm_arg_key_text_def append_glm_arg_value_text_def)
  have d: "drop 9 (''<arg_key>'' @ ?p1) = ?p1" "drop (length ?k + 10) ?p1 = ?p2" "drop 11 ?p2 = ?v @ ''</arg_value>'' @ r" "drop (length ?v + 12) (?v @ ''</arg_value>'' @ r) = r"
    by (simp_all add: numeral_eq_Suc)
  have s: "strstr ?p1 ''</arg_key>'' = Some (length ?k)" "strstr (?v @ ''</arg_value>'' @ r) ''</arg_value>'' = Some (length ?v)"
    by (rule close_found [OF glm_tags(1)], rule close_found [OF glm_tags(2)])
  have t: "take (length ?k) ?p1 = ?k" "take (length ?v) (?v @ ''</arg_value>'' @ r) = ?v" by simp_all
  have l: "\<not> length (drop (length ?k) ?p1) < n" "\<not> length (drop (length ?v) (?v @ ''</arg_value>'' @ r)) < n" using assms(2) by simp_all
  have w: "skip_ascii_ws ?p2 = ?p2" using ws_tag by simp
  have x: "prefix ''<arg_value>'' ?p2" by simp
  show ?thesis
    unfolding p glm_parse_arg_def Let_def d s option.case t w trim_plain(2) [OF body_no_outer_space [OF assms(1)]]
      unescape_body [OF glm_tags(1)] unescape_body [OF glm_tags(2)] glm_add_arg_def
    using l x by (simp only: if_False if_True not_True_eq_False)
qed

lemma glm_args_written:
  assumes "\<forall>a\<in>set as. no_outer_space (ja_key a)" "n \<le> length r + 12"
  shows "glm_parse_args n (concat (map append_glm_arg as) @ ''</tool_call>'' @ r) args = Some (foldl glm_add_arg args as, r)"
  using assms(1)
proof (induction as arbitrary: args)
  case Nil
  have "skip_ascii_ws (''</tool_call>'' @ r) = ''</tool_call>'' @ r" using ws_tag by simp
  then show ?case by (subst glm_parse_args.simps) (simp add: numeral_eq_Suc)
next
  case (Cons a as)
  let ?r = "concat (map append_glm_arg as) @ ''</tool_call>'' @ r"
  obtain y where y: "append_glm_arg a @ ?r = ''<arg_key>'' @ y" by (simp add: append_glm_arg_def)
  have w: "skip_ascii_ws (append_glm_arg a @ ?r) = append_glm_arg a @ ?r" unfolding y using ws_tag by simp
  have "\<not> prefix ''</tool_call>'' (append_glm_arg a @ ?r)" "prefix ''<arg_key>'' (append_glm_arg a @ ?r)" unfolding y by simp_all
  moreover have "glm_parse_arg n (append_glm_arg a @ ?r) args = Some (?r, glm_add_arg args a)"
    using glm_arg_written [of a n ?r args] Cons.prems assms(2) by simp
  ultimately have "glm_parse_args n (append_glm_arg a @ ?r) args = glm_parse_args n ?r (glm_add_arg args a)"
    using w by (subst glm_parse_args.simps) (simp only: Let_def if_True if_False option.case prod.case not_True_eq_False)
  then show ?case using Cons by simp
qed

lemma structural_arg:
  "structural_from ''</tool_call>'' want_last pos found (append_glm_arg a @ s)
    = structural_from ''</tool_call>'' want_last (pos + length (append_glm_arg a)) found s"
proof -
  let ?k = "append_glm_tag_body_text (ja_key a) ''</arg_key>''" and ?v = "append_glm_tag_body_text (ja_value a) ''</arg_value>''"
  let ?p2 = "''<arg_value>'' @ ?v @ ''</arg_value>'' @ s"
  let ?p1 = "''<arg_key>'' @ ?k @ ''</arg_key>'' @ ?p2"
  have p: "append_glm_arg a @ s = ?p1"
    by (simp add: append_glm_arg_def append_glm_arg_key_text_def append_glm_arg_value_text_def)
  have w1: "wrapper_end ?p1 ''</arg_key>'' = Some (length ?k + 19)"
    using close_found [OF glm_tags(1), of "ja_key a" ?p2] by (simp add: wrapper_end_def)
  have w2: "wrapper_end ?p2 ''</arg_value>'' = Some (length ?v + 23)"
    using close_found [OF glm_tags(2), of "ja_value a" s] by (simp add: wrapper_end_def)
  have f: "find (\<lambda>w. prefix (fst w) ?p1) tool_wrappers = Some (''<arg_key>'', ''</arg_key>'')"
    "find (\<lambda>w. prefix (fst w) ?p2) tool_wrappers = Some (''<arg_value>'', ''</arg_value>'')"
    by (simp_all add: tool_wrappers_def dsml_text)
  have d: "drop (length ?k + 19) ?p1 = ?p2" "drop (length ?v + 23) ?p2 = s" by (simp_all add: numeral_eq_Suc)
  have n: "\<not> prefix ''</tool_call>'' ?p1" "\<not> prefix ''</tool_call>'' ?p2" "?p1 \<noteq> []" "?p2 \<noteq> []" by simp_all
  have l: "length (append_glm_arg a) = length ?k + 19 + (length ?v + 23)"
    by (simp add: append_glm_arg_def append_glm_arg_key_text_def append_glm_arg_value_text_def)
  show ?thesis
    unfolding p structural_wrapper [OF n(1) f(1) w1 n(3)] d(1) structural_wrapper [OF n(2) f(2) w2 n(4)] d(2) l by (simp add: add.assoc)
qed

lemma structural_args:
  "structural_from ''</tool_call>'' False pos found (concat (map append_glm_arg as) @ ''</tool_call>'' @ s)
    = Some (pos + length (concat (map append_glm_arg as)))"
  by (induction as arbitrary: pos) (simp_all add: structural_arg structural_from.simps add.assoc del: length_concat)

definition glm_call_args :: "tool_schema_order list \<Rightarrow> tool_call \<Rightarrow> json_arg list" where
  "glm_call_args orders tc = (case json_args_parse (tc_arguments tc) of
       Some args \<Rightarrow> ordered_args (map_option so_prop (tool_schema_orders_find orders (tc_name tc))) args
     | None \<Rightarrow> [\<lparr>ja_key = ''arguments'', ja_value = tc_arguments tc, ja_is_string = True, ja_used = False\<rparr>])"

lemma glm_text: "glm_call_text orders tc = ''<tool_call>'' @ tc_name tc @ concat (map append_glm_arg (glm_call_args orders tc)) @ ''</tool_call>''"
proof (cases "json_args_parse (tc_arguments tc)")
  case None
  have "append_glm_arg_key_text ''arguments'' = ''arguments''"
    by (simp add: append_glm_arg_key_text_def ds4_tool_text_needs_escape_def ds4_tool_text_escaped_close_def)
  then show ?thesis using None by (simp add: glm_call_text_def glm_call_args_def append_glm_arguments_from_json_def append_glm_arg_def)
qed (simp add: glm_call_text_def glm_call_args_def append_glm_arguments_from_json_def)

definition glm_plain_call :: "tool_schema_order list \<Rightarrow> tool_call \<Rightarrow> bool" where
  "glm_plain_call orders tc \<longleftrightarrow> tc_name tc \<noteq> [] \<and> CHR ''<'' \<notin> set (tc_name tc) \<and> no_outer_space (tc_name tc)
     \<and> list_all (\<lambda>a. no_outer_space (ja_key a)) (glm_call_args orders tc)"

definition glm_parsed_call :: "tool_schema_order list \<Rightarrow> tool_call \<Rightarrow> tool_call" where
  "glm_parsed_call orders tc = \<lparr>tc_id = None, tc_name = tc_name tc, tc_arguments = ''{'' @ foldl glm_add_arg [] (glm_call_args orders tc) @ ''}''\<rparr>"

text \<open>A needle that starts with a character the text before does not have is found where it stands.\<close>

lemma strstr_fresh: "needle \<noteq> [] \<Longrightarrow> hd needle \<notin> set u \<Longrightarrow> strstr (u @ s) needle = map_option (\<lambda>i. length u + i) (strstr s needle)"
proof (induction u)
  case Nil
  then show ?case by (cases "strstr s needle") simp_all
next
  case (Cons c u)
  then have "\<not> prefix needle (c # u @ s)" by (cases needle) auto
  then show ?case using Cons by (simp add: option.map_comp comp_def)
qed

lemma glm_call_written:
  assumes "glm_plain_call orders tc"
  shows "glm_parse_call (tc_name tc @ concat (map append_glm_arg (glm_call_args orders tc)) @ ''</tool_call>'' @ r) = Some (glm_parsed_call orders tc, r)"
proof -
  let ?n = "tc_name tc" and ?as = "glm_call_args orders tc"
  let ?t = "concat (map append_glm_arg ?as) @ ''</tool_call>'' @ r"
  have n: "?n \<noteq> []" "CHR ''<'' \<notin> set ?n" "no_outer_space ?n" "\<forall>a\<in>set ?as. no_outer_space (ja_key a)"
    using assms by (simp_all add: glm_plain_call_def list_all_iff)
  define close where "close = length ?n + length (concat (map append_glm_arg ?as))"
  have c: "find_tool_structural_text (?n @ ?t) ''</tool_call>'' False = Some close"
    unfolding find_tool_structural_text_def
    using structural_plain [of "''</tool_call>''" ?n False 0 None ?t] n(2) structural_args [of "length ?n" None ?as r] by (simp add: close_def)
  have s: "strstr (?n @ ?t) ''<arg_key>'' = map_option (\<lambda>i. length ?n + i) (strstr ?t ''<arg_key>'')" using n(2) by (intro strstr_fresh) auto
  have e: "(case strstr (?n @ ?t) ''<arg_key>'' of None \<Rightarrow> close | Some a \<Rightarrow> if close < a then close else a) = length ?n"
  proof (cases ?as)
    case Nil
    have "strstr ?t ''<arg_key>'' \<noteq> Some 0" using strstr_Some [of ?t "''<arg_key>''" 0] Nil by auto
    then show ?thesis using s Nil by (auto simp: close_def split: option.split)
  next
    case (Cons a as)
    have "strstr ?t ''<arg_key>'' = Some 0" using Cons by (simp add: append_glm_arg_def)
    then show ?thesis using s by (simp add: close_def)
  qed
  have k: "length (?n @ ?t) - close \<le> length r + 12" by (simp add: close_def)
  have p: "glm_parse_args (length (?n @ ?t) - close) ?t [] = Some (foldl glm_add_arg [] ?as, r)"
    using glm_args_written [OF n(4) k] by blast
  have tk: "take (length ?n) (?n @ ?t) = ?n" by simp
  show ?thesis
    unfolding glm_parse_call_def c option.case e Let_def tk trim_plain(1) [OF n(3)] prod.case using n(1) p by (simp add: glm_parsed_call_def)
qed

lemma glm_calls_written:
  assumes "list_all (glm_plain_call orders) calls" "\<not> prefix ''<tool_call>'' (skip_ascii_ws r)"
  shows "glm_parse_calls (concat (map (glm_call_text orders) calls) @ CHR 0x0A # r) done_calls
    = Some (done_calls @ map (glm_parsed_call orders) calls, skip_ascii_ws r)"
  using assms(1)
proof (induction calls arbitrary: done_calls)
  case Nil
  have "skip_ascii_ws (CHR 0x0A # r) = skip_ascii_ws r" by (simp add: skip_ascii_ws_def isspace_def char_code_def)
  then show ?case using assms(2) by (simp add: glm_parse_calls.simps)
next
  case (Cons tc calls)
  let ?r = "concat (map (glm_call_text orders) calls) @ CHR 0x0A # r"
  let ?p = "''<tool_call>'' @ tc_name tc @ concat (map append_glm_arg (glm_call_args orders tc)) @ ''</tool_call>'' @ ?r"
  have w: "skip_ascii_ws ?p = ?p" using ws_tag by simp
  have d: "drop 11 ?p = tc_name tc @ concat (map append_glm_arg (glm_call_args orders tc)) @ ''</tool_call>'' @ ?r" by (simp add: numeral_eq_Suc)
  have c: "glm_parse_call (drop 11 ?p) = Some (glm_parsed_call orders tc, ?r)" unfolding d using Cons.prems by (intro glm_call_written) simp
  have x: "prefix ''<tool_call>'' ?p" by simp
  have "glm_parse_calls ?p done_calls = glm_parse_calls ?r (done_calls @ [glm_parsed_call orders tc])"
    using w c x by (subst glm_parse_calls.simps) (simp only: Let_def if_True if_False option.case prod.case not_True_eq_False)
  moreover have "concat (map (glm_call_text orders) (tc # calls)) @ CHR 0x0A # r = ?p" by (simp add: glm_text [of orders tc])
  ultimately show ?case using Cons by simp
qed

lemma strstr_line:
  assumes "strstr u needle = None" "CHR 0x0A \<notin> set needle" "needle \<noteq> []"
  shows "strstr (u @ CHR 0x0A # needle @ s) needle = Some (length u + 1)"
proof -
  let ?w = "CHR 0x0A # needle @ s"
  have "\<not> prefix needle (drop j (u @ ?w))" if j: "j < length u + 1" for j
  proof
    assume p: "prefix needle (drop j (u @ ?w))"
    show False
    proof (cases "length needle \<le> length u - j \<and> j < length u")
      case True
      then have "prefix needle (drop j u)" using prefix_before [OF p] True by linarith
      then show False using strstr_None [OF assms(1), of j] True by simp
    next
      case False
      then have k: "length u - j < length needle" using assms(3) j by (cases needle) auto
      have "needle ! (length u - j) = drop j (u @ ?w) ! (length u - j)" using prefix_nth [OF p k] by simp
      also have "\<dots> = CHR 0x0A" using j by (simp add: nth_append)
      finally show False using assms(2) nth_mem [OF k] by metis
    qed
  qed
  then show ?thesis using strstr_iff [of needle "u @ ?w" "length u + 1"] assms(3) by (simp add: less_Suc_eq_le)
qed


definition sample_glm_calls :: "tool_call list" where
  "sample_glm_calls = [\<lparr>tc_id = None, tc_name = ''say'', tc_arguments = ''{'' @ json_escape ''a'' @ '':'' @ json_escape ''</tool_call>'' @ '',''  @ json_escape ''n'' @ '':1}''\<rparr>]"

definition sample_orders :: "tool_schema_order list" where
  "sample_orders = [\<lparr>so_name = Some ''say'', so_prop = [''n'', ''a'']\<rparr>]"


end
