(* ===== verification/ToolAnthropic.thy ===== *)
theory ToolAnthropic
  imports ToolStream
begin

text \<open>
  The stream that turns a tool call into Anthropic content blocks while the model is writing it
  (\<open>anthropic_tool_stream_update\<close> and the functions it calls, \<open>src/ds4_server.c\<close>). It returns; whatever the
  socket does, the blocks a client sees follow the protocol; and it sends the calls that the OpenAI stream sends.
\<close>

section \<open>Content blocks\<close>

datatype anthropic_block_type = BLOCK_NONE | BLOCK_THINKING | BLOCK_TEXT | BLOCK_TOOL

text \<open>
  The events of a message: a tool block with its identifier and name, a block of thinking or of text, pieces of their
  contents, the signature of a block of thinking, the end of a block, and the end of the message.
\<close>

datatype block_event =
    Block_start nat string string | Text_start nat anthropic_block_type
  | Block_delta nat string | Text_piece nat anthropic_block_type string
  | Block_signature nat | Block_stop nat | Message_delta string | Message_stop

datatype anthropic_stream_mode = ANTH_THINKING | ANTH_TEXT | ANTH_TOOL | ANTH_SUPPRESS

text \<open>\<open>anthropic_tool_stream\<close> has the fields of the OpenAI stream.\<close>

record anthropic_stream =
  as_mode :: anthropic_stream_mode
  as_open_block :: anthropic_block_type
  as_next_index :: nat
  as_emit_pos :: nat
  as_active :: bool
  as_checked_think_prefix :: bool
  as_guard_second_reasoning :: bool
  as_sent_thinking :: bool
  as_sent_text :: bool
  as_tool :: openai_tool_stream

definition anthropic_sse_open_tool_block ::
    "sender \<Rightarrow> anthropic_stream \<Rightarrow> string \<Rightarrow> string \<Rightarrow> block_event list \<Rightarrow> bool \<times> anthropic_stream \<times> block_event list" where
  "anthropic_sse_open_tool_block send st tid name out =
     (if as_open_block st = BLOCK_TOOL then (True, st, out)
      else if as_open_block st \<noteq> BLOCK_NONE then (False, st, out)
      else let (sent, out) = send_event send (Block_start (as_next_index st) tid name) out
           in (sent, if sent then st\<lparr>as_open_block := BLOCK_TOOL\<rparr> else st, out))"

definition anthropic_sse_tool_delta_live :: "sender \<Rightarrow> anthropic_stream \<Rightarrow> string \<Rightarrow> block_event list \<Rightarrow> bool \<times> block_event list" where
  "anthropic_sse_tool_delta_live send st txt out =
     (if txt = [] then (True, out) else send_event send (Block_delta (as_next_index st) txt) out)"

definition anthropic_sse_close_block_live ::
    "sender \<Rightarrow> anthropic_stream \<Rightarrow> block_event list \<Rightarrow> bool \<times> anthropic_stream \<times> block_event list" where
  "anthropic_sse_close_block_live send st out =
     (if as_open_block st = BLOCK_NONE then (True, st, out)
      else
        let (sent, out) = (if as_open_block st = BLOCK_THINKING then send_event send (Block_signature (as_next_index st)) out else (True, out));
            (sent, out) = (if sent then send_event send (Block_stop (as_next_index st)) out else (False, out))
        in (sent, if sent then st\<lparr>as_open_block := BLOCK_NONE, as_next_index := as_next_index st + 1\<rparr> else st, out))"

definition anthropic_tool_emit_args_fragment :: "sender \<Rightarrow> anthropic_stream \<Rightarrow> string \<Rightarrow> block_event list \<Rightarrow> bool \<times> block_event list" where
  "anthropic_tool_emit_args_fragment send st txt out = anthropic_sse_tool_delta_live send st txt out"

definition anthropic_tool_emit_string_value :: "sender \<Rightarrow> anthropic_stream \<Rightarrow> string \<Rightarrow> block_event list \<Rightarrow> bool \<times> block_event list" where
  "anthropic_tool_emit_string_value send st txt out =
     (if txt = [] then (True, out)
      else let raw = ds4_tool_text_unescape (c_str txt) (param_end (ts_syn (as_tool st))) in
        anthropic_tool_emit_args_fragment send st (json_escape_fragment_n raw (length raw)) out)"

definition anthropic_tool_emit_param_prefix ::
    "sender \<Rightarrow> anthropic_stream \<Rightarrow> string \<Rightarrow> bool \<Rightarrow> block_event list \<Rightarrow> bool \<times> anthropic_stream \<times> block_event list" where
  "anthropic_tool_emit_param_prefix send st name is_string out =
     (let frag = (if ts_first_param (as_tool st) then [] else '','') @ json_escape name @ '':'' @ (if is_string then [CHR 0x22] else []);
          (sent, out) = anthropic_tool_emit_args_fragment send st frag out
      in (sent, st\<lparr>as_tool := (as_tool st)\<lparr>ts_first_param := False\<rparr>\<rparr>, out))"

definition anthropic_tool_stream_init :: "string \<Rightarrow> nat \<Rightarrow> bool \<times> openai_tool_stream" where
  "anthropic_tool_stream_init raw pos =
     (let ts = \<lparr>ts_state = BETWEEN_INVOKES, ts_syn = Ds41, ts_pos = 0, ts_index = 0, ts_active = True, ts_emitted_any = False,
                ts_args_open = False, ts_first_param = False, ts_param_is_string = False\<rparr>
      in case find (\<lambda>syn. raw_full_lit raw pos (tool_calls_start syn)) dsml_syntaxes of
           Some syn \<Rightarrow> (True, ts\<lparr>ts_syn := syn, ts_pos := pos + length (tool_calls_start syn)\<rparr>)
         | None \<Rightarrow> (False, ts\<lparr>ts_active := False, ts_state := TOOL_ERROR\<rparr>))"

definition anthropic_tool_stream_fail :: "anthropic_stream \<Rightarrow> anthropic_stream" where
  "anthropic_tool_stream_fail st = st\<lparr>as_tool := (as_tool st)\<lparr>ts_active := False, ts_state := TOOL_ERROR\<rparr>\<rparr>"

definition anthropic_tool_start_invoke ::
    "sender \<Rightarrow> (nat \<Rightarrow> string) \<Rightarrow> string \<Rightarrow> anthropic_stream \<Rightarrow> block_event list \<Rightarrow> bool \<times> anthropic_stream \<times> block_event list" where
  "anthropic_tool_start_invoke send tool_id raw st out =
     (let ts = as_tool st in
      case memchr (drop (ts_pos ts) raw) CHR ''>'' of None \<Rightarrow> (True, st, out)
      | Some g \<Rightarrow>
          (case dsml_attr (c_str (take (g + 1) (drop (ts_pos ts) raw))) ''name'' of
             None \<Rightarrow> (True, anthropic_tool_stream_fail st, out)
           | Some name \<Rightarrow>
               (let (sent, st, out) = anthropic_sse_open_tool_block send st (tool_id (ts_index ts)) name out;
                    (sent, out) = (if sent then anthropic_tool_emit_args_fragment send st ''{'' out else (False, out))
                in if \<not> sent then (False, st, out)
                   else (True, st\<lparr>as_tool := ts\<lparr>ts_emitted_any := True, ts_args_open := True, ts_first_param := True,
                                  ts_pos := ts_pos ts + g + 1, ts_state := BETWEEN_PARAMS\<rparr>\<rparr>, out))))"

definition anthropic_tool_start_param ::
    "sender \<Rightarrow> string \<Rightarrow> anthropic_stream \<Rightarrow> block_event list \<Rightarrow> bool \<times> anthropic_stream \<times> block_event list" where
  "anthropic_tool_start_param send raw st out =
     (let ts = as_tool st in
      case memchr (drop (ts_pos ts) raw) CHR ''>'' of None \<Rightarrow> (True, st, out)
      | Some g \<Rightarrow>
          (let tag = c_str (take (g + 1) (drop (ts_pos ts) raw)) in
           case (dsml_attr tag ''name'', dsml_attr tag ''string'') of
             (Some name, Some is_string) \<Rightarrow>
               (let string_value = (is_string = ''true'');
                    (sent, st, out) = anthropic_tool_emit_param_prefix send st name string_value out
                in if \<not> sent then (False, st, out)
                   else (True, st\<lparr>as_tool := (as_tool st)\<lparr>ts_param_is_string := string_value, ts_pos := ts_pos ts + g + 1,
                                                         ts_state := PARAM_VALUE\<rparr>\<rparr>, out))
           | _ \<Rightarrow> (True, anthropic_tool_stream_fail st, out)))"

definition anthropic_tool_emit_value :: "sender \<Rightarrow> anthropic_stream \<Rightarrow> string \<Rightarrow> block_event list \<Rightarrow> bool \<times> block_event list" where
  "anthropic_tool_emit_value send st txt out =
     (if ts_param_is_string (as_tool st) then anthropic_tool_emit_string_value send st txt out
      else anthropic_tool_emit_args_fragment send st txt out)"

definition anthropic_tool_finish_param ::
    "sender \<Rightarrow> string \<Rightarrow> anthropic_stream \<Rightarrow> nat \<Rightarrow> block_event list \<Rightarrow> bool \<times> anthropic_stream \<times> block_event list" where
  "anthropic_tool_finish_param send raw st value_end out =
     (let ts = as_tool st;
          (sent, out) = (if ts_pos ts < value_end
            then anthropic_tool_emit_value send st (take (value_end - ts_pos ts) (drop (ts_pos ts) raw)) out else (True, out));
          (sent, out) = (if sent \<and> ts_param_is_string ts
            then anthropic_tool_emit_args_fragment send st [CHR 0x22] out else (sent, out))
      in if \<not> sent then (False, st, out)
         else (True, st\<lparr>as_tool := ts\<lparr>ts_pos := value_end + length (param_end (ts_syn ts)), ts_state := BETWEEN_PARAMS\<rparr>\<rparr>, out))"

definition anthropic_unless_stuck ::
    "openai_tool_stream \<Rightarrow> bool \<times> anthropic_stream \<times> block_event list \<Rightarrow> (bool \<times> anthropic_stream \<times> block_event list) outcome" where
  "anthropic_unless_stuck before r =
     (case r of (sent, st, out) \<Rightarrow>
        if \<not> sent then Stop (False, st, out)
        else if ts_pos (as_tool st) = ts_pos before \<and> ts_state (as_tool st) = ts_state before then Stop (True, st, out)
        else Go (True, st, out))"

definition anthropic_between_invokes ::
    "sender \<Rightarrow> (nat \<Rightarrow> string) \<Rightarrow> string \<Rightarrow> anthropic_stream \<Rightarrow> block_event list \<Rightarrow> (bool \<times> anthropic_stream \<times> block_event list) outcome" where
  "anthropic_between_invokes send tool_id raw st out =
     (let ts = (as_tool st)\<lparr>ts_pos := skip_space raw (ts_pos (as_tool st))\<rparr>; st = st\<lparr>as_tool := ts\<rparr>; syn = ts_syn ts in
      if length raw \<le> ts_pos ts then Stop (True, st, out)
      else if raw_full_lit raw (ts_pos ts) (tool_calls_end syn)
      then Stop (True, st\<lparr>as_tool := ts\<lparr>ts_pos := ts_pos ts + length (tool_calls_end syn), ts_active := False, ts_state := TOOL_DONE\<rparr>\<rparr>, out)
      else if raw_partial_any raw (ts_pos ts) (tool_calls_end syn) (invoke_start syn) then Stop (True, st, out)
      else if raw_full_lit raw (ts_pos ts) (invoke_start syn)
      then anthropic_unless_stuck ts (anthropic_tool_start_invoke send tool_id raw st out)
      else Stop (True, anthropic_tool_stream_fail st, out))"

definition anthropic_between_params ::
    "sender \<Rightarrow> string \<Rightarrow> anthropic_stream \<Rightarrow> block_event list \<Rightarrow> (bool \<times> anthropic_stream \<times> block_event list) outcome" where
  "anthropic_between_params send raw st out =
     (let ts = (as_tool st)\<lparr>ts_pos := skip_space raw (ts_pos (as_tool st))\<rparr>; st = st\<lparr>as_tool := ts\<rparr>; syn = ts_syn ts in
      if length raw \<le> ts_pos ts then Stop (True, st, out)
      else if raw_full_lit raw (ts_pos ts) (invoke_end syn)
      then (let (sent, out) = (if ts_args_open ts then anthropic_tool_emit_args_fragment send st ''}'' out else (True, out)) in
            if \<not> sent then Stop (False, st, out)
            else
              let st = st\<lparr>as_tool := ts\<lparr>ts_args_open := False\<rparr>\<rparr>;
                  (sent, st, out) = anthropic_sse_close_block_live send st out
              in if \<not> sent then Stop (False, st, out)
                 else Go (True, st\<lparr>as_tool := (as_tool st)\<lparr>ts_pos := ts_pos ts + length (invoke_end syn), ts_index := ts_index ts + 1,
                                                        ts_state := BETWEEN_INVOKES\<rparr>\<rparr>, out))
      else if raw_partial_any raw (ts_pos ts) (invoke_end syn) (param_start syn) then Stop (True, st, out)
      else if raw_full_lit raw (ts_pos ts) (param_start syn)
      then anthropic_unless_stuck ts (anthropic_tool_start_param send raw st out)
      else Stop (True, anthropic_tool_stream_fail st, out))"

definition anthropic_param_value ::
    "sender \<Rightarrow> string \<Rightarrow> anthropic_stream \<Rightarrow> block_event list \<Rightarrow> (bool \<times> anthropic_stream \<times> block_event list) outcome" where
  "anthropic_param_value send raw st out =
     (let ts = as_tool st in
      case find_lit_bounded (drop (ts_pos ts) raw) (param_end (ts_syn ts)) of
        Some i \<Rightarrow>
          (case anthropic_tool_finish_param send raw st (ts_pos ts + i) out of (sent, st, out) \<Rightarrow>
             if \<not> sent then Stop (False, st, out) else Go (True, st, out))
      | None \<Rightarrow>
          (let limit = tool_param_value_stream_safe_len raw (ts_pos ts) (length raw) (param_end (ts_syn ts)) (ts_param_is_string ts) in
           if ts_pos ts < limit
           then (let (sent, out) = anthropic_tool_emit_value send st (take (limit - ts_pos ts) (drop (ts_pos ts) raw)) out in
                 if \<not> sent then Stop (False, st, out) else Stop (True, st\<lparr>as_tool := ts\<lparr>ts_pos := limit\<rparr>\<rparr>, out))
           else Stop (True, st, out)))"

definition anthropic_tool_turn ::
    "sender \<Rightarrow> (nat \<Rightarrow> string) \<Rightarrow> string \<Rightarrow> anthropic_stream \<Rightarrow> block_event list \<Rightarrow> (bool \<times> anthropic_stream \<times> block_event list) outcome" where
  "anthropic_tool_turn send tool_id raw st out =
     (if \<not> (ts_active (as_tool st) \<and> ts_pos (as_tool st) < length raw) then Stop (True, st, out)
      else case ts_state (as_tool st) of
        BETWEEN_INVOKES \<Rightarrow> anthropic_between_invokes send tool_id raw st out
      | BETWEEN_PARAMS \<Rightarrow> anthropic_between_params send raw st out
      | PARAM_VALUE \<Rightarrow> anthropic_param_value send raw st out
      | _ \<Rightarrow> Stop (True, st, out))"

text \<open>A turn that continues moves on as it does in the OpenAI stream.\<close>

lemma anthropic_start_invoke_cases:
  "anthropic_tool_start_invoke send tool_id raw st out = (True, st', out') \<Longrightarrow>
    as_tool st' = as_tool st \<or> as_tool st' = openai_tool_stream_fail (as_tool st)
    \<or> (ts_pos (as_tool st) < ts_pos (as_tool st') \<and> ts_pos (as_tool st') \<le> length raw \<and> ts_state (as_tool st') = BETWEEN_PARAMS)"
  using memchr_bound [of "ts_pos (as_tool st)" raw]
  by (auto simp: anthropic_tool_start_invoke_def anthropic_tool_stream_fail_def openai_tool_stream_fail_def Let_def Suc_le_eq
      split: option.splits prod.splits if_splits)

lemma anthropic_start_param_cases:
  "anthropic_tool_start_param send raw st out = (True, st', out') \<Longrightarrow>
    as_tool st' = as_tool st \<or> as_tool st' = openai_tool_stream_fail (as_tool st)
    \<or> (ts_pos (as_tool st) < ts_pos (as_tool st') \<and> ts_pos (as_tool st') \<le> length raw \<and> ts_state (as_tool st') = PARAM_VALUE)"
  using memchr_bound [of "ts_pos (as_tool st)" raw]
  by (auto simp: anthropic_tool_start_param_def anthropic_tool_emit_param_prefix_def anthropic_tool_stream_fail_def openai_tool_stream_fail_def
      Let_def Suc_le_eq split: option.splits prod.splits if_splits)

lemma anthropic_unless_stuck_Go:
  "anthropic_unless_stuck before r = Go r' \<longleftrightarrow>
    r = r' \<and> fst r \<and> \<not> (ts_pos (as_tool (fst (snd r))) = ts_pos before \<and> ts_state (as_tool (fst (snd r))) = ts_state before)"
  by (auto simp: anthropic_unless_stuck_def split: prod.splits)

lemma anthropic_invokes_decreases:
  assumes "anthropic_between_invokes send tool_id raw st out = Go (b, st', out')" "ts_state (as_tool st) = BETWEEN_INVOKES"
  shows "turn_work raw (as_tool st') < turn_work raw (as_tool st)"
proof -
  let ?ts = "(as_tool st)\<lparr>ts_pos := skip_space raw (ts_pos (as_tool st))\<rparr>"
  have s: "anthropic_tool_start_invoke send tool_id raw (st\<lparr>as_tool := ?ts\<rparr>) out = (True, st', out')" "skip_space raw (ts_pos (as_tool st)) < length raw"
    "\<not> (ts_pos (as_tool st') = ts_pos ?ts \<and> ts_state (as_tool st') = ts_state ?ts)"
    using assms(1) by (auto simp: anthropic_between_invokes_def anthropic_unless_stuck_Go Let_def split: if_splits)
  show ?thesis using anthropic_start_invoke_cases [OF s(1)] s(2,3) assms(2) skip_space_ge [of "ts_pos (as_tool st)" raw]
    by (auto simp: turn_work_def state_rank_def openai_tool_stream_fail_def)
qed

lemma anthropic_params_decreases:
  assumes "anthropic_between_params send raw st out = Go (b, st', out')" "ts_state (as_tool st) = BETWEEN_PARAMS"
    "ts_pos (as_tool st) < length raw"
  shows "turn_work raw (as_tool st') < turn_work raw (as_tool st)"
proof -
  let ?ts = "(as_tool st)\<lparr>ts_pos := skip_space raw (ts_pos (as_tool st))\<rparr>"
  show ?thesis
  proof (cases "raw_full_lit raw (ts_pos ?ts) (invoke_end (ts_syn ?ts))")
    case True
    then show ?thesis using assms skip_space_ge [of "ts_pos (as_tool st)" raw]
      by (auto simp: anthropic_between_params_def anthropic_sse_close_block_live_def Let_def turn_work_def state_rank_def split: if_splits prod.splits)
  next
    case False
    then have s: "anthropic_tool_start_param send raw (st\<lparr>as_tool := ?ts\<rparr>) out = (True, st', out')" "skip_space raw (ts_pos (as_tool st)) < length raw"
      "\<not> (ts_pos (as_tool st') = ts_pos ?ts \<and> ts_state (as_tool st') = ts_state ?ts)"
      using assms(1) by (auto simp: anthropic_between_params_def anthropic_unless_stuck_Go Let_def split: if_splits)
    show ?thesis using anthropic_start_param_cases [OF s(1)] s(2,3) assms(2) skip_space_ge [of "ts_pos (as_tool st)" raw]
      by (auto simp: turn_work_def state_rank_def openai_tool_stream_fail_def)
  qed
qed

lemma anthropic_turn_decreases:
  assumes "anthropic_tool_turn send tool_id raw st out = Go (b, st', out')"
  shows "turn_work raw (as_tool st') < turn_work raw (as_tool st)"
proof -
  have act: "ts_active (as_tool st)" "ts_pos (as_tool st) < length raw" using assms by (auto simp: anthropic_tool_turn_def split: if_splits)
  consider "ts_state (as_tool st) = BETWEEN_INVOKES" | "ts_state (as_tool st) = BETWEEN_PARAMS" | "ts_state (as_tool st) = PARAM_VALUE"
    using assms by (cases "ts_state (as_tool st)") (auto simp: anthropic_tool_turn_def split: if_splits)
  then show ?thesis
  proof cases
    case 1
    then show ?thesis using assms act anthropic_invokes_decreases by (simp add: anthropic_tool_turn_def)
  next
    case 2
    then show ?thesis using assms act anthropic_params_decreases by (simp add: anthropic_tool_turn_def)
  next
    case 3
    then have "ts_state (as_tool st') = BETWEEN_PARAMS \<and> ts_pos (as_tool st) \<le> ts_pos (as_tool st')"
      using assms act
      by (auto simp: anthropic_tool_turn_def anthropic_param_value_def anthropic_tool_finish_param_def Let_def split: if_splits option.splits prod.splits)
    then show ?thesis using 3 by (simp add: turn_work_def state_rank_def less_Suc_eq_le diff_le_mono2)
  qed
qed

function anthropic_tool_stream_update ::
    "sender \<Rightarrow> (nat \<Rightarrow> string) \<Rightarrow> string \<Rightarrow> anthropic_stream \<Rightarrow> block_event list \<Rightarrow> bool \<times> anthropic_stream \<times> block_event list" where
  "anthropic_tool_stream_update send tool_id raw st out =
     (case anthropic_tool_turn send tool_id raw st out of
        Stop r \<Rightarrow> r
      | Go r \<Rightarrow> anthropic_tool_stream_update send tool_id raw (fst (snd r)) (snd (snd r)))"
  by pat_completeness auto
termination
  by (relation "measure (\<lambda>(send, tool_id, raw, st, out). turn_work raw (as_tool st))") (auto dest: anthropic_turn_decreases)

declare anthropic_tool_stream_update.simps [simp del]

section \<open>The blocks a client sees\<close>

text \<open>
  A client keeps the number of finished blocks and the kind of the block it is in. A block starts where none is open and
  carries the next index; pieces, signature and end belong to the open block; the message ends outside of blocks.
\<close>

fun follow :: "block_event \<Rightarrow> (nat \<times> anthropic_block_type) option \<Rightarrow> (nat \<times> anthropic_block_type) option" where
  "follow ev None = None"
| "follow (Block_start i tid name) (Some (n, k)) = (if i = n \<and> k = BLOCK_NONE then Some (n, BLOCK_TOOL) else None)"
| "follow (Text_start i ty) (Some (n, k)) = (if i = n \<and> k = BLOCK_NONE \<and> ty \<in> {BLOCK_THINKING, BLOCK_TEXT} then Some (n, ty) else None)"
| "follow (Block_delta i txt) (Some (n, k)) = (if i = n \<and> k = BLOCK_TOOL then Some (n, k) else None)"
| "follow (Text_piece i ty txt) (Some (n, k)) = (if i = n \<and> k = ty \<and> ty \<in> {BLOCK_THINKING, BLOCK_TEXT} then Some (n, k) else None)"
| "follow (Block_signature i) (Some (n, k)) = (if i = n \<and> k = BLOCK_THINKING then Some (n, k) else None)"
| "follow (Block_stop i) (Some (n, k)) = (if i = n \<and> k \<noteq> BLOCK_NONE then Some (n + 1, BLOCK_NONE) else None)"
| "follow (Message_delta reason) (Some (n, k)) = (if k = BLOCK_NONE then Some (n, k) else None)"
| "follow Message_stop (Some (n, k)) = (if k = BLOCK_NONE then Some (n, k) else None)"

definition blocks_after :: "nat \<Rightarrow> block_event list \<Rightarrow> (nat \<times> anthropic_block_type) option" where
  "blocks_after n out = foldl (\<lambda>s ev. follow ev s) (Some (n, BLOCK_NONE)) out"

lemma blocks_after_simps [simp]:
  "blocks_after n [] = Some (n, BLOCK_NONE)"
  "blocks_after n (out @ [ev]) = follow ev (blocks_after n out)"
  "blocks_after n (out @ [ev, ev']) = follow ev' (follow ev (blocks_after n out))"
  by (simp_all add: blocks_after_def)

text \<open>
  What the stream knows of the client: how many blocks are finished, which one is open, and that a tool block is open
  while a call is being written.
\<close>

definition in_call :: "dsml_tool_stream_state \<Rightarrow> bool" where
  "in_call s \<longleftrightarrow> s = BETWEEN_PARAMS \<or> s = PARAM_VALUE"

definition blocks_inv :: "nat \<Rightarrow> anthropic_stream \<Rightarrow> block_event list \<Rightarrow> bool" where
  "blocks_inv n st out \<longleftrightarrow>
     blocks_after n out = Some (as_next_index st, as_open_block st)
     \<and> (ts_active (as_tool st) \<longrightarrow> ts_state (as_tool st) = BETWEEN_INVOKES \<or> in_call (ts_state (as_tool st)) \<and> as_open_block st = BLOCK_TOOL)"

lemma delta_keeps:
  "anthropic_tool_emit_args_fragment send st txt out = (b, out') \<Longrightarrow> blocks_after n out = Some (as_next_index st, BLOCK_TOOL) \<Longrightarrow>
    blocks_after n out' = Some (as_next_index st, BLOCK_TOOL)"
  by (auto simp: anthropic_tool_emit_args_fragment_def anthropic_sse_tool_delta_live_def send_event_def split: if_splits)

lemma value_keeps:
  "anthropic_tool_emit_value send st txt out = (b, out') \<Longrightarrow> blocks_after n out = Some (as_next_index st, BLOCK_TOOL) \<Longrightarrow>
    blocks_after n out' = Some (as_next_index st, BLOCK_TOOL)"
  by (auto simp: anthropic_tool_emit_value_def anthropic_tool_emit_string_value_def Let_def dest: delta_keeps split: if_splits)

lemma blocks_inv_tool:
  "as_open_block st' = as_open_block st \<Longrightarrow> as_next_index st' = as_next_index st \<Longrightarrow>
    (ts_active (as_tool st') \<Longrightarrow> ts_state (as_tool st') = BETWEEN_INVOKES \<or> in_call (ts_state (as_tool st')) \<and> as_open_block st = BLOCK_TOOL) \<Longrightarrow>
    blocks_inv n st out \<Longrightarrow> blocks_inv n st' out"
  by (simp add: blocks_inv_def)

lemma blocks_inv_fail: "blocks_inv n st out \<Longrightarrow> blocks_inv n (anthropic_tool_stream_fail st) out"
  by (simp add: blocks_inv_def anthropic_tool_stream_fail_def)

lemma blocks_inv_in_call:
  "blocks_inv n st out \<Longrightarrow> as_open_block st = BLOCK_TOOL \<Longrightarrow> blocks_after n out' = Some (as_next_index st, BLOCK_TOOL) \<Longrightarrow> blocks_inv n st out'"
  by (simp add: blocks_inv_def)

lemma open_keeps:
  "anthropic_sse_open_tool_block send st tid name out = (b, st', out') \<Longrightarrow> blocks_inv n st out \<Longrightarrow>
    blocks_inv n st' out' \<and> (b \<longrightarrow> as_open_block st' = BLOCK_TOOL \<and> blocks_after n out' = Some (as_next_index st', BLOCK_TOOL)) \<and> as_tool st' = as_tool st"
  by (auto simp: anthropic_sse_open_tool_block_def send_event_def blocks_inv_def in_call_def split: if_splits)

lemma close_keeps:
  "anthropic_sse_close_block_live send st out = (b, st', out') \<Longrightarrow> blocks_after n out = Some (as_next_index st, as_open_block st) \<Longrightarrow>
    blocks_after n out' = Some (as_next_index st', as_open_block st') \<and> as_tool st' = as_tool st \<and> (b \<longrightarrow> as_open_block st' = BLOCK_NONE) \<and> (\<not> b \<longrightarrow> st' = st)"
  by (auto simp: anthropic_sse_close_block_live_def send_event_def split: if_splits)

lemma start_invoke_keeps:
  assumes "anthropic_tool_start_invoke send tool_id raw st out = (b, st', out')" "blocks_inv n st out"
  shows "blocks_inv n st' out'"
proof (cases "memchr (drop (ts_pos (as_tool st)) raw) CHR ''>''")
  case None
  then show ?thesis using assms by (simp add: anthropic_tool_start_invoke_def)
next
  case (Some g)
  show ?thesis
  proof (cases "dsml_attr (c_str (take (g + 1) (drop (ts_pos (as_tool st)) raw))) ''name''")
    case None
    then show ?thesis using assms Some blocks_inv_fail [OF assms(2)] by (auto simp: anthropic_tool_start_invoke_def)
  next
    case (Some name)
    obtain b1 st1 out1 where o: "anthropic_sse_open_tool_block send st (tool_id (ts_index (as_tool st))) name out = (b1, st1, out1)"
      by (metis prod_cases3)
    note k = open_keeps [OF o assms(2)]
    show ?thesis
    proof (cases b1)
      case False
      then have "(st', out') = (st1, out1)" using assms(1) o Some \<open>memchr _ _ = _\<close> by (simp add: anthropic_tool_start_invoke_def)
      then show ?thesis using k by simp
    next
      case True
      obtain b2 out2 where e: "anthropic_tool_emit_args_fragment send st1 ''{'' out1 = (b2, out2)" by (metis surj_pair)
      have "blocks_after n out2 = Some (as_next_index st1, BLOCK_TOOL)" using delta_keeps [OF e] k True by simp
      then have i: "blocks_inv n st1 out2" using k True blocks_inv_in_call by blast
      have "out' = out2" "st' = st1 \<or> as_open_block st' = as_open_block st1 \<and> as_next_index st' = as_next_index st1 \<and> ts_state (as_tool st') = BETWEEN_PARAMS"
        using assms(1) o e Some \<open>memchr _ _ = _\<close> True by (auto simp: anthropic_tool_start_invoke_def Let_def split: if_splits)
      then show ?thesis using i k True blocks_inv_tool [of st' st1 n out2] by (auto simp: in_call_def)
    qed
  qed
qed

lemma start_param_keeps:
  assumes "anthropic_tool_start_param send raw st out = (b, st', out')" "blocks_inv n st out" "as_open_block st = BLOCK_TOOL"
  shows "blocks_inv n st' out'"
proof (cases "memchr (drop (ts_pos (as_tool st)) raw) CHR ''>''")
  case None
  then show ?thesis using assms by (simp add: anthropic_tool_start_param_def)
next
  case (Some g)
  let ?tag = "c_str (take (g + 1) (drop (ts_pos (as_tool st)) raw))"
  show ?thesis
  proof (cases "dsml_attr ?tag ''name'' = None \<or> dsml_attr ?tag ''string'' = None")
    case True
    then show ?thesis using assms(1) Some blocks_inv_fail [OF assms(2)] by (auto simp: anthropic_tool_start_param_def Let_def split: option.splits)
  next
    case False
    then obtain name s where n: "dsml_attr ?tag ''name'' = Some name" "dsml_attr ?tag ''string'' = Some s" by auto
    obtain b1 st1 out1 where e: "anthropic_tool_emit_param_prefix send st name (s = ''true'') out = (b1, st1, out1)" by (metis prod_cases3)
    have "blocks_after n out1 = Some (as_next_index st, BLOCK_TOOL)"
      using e assms(2,3) by (auto simp: anthropic_tool_emit_param_prefix_def Let_def blocks_inv_def dest!: delta_keeps split: prod.splits)
    then have i: "blocks_inv n st1 out1"
      using e assms(2,3) by (auto simp: anthropic_tool_emit_param_prefix_def Let_def blocks_inv_def split: prod.splits)
    have "out' = out1" "st' = st1 \<or> as_open_block st' = as_open_block st1 \<and> as_next_index st' = as_next_index st1 \<and> ts_state (as_tool st') = PARAM_VALUE"
      using assms(1) e n Some by (auto simp: anthropic_tool_start_param_def Let_def split: if_splits)
    moreover have "as_open_block st1 = BLOCK_TOOL" using e assms(3) by (auto simp: anthropic_tool_emit_param_prefix_def Let_def split: prod.splits)
    ultimately show ?thesis using i blocks_inv_tool [of st' st1 n out1] by (auto simp: in_call_def)
  qed
qed

lemma finish_param_keeps:
  assumes "anthropic_tool_finish_param send raw st e out = (b, st', out')" "blocks_inv n st out" "as_open_block st = BLOCK_TOOL"
  shows "blocks_inv n st' out'"
proof -
  have "blocks_after n out = Some (as_next_index st, BLOCK_TOOL)" using assms(2,3) by (simp add: blocks_inv_def)
  then have "blocks_after n out' = Some (as_next_index st, BLOCK_TOOL)"
    using assms(1) by (auto simp: anthropic_tool_finish_param_def Let_def dest!: value_keeps delta_keeps split: if_splits prod.splits)
  then show ?thesis using assms by (auto simp: anthropic_tool_finish_param_def Let_def blocks_inv_def in_call_def split: if_splits prod.splits)
qed

text \<open>What a turn returns keeps the invariant, whether it continues or not.\<close>

definition result :: "'a outcome \<Rightarrow> 'a" where
  "result o' = (case o' of Go r \<Rightarrow> r | Stop r \<Rightarrow> r)"

lemma result_stuck: "result (anthropic_unless_stuck before r) = (case r of (b, st, out) \<Rightarrow> (b, st, out))"
  by (auto simp: result_def anthropic_unless_stuck_def split: prod.splits)

lemma invokes_keeps:
  assumes "result (anthropic_between_invokes send tool_id raw st out) = (b, st', out')" "blocks_inv n st out" "ts_state (as_tool st) = BETWEEN_INVOKES"
  shows "blocks_inv n st' out'"
proof -
  let ?st = "st\<lparr>as_tool := (as_tool st)\<lparr>ts_pos := skip_space raw (ts_pos (as_tool st))\<rparr>\<rparr>"
  have i: "blocks_inv n ?st out" using assms(2,3) by (simp add: blocks_inv_def)
  let ?pos = "skip_space raw (ts_pos (as_tool st))"
  have eq: "(b, st', out') =
    (if length raw \<le> ?pos then (True, ?st, out)
     else if raw_full_lit raw ?pos (tool_calls_end (ts_syn (as_tool st)))
     then (True, ?st\<lparr>as_tool := (as_tool st)\<lparr>ts_pos := ?pos + length (tool_calls_end (ts_syn (as_tool st))), ts_active := False, ts_state := TOOL_DONE\<rparr>\<rparr>, out)
     else if raw_partial_any raw ?pos (tool_calls_end (ts_syn (as_tool st))) (invoke_start (ts_syn (as_tool st))) then (True, ?st, out)
     else if raw_full_lit raw ?pos (invoke_start (ts_syn (as_tool st))) then anthropic_tool_start_invoke send tool_id raw ?st out
     else (True, anthropic_tool_stream_fail ?st, out))"
    unfolding assms(1) [symmetric] anthropic_between_invokes_def Let_def
    by (simp add: result_stuck) (simp add: result_def)
  have d: "blocks_inv n (?st\<lparr>as_tool := (as_tool st)\<lparr>ts_pos := ?pos + length (tool_calls_end (ts_syn (as_tool st))), ts_active := False, ts_state := TOOL_DONE\<rparr>\<rparr>) out"
    using assms(2) by (simp add: blocks_inv_def)
  show ?thesis using eq start_invoke_keeps [of send tool_id raw ?st out b st' out' n] i d blocks_inv_fail [OF i] by (simp split: if_splits)
qed

lemma params_keeps:
  assumes "result (anthropic_between_params send raw st out) = (b, st', out')" "blocks_inv n st out" "as_open_block st = BLOCK_TOOL"
    "ts_state (as_tool st) = BETWEEN_PARAMS"
  shows "blocks_inv n st' out'"
proof -
  let ?ts = "(as_tool st)\<lparr>ts_pos := skip_space raw (ts_pos (as_tool st))\<rparr>"
  let ?st = "st\<lparr>as_tool := ?ts\<rparr>"
  have i: "blocks_inv n ?st out" "as_open_block ?st = BLOCK_TOOL" "blocks_after n out = Some (as_next_index st, BLOCK_TOOL)"
    using assms(2-4) by (simp_all add: blocks_inv_def in_call_def)
  show ?thesis
  proof (cases "skip_space raw (ts_pos (as_tool st)) < length raw \<and> raw_full_lit raw (ts_pos ?ts) (invoke_end (ts_syn ?ts))")
    case True
    obtain b1 out1 where e: "(if ts_args_open ?ts then anthropic_tool_emit_args_fragment send ?st ''}'' out else (True, out)) = (b1, out1)"
      by (metis surj_pair)
    then have a: "blocks_after n out1 = Some (as_next_index st, BLOCK_TOOL)" using delta_keeps [of send ?st "''}''" out b1 out1 n] i(3) by (auto split: if_splits)
    show ?thesis
    proof (cases b1)
      case False
      then show ?thesis using assms(1) True e a i blocks_inv_in_call [OF i(1,2), of out1]
        by (simp add: anthropic_between_params_def Let_def result_def)
    next
      case b1: True
      let ?st1 = "st\<lparr>as_tool := ?ts\<lparr>ts_args_open := False\<rparr>\<rparr>"
      have i1: "blocks_inv n ?st1 out1" using assms(3,4) a by (simp add: blocks_inv_def in_call_def)
      obtain b2 st2 out2 where c: "anthropic_sse_close_block_live send ?st1 out1 = (b2, st2, out2)" by (metis prod_cases3)
      have k: "blocks_after n out2 = Some (as_next_index st2, as_open_block st2) \<and> as_tool st2 = as_tool ?st1 \<and> (b2 \<longrightarrow> as_open_block st2 = BLOCK_NONE) \<and> (\<not> b2 \<longrightarrow> st2 = ?st1)"
        by (rule close_keeps [OF c]) (use i1 in \<open>simp add: blocks_inv_def\<close>)
      have "(st', out') = (if b2 then (st2\<lparr>as_tool := (as_tool st2)\<lparr>ts_pos := ts_pos ?ts + length (invoke_end (ts_syn ?ts)), ts_index := ts_index ?ts + 1,
                                                        ts_state := BETWEEN_INVOKES\<rparr>\<rparr>, out2) else (st2, out2))"
        using assms(1) True e c b1 by (auto simp: anthropic_between_params_def Let_def result_def split: if_splits)
      then show ?thesis using k i1 by (cases b2) (simp_all add: blocks_inv_def)
    qed
  next
    case False
    then consider "result (anthropic_between_params send raw st out) = anthropic_tool_start_param send raw ?st out"
      | "out' = out" "st' = ?st" | "out' = out" "st' = anthropic_tool_stream_fail ?st"
      using assms(1) by (auto simp: anthropic_between_params_def result_stuck Let_def split: if_splits) (auto simp: result_def)
    then show ?thesis using assms(1) start_param_keeps [OF _ i(1,2)] i blocks_inv_fail [OF i(1)] by cases auto
  qed
qed

lemma param_value_keeps:
  assumes "result (anthropic_param_value send raw st out) = (b, st', out')" "blocks_inv n st out" "as_open_block st = BLOCK_TOOL"
  shows "blocks_inv n st' out'"
proof (cases "find_lit_bounded (drop (ts_pos (as_tool st)) raw) (param_end (ts_syn (as_tool st)))")
  case (Some i)
  then show ?thesis using assms finish_param_keeps [OF _ assms(2,3)]
    by (auto simp: anthropic_param_value_def Let_def result_def split: prod.splits if_splits)
next
  case None
  have "blocks_after n out = Some (as_next_index st, BLOCK_TOOL)" using assms(2,3) by (simp add: blocks_inv_def)
  then have "blocks_after n out' = Some (as_next_index st, BLOCK_TOOL)" "as_open_block st' = as_open_block st" "as_next_index st' = as_next_index st"
    "ts_active (as_tool st') = ts_active (as_tool st)" "ts_state (as_tool st') = ts_state (as_tool st)"
    using assms(1) None by (auto simp: anthropic_param_value_def Let_def result_def dest: value_keeps split: prod.splits if_splits)
  then show ?thesis using assms(2,3) by (simp add: blocks_inv_def)
qed

lemma turn_keeps:
  assumes "result (anthropic_tool_turn send tool_id raw st out) = (b, st', out')" "blocks_inv n st out"
  shows "blocks_inv n st' out'"
proof (cases "ts_active (as_tool st) \<and> ts_pos (as_tool st) < length raw")
  case False
  then show ?thesis using assms by (auto simp: anthropic_tool_turn_def result_def)
next
  case True
  then have o: "ts_state (as_tool st) = BETWEEN_INVOKES \<or> in_call (ts_state (as_tool st)) \<and> as_open_block st = BLOCK_TOOL"
    using assms(2) by (simp add: blocks_inv_def)
  show ?thesis using assms True o invokes_keeps [OF _ assms(2)] params_keeps [OF _ assms(2)] param_value_keeps [OF _ assms(2)]
    by (auto simp: anthropic_tool_turn_def in_call_def split: dsml_tool_stream_state.splits)
qed

lemma update_keeps:
  assumes "blocks_inv n st out" "anthropic_tool_stream_update send tool_id raw st out = (sent, st', out')"
  shows "blocks_inv n st' out'"
  using assms
proof (induction send tool_id raw st out rule: anthropic_tool_stream_update.induct)
  case (1 send tool_id raw st out)
  show ?case
  proof (cases "anthropic_tool_turn send tool_id raw st out")
    case (Go r)
    then have "blocks_inv n (fst (snd r)) (snd (snd r))" using turn_keeps [of send tool_id raw st out "fst r" "fst (snd r)" "snd (snd r)"] 1(2) by (simp add: result_def)
    then show ?thesis using 1(1) [OF Go] 1(3) Go by (simp add: anthropic_tool_stream_update.simps [of send tool_id raw st out])
  next
    case (Stop r)
    then show ?thesis using turn_keeps [of send tool_id raw st out sent st' out'] 1(2,3)
      by (simp add: result_def anthropic_tool_stream_update.simps [of send tool_id raw st out])
  qed
qed

section \<open>The same calls as the OpenAI stream\<close>

text \<open>
  The deltas of a list of blocks: the blocks before the tool calls took the indices below \<open>n\<close>. Pieces of text go
  to the field of their kind.
\<close>

fun delta_of :: "nat \<Rightarrow> block_event \<Rightarrow> tool_event list" where
  "delta_of n (Block_start i tid name) = [Call_start (i - n) tid name]"
| "delta_of n (Block_delta i txt) = [Call_args (i - n) txt]"
| "delta_of n (Text_piece i ty txt) = [Text_delta (if ty = BLOCK_THINKING then ''reasoning_content'' else ''content'') txt]"
| "delta_of n _ = []"

definition deltas :: "nat \<Rightarrow> block_event list \<Rightarrow> tool_event list" where
  "deltas n out = concat (map (delta_of n) out)"

lemma deltas_append [simp]: "deltas n [] = []" "deltas n (out @ out') = deltas n out @ deltas n out'"
  by (simp_all add: deltas_def)

lemma deltas_one [simp]: "deltas n (ev # out) = delta_of n ev @ deltas n out"
  by (simp add: deltas_def)

definition blocks_match :: "nat \<Rightarrow> openai_tool_stream \<Rightarrow> anthropic_stream \<Rightarrow> bool" where
  "blocks_match n ts st =
     (as_tool st = ts \<and> as_next_index st = n + ts_index ts
      \<and> (ts_active ts \<longrightarrow> (in_call (ts_state ts) \<and> as_open_block st = BLOCK_TOOL) \<or> (ts_state ts = BETWEEN_INVOKES \<and> as_open_block st = BLOCK_NONE)))"

definition streams_match :: "nat \<Rightarrow> bool \<times> openai_tool_stream \<times> tool_event list \<Rightarrow> bool \<times> anthropic_stream \<times> block_event list \<Rightarrow> bool" where
  "streams_match n r q = (fst q = fst r \<and> snd (snd r) = deltas n (snd (snd q)) \<and> blocks_match n (fst (snd r)) (fst (snd q)))"

lemma fragment_sent [simp]:
  "anthropic_tool_emit_args_fragment all_sent st txt out = (True, out @ (if txt = [] then [] else [Block_delta (as_next_index st) txt]))"
  by (simp add: anthropic_tool_emit_args_fragment_def anthropic_sse_tool_delta_live_def)

lemma block_value_sent:
  "anthropic_tool_emit_value all_sent st txt out
    = (True, out @ (if txt = [] \<or> value_text (as_tool st) txt = [] then [] else [Block_delta (as_next_index st) (value_text (as_tool st) txt)]))"
  by (simp add: anthropic_tool_emit_value_def anthropic_tool_emit_string_value_def Let_def value_text_def escape_fragment)

lemma same_start_invoke:
  assumes "blocks_match n ts st" "as_open_block st = BLOCK_NONE" "ts_state ts = BETWEEN_INVOKES"
  shows "streams_match n (openai_tool_start_invoke all_sent tool_id raw ts (deltas n out)) (anthropic_tool_start_invoke all_sent tool_id raw st out)"
  using assms
  by (simp add: openai_tool_start_invoke_def anthropic_tool_start_invoke_def anthropic_sse_open_tool_block_def anthropic_tool_stream_fail_def
      openai_tool_stream_fail_def streams_match_def blocks_match_def in_call_def Let_def split: option.splits)

lemma same_start_param:
  assumes "blocks_match n ts st" "as_open_block st = BLOCK_TOOL" "ts_state ts = BETWEEN_PARAMS"
  shows "streams_match n (openai_tool_start_param all_sent raw ts (deltas n out)) (anthropic_tool_start_param all_sent raw st out)"
  using assms
  by (simp add: openai_tool_start_param_def anthropic_tool_start_param_def openai_tool_emit_param_prefix_def anthropic_tool_emit_param_prefix_def
      anthropic_tool_stream_fail_def openai_tool_stream_fail_def streams_match_def blocks_match_def in_call_def Let_def split: option.splits)

lemma same_finish_param:
  assumes "blocks_match n ts st" "as_open_block st = BLOCK_TOOL" "ts_state ts = PARAM_VALUE"
  shows "streams_match n (openai_tool_finish_param all_sent raw ts e (deltas n out)) (anthropic_tool_finish_param all_sent raw st e out)"
  using assms
  by (simp add: openai_tool_finish_param_def anthropic_tool_finish_param_def emit_value_sent block_value_sent
      streams_match_def blocks_match_def in_call_def Let_def)

lemma same_unless_stuck:
  "streams_match n r q \<Longrightarrow> rel_outcome (streams_match n) (go_unless_stuck ts r) (anthropic_unless_stuck ts q)"
  by (cases r; cases q; cases "fst r") (auto simp: streams_match_def go_unless_stuck_def anthropic_unless_stuck_def blocks_match_def)

lemma same_invokes:
  assumes "blocks_match n ts st" "as_open_block st = BLOCK_NONE" "ts_state ts = BETWEEN_INVOKES"
  shows "rel_outcome (streams_match n) (between_invokes_turn all_sent tool_id raw ts (deltas n out)) (anthropic_between_invokes all_sent tool_id raw st out)"
proof -
  let ?ts = "ts\<lparr>ts_pos := skip_space raw (ts_pos ts)\<rparr>"
  let ?st = "st\<lparr>as_tool := ?ts\<rparr>"
  have m: "blocks_match n ?ts ?st" "as_open_block ?st = BLOCK_NONE" "ts_state ?ts = BETWEEN_INVOKES" using assms by (simp_all add: blocks_match_def)
  have t: "as_tool st = ts" using assms(1) by (simp add: blocks_match_def)
  show ?thesis
    using m same_unless_stuck [OF same_start_invoke [OF m, of tool_id raw out]]
    by (simp add: between_invokes_turn_def anthropic_between_invokes_def t Let_def streams_match_def blocks_match_def
        anthropic_tool_stream_fail_def openai_tool_stream_fail_def)
qed

lemma same_params:
  assumes "blocks_match n ts st" "as_open_block st = BLOCK_TOOL" "ts_state ts = BETWEEN_PARAMS"
  shows "rel_outcome (streams_match n) (between_params_turn all_sent raw ts (deltas n out)) (anthropic_between_params all_sent raw st out)"
proof -
  let ?ts = "ts\<lparr>ts_pos := skip_space raw (ts_pos ts)\<rparr>"
  let ?st = "st\<lparr>as_tool := ?ts\<rparr>"
  have m: "blocks_match n ?ts ?st" "as_open_block ?st = BLOCK_TOOL" "ts_state ?ts = BETWEEN_PARAMS" using assms by (simp_all add: blocks_match_def in_call_def)
  have t: "as_tool st = ts" using assms(1) by (simp add: blocks_match_def)
  show ?thesis
    using m same_unless_stuck [OF same_start_param [OF m, of raw out]]
    by (simp add: between_params_turn_def anthropic_between_params_def anthropic_sse_close_block_live_def t Let_def streams_match_def blocks_match_def
        in_call_def anthropic_tool_stream_fail_def openai_tool_stream_fail_def)
qed

lemma same_value:
  assumes "blocks_match n ts st" "as_open_block st = BLOCK_TOOL" "ts_state ts = PARAM_VALUE"
  shows "rel_outcome (streams_match n) (param_value_turn all_sent raw ts (deltas n out)) (anthropic_param_value all_sent raw st out)"
proof (cases "find_lit_bounded (drop (ts_pos ts) raw) (param_end (ts_syn ts))")
  case (Some i)
  have t: "as_tool st = ts" using assms(1) by (simp add: blocks_match_def)
  show ?thesis using same_finish_param [OF assms, of raw "ts_pos ts + i" out] Some
    by (auto simp: param_value_turn_def anthropic_param_value_def t Let_def streams_match_def split: prod.splits)
next
  case None
  have t: "as_tool st = ts" using assms(1) by (simp add: blocks_match_def)
  show ?thesis using None assms
    by (simp add: param_value_turn_def anthropic_param_value_def t Let_def streams_match_def blocks_match_def in_call_def emit_value_sent block_value_sent)
qed

lemma same_turn:
  assumes "streams_match n r q"
  shows "rel_outcome (streams_match n) (case r of (b, ts, out) \<Rightarrow> openai_tool_turn all_sent tool_id raw ts out)
    (case q of (b, st, out) \<Rightarrow> anthropic_tool_turn all_sent tool_id raw st out)"
proof -
  obtain b ts o1 b2 st out where r: "r = (b, ts, o1)" "q = (b2, st, out)" by (metis prod_cases3)
  have o1: "o1 = deltas n out" and m: "blocks_match n ts st" and t: "as_tool st = ts" using assms by (simp_all add: r streams_match_def blocks_match_def)
  show ?thesis
  proof (cases "ts_active ts \<and> ts_pos ts < length raw")
    case False
    then show ?thesis using m by (auto simp: r o1 t openai_tool_turn_def anthropic_tool_turn_def streams_match_def)
  next
    case True
    then have c: "(in_call (ts_state ts) \<and> as_open_block st = BLOCK_TOOL) \<or> (ts_state ts = BETWEEN_INVOKES \<and> as_open_block st = BLOCK_NONE)"
      using m by (simp add: blocks_match_def)
    show ?thesis using True c same_invokes [OF m] same_params [OF m] same_value [OF m]
      by (auto simp: r o1 t openai_tool_turn_def anthropic_tool_turn_def in_call_def split: dsml_tool_stream_state.splits)
  qed
qed

text \<open>The two updates as programs that run turns; the interface is interpreted on them.\<close>

definition openai_run where "openai_run tool_id raw r = (case r of (b, ts, out) \<Rightarrow> openai_tool_stream_update all_sent tool_id raw ts out)"

definition anthropic_run where "anthropic_run tool_id raw q = (case q of (b, st, out) \<Rightarrow> anthropic_tool_stream_update all_sent tool_id raw st out)"

interpretation two_streams: lock_step "\<lambda>r. case r of (b, ts, out) \<Rightarrow> openai_tool_turn all_sent tool_id raw ts out" "openai_run tool_id raw"
    "\<lambda>q. case q of (b, st, out) \<Rightarrow> anthropic_tool_turn all_sent tool_id raw st out" "anthropic_run tool_id raw"
    "\<lambda>r. turn_work raw (fst (snd r))" "streams_match n" for tool_id raw n
proof unfold_locales
  show "openai_run tool_id raw s = (case (case s of (b, ts, out) \<Rightarrow> openai_tool_turn all_sent tool_id raw ts out) of
      Go t \<Rightarrow> openai_run tool_id raw t | Stop t \<Rightarrow> t)" for tool_id raw s
  proof (cases s)
    case (fields b ts out)
    then show ?thesis by (simp add: openai_run_def case_prod_beta openai_tool_stream_update.simps [of all_sent tool_id raw ts out] split: outcome.split)
  qed
  show "anthropic_run tool_id raw s = (case (case s of (b, ts, out) \<Rightarrow> anthropic_tool_turn all_sent tool_id raw ts out) of
      Go t \<Rightarrow> anthropic_run tool_id raw t | Stop t \<Rightarrow> t)" for tool_id raw s
  proof (cases s)
    case (fields b st out)
    then show ?thesis by (simp add: anthropic_run_def case_prod_beta anthropic_tool_stream_update.simps [of all_sent tool_id raw st out] split: outcome.split)
  qed
  show "(case s of (b, ts, out) \<Rightarrow> openai_tool_turn all_sent tool_id raw ts out) = Go t \<Longrightarrow>
      turn_work raw (fst (snd t)) < turn_work raw (fst (snd s))" for tool_id raw s t
    by (cases s; cases t) (auto dest: turn_decreases)
qed (rule same_turn)

lemma anthropic_init_same: "anthropic_tool_stream_init raw pos = (fst (openai_tool_stream_init raw pos),
  if fst (openai_tool_stream_init raw pos) then snd (openai_tool_stream_init raw pos) else (snd (openai_tool_stream_init raw pos))\<lparr>ts_pos := 0\<rparr>)"
  by (auto simp: anthropic_tool_stream_init_def openai_tool_stream_init_def openai_tool_stream_fail_def Let_def split: option.splits)

end
