(* ===== verification/LiveAnthropic.thy ===== *)
theory LiveAnthropic
  imports ToolAnthropic LiveOpenai
begin

text \<open>
  The stream of one reply as Anthropic content blocks (\<open>anthropic_sse_stream_update\<close>, \<open>src/ds4_server.c\<close>).
  Whatever the socket does, the blocks follow the protocol; and while the reply is being written the stream sends what
  the OpenAI stream sends, piece by piece.
\<close>

section \<open>The Anthropic stream of a reply\<close>

definition anthropic_stream_start :: "bool \<Rightarrow> bool \<Rightarrow> bool \<Rightarrow> anthropic_stream" where
  "anthropic_stream_start ok think has_tools =
     \<lparr>as_mode = if think then ANTH_THINKING else ANTH_TEXT, as_open_block = BLOCK_NONE, as_next_index = 0, as_emit_pos = 0, as_active = ok,
      as_checked_think_prefix = False, as_guard_second_reasoning = think \<and> has_tools, as_sent_thinking = False, as_sent_text = False,
      as_tool = \<lparr>ts_state = BETWEEN_INVOKES, ts_syn = Ds41, ts_pos = 0, ts_index = 0, ts_active = False, ts_emitted_any = False,
                 ts_args_open = False, ts_first_param = False, ts_param_is_string = False\<rparr>\<rparr>"

definition anthropic_sse_open_block ::
    "sender \<Rightarrow> anthropic_block_type \<Rightarrow> anthropic_stream \<Rightarrow> block_event list \<Rightarrow> bool \<times> anthropic_stream \<times> block_event list" where
  "anthropic_sse_open_block send ty st out =
     (if as_open_block st = ty then (True, st, out)
      else if as_open_block st \<noteq> BLOCK_NONE then (False, st, out)
      else let (sent, out) = send_event send (Text_start (as_next_index st) (if ty = BLOCK_THINKING then BLOCK_THINKING else BLOCK_TEXT)) out
           in (sent, if sent then st\<lparr>as_open_block := ty\<rparr> else st, out))"

definition anthropic_sse_delta_live ::
    "sender \<Rightarrow> anthropic_block_type \<Rightarrow> string \<Rightarrow> anthropic_stream \<Rightarrow> block_event list \<Rightarrow> bool \<times> block_event list" where
  "anthropic_sse_delta_live send ty txt st out =
     (if txt = [] then (True, out)
      else send_event send (Text_piece (as_next_index st) (if ty = BLOCK_THINKING then BLOCK_THINKING else BLOCK_TEXT) txt) out)"

text \<open>The text from \<open>pos\<close> to \<open>limit\<close> in its block, as all three parts of the update send it.\<close>

definition anthropic_show ::
    "sender \<Rightarrow> anthropic_block_type \<Rightarrow> string \<Rightarrow> nat \<Rightarrow> nat \<Rightarrow> anthropic_stream \<Rightarrow> block_event list \<Rightarrow> bool \<times> anthropic_stream \<times> block_event list" where
  "anthropic_show send ty raw pos limit st out =
     (if \<not> pos < limit then (True, st, out)
      else let (ok, st, out) = anthropic_sse_open_block send ty st out in
        if \<not> ok then (False, st, out)
        else let (ok, out) = anthropic_sse_delta_live send ty (slice raw pos limit) st out in
          if \<not> ok then (False, st, out)
          else (True, if ty = BLOCK_THINKING then st\<lparr>as_sent_thinking := True\<rparr> else st\<lparr>as_sent_text := True\<rparr>, out))"

text \<open>\<open>if (!...) return false;\<close> around a call.\<close>

definition when_ok :: "bool \<times> 's \<times> 'e \<Rightarrow> ('s \<Rightarrow> 'e \<Rightarrow> (bool \<times> 's \<times> 'e) outcome) \<Rightarrow> (bool \<times> 's \<times> 'e) outcome" where
  "when_ok r f = (if fst r then f (fst (snd r)) (snd (snd r)) else Stop (False, fst (snd r), snd (snd r)))"

definition anthropic_thinking_part ::
    "sender \<Rightarrow> bool \<Rightarrow> string \<Rightarrow> bool \<Rightarrow> anthropic_stream \<Rightarrow> block_event list \<Rightarrow> (bool \<times> anthropic_stream \<times> block_event list) outcome" where
  "anthropic_thinking_part send has_tools raw final st out =
     (if \<not> as_checked_think_prefix st \<and> length raw < 7 \<and> take (length raw) ''<think>'' = raw \<and> \<not> final then Stop (True, st, out)
      else
        let st = (if as_checked_think_prefix st then st
                  else st\<lparr>as_emit_pos := if prefix ''<think>'' raw then 7 else as_emit_pos st, as_checked_think_prefix := True\<rparr>);
            pos = as_emit_pos st;
            tool = tool_before_close has_tools raw pos;
            limit = thinking_limit has_tools raw pos final
        in when_ok (anthropic_show send BLOCK_THINKING raw pos limit st out) (\<lambda>st out.
             let st = (if pos < limit then st\<lparr>as_emit_pos := limit\<rparr> else st) in
             case tool of
               Some t \<Rightarrow>
                 if find_any_tool_end (drop (pos + t) raw) = None then Stop (True, st, out)
                 else when_ok (anthropic_sse_close_block_live send st out) (\<lambda>st out.
                   Stop (True, st\<lparr>as_emit_pos := pos + t, as_mode := ANTH_SUPPRESS\<rparr>, out))
             | None \<Rightarrow>
                 if think_close raw pos = None \<and> \<not> final then Stop (True, st, out)
                 else when_ok (anthropic_sse_close_block_live send st out) (\<lambda>st out.
                   case think_close raw pos of
                     Some c \<Rightarrow> Go (True, st\<lparr>as_emit_pos := pos + c + 8, as_mode := ANTH_TEXT\<rparr>, out)
                   | None \<Rightarrow> Stop (True, st\<lparr>as_mode := ANTH_SUPPRESS\<rparr>, out))))"

definition anthropic_guard_part ::
    "sender \<Rightarrow> bool \<Rightarrow> string \<Rightarrow> bool \<Rightarrow> anthropic_stream \<Rightarrow> block_event list \<Rightarrow> (bool \<times> anthropic_stream \<times> block_event list) outcome" where
  "anthropic_guard_part send has_tools raw final st out =
     (if \<not> as_guard_second_reasoning st then Go (True, st, out)
      else
        let pos = as_emit_pos st; tool = tool_ahead has_tools raw pos in
        case (case think_close raw pos of None \<Rightarrow> None
              | Some c \<Rightarrow> if (case tool of None \<Rightarrow> True | Some t \<Rightarrow> c < t) then Some c else None) of
          Some c \<Rightarrow>
            when_ok (anthropic_show send BLOCK_THINKING raw pos (pos + c) st out) (\<lambda>st out.
              when_ok (anthropic_sse_close_block_live send st out) (\<lambda>st out.
                Go (True, st\<lparr>as_emit_pos := pos + c + 8, as_guard_second_reasoning := False\<rparr>, out)))
        | None \<Rightarrow>
            if tool = None \<and> \<not> final then Stop (True, st, out)
            else Go (True, st\<lparr>as_guard_second_reasoning := False\<rparr>, out))"

definition anthropic_text_part ::
    "sender \<Rightarrow> bool \<Rightarrow> string \<Rightarrow> bool \<Rightarrow> anthropic_stream \<Rightarrow> block_event list \<Rightarrow> (bool \<times> anthropic_stream \<times> block_event list) outcome" where
  "anthropic_text_part send has_tools raw final st out =
     (let pos = as_emit_pos st;
          tool = tool_ahead has_tools raw pos;
          limit = text_stream_safe_limit raw pos has_tools final
      in when_ok (anthropic_show send BLOCK_TEXT raw pos limit st out) (\<lambda>st out.
           let st = (if pos < limit then st\<lparr>as_emit_pos := limit\<rparr> else st) in
           case tool of
             Some t \<Rightarrow>
               when_ok (anthropic_sse_close_block_live send st out) (\<lambda>st out.
                 if final then Go (True, st\<lparr>as_emit_pos := pos + t, as_mode := ANTH_SUPPRESS\<rparr>, out)
                 else let (started, ts) = anthropic_tool_stream_init raw (pos + t) in
                   Go (True, st\<lparr>as_emit_pos := pos + t, as_tool := ts, as_mode := if started then ANTH_TOOL else ANTH_SUPPRESS\<rparr>, out))
           | None \<Rightarrow>
               if final then when_ok (anthropic_sse_close_block_live send st out) (\<lambda>st out. Go (True, st\<lparr>as_mode := ANTH_SUPPRESS\<rparr>, out))
               else Go (True, st, out)))"

definition anthropic_tool_part ::
    "sender \<Rightarrow> (nat \<Rightarrow> string) \<Rightarrow> string \<Rightarrow> anthropic_stream \<Rightarrow> block_event list \<Rightarrow> bool \<times> anthropic_stream \<times> block_event list" where
  "anthropic_tool_part send tool_id raw st out =
     (let (sent, st, out) = anthropic_tool_stream_update send tool_id raw st out in
      if \<not> sent then (False, st, out)
      else (True, if ts_active (as_tool st) then st else st\<lparr>as_mode := ANTH_SUPPRESS\<rparr>, out))"

fun anthropic_sse_stream_update ::
    "sender \<Rightarrow> (nat \<Rightarrow> string) \<Rightarrow> bool \<Rightarrow> string option \<Rightarrow> bool \<Rightarrow> anthropic_stream \<Rightarrow> block_event list \<Rightarrow> bool \<times> anthropic_stream \<times> block_event list" where
  "anthropic_sse_stream_update send tool_id has_tools None final st out = (True, st, out)"
| "anthropic_sse_stream_update send tool_id has_tools (Some raw) final st out =
     (if \<not> as_active st then (True, st, out)
      else
        case then_part (if as_mode st = ANTH_THINKING then anthropic_thinking_part send has_tools raw final st out else Go (True, st, out))
          (\<lambda>st out. if as_mode st = ANTH_TEXT
             then then_part (anthropic_guard_part send has_tools raw final st out) (anthropic_text_part send has_tools raw final)
             else Go (True, st, out)) of
          Stop r \<Rightarrow> r
        | Go (_, st, out) \<Rightarrow> if as_mode st = ANTH_TOOL then anthropic_tool_part send tool_id raw st out else (True, st, out))"

section \<open>The protocol of the blocks\<close>

lemma open_block_keeps:
  "anthropic_sse_open_block send ty st out = (b, st', out') \<Longrightarrow> blocks_inv n st out \<Longrightarrow> ty \<in> {BLOCK_THINKING, BLOCK_TEXT} \<Longrightarrow>
    \<not> ts_active (as_tool st) \<Longrightarrow> blocks_inv n st' out' \<and> as_tool st' = as_tool st \<and> (b \<longrightarrow> as_open_block st' = ty)"
  by (auto simp: anthropic_sse_open_block_def send_event_def blocks_inv_def split: if_splits)

lemma delta_live_keeps:
  "anthropic_sse_delta_live send ty txt st out = (b, out') \<Longrightarrow> blocks_inv n st out \<Longrightarrow> as_open_block st = ty \<Longrightarrow> ty \<in> {BLOCK_THINKING, BLOCK_TEXT} \<Longrightarrow>
    blocks_inv n st out'"
  by (auto simp: anthropic_sse_delta_live_def send_event_def blocks_inv_def split: if_splits)

text \<open>Outside of a call no tool stream is active; then the other blocks may be opened and closed.\<close>

definition text_blocks :: "nat \<Rightarrow> anthropic_stream \<Rightarrow> block_event list \<Rightarrow> bool" where
  "text_blocks n st out \<longleftrightarrow> blocks_inv n st out \<and> (ts_active (as_tool st) \<longrightarrow> as_mode st = ANTH_TOOL)"

lemma text_blocks_fields:
  "as_open_block st' = as_open_block st \<Longrightarrow> as_next_index st' = as_next_index st \<Longrightarrow> as_tool st' = as_tool st \<Longrightarrow> as_mode st \<noteq> ANTH_TOOL \<Longrightarrow>
    text_blocks n st out \<Longrightarrow> text_blocks n st' out"
  by (simp add: text_blocks_def blocks_inv_def)

text \<open>What holds of the state and the events of an outcome, whether it continues or not.\<close>

definition after_all :: "('s \<Rightarrow> 'e \<Rightarrow> bool) \<Rightarrow> ('b \<times> 's \<times> 'e) outcome \<Rightarrow> bool" where
  "after_all Q r \<longleftrightarrow> Q (fst (snd (result r))) (snd (snd (result r)))"

lemma after_all_simps [simp]:
  "after_all Q (Stop (b, st, out)) = Q st out" "after_all Q (Go (b, st, out)) = Q st out"
  by (simp_all add: after_all_def result_def)

lemma when_ok_all: "Q (fst (snd r)) (snd (snd r)) \<Longrightarrow> (fst r \<Longrightarrow> after_all Q (f (fst (snd r)) (snd (snd r)))) \<Longrightarrow> after_all Q (when_ok r f)"
  by (cases r) (simp add: when_ok_def)

lemma after_all_if: "(c \<Longrightarrow> after_all Q a) \<Longrightarrow> (\<not> c \<Longrightarrow> after_all Q b) \<Longrightarrow> after_all Q (if c then a else b)"
  by simp

lemma after_all_option:
  "(x = None \<Longrightarrow> after_all Q a) \<Longrightarrow> (\<And>t. x = Some t \<Longrightarrow> after_all Q (f t)) \<Longrightarrow> after_all Q (case x of None \<Rightarrow> a | Some t \<Rightarrow> f t)"
  by (cases x) simp_all

lemma then_part_all:
  assumes "after_all P r" "\<And>st out. P st out \<Longrightarrow> after_all Q (f st out)" "\<And>st out. P st out \<Longrightarrow> Q st out"
  shows "after_all Q (then_part r f)"
  using assms by (cases r) (simp_all add: then_part_def after_all_def result_def)

lemma show_keeps:
  assumes "text_blocks n st out" "ty \<in> {BLOCK_THINKING, BLOCK_TEXT}" "as_mode st \<noteq> ANTH_TOOL" "anthropic_show send ty raw pos limit st out = r"
  shows "text_blocks n (fst (snd r)) (snd (snd r)) \<and> as_mode (fst (snd r)) = as_mode st"
proof (cases "pos < limit")
  case False
  then show ?thesis using assms by (auto simp: anthropic_show_def)
next
  case True
  obtain b1 st1 out1 where o: "anthropic_sse_open_block send ty st out = (b1, st1, out1)" by (metis prod_cases3)
  have i: "blocks_inv n st out" "\<not> ts_active (as_tool st)" using assms(1,3) by (auto simp: text_blocks_def)
  note k = open_block_keeps [OF o i(1) assms(2) i(2)]
  have m: "as_mode st1 = as_mode st" using o by (auto simp: anthropic_sse_open_block_def send_event_def split: if_splits)
  obtain b2 out2 where d: "anthropic_sse_delta_live send ty (slice raw pos limit) st1 out1 = (b2, out2)" by fastforce
  have t: "text_blocks n st1 out1" "b1 \<Longrightarrow> text_blocks n st1 out2" using delta_live_keeps [OF d _ _ assms(2)] k i(2) by (auto simp: text_blocks_def)
  have f: "text_blocks n (st1\<lparr>as_sent_thinking := True\<rparr>) o' = text_blocks n st1 o'" "text_blocks n (st1\<lparr>as_sent_text := True\<rparr>) o' = text_blocks n st1 o'" for o'
    by (simp_all add: text_blocks_def blocks_inv_def)
  have "r = (if \<not> b1 then (False, st1, out1) else if \<not> b2 then (False, st1, out2)
    else (True, if ty = BLOCK_THINKING then st1\<lparr>as_sent_thinking := True\<rparr> else st1\<lparr>as_sent_text := True\<rparr>, out2))"
    unfolding assms(4) [symmetric] using True o d by (simp add: anthropic_show_def)
  then show ?thesis using t f m by simp
qed

lemma close_block_keeps:
  assumes "text_blocks n st out" "as_mode st \<noteq> ANTH_TOOL" "anthropic_sse_close_block_live send st out = r"
  shows "text_blocks n (fst (snd r)) (snd (snd r)) \<and> as_mode (fst (snd r)) = as_mode st"
proof -
  obtain b st' out' where r: "r = (b, st', out')" by (metis prod_cases3)
  have "as_mode st' = as_mode st" using assms(3) r by (auto simp: anthropic_sse_close_block_live_def split: if_splits prod.splits)
  then show ?thesis using close_keeps [of send st out b st' out' n] assms r by (auto simp: text_blocks_def blocks_inv_def)
qed

text \<open>The parts before a call keep the blocks and do not enter the tool mode, but for the text part.\<close>

definition no_call :: "nat \<Rightarrow> anthropic_stream \<Rightarrow> block_event list \<Rightarrow> bool" where
  "no_call n st out \<longleftrightarrow> text_blocks n st out \<and> as_mode st \<noteq> ANTH_TOOL"

lemma no_call_show: "no_call n st out \<Longrightarrow> ty \<in> {BLOCK_THINKING, BLOCK_TEXT} \<Longrightarrow> r = anthropic_show send ty raw pos limit st out \<Longrightarrow>
    no_call n (fst (snd r)) (snd (snd r))"
  using show_keeps [of n st out ty send raw pos limit r] by (simp add: no_call_def)

lemma no_call_close: "no_call n st out \<Longrightarrow> r = anthropic_sse_close_block_live send st out \<Longrightarrow> no_call n (fst (snd r)) (snd (snd r))"
  using close_block_keeps [of n st out send r] by (simp add: no_call_def)

lemma no_call_fields [simp]:
  "no_call n (st\<lparr>as_emit_pos := e\<rparr>) out = no_call n st out" "no_call n (st\<lparr>as_checked_think_prefix := b\<rparr>) out = no_call n st out"
  "no_call n (st\<lparr>as_guard_second_reasoning := b\<rparr>) out = no_call n st out"
  by (simp_all add: no_call_def text_blocks_def blocks_inv_def)

lemma no_call_mode: "no_call n st out \<Longrightarrow> m \<noteq> ANTH_TOOL \<Longrightarrow> no_call n (st\<lparr>as_mode := m\<rparr>) out"
  by (auto simp add: no_call_def text_blocks_def blocks_inv_def)

lemma when_shown:
  assumes "no_call n st out" "ty \<in> {BLOCK_THINKING, BLOCK_TEXT}" "\<And>st' out'. no_call n st' out' \<Longrightarrow> Q st' out'"
    "\<And>st' out'. no_call n st' out' \<Longrightarrow> after_all Q (f st' out')"
  shows "after_all Q (when_ok (anthropic_show send ty raw pos limit st out) f)"
  using no_call_show [OF assms(1,2) refl] assms(3,4) by (blast intro: when_ok_all)

lemma when_closed:
  assumes "no_call n st out" "\<And>st' out'. no_call n st' out' \<Longrightarrow> Q st' out'" "\<And>st' out'. no_call n st' out' \<Longrightarrow> after_all Q (f st' out')"
  shows "after_all Q (when_ok (anthropic_sse_close_block_live send st out) f)"
  using no_call_close [OF assms(1) refl] assms(2,3) by (blast intro: when_ok_all)

lemmas no_call_rules = after_all_if after_all_option when_shown when_closed

lemma no_call_if [simp]: "no_call n (if c then st\<lparr>as_emit_pos := e\<rparr> else st) out = no_call n st out"
  by simp

lemma thinking_part_keeps: "no_call n st out \<Longrightarrow> after_all (no_call n) (anthropic_thinking_part send has_tools raw final st out)"
  unfolding anthropic_thinking_part_def Let_def
  by (intro no_call_rules) (auto intro: no_call_mode)

lemma guard_part_keeps: "no_call n st out \<Longrightarrow> after_all (no_call n) (anthropic_guard_part send has_tools raw final st out)"
  unfolding anthropic_guard_part_def Let_def
  by (intro no_call_rules) auto

lemma no_call_blocks: "no_call n st out \<Longrightarrow> text_blocks n st out"
  by (simp add: no_call_def)

lemma started_blocks:
  "no_call n st out \<Longrightarrow>
    text_blocks n (st\<lparr>as_emit_pos := e, as_tool := snd (anthropic_tool_stream_init raw pos),
      as_mode := if fst (anthropic_tool_stream_init raw pos) then ANTH_TOOL else ANTH_SUPPRESS\<rparr>) out"
  by (auto simp: no_call_def text_blocks_def blocks_inv_def anthropic_tool_stream_init_def Let_def split: option.splits)

lemma text_part_keeps: "no_call n st out \<Longrightarrow> after_all (text_blocks n) (anthropic_text_part send has_tools raw final st out)"
  unfolding anthropic_text_part_def Let_def case_prod_beta
  by (intro no_call_rules; (simp only: after_all_simps)?; (intro started_blocks no_call_blocks no_call_mode)?; simp)

text \<open>The tool stream leaves the rest of the stream alone.\<close>

definition frame where
  "frame st = (as_mode st, as_emit_pos st, as_active st, as_checked_think_prefix st, as_guard_second_reasoning st, as_sent_thinking st, as_sent_text st)"

lemma frame_tool [simp]: "frame (st\<lparr>as_tool := ts\<rparr>) = frame st" "frame (st\<lparr>as_open_block := k\<rparr>) = frame st" "frame (st\<lparr>as_next_index := i\<rparr>) = frame st"
  by (simp_all add: frame_def)

lemma open_frame: "frame (fst (snd (anthropic_sse_open_tool_block send st tid name out))) = frame st"
  by (simp add: anthropic_sse_open_tool_block_def split: prod.split)

lemma close_frame: "frame (fst (snd (anthropic_sse_close_block_live send st out))) = frame st"
  by (simp add: anthropic_sse_close_block_live_def Let_def split: prod.split)

lemma start_invoke_frame: "frame (fst (snd (anthropic_tool_start_invoke send tool_id raw st out))) = frame st"
  using open_frame [of send st "tool_id (ts_index (as_tool st))" _ out]
  by (simp add: anthropic_tool_start_invoke_def anthropic_tool_stream_fail_def Let_def case_prod_beta split: option.split)

lemma start_param_frame: "frame (fst (snd (anthropic_tool_start_param send raw st out))) = frame st"
  by (simp add: anthropic_tool_start_param_def anthropic_tool_emit_param_prefix_def anthropic_tool_stream_fail_def Let_def case_prod_beta split: option.split)

lemma finish_param_frame: "frame (fst (snd (anthropic_tool_finish_param send raw st e out))) = frame st"
  by (simp add: anthropic_tool_finish_param_def Let_def case_prod_beta)

lemma result_simps: "result (Stop r) = r" "result (Go r) = r" "result (anthropic_unless_stuck before r) = r"
  by (simp_all add: result_def anthropic_unless_stuck_def split: prod.split)

lemma frame_if: "frame (fst (snd (if c then a else b))) = (if c then frame (fst (snd a)) else frame (fst (snd b)))"
  by simp

lemma params_turn_frame: "frame (fst (snd (result (anthropic_between_params send raw st out)))) = frame st"
  using close_frame by (simp add: anthropic_between_params_def anthropic_tool_stream_fail_def result_simps Let_def start_param_frame case_prod_beta)

lemma turn_frame: "frame (fst (snd (result (anthropic_tool_turn send tool_id raw st out)))) = frame st"
proof (cases "ts_active (as_tool st) \<and> ts_pos (as_tool st) < length raw")
  case True
  let ?st = "st\<lparr>as_tool := (as_tool st)\<lparr>ts_pos := skip_space raw (ts_pos (as_tool st))\<rparr>\<rparr>"
  have i: "frame (fst (snd (result (anthropic_between_invokes send tool_id raw st out)))) = frame st"
    by (simp add: anthropic_between_invokes_def anthropic_tool_stream_fail_def result_simps Let_def start_invoke_frame)
  have v: "frame (fst (snd (result (anthropic_param_value send raw st out)))) = frame st"
    by (simp add: anthropic_param_value_def result_simps Let_def case_prod_beta finish_param_frame split: option.split)
  show ?thesis using True i params_turn_frame v by (simp add: anthropic_tool_turn_def result_def split: dsml_tool_stream_state.split)
qed (simp add: anthropic_tool_turn_def result_def)

lemma update_frame: "frame (fst (snd (anthropic_tool_stream_update send tool_id raw st out))) = frame st"
proof (induction send tool_id raw st out rule: anthropic_tool_stream_update.induct)
  case (1 send tool_id raw st out)
  show ?case
  proof (cases "anthropic_tool_turn send tool_id raw st out")
    case (Go r)
    then show ?thesis using 1 [OF Go] turn_frame [of send tool_id raw st out]
      by (simp add: anthropic_tool_stream_update.simps [of send tool_id raw st out] result_def)
  next
    case (Stop r)
    then show ?thesis using turn_frame [of send tool_id raw st out]
      by (simp add: anthropic_tool_stream_update.simps [of send tool_id raw st out] result_def)
  qed
qed

lemma tool_part_keeps:
  assumes "text_blocks n st out" "anthropic_tool_part send tool_id raw st out = r" "as_mode st = ANTH_TOOL"
  shows "text_blocks n (fst (snd r)) (snd (snd r))"
proof -
  obtain b st1 out1 where u: "anthropic_tool_stream_update send tool_id raw st out = (b, st1, out1)" by (metis prod_cases3)
  have i: "blocks_inv n st1 out1" using update_keeps [OF _ u] assms(1) by (simp add: text_blocks_def)
  have m: "as_mode st1 = ANTH_TOOL" using update_frame [of send tool_id raw st out] u assms(3) by (simp add: frame_def)
  show ?thesis unfolding assms(2) [symmetric] using i m by (simp add: anthropic_tool_part_def u text_blocks_def blocks_inv_def)
qed

lemma stream_update_keeps:
  assumes "text_blocks n st out" "anthropic_sse_stream_update send tool_id has_tools raw final st out = (b, st', out')"
  shows "text_blocks n st' out'"
proof (cases raw)
  case (Some whole)
  let ?parts = "then_part (if as_mode st = ANTH_THINKING then anthropic_thinking_part send has_tools whole final st out else Go (True, st, out))
    (\<lambda>st out. if as_mode st = ANTH_TEXT
       then then_part (anthropic_guard_part send has_tools whole final st out) (anthropic_text_part send has_tools whole final) else Go (True, st, out))"
  have p: "after_all (text_blocks n) ?parts"
  proof (cases "as_mode st = ANTH_TOOL")
    case True
    then show ?thesis using assms(1) by (simp add: then_part_def)
  next
    case False
    then have n: "no_call n st out" using assms(1) by (simp add: no_call_def)
    have "after_all (no_call n) (if as_mode st = ANTH_THINKING then anthropic_thinking_part send has_tools whole final st out else Go (True, st, out))"
      using n by (simp add: thinking_part_keeps)
    then show ?thesis
    proof (rule then_part_all)
      fix st1 out1 assume "no_call n st1 out1"
      then show "after_all (text_blocks n) (if as_mode st1 = ANTH_TEXT
        then then_part (anthropic_guard_part send has_tools whole final st1 out1) (anthropic_text_part send has_tools whole final) else Go (True, st1, out1))"
        using then_part_all [OF guard_part_keeps text_part_keeps no_call_blocks] by (simp add: no_call_blocks)
    qed (rule no_call_blocks)
  qed
  show ?thesis
  proof (cases "as_active st")
    case True
    then show ?thesis
    proof (cases ?parts)
      case (Stop r)
      then have "r = (b, st', out')" using assms(2) Some True by simp
      then show ?thesis using p Stop by simp
    next
      case (Go r)
      obtain b1 st1 out1 where r: "r = (b1, st1, out1)" by (metis prod_cases3)
      have t: "text_blocks n st1 out1" using p Go r by simp
      have "(b, st', out') = (if as_mode st1 = ANTH_TOOL then anthropic_tool_part send tool_id whole st1 out1 else (True, st1, out1))"
        using assms(2) Some True Go r by simp
      then show ?thesis using t tool_part_keeps [OF t, of send tool_id whole "(b, st', out')"] by (metis fst_conv snd_conv)
    qed
  qed (use assms Some in simp)
qed (use assms in simp)

section \<open>The same reply as the OpenAI stream\<close>

fun mode_of :: "anthropic_stream_mode \<Rightarrow> openai_stream_mode" where
  "mode_of ANTH_THINKING = STREAM_THINKING"
| "mode_of ANTH_TEXT = STREAM_TEXT"
| "mode_of ANTH_TOOL = STREAM_TOOL"
| "mode_of ANTH_SUPPRESS = STREAM_SUPPRESS"

definition reply_base :: "openai_stream \<Rightarrow> anthropic_stream \<Rightarrow> bool" where
  "reply_base os st \<longleftrightarrow>
     os_mode os = mode_of (as_mode st) \<and> os_emit_pos os = as_emit_pos st \<and> os_active os = as_active st
     \<and> os_checked_think_prefix os = as_checked_think_prefix st \<and> os_guard_second_reasoning os = as_guard_second_reasoning st"

text \<open>Before a call the two streams have sent the same text, whatever index the call will have.\<close>

definition reply_same :: "openai_stream \<Rightarrow> tool_event list \<Rightarrow> anthropic_stream \<Rightarrow> block_event list \<Rightarrow> bool" where
  "reply_same os oo st out \<longleftrightarrow>
     reply_base os st
     \<and> (case as_mode st of
          ANTH_THINKING \<Rightarrow> (\<forall>n. deltas n out = oo) \<and> as_open_block st \<in> {BLOCK_NONE, BLOCK_THINKING}
        | ANTH_TEXT \<Rightarrow> (\<forall>n. deltas n out = oo) \<and> as_open_block st \<in> {BLOCK_NONE, if as_guard_second_reasoning st then BLOCK_NONE else BLOCK_TEXT}
        | ANTH_TOOL \<Rightarrow> (\<exists>n. deltas n out = oo \<and> blocks_match n (os_tool os) st)
        | ANTH_SUPPRESS \<Rightarrow> (\<exists>n. deltas n out = oo))"

definition same_outcome where
  "same_outcome = rel_outcome (\<lambda>r q. fst r = fst q \<and> reply_same (fst (snd r)) (snd (snd r)) (fst (snd q)) (snd (snd q)))"

lemma same_outcome_simps [simp]:
  "same_outcome (Go (b, os, oo)) (Go (c, st, out)) \<longleftrightarrow> b = c \<and> reply_same os oo st out"
  "same_outcome (Stop (b, os, oo)) (Stop (c, st, out)) \<longleftrightarrow> b = c \<and> reply_same os oo st out"
  by (simp_all add: same_outcome_def)

definition shown_piece :: "anthropic_block_type \<Rightarrow> string \<Rightarrow> nat \<Rightarrow> nat \<Rightarrow> tool_event list" where
  "shown_piece ty raw pos limit =
     (if pos < limit \<and> slice raw pos limit \<noteq> []
      then [Text_delta (if ty = BLOCK_THINKING then ''reasoning_content'' else ''content'') (slice raw pos limit)] else [])"

definition text_state :: "anthropic_stream \<Rightarrow> _" where
  "text_state st = (as_mode st, as_emit_pos st, as_active st, as_checked_think_prefix st, as_guard_second_reasoning st, as_tool st)"

lemma show_facts:
  assumes "as_open_block st \<in> {BLOCK_NONE, ty}" "ty \<in> {BLOCK_THINKING, BLOCK_TEXT}" "anthropic_show all_sent ty raw pos limit st out = r"
  shows "fst r \<and> as_open_block (fst (snd r)) \<in> {BLOCK_NONE, ty} \<and> text_state (fst (snd r)) = text_state st
    \<and> (\<forall>n. deltas n (snd (snd r)) = deltas n out @ shown_piece ty raw pos limit)"
  unfolding assms(3) [symmetric] using assms(1,2)
  by (auto simp: anthropic_show_def anthropic_sse_open_block_def anthropic_sse_delta_live_def shown_piece_def text_state_def)

lemma close_facts:
  assumes "anthropic_sse_close_block_live all_sent st out = r"
  shows "fst r \<and> as_open_block (fst (snd r)) = BLOCK_NONE \<and> text_state (fst (snd r)) = text_state st \<and> (\<forall>n. deltas n (snd (snd r)) = deltas n out)"
  unfolding assms [symmetric] by (simp add: anthropic_sse_close_block_live_def text_state_def)

lemma show_sent:
  assumes "as_open_block st \<in> {BLOCK_NONE, ty}" "ty \<in> {BLOCK_THINKING, BLOCK_TEXT}"
  obtains st' out' where "anthropic_show all_sent ty raw pos limit st out = (True, st', out')"
    "as_open_block st' \<in> {BLOCK_NONE, ty}" "text_state st' = text_state st" "\<forall>n. deltas n out' = deltas n out @ shown_piece ty raw pos limit"
  using show_facts [OF assms refl, of raw pos limit out] by (cases "anthropic_show all_sent ty raw pos limit st out") simp

lemma close_sent:
  obtains st' out' where "anthropic_sse_close_block_live all_sent st out = (True, st', out')"
    "as_open_block st' = BLOCK_NONE" "text_state st' = text_state st" "\<forall>n. deltas n out' = deltas n out"
  using close_facts [OF refl, of st out] by (cases "anthropic_sse_close_block_live all_sent st out") simp

lemma delta_piece:
  "(if pos < limit then sse_chat_delta_n all_sent ''reasoning_content'' (slice raw pos limit) oo else (True, oo)) = (True, oo @ shown_piece BLOCK_THINKING raw pos limit)"
  "(if pos < limit then sse_chat_delta_n all_sent ''content'' (slice raw pos limit) oo else (True, oo)) = (True, oo @ shown_piece BLOCK_TEXT raw pos limit)"
  by (simp_all add: delta_sent shown_piece_def)

lemma same_thinking:
  assumes "reply_same os oo st out" "as_mode st = ANTH_THINKING"
  shows "same_outcome (openai_thinking_part all_sent has_tools raw False os oo) (anthropic_thinking_part all_sent has_tools raw False st out)"
proof (cases "\<not> as_checked_think_prefix st \<and> length raw < 7 \<and> take (length raw) ''<think>'' = raw")
  case True
  then show ?thesis using assms by (simp add: openai_thinking_part_def anthropic_thinking_part_def reply_same_def reply_base_def)
next
  case False
  define st1 where "st1 = (if as_checked_think_prefix st then st
    else st\<lparr>as_emit_pos := if prefix ''<think>'' raw then 7 else as_emit_pos st, as_checked_think_prefix := True\<rparr>)"
  define os1 where "os1 = (if os_checked_think_prefix os then os
    else os\<lparr>os_emit_pos := if prefix ''<think>'' raw then 7 else os_emit_pos os, os_checked_think_prefix := True\<rparr>)"
  have s1: "reply_base os1 st1" "as_mode st1 = ANTH_THINKING" "as_open_block st1 \<in> {BLOCK_NONE, BLOCK_THINKING}" "\<forall>n. deltas n out = oo"
    using assms by (auto simp: reply_same_def reply_base_def st1_def os1_def)
  define pos where "pos = as_emit_pos st1"
  define limit where "limit = thinking_limit has_tools raw pos False"
  have o: "os_emit_pos os1 = pos" using s1(1) by (simp add: reply_base_def pos_def)
  obtain st2 out2 where s2: "anthropic_show all_sent BLOCK_THINKING raw pos limit st1 out = (True, st2, out2)"
    "as_open_block st2 \<in> {BLOCK_NONE, BLOCK_THINKING}" "text_state st2 = text_state st1" "\<forall>n. deltas n out2 = deltas n out @ shown_piece BLOCK_THINKING raw pos limit"
    using show_sent [OF s1(3), of raw pos limit out] by auto
  define st3 where "st3 = (if pos < limit then st2\<lparr>as_emit_pos := limit\<rparr> else st2)"
  define os3 where "os3 = (if pos < limit then os1\<lparr>os_sent_reasoning := True, os_emit_pos := limit\<rparr> else os1)"
  define oo3 where "oo3 = oo @ shown_piece BLOCK_THINKING raw pos limit"
  have s3: "reply_base os3 st3" "as_mode st3 = ANTH_THINKING" "as_open_block st3 \<in> {BLOCK_NONE, BLOCK_THINKING}" "\<forall>n. deltas n out2 = oo3"
    using s1 s2(2-4) by (auto simp: reply_base_def text_state_def st3_def os3_def oo3_def)
  obtain st4 out4 where s4: "anthropic_sse_close_block_live all_sent st3 out2 = (True, st4, out4)"
    "as_open_block st4 = BLOCK_NONE" "text_state st4 = text_state st3" "\<forall>n. deltas n out4 = deltas n out2" by (rule close_sent)
  have g: "\<not> (\<not> os_checked_think_prefix os \<and> length raw < 7 \<and> take (length raw) ''<think>'' = raw \<and> \<not> False)"
    "\<not> (\<not> as_checked_think_prefix st \<and> length raw < 7 \<and> take (length raw) ''<think>'' = raw \<and> \<not> False)"
    using False assms(1) by (auto simp: reply_same_def reply_base_def)
  show ?thesis
    unfolding openai_thinking_part_def anthropic_thinking_part_def if_not_P [OF g(1)] if_not_P [OF g(2)] st1_def [symmetric] os1_def [symmetric]
      Let_def pos_def [symmetric] o limit_def [symmetric] delta_piece s2(1) when_ok_def prod.case fst_conv snd_conv if_True not_True_eq_False if_False
    unfolding os3_def [symmetric] st3_def [symmetric] oo3_def [symmetric] s4(1) fst_conv snd_conv if_True
    using s3 s4(2-4) by (simp add: reply_same_def reply_base_def text_state_def split: option.split)
qed

lemma same_guard:
  assumes "reply_same os oo st out" "as_mode st = ANTH_TEXT"
  shows "same_outcome (openai_guard_part all_sent has_tools raw False os oo) (anthropic_guard_part all_sent has_tools raw False st out)
    \<and> (\<forall>r. anthropic_guard_part all_sent has_tools raw False st out = Go r \<longrightarrow> as_mode (fst (snd r)) = ANTH_TEXT \<and> \<not> as_guard_second_reasoning (fst (snd r)))"
proof (cases "as_guard_second_reasoning st")
  case False
  then show ?thesis using assms by (simp add: openai_guard_part_def anthropic_guard_part_def reply_same_def reply_base_def)
next
  case True
  define pos where "pos = as_emit_pos st"
  have b: "reply_base os st" "os_emit_pos os = pos" "os_guard_second_reasoning os" "as_open_block st \<in> {BLOCK_NONE, BLOCK_THINKING}" "\<forall>n. deltas n out = oo"
    using assms True by (simp_all add: reply_same_def reply_base_def pos_def)
  show ?thesis
  proof (cases "case think_close raw pos of None \<Rightarrow> None | Some c \<Rightarrow> if (case tool_ahead has_tools raw pos of None \<Rightarrow> True | Some t \<Rightarrow> c < t) then Some c else None")
    case None
    then show ?thesis using assms b True
      by (simp add: openai_guard_part_def anthropic_guard_part_def Let_def pos_def [symmetric] reply_same_def reply_base_def)
  next
    case (Some c)
    obtain st2 out2 where s2: "anthropic_show all_sent BLOCK_THINKING raw pos (pos + c) st out = (True, st2, out2)"
      "as_open_block st2 \<in> {BLOCK_NONE, BLOCK_THINKING}" "text_state st2 = text_state st" "\<forall>n. deltas n out2 = deltas n out @ shown_piece BLOCK_THINKING raw pos (pos + c)"
      using show_sent [OF b(4), of raw pos "pos + c" out] by auto
    obtain st4 out4 where s4: "anthropic_sse_close_block_live all_sent st2 out2 = (True, st4, out4)"
      "as_open_block st4 = BLOCK_NONE" "text_state st4 = text_state st2" "\<forall>n. deltas n out4 = deltas n out2" by (rule close_sent)
    show ?thesis
      unfolding openai_guard_part_def anthropic_guard_part_def Let_def pos_def [symmetric] b(2) Some option.case delta_piece s2(1) when_ok_def
        prod.case fst_conv snd_conv if_True not_True_eq_False if_False s4(1)
      using b True assms(2) s2(3,4) s4(2-4) by (simp add: reply_same_def reply_base_def text_state_def)
  qed
qed

lemma same_text:
  assumes "reply_same os oo st out" "as_mode st = ANTH_TEXT" "\<not> as_guard_second_reasoning st"
  shows "same_outcome (openai_text_part all_sent has_tools raw False os oo) (anthropic_text_part all_sent has_tools raw False st out)"
proof -
  define pos where "pos = as_emit_pos st"
  define limit where "limit = text_stream_safe_limit raw pos has_tools False"
  have b: "reply_base os st" "os_emit_pos os = pos" "as_open_block st \<in> {BLOCK_NONE, BLOCK_TEXT}" "\<forall>n. deltas n out = oo"
    using assms by (simp_all add: reply_same_def reply_base_def pos_def)
  obtain st2 out2 where s2: "anthropic_show all_sent BLOCK_TEXT raw pos limit st out = (True, st2, out2)"
    "as_open_block st2 \<in> {BLOCK_NONE, BLOCK_TEXT}" "text_state st2 = text_state st" "\<forall>n. deltas n out2 = deltas n out @ shown_piece BLOCK_TEXT raw pos limit"
    using show_sent [OF b(3), of raw pos limit out] by auto
  define st3 where "st3 = (if pos < limit then st2\<lparr>as_emit_pos := limit\<rparr> else st2)"
  define os3 where "os3 = (if pos < limit then os\<lparr>os_sent_content := True, os_emit_pos := limit\<rparr> else os)"
  define oo3 where "oo3 = oo @ shown_piece BLOCK_TEXT raw pos limit"
  have s3: "reply_base os3 st3" "as_mode st3 = ANTH_TEXT" "as_open_block st3 \<in> {BLOCK_NONE, BLOCK_TEXT}" "\<forall>n. deltas n out2 = oo3"
    "\<not> as_guard_second_reasoning st3" using b s2(2-4) assms(2,3) by (auto simp: reply_base_def text_state_def st3_def os3_def oo3_def)
  obtain st4 out4 where s4: "anthropic_sse_close_block_live all_sent st3 out2 = (True, st4, out4)"
    "as_open_block st4 = BLOCK_NONE" "text_state st4 = text_state st3" "\<forall>n. deltas n out4 = deltas n out2" by (rule close_sent)
  show ?thesis
  proof (cases "tool_ahead has_tools raw pos")
    case None
    show ?thesis
      unfolding openai_text_part_def anthropic_text_part_def Let_def pos_def [symmetric] b(2) limit_def [symmetric] delta_piece s2(1) when_ok_def
        prod.case fst_conv snd_conv if_True not_True_eq_False if_False None option.case
      unfolding os3_def [symmetric] st3_def [symmetric] oo3_def [symmetric]
      using s3 by (simp add: reply_same_def reply_base_def)
  next
    case (Some t)
    obtain started ts where i: "openai_tool_stream_init raw (pos + t) = (started, ts)" by fastforce
    then have j: "anthropic_tool_stream_init raw (pos + t) = (started, if started then ts else ts\<lparr>ts_pos := 0\<rparr>)"
      using anthropic_init_same [of raw "pos + t"] by simp
    have ts: "started \<Longrightarrow> ts_index ts = 0 \<and> ts_state ts = BETWEEN_INVOKES" using i
      by (auto simp: openai_tool_stream_init_def openai_tool_stream_fail_def Let_def split: option.splits)
    have m: "started \<Longrightarrow> blocks_match (as_next_index st4) ts (st4\<lparr>as_emit_pos := pos + t, as_tool := ts, as_mode := ANTH_TOOL\<rparr>)"
      using ts s4(2) by (simp add: blocks_match_def)
    show ?thesis
      unfolding openai_text_part_def anthropic_text_part_def Let_def pos_def [symmetric] b(2) limit_def [symmetric] delta_piece s2(1) when_ok_def
        prod.case fst_conv snd_conv if_True not_True_eq_False if_False Some option.case i j
      unfolding os3_def [symmetric] st3_def [symmetric] oo3_def [symmetric] s4(1) fst_conv snd_conv if_True
      using s3 s4 m by (cases started) (auto simp: reply_same_def reply_base_def text_state_def)
  qed
qed

lemma same_tool:
  assumes "reply_same os oo st out" "as_mode st = ANTH_TOOL"
    "openai_tool_part all_sent tool_id raw os oo = (b, os', oo')" "anthropic_tool_part all_sent tool_id raw st out = (c, st', out')"
  shows "c = b \<and> reply_same os' oo' st' out'"
proof -
  obtain n where n: "deltas n out = oo" "blocks_match n (os_tool os) st" "reply_base os st" using assms(1,2) by (auto simp: reply_same_def)
  obtain b1 ts1 oo1 where u: "openai_tool_stream_update all_sent tool_id raw (os_tool os) oo = (b1, ts1, oo1)" by (metis prod_cases3)
  obtain c1 st1 out1 where v: "anthropic_tool_stream_update all_sent tool_id raw st out = (c1, st1, out1)" by (metis prod_cases3)
  have "streams_match n (True, os_tool os, oo) (True, st, out)" using n by (simp add: streams_match_def)
  then have "streams_match n (openai_run tool_id raw (True, os_tool os, oo)) (anthropic_run tool_id raw (True, st, out))" by (rule two_streams.match_run)
  then have m: "c1 = b1" "oo1 = deltas n out1" "blocks_match n ts1 st1" by (simp_all add: openai_run_def anthropic_run_def u v streams_match_def)
  have f: "frame st1 = frame st" using update_frame [of all_sent tool_id raw st out] v by simp
  have t: "as_tool st1 = ts1" using m(3) by (simp add: blocks_match_def)
  show ?thesis
  proof (cases b1)
    case False
    then have "(b, os', oo') = (False, os\<lparr>os_tool := ts1\<rparr>, oo1)" "(c, st', out') = (False, st1, out1)"
      using assms(3,4) m(1) by (simp_all add: openai_tool_part_def anthropic_tool_part_def u v)
    then show ?thesis using m n(3) f assms(2) by (auto simp: reply_same_def reply_base_def frame_def)
  next
    case True
    then have "(b, os', oo') = (True, if ts_active ts1 then os\<lparr>os_tool := ts1\<rparr> else os\<lparr>os_tool := ts1, os_mode := STREAM_SUPPRESS\<rparr>, oo1)"
      "(c, st', out') = (True, if ts_active ts1 then st1 else st1\<lparr>as_mode := ANTH_SUPPRESS\<rparr>, out1)"
      using assms(3,4) m(1) t True by (simp_all add: openai_tool_part_def anthropic_tool_part_def u v Let_def)
    then show ?thesis using m n(3) f assms(2) by (auto simp: reply_same_def reply_base_def frame_def)
  qed
qed

lemma same_outcome_cases:
  assumes "same_outcome r q"
  obtains b os oo st out where "r = Go (b, os, oo)" "q = Go (b, st, out)" "reply_same os oo st out"
  | b os oo st out where "r = Stop (b, os, oo)" "q = Stop (b, st, out)" "reply_same os oo st out"
proof (cases r)
  case (Go x)
  then obtain y where "q = Go y" using assms by (cases q) (auto simp: same_outcome_def)
  then show thesis using that(1) assms Go by (cases x; cases y) simp
next
  case (Stop x)
  then obtain y where "q = Stop y" using assms by (cases q) (auto simp: same_outcome_def)
  then show thesis using that(2) assms Stop by (cases x; cases y) simp
qed

lemma then_part_same:
  assumes "same_outcome r q" "\<And>os oo b st out. reply_same os oo st out \<Longrightarrow> q = Go (b, st, out) \<Longrightarrow> same_outcome (f os oo) (g st out)"
  shows "same_outcome (then_part r f) (then_part q g)"
  using assms(1)
proof (cases rule: same_outcome_cases)
  case (1 b os oo st out)
  then show ?thesis using assms(2) [OF 1(3,2)] by (simp add: then_part_def)
next
  case (2 b os oo st out)
  then show ?thesis by (simp add: then_part_def)
qed

lemma same_text_mode:
  assumes "reply_same os oo st out" "as_mode st = ANTH_TEXT"
  shows "same_outcome (then_part (openai_guard_part all_sent has_tools raw False os oo) (openai_text_part all_sent has_tools raw False))
    (then_part (anthropic_guard_part all_sent has_tools raw False st out) (anthropic_text_part all_sent has_tools raw False))"
proof (rule then_part_same)
  show "same_outcome (openai_guard_part all_sent has_tools raw False os oo) (anthropic_guard_part all_sent has_tools raw False st out)"
    using same_guard [OF assms] by blast
qed (use same_guard [OF assms] same_text in force)

lemma mode_of_inj: "mode_of m = mode_of m' \<longleftrightarrow> m = m'"
  by (cases m; cases m') simp_all

lemma same_update:
  assumes "reply_same os oo st out"
    "openai_sse_stream_update all_sent tool_id has_tools raw False os oo = (b, os', oo')"
    "anthropic_sse_stream_update all_sent tool_id has_tools raw False st out = (c, st', out')"
  shows "c = b \<and> reply_same os' oo' st' out'"
proof (cases raw)
  case (Some whole)
  let ?r = "then_part (if os_mode os = STREAM_THINKING then openai_thinking_part all_sent has_tools whole False os oo else Go (True, os, oo))
      (\<lambda>st out. if os_mode st = STREAM_TEXT
         then then_part (openai_guard_part all_sent has_tools whole False st out) (openai_text_part all_sent has_tools whole False) else Go (True, st, out))"
  let ?q = "then_part (if as_mode st = ANTH_THINKING then anthropic_thinking_part all_sent has_tools whole False st out else Go (True, st, out))
      (\<lambda>st out. if as_mode st = ANTH_TEXT
         then then_part (anthropic_guard_part all_sent has_tools whole False st out) (anthropic_text_part all_sent has_tools whole False) else Go (True, st, out))"
  have mode: "os_mode os1 = STREAM_THINKING \<longleftrightarrow> as_mode st1 = ANTH_THINKING" "os_mode os1 = STREAM_TEXT \<longleftrightarrow> as_mode st1 = ANTH_TEXT"
    "os_mode os1 = STREAM_TOOL \<longleftrightarrow> as_mode st1 = ANTH_TOOL" "os_active os1 = as_active st1" if "reply_same os1 oo1 st1 out1" for os1 oo1 st1 out1
    using that by (cases "as_mode st1"; simp add: reply_same_def reply_base_def)+
  have "same_outcome (if os_mode os = STREAM_THINKING then openai_thinking_part all_sent has_tools whole False os oo else Go (True, os, oo))
    (if as_mode st = ANTH_THINKING then anthropic_thinking_part all_sent has_tools whole False st out else Go (True, st, out))"
    using same_thinking [OF assms(1)] mode [OF assms(1)] assms(1) by simp
  then have m: "same_outcome ?r ?q"
  proof (rule then_part_same)
    fix os1 oo1 b1 st1 out1 assume r: "reply_same os1 oo1 st1 out1"
    show "same_outcome (if os_mode os1 = STREAM_TEXT
         then then_part (openai_guard_part all_sent has_tools whole False os1 oo1) (openai_text_part all_sent has_tools whole False) else Go (True, os1, oo1))
      (if as_mode st1 = ANTH_TEXT
         then then_part (anthropic_guard_part all_sent has_tools whole False st1 out1) (anthropic_text_part all_sent has_tools whole False) else Go (True, st1, out1))"
      using same_text_mode [OF r] mode [OF r] r by simp
  qed
  show ?thesis
  proof (cases "as_active st")
    case False
    then show ?thesis using assms Some mode [OF assms(1)] by simp
  next
    case True
    then have a: "os_active os" using mode [OF assms(1)] by simp
    from m show ?thesis
    proof (cases rule: same_outcome_cases)
      case (1 b1 os1 oo1 st1 out1)
      have o: "(b, os', oo') = (if os_mode os1 = STREAM_TOOL then openai_tool_part all_sent tool_id whole os1 oo1 else (True, os1, oo1))"
        "(c, st', out') = (if as_mode st1 = ANTH_TOOL then anthropic_tool_part all_sent tool_id whole st1 out1 else (True, st1, out1))"
        using assms(2,3) Some True a 1(1,2) by simp_all
      show ?thesis
      proof (cases "as_mode st1 = ANTH_TOOL")
        case t: True
        have "openai_tool_part all_sent tool_id whole os1 oo1 = (b, os', oo')" "anthropic_tool_part all_sent tool_id whole st1 out1 = (c, st', out')"
          using o t mode(3) [OF 1(3)] by simp_all
        then show ?thesis by (rule same_tool [OF 1(3) t])
      next
        case False
        then show ?thesis using o mode(3) [OF 1(3)] 1(3) by simp
      qed
    next
      case (2 b1 os1 oo1 st1 out1)
      then show ?thesis using assms(2,3) Some True a by simp
    qed
  qed
qed (use assms in simp)

text \<open>One update for every piece of the text, on each of the two streams.\<close>

fun openai_updates :: "(nat \<Rightarrow> string) \<Rightarrow> bool \<Rightarrow> string \<Rightarrow> string list \<Rightarrow> openai_stream \<times> tool_event list \<Rightarrow> openai_stream \<times> tool_event list" where
  "openai_updates tool_id has_tools raw [] s = s"
| "openai_updates tool_id has_tools raw (c # cs) s =
     openai_updates tool_id has_tools (raw @ c) cs (snd (openai_sse_stream_update all_sent tool_id has_tools (Some (raw @ c)) False (fst s) (snd s)))"

fun anthropic_updates ::
    "(nat \<Rightarrow> string) \<Rightarrow> bool \<Rightarrow> string \<Rightarrow> string list \<Rightarrow> anthropic_stream \<times> block_event list \<Rightarrow> anthropic_stream \<times> block_event list" where
  "anthropic_updates tool_id has_tools raw [] s = s"
| "anthropic_updates tool_id has_tools raw (c # cs) s =
     anthropic_updates tool_id has_tools (raw @ c) cs (snd (anthropic_sse_stream_update all_sent tool_id has_tools (Some (raw @ c)) False (fst s) (snd s)))"

lemma same_updates:
  "reply_same (fst s) (snd s) (fst u) (snd u) \<Longrightarrow>
    reply_same (fst (openai_updates tool_id has_tools raw cs s)) (snd (openai_updates tool_id has_tools raw cs s))
      (fst (anthropic_updates tool_id has_tools raw cs u)) (snd (anthropic_updates tool_id has_tools raw cs u))"
proof (induction cs arbitrary: raw s u)
  case (Cons c cs)
  obtain b os oo where o: "openai_sse_stream_update all_sent tool_id has_tools (Some (raw @ c)) False (fst s) (snd s) = (b, os, oo)" by (metis prod_cases3)
  obtain d st out where a: "anthropic_sse_stream_update all_sent tool_id has_tools (Some (raw @ c)) False (fst u) (snd u) = (d, st, out)" by (metis prod_cases3)
  have "reply_same os oo st out" using same_update [OF Cons.prems o a] by blast
  then show ?case unfolding openai_updates.simps anthropic_updates.simps o a snd_conv by (intro Cons.IH) simp
qed simp

lemma start_same: "reply_same (openai_stream_start think has_tools) [] (anthropic_stream_start True think has_tools) []"
  by (simp add: reply_same_def reply_base_def openai_stream_start_def anthropic_stream_start_def)

lemma same_deltas: "reply_same os oo st out \<Longrightarrow> \<exists>n. deltas n out = oo"
  by (auto simp: reply_same_def split: anthropic_stream_mode.splits)


text \<open>
  Any sequence of calls of the update: each with the text it is given and whether it is the last. The socket may fail
  at any event, and the server may even go on after a failure.
\<close>

fun anthropic_calls ::
    "sender \<Rightarrow> (nat \<Rightarrow> string) \<Rightarrow> bool \<Rightarrow> (string option \<times> bool) list \<Rightarrow> anthropic_stream \<times> block_event list \<Rightarrow> anthropic_stream \<times> block_event list" where
  "anthropic_calls send tool_id has_tools [] s = s"
| "anthropic_calls send tool_id has_tools ((raw, final) # cs) s =
     anthropic_calls send tool_id has_tools cs (snd (anthropic_sse_stream_update send tool_id has_tools raw final (fst s) (snd s)))"

lemma calls_keep:
  "text_blocks n (fst s) (snd s) \<Longrightarrow>
    text_blocks n (fst (anthropic_calls send tool_id has_tools cs s)) (snd (anthropic_calls send tool_id has_tools cs s))"
proof (induction send tool_id has_tools cs s rule: anthropic_calls.induct)
  case (2 send tool_id has_tools raw final cs s)
  obtain b st out where u: "anthropic_sse_stream_update send tool_id has_tools raw final (fst s) (snd s) = (b, st, out)" by (metis prod_cases3)
  show ?case using 2(1) [unfolded u] stream_update_keeps [OF 2(2) u] unfolding anthropic_calls.simps u by simp
qed simp

lemma start_blocks: "text_blocks 0 (anthropic_stream_start ok think has_tools) []"
  by (simp add: text_blocks_def blocks_inv_def anthropic_stream_start_def)

text \<open>
  C34: For every sequence of calls of the update on a stream that was started, whatever text
  each is given, final or not, and wherever the socket fails, the events that were accepted follow the block protocol: a
  block starts only where none is open and carries the next index, every piece, signature and end belongs to the open
  block and is of its kind. The stream knows the block that is open and its index.
\<close>

theorem anthropic_blocks_follow_protocol:
  "anthropic_calls send tool_id has_tools cs (anthropic_stream_start ok think has_tools, []) = (st, out) \<Longrightarrow>
    blocks_after 0 out = Some (as_next_index st, as_open_block st)"
  using calls_keep [of 0 "(anthropic_stream_start ok think has_tools, [])"] start_blocks by (metis blocks_inv_def fst_conv snd_conv text_blocks_def)

definition sample_calls :: "(string option \<times> bool) list" where
  "sample_calls =
     [(Some ''Look: '', False), (Some ''Look: <tool_calls><invoke name=\"f\">'', False), (Some ''Look: <tool_calls><invoke name=\"f\"></invoke>'', True)]"

lemma anthropic_blocks_follow_protocol_witness:
  "blocks_after 0 (snd (anthropic_calls (\<lambda>n. n < 5) (\<lambda>_. ''id'') True sample_calls (anthropic_stream_start True False True, []))) = Some (1, BLOCK_TOOL)"
proof -
  let ?r = "anthropic_calls (\<lambda>n. n < 5) (\<lambda>_. ''id'') True sample_calls (anthropic_stream_start True False True, [])"
  have s: "as_next_index (fst ?r) = 1" "as_open_block (fst ?r) = BLOCK_TOOL" by code_simp+
  show ?thesis using anthropic_blocks_follow_protocol [of "\<lambda>n. n < 5" "\<lambda>_. ''id''" True sample_calls True False "fst ?r" "snd ?r"] s by simp
qed

end
