(* ===== verification/FinishAnthropic.thy ===== *)
theory FinishAnthropic
  imports LiveAnthropic ToolCalls
begin

text \<open>
  The end of an Anthropic reply (\<open>anthropic_sse_finish_live\<close> and the functions it calls, \<open>src/ds4_server.c\<close>): the last
  update, an empty text block after bare reasoning, the calls that were not streamed, and the closing events. When every
  block is closed by then, the message is well formed; a reply that is cut off inside of a call is not.
\<close>

section \<open>The end of an Anthropic reply\<close>

definition anthropic_stop_reason :: "string option \<Rightarrow> string" where
  "anthropic_stop_reason finish =
     (if finish = Some ''tool_calls'' then ''tool_use'' else if finish = Some ''length'' then ''max_tokens'' else ''end_turn'')"

definition tool_block_id :: "string \<Rightarrow> nat \<Rightarrow> tool_call \<Rightarrow> string" where
  "tool_block_id rid i tc =
     (case tc_id tc of Some tid \<Rightarrow> if tid \<noteq> [] then tid else take 127 (''toolu_'' @ rid @ ''_'' @ show_nat i)
      | None \<Rightarrow> take 127 (''toolu_'' @ rid @ ''_'' @ show_nat i))"

fun tool_blocks_from ::
    "sender \<Rightarrow> string \<Rightarrow> nat \<Rightarrow> tool_call list \<Rightarrow> anthropic_stream \<Rightarrow> block_event list \<Rightarrow> bool \<times> anthropic_stream \<times> block_event list" where
  "tool_blocks_from send rid i [] st out = (True, st, out)"
| "tool_blocks_from send rid i (tc # calls) st out =
     (let k = as_next_index st;
          (sent, out) = send_event send (Block_start k (tool_block_id rid i tc) (tc_name tc)) out
      in if \<not> sent then (False, st, out)
         else let (sent, out) = send_event send (Block_delta k (append_json_object_or_empty (tc_arguments tc))) out
           in if \<not> sent then (False, st, out)
              else let (sent, out) = send_event send (Block_stop k) out
                in if \<not> sent then (False, st, out)
                   else tool_blocks_from send rid (i + 1) calls (st\<lparr>as_next_index := k + 1\<rparr>) out)"

definition anthropic_sse_tool_blocks_live ::
    "sender \<Rightarrow> string \<Rightarrow> tool_calls option \<Rightarrow> anthropic_stream \<Rightarrow> block_event list \<Rightarrow> bool \<times> anthropic_stream \<times> block_event list" where
  "anthropic_sse_tool_blocks_live send rid calls st out =
     (case calls of None \<Rightarrow> (True, st, out)
      | Some tcs \<Rightarrow>
          (let already = (if ts_emitted_any (as_tool st) then ts_index (as_tool st) else 0);
               already = min already (length (tcs_v tcs))
           in tool_blocks_from send rid already (drop already (tcs_v tcs)) st out))"

definition anthropic_sse_stop_live :: "sender \<Rightarrow> string option \<Rightarrow> block_event list \<Rightarrow> bool \<times> block_event list" where
  "anthropic_sse_stop_live send finish out =
     (let (sent, out) = send_event send (Message_delta (anthropic_stop_reason finish)) out
      in if sent then send_event send Message_stop out else (False, out))"

definition no_calls :: "tool_calls option \<Rightarrow> bool" where
  "no_calls calls \<longleftrightarrow> (case calls of None \<Rightarrow> True | Some tcs \<Rightarrow> tcs_v tcs = [])"

definition anthropic_sse_finish_live ::
    "sender \<Rightarrow> (nat \<Rightarrow> string) \<Rightarrow> string \<Rightarrow> bool \<Rightarrow> string option \<Rightarrow> tool_calls option \<Rightarrow> string option \<Rightarrow> anthropic_stream \<Rightarrow> block_event list
      \<Rightarrow> bool \<times> anthropic_stream \<times> block_event list" where
  "anthropic_sse_finish_live send tool_id rid has_tools raw calls finish st out =
     (let (ok, st, out) = anthropic_sse_stream_update send tool_id has_tools raw True st out in
      if \<not> ok then (False, st, out)
      else
        let (ok, st, out) =
          (if as_sent_thinking st \<and> \<not> as_sent_text st \<and> no_calls calls
           then let (ok, st, out) = anthropic_sse_open_block send BLOCK_TEXT st out in
             if \<not> ok then (False, st, out) else anthropic_sse_close_block_live send st out
           else (True, st, out)) in
        if \<not> ok then (False, st, out)
        else
          let (ok, st, out) = anthropic_sse_tool_blocks_live send rid calls st out in
          if \<not> ok then (False, st, out)
          else let (ok, out) = anthropic_sse_stop_live send finish out in (ok, st, out))"

section \<open>Whether the message is closed\<close>

lemma blocks_after_more: "blocks_after n (out @ evs) = foldl (\<lambda>s ev. follow ev s) (blocks_after n out) evs"
  by (simp add: blocks_after_def)

lemma follow_broken: "foldl (\<lambda>s ev. follow ev s) None evs = None"
  by (induction evs) simp_all

definition tail_events :: "string \<Rightarrow> nat \<Rightarrow> nat \<Rightarrow> tool_call \<Rightarrow> block_event list" where
  "tail_events rid i k tc =
     [Block_start k (tool_block_id rid i tc) (tc_name tc), Block_delta k (append_json_object_or_empty (tc_arguments tc)), Block_stop k]"

lemma tool_blocks_cases:
  assumes "tool_blocks_from send rid i (tc # calls) st out = (b, st', out')"
  obtains (stopped) j where "\<not> b" "st' = st" "out' = out @ take j (tail_events rid i (as_next_index st) tc)"
  | (sent) "tool_blocks_from send rid (i + 1) calls (st\<lparr>as_next_index := as_next_index st + 1\<rparr>) (out @ tail_events rid i (as_next_index st) tc) = (b, st', out')"
proof -
  consider (all) "send (length out)" "send (Suc (length out))" "send (Suc (Suc (length out)))" | (none) "\<not> send (length out)"
    | (one) "send (length out)" "\<not> send (Suc (length out))" | (two) "send (length out)" "send (Suc (length out))" "\<not> send (Suc (Suc (length out)))"
    by blast
  then show thesis
  proof cases
    case all
    then show ?thesis using assms by (intro sent) (simp add: send_event_def tail_events_def Let_def)
  next
    case none
    then show ?thesis using assms by (intro stopped [of 0]) (auto simp: send_event_def tail_events_def Let_def)
  next
    case one
    then show ?thesis using assms by (intro stopped [of 1]) (auto simp: send_event_def tail_events_def Let_def)
  next
    case two
    then show ?thesis using assms by (intro stopped [of 2]) (auto simp: send_event_def tail_events_def Let_def)
  qed
qed

lemma tail_follow:
  assumes "blocks_after n out = Some (k, BLOCK_NONE)"
  shows "blocks_after n (out @ take j (tail_events rid i k tc)) \<noteq> None" "blocks_after n (out @ tail_events rid i k tc) = Some (k + 1, BLOCK_NONE)"
  using assms by (auto simp: blocks_after_more tail_events_def take_Cons split: nat.split)

lemma tool_blocks_follow:
  "tool_blocks_from send rid i calls st out = (b, st', out') \<Longrightarrow> blocks_after n out = Some (as_next_index st, BLOCK_NONE) \<Longrightarrow>
    blocks_after n out' \<noteq> None \<and> (b \<longrightarrow> blocks_after n out' = Some (as_next_index st + length calls, BLOCK_NONE))"
proof (induction calls arbitrary: i st out)
  case (Cons tc calls)
  from Cons.prems(1) show ?case
  proof (cases rule: tool_blocks_cases)
    case (stopped j)
    then show ?thesis using tail_follow(1) [OF Cons.prems(2)] by simp
  next
    case sent
    from Cons.IH [OF this] tail_follow(2) [OF Cons.prems(2)] show ?thesis by simp
  qed
qed simp

text \<open>A block that is still open breaks the protocol at the next event, whichever it is.\<close>

lemma tool_blocks_more: "tool_blocks_from send rid i calls st out = (b, st', out') \<Longrightarrow> \<exists>evs. out' = out @ evs"
proof (induction calls arbitrary: i st out)
  case (Cons tc calls)
  from Cons.prems show ?case
  proof (cases rule: tool_blocks_cases)
    case sent
    from Cons.IH [OF this] show ?thesis by auto
  qed auto
qed simp

lemma tool_blocks_broken:
  assumes "tool_blocks_from send rid i calls st out = (True, st', out')" "blocks_after n out = Some (k, ty)" "ty \<noteq> BLOCK_NONE"
  shows "out' = out \<or> blocks_after n out' = None"
proof (cases calls)
  case (Cons tc cs)
  from assms(1) [unfolded Cons] show ?thesis
  proof (cases rule: tool_blocks_cases)
    case sent
    obtain evs where "out' = (out @ tail_events rid i (as_next_index st) tc) @ evs" using tool_blocks_more [OF sent] by blast
    then show ?thesis using assms(2,3) by (simp add: blocks_after_more tail_events_def follow_broken)
  qed simp
qed (use assms(1) in simp)

lemma stop_live_sent: "anthropic_sse_stop_live send finish out = (True, out') \<Longrightarrow> out' = out @ [Message_delta (anthropic_stop_reason finish), Message_stop]"
  by (auto simp: anthropic_sse_stop_live_def send_event_def split: if_splits)

lemma stop_live_prefix: "anthropic_sse_stop_live send finish out = (b, out') \<Longrightarrow> \<exists>j. out' = out @ take j [Message_delta (anthropic_stop_reason finish), Message_stop]"
  by (auto simp: anthropic_sse_stop_live_def send_event_def split: if_splits intro: exI [of _ 0] exI [of _ 1] exI [of _ 2])

definition empty_text :: "sender \<Rightarrow> tool_calls option \<Rightarrow> anthropic_stream \<Rightarrow> block_event list \<Rightarrow> bool \<times> anthropic_stream \<times> block_event list" where
  "empty_text send calls st out =
     (if as_sent_thinking st \<and> \<not> as_sent_text st \<and> no_calls calls
      then let (ok, st, out) = anthropic_sse_open_block send BLOCK_TEXT st out in
        if \<not> ok then (False, st, out) else anthropic_sse_close_block_live send st out
      else (True, st, out))"

lemma finish_live_steps:
  "anthropic_sse_finish_live send tool_id rid has_tools raw calls finish st out =
     (let (ok, st, out) = anthropic_sse_stream_update send tool_id has_tools raw True st out in
      if \<not> ok then (False, st, out)
      else let (ok, st, out) = empty_text send calls st out in
        if \<not> ok then (False, st, out)
        else let (ok, st, out) = anthropic_sse_tool_blocks_live send rid calls st out in
          if \<not> ok then (False, st, out)
          else let (ok, out) = anthropic_sse_stop_live send finish out in (ok, st, out))"
  unfolding anthropic_sse_finish_live_def empty_text_def by (simp add: Let_def case_prod_beta)

lemma empty_text_closed:
  assumes "empty_text send calls st out = (b, st', out')" "blocks_after n out = Some (as_next_index st, BLOCK_NONE)" "as_open_block st = BLOCK_NONE"
  shows "blocks_after n out' \<noteq> None" "b \<Longrightarrow> blocks_after n out' = Some (as_next_index st', BLOCK_NONE)"
  using assms by (auto simp: empty_text_def anthropic_sse_open_block_def anthropic_sse_close_block_live_def send_event_def Let_def split: if_splits)

lemma empty_text_open:
  "empty_text send calls st out = (True, st', out') \<Longrightarrow> as_open_block st \<in> {BLOCK_THINKING, BLOCK_TOOL} \<Longrightarrow> st' = st \<and> out' = out"
  by (auto simp: empty_text_def anthropic_sse_open_block_def split: if_splits)

lemma tail_blocks_from:
  "\<exists>i cs. anthropic_sse_tool_blocks_live send rid calls st out = tool_blocks_from send rid i cs st out"
  by (cases calls) (force simp: anthropic_sse_tool_blocks_live_def Let_def intro: exI [of _ "[]"])+

text \<open>
  C35: The end of a reply, after any updates. When the last update leaves no block open, the message is
  well formed wherever the socket fails; if it does not fail, the message ends outside of blocks with its reason and the
  stop event. When the last update leaves reasoning or a call open, as a reply that is cut off inside of a call does,
  then the server cannot end the message: either it gives up although the socket works, or it writes an event inside the
  open block.
\<close>

theorem anthropic_finish_closes:
  assumes "anthropic_calls send tool_id has_tools cs (anthropic_stream_start True think has_tools, []) = (st, out)"
    "anthropic_sse_stream_update send tool_id has_tools raw True st out = (True, st1, out1)"
    "anthropic_sse_finish_live send tool_id rid has_tools raw calls finish st out = (ok, st', out')"
  shows "(as_open_block st1 = BLOCK_NONE \<longrightarrow> blocks_after 0 out' \<noteq> None \<and>
      (ok \<longrightarrow> (\<exists>n evs. blocks_after 0 out' = Some (n, BLOCK_NONE) \<and> out' = out1 @ evs @ [Message_delta (anthropic_stop_reason finish), Message_stop])))
    \<and> (as_open_block st1 \<in> {BLOCK_THINKING, BLOCK_TOOL} \<longrightarrow> ok \<longrightarrow> blocks_after 0 out' = None)"
proof -
  have "text_blocks 0 st out" using calls_keep [of 0 "(anthropic_stream_start True think has_tools, [])" send tool_id has_tools cs] start_blocks assms(1) by simp
  from stream_update_keeps [OF this assms(2)]
  have p1: "blocks_after 0 out1 = Some (as_next_index st1, as_open_block st1)" by (simp add: text_blocks_def blocks_inv_def)
  obtain b2 st2 out2 where e: "empty_text send calls st1 out1 = (b2, st2, out2)" by (metis prod_cases3)
  obtain i cs' where t: "anthropic_sse_tool_blocks_live send rid calls st2 out2 = tool_blocks_from send rid i cs' st2 out2"
    using tail_blocks_from by metis
  obtain b3 st3 out3 where l: "tool_blocks_from send rid i cs' st2 out2 = (b3, st3, out3)" by (metis prod_cases3)
  obtain b4 out4 where s: "anthropic_sse_stop_live send finish out3 = (b4, out4)" by (metis surj_pair)
  have r: "(ok, st', out') = (if \<not> b2 then (False, st2, out2) else if \<not> b3 then (False, st3, out3) else (b4, st3, out4))"
    using assms(3) by (cases b2; cases b3) (simp_all add: finish_live_steps assms(2) e t l s)
  have closed: "blocks_after 0 out' \<noteq> None \<and>
      (ok \<longrightarrow> (\<exists>n evs. blocks_after 0 out' = Some (n, BLOCK_NONE) \<and> out' = out1 @ evs @ [Message_delta (anthropic_stop_reason finish), Message_stop]))"
    if n: "as_open_block st1 = BLOCK_NONE"
  proof -
    note c2 = empty_text_closed [OF e, of 0]
    note c3 = tool_blocks_follow [OF l, of 0]
    obtain j where j: "out4 = out3 @ take j [Message_delta (anthropic_stop_reason finish), Message_stop]" using stop_live_prefix [OF s] by blast
    obtain e2 where e2: "out2 = out1 @ e2"
      using e by (auto simp: empty_text_def anthropic_sse_open_block_def anthropic_sse_close_block_live_def send_event_def Let_def split: if_splits)
    obtain e3 where e3: "out3 = out2 @ e3" using tool_blocks_more [OF l] by blast
    have "blocks_after 0 out4 \<noteq> None" if "blocks_after 0 out3 = Some (k, BLOCK_NONE)" for k
      using that j by (auto simp: blocks_after_more take_Cons split: nat.split)
    moreover have "blocks_after 0 out4 = Some (k, BLOCK_NONE)" if "blocks_after 0 out3 = Some (k, BLOCK_NONE)" b4 for k
      using that stop_live_sent [of send finish out3 out4] s by (simp add: blocks_after_more)
    moreover have "out4 = out1 @ (e2 @ e3) @ [Message_delta (anthropic_stop_reason finish), Message_stop]" if b4
      using that stop_live_sent [of send finish out3 out4] s e2 e3 by simp
    ultimately show ?thesis using r c2 c3 p1 n by (auto split: if_splits)
  qed
  have broken: "blocks_after 0 out' = None" if n: "as_open_block st1 \<in> {BLOCK_THINKING, BLOCK_TOOL}" and ok
  proof -
    have b: "b2" "b3" "b4" "out' = out4" using r \<open>ok\<close> by (auto split: if_splits)
    have 2: "out2 = out1" using empty_text_open [of send calls st1 out1] e n b(1) by simp
    have "out3 = out1 \<or> blocks_after 0 out3 = None" using tool_blocks_broken [of send rid i cs' st2 out2 st3 out3 0 "as_next_index st1" "as_open_block st1"] l b(2) p1 n 2 by auto
    moreover have "out4 = out3 @ [Message_delta (anthropic_stop_reason finish), Message_stop]" using stop_live_sent s b(3) by simp
    ultimately show ?thesis using p1 n b(4) by (auto simp: blocks_after_more)
  qed
  show ?thesis using closed broken by blast
qed


text \<open>
  A reply that was cut off inside of a call: the message ends inside of the call's block, and with reasoning before the
  call the server gives up without the closing events.
\<close>

definition cut_call :: string where "cut_call = ''<tool_calls><invoke name=\"f\">''"

lemma anthropic_finish_closes_witness:
  "\<exists>st out st1 out1 ok st' out'.
    anthropic_calls all_sent (\<lambda>_. ''id'') True [(Some cut_call, False)] (anthropic_stream_start True False True, []) = (st, out) \<and>
    anthropic_sse_stream_update all_sent (\<lambda>_. ''id'') True (Some cut_call) True st out = (True, st1, out1) \<and> as_open_block st1 = BLOCK_TOOL \<and>
    anthropic_sse_finish_live all_sent (\<lambda>_. ''id'') ''m'' True (Some cut_call) None (Some ''length'') st out = (ok, st', out') \<and> ok \<and> blocks_after 0 out' = None"
proof -
  let ?s = "anthropic_calls all_sent (\<lambda>_. ''id'') True [(Some cut_call, False)] (anthropic_stream_start True False True, [])"
  let ?u = "anthropic_sse_stream_update all_sent (\<lambda>_. ''id'') True (Some cut_call) True (fst ?s) (snd ?s)"
  let ?f = "anthropic_sse_finish_live all_sent (\<lambda>_. ''id'') ''m'' True (Some cut_call) None (Some ''length'') (fst ?s) (snd ?s)"
  have u: "fst ?u" "as_open_block (fst (snd ?u)) = BLOCK_TOOL" and f: "fst ?f" by code_simp+
  have s: "?s = (fst ?s, snd ?s)" and u': "?u = (True, fst (snd ?u), snd (snd ?u))" and f': "?f = (fst ?f, fst (snd ?f), snd (snd ?f))"
    using u(1) by (simp_all add: prod_eq_iff)
  have "blocks_after 0 (snd (snd ?f)) = None"
    using anthropic_finish_closes [OF s u' f'] u(2) f by blast
  then show ?thesis using s u' f' u(2) f by blast
qed

lemma cut_call_gives_up:
  "\<not> fst (anthropic_sse_finish_live all_sent (\<lambda>_. ''id'') ''m'' True (Some (''<think>x</think>'' @ cut_call)) None (Some ''length'')
      (fst (anthropic_calls all_sent (\<lambda>_. ''id'') True [(Some (''<think>x</think>'' @ cut_call), False)] (anthropic_stream_start True True True, [])))
      (snd (anthropic_calls all_sent (\<lambda>_. ''id'') True [(Some (''<think>x</think>'' @ cut_call), False)] (anthropic_stream_start True True True, []))))"
  by code_simp

end
