(* ===== verification/Spec2Isabelle.thy ===== *)
theory Spec2Isabelle
  imports SsdCache LayerPack PromptPrefix GpuArgs ReplicaRead EngramTable KvLoad ServerText ServerProgress ToolChunks ToolTracker ToolParseDsml ToolParseGlm FinishAnthropic
begin

text \<open>
  Verification development of the host-side logic of ds4 (argodrive), an inference engine for large
  language models on local hardware: SSD cache planning, layer packing, argument and prefix parsing,
  the replica reader.
\<close>

end
